(* ===== verification/Prelude.thy ===== *)
theory Prelude
  imports Main "HOL-Library.Word"
begin

text \<open>
  Shared vocabulary of the development: the machine types of the x86-64 C programs under
  \<^verbatim>\<open>trident-workloads\<close>, the result type of code that can fail, checked access to C
  arrays, counted loops, and the generic lemmas on lists and words the component
  theories rest on.
\<close>

unbundle bit_operations_syntax

section \<open>Machine types\<close>

type_synonym u8 = "8 word"
type_synonym u32 = "32 word"
type_synonym u64 = "64 word"

text \<open>Addresses are natural numbers, and 0 is \<^verbatim>\<open>NULL\<close>.\<close>

type_synonym addr = nat

abbreviation (input) NULL :: addr where
  "NULL \<equiv> 0"

section \<open>Results of fallible code\<close>

text \<open>
  Everything that stops a C program other than a return: a failed \<^verbatim>\<open>assert\<close> (the
  makefiles never define \<^verbatim>\<open>NDEBUG\<close>), an access outside an array or through a null or
  unmapped pointer (undefined behaviour), a call of \<^verbatim>\<open>exit\<close> with its status, a loop
  of the model that used up its fuel, and any other undefined operation (a division by zero, a
  shift by a negative amount).
\<close>

datatype cerror =
    Assertion
  | Out_of_bounds
  | Bad_pointer
  | Exit int
  | Out_of_fuel
  | Undefined

type_synonym 'a result = "cerror + 'a"

fun bindE :: "'a result \<Rightarrow> ('a \<Rightarrow> 'b result) \<Rightarrow> 'b result" where
  "bindE (Inl e) f = Inl e"
| "bindE (Inr x) f = f x"

definition assertE :: "bool \<Rightarrow> unit result" where
  "assertE b = (if b then Inr () else Inl Assertion)"

lemma assertE_simps [simp]:
  "b \<Longrightarrow> assertE b = Inr ()"
  "\<not> b \<Longrightarrow> assertE b = Inl Assertion"
  by (simp_all add: assertE_def)

lemma bindE_eq_Inr_iff: "bindE m f = Inr y \<longleftrightarrow> (\<exists>x. m = Inr x \<and> f x = Inr y)"
  by (cases m) auto

lemma bindE_eq_Inl_iff:
  "bindE m f = Inl e \<longleftrightarrow> m = Inl e \<or> (\<exists>x. m = Inr x \<and> f x = Inl e)"
  by (cases m) auto

lemma bindE_assoc: "bindE (bindE m f) g = bindE m (\<lambda>x. bindE (f x) g)"
  by (cases m) auto

lemma bindE_return [simp]: "bindE m Inr = m"
  by (cases m) auto

section \<open>Arrays\<close>

text \<open>
  A C array is the list of its cells. Reading and writing check the index, because C does
  not: an access outside the array is a failure of the program, never a value.
\<close>

definition arr_get :: "'a list \<Rightarrow> nat \<Rightarrow> 'a result" where
  "arr_get xs i = (if i < length xs then Inr (xs ! i) else Inl Out_of_bounds)"

definition arr_set :: "'a list \<Rightarrow> nat \<Rightarrow> 'a \<Rightarrow> 'a list result" where
  "arr_set xs i v = (if i < length xs then Inr (xs[i := v]) else Inl Out_of_bounds)"

lemma arr_get_in [simp]: "i < length xs \<Longrightarrow> arr_get xs i = Inr (xs ! i)"
  by (simp add: arr_get_def)

lemma arr_set_in [simp]: "i < length xs \<Longrightarrow> arr_set xs i v = Inr (xs[i := v])"
  by (simp add: arr_set_def)

lemma arr_get_out: "length xs \<le> i \<Longrightarrow> arr_get xs i = Inl Out_of_bounds"
  by (simp add: arr_get_def)

lemma arr_set_out: "length xs \<le> i \<Longrightarrow> arr_set xs i v = Inl Out_of_bounds"
  by (simp add: arr_set_def)

section \<open>Counted loops\<close>

text \<open>
  \<open>foldE f xs s\<close> runs the loop body \<open>f\<close> on the elements of \<open>xs\<close> in order
  and stops at the first failure; \<open>for_loop a n f\<close> is
  \<^verbatim>\<open>for (i = a; i < a + n; i++)\<close>.
\<close>

fun foldE :: "('a \<Rightarrow> 's \<Rightarrow> 's result) \<Rightarrow> 'a list \<Rightarrow> 's \<Rightarrow> 's result" where
  "foldE f [] s = Inr s"
| "foldE f (x # xs) s = bindE (f x s) (foldE f xs)"

lemma foldE_append: "foldE f (xs @ ys) s = bindE (foldE f xs s) (foldE f ys)"
proof (induction xs arbitrary: s)
  case (Cons x xs)
  then show ?case by (cases "f x s") simp_all
qed simp

lemma foldE_Inr:
  assumes "\<And>x s. x \<in> set xs \<Longrightarrow> P s \<Longrightarrow> f x s = Inr (g x s) \<and> P (g x s)" and "P s"
  shows "foldE f xs s = Inr (fold g xs s) \<and> P (fold g xs s)"
  using assms
proof (induction xs arbitrary: s)
  case Nil
  then show ?case by simp
next
  case (Cons x xs)
  have "f x s = Inr (g x s) \<and> P (g x s)" using Cons.prems by simp
  then show ?case using Cons.IH [of "g x s"] Cons.prems by simp
qed

text \<open>The Hoare rule of a counted loop: an invariant indexed by the loop variable.\<close>

lemma foldE_upt_inv:
  assumes "I a s" and "a \<le> b"
    and "\<And>i s. a \<le> i \<Longrightarrow> i < b \<Longrightarrow> I i s \<Longrightarrow> \<exists>s'. f i s = Inr s' \<and> I (Suc i) s'"
  shows "\<exists>s'. foldE f [a..<b] s = Inr s' \<and> I b s'"
  using assms(2,3)
proof (induction b rule: dec_induct)
  case base
  then show ?case using assms(1) by simp
next
  case (step n)
  then obtain s' where s': "foldE f [a..<n] s = Inr s'" "I n s'" by auto
  moreover obtain s'' where "f n s' = Inr s''" "I (Suc n) s''"
    using step.prems [of n s'] step.hyps s' by auto
  ultimately show ?case using step.hyps by (auto simp: foldE_append)
qed

lemma foldE_Nil: "foldE f [] = Inr"
  by (rule ext) simp

lemma foldE_map: "foldE f (map g xs) = foldE (\<lambda>x. f (g x)) xs"
proof
  fix s
  show "foldE f (map g xs) s = foldE (\<lambda>x. f (g x)) xs s"
  proof (induction xs arbitrary: s)
    case (Cons x xs)
    then show ?case by (cases "f (g x) s") simp_all
  qed simp
qed

text \<open>A loop that fills part of an array.\<close>

lemma foldE_fill:
  assumes "b \<le> length xs"
  shows "\<exists>ys. foldE (\<lambda>k t. arr_set t k v) [a..<b] xs = Inr ys \<and> length ys = length xs \<and>
    (\<forall>i. ys ! i = (if a \<le> i \<and> i < b then v else xs ! i))"
proof (cases "a \<le> b")
  case True
  define I where "I k ys \<longleftrightarrow> length ys = length xs \<and> (\<forall>i. ys ! i = (if a \<le> i \<and> i < k then v else xs ! i))" for k ys
  have "\<exists>ys. foldE (\<lambda>k t. arr_set t k v) [a..<b] xs = Inr ys \<and> I b ys"
  proof (rule foldE_upt_inv [OF _ True])
    show "I a xs" by (auto simp: I_def)
    fix i ys assume "a \<le> i" "i < b" "I i ys"
    then show "\<exists>ys'. arr_set ys i v = Inr ys' \<and> I (Suc i) ys'"
      using assms by (auto simp: I_def nth_list_update)
  qed
  then show ?thesis by (simp add: I_def)
qed auto

text \<open>Repeating a fallible step \<open>n\<close> times, and mapping a fallible function over a list.\<close>

fun iterE :: "nat \<Rightarrow> ('s \<Rightarrow> 's result) \<Rightarrow> 's \<Rightarrow> 's result" where
  "iterE 0 f s = Inr s"
| "iterE (Suc n) f s = bindE (f s) (iterE n f)"

lemma iterE_funpow:
  assumes "\<And>z. f (rp z) = Inr (rp (g z))"
  shows "iterE n f (rp z) = Inr (rp ((g ^^ n) z))"
proof (induction n arbitrary: z)
  case (Suc n)
  then show ?case using assms by (simp add: funpow_Suc_right del: funpow.simps)
qed simp

fun mapE :: "('a \<Rightarrow> 'b result) \<Rightarrow> 'a list \<Rightarrow> 'b list result" where
  "mapE f [] = Inr []"
| "mapE f (x # xs) = bindE (f x) (\<lambda>y. bindE (mapE f xs) (\<lambda>ys. Inr (y # ys)))"

lemma mapE_Inr: "(\<And>x. x \<in> set xs \<Longrightarrow> f x = Inr (g x)) \<Longrightarrow> mapE f xs = Inr (map g xs)"
  by (induction xs) auto

section \<open>Words\<close>

named_theorems word_val \<open>values of word operations as natural numbers\<close>

lemma unat_add_no_wrap [word_val]:
  fixes a b :: "'a::len word"
  shows "unat a + unat b < 2 ^ LENGTH('a) \<Longrightarrow> unat (a + b) = unat a + unat b"
  by (simp add: unat_word_ariths)

lemma unat_mult_no_wrap [word_val]:
  fixes a b :: "'a::len word"
  shows "unat a * unat b < 2 ^ LENGTH('a) \<Longrightarrow> unat (a * b) = unat a * unat b"
  by (simp add: unat_word_ariths)

lemma unat_eq_of_nat_iff:
  fixes a :: "'a::len word"
  shows "n < 2 ^ LENGTH('a) \<Longrightarrow> a = of_nat n \<longleftrightarrow> unat a = n"
  by (metis mod_less of_nat_unat ucast_id unat_of_nat)

end
