(* ===== verification/Bpt_Heap.thy ===== *)
theory Bpt_Heap
  imports Prelude
begin

text \<open>
  The memory of the B+ tree benchmark (\<^verbatim>\<open>btree/btree1.c\<close>): node and record structs at
  addresses, the two slab allocators with their intrusive free lists, and node creation.

  The \<^verbatim>\<open>keys\<close> and \<^verbatim>\<open>pointers\<close> arrays of a node are allocated for that node by
  \<^verbatim>\<open>make_node\<close> and never shared, so a node holds the lists of their cells; a node whose
  arrays were never allocated, or were freed, holds empty lists, and every access to them is
  out of bounds. A record is the union cell (a value, or the link of the free list) and the
  flags. Indices and counts are natural numbers: they are bounded by the order of the tree.

  Memory comes from \<^verbatim>\<open>posix_memalign\<close>, modelled as a break that only grows: a block is
  placed at the next aligned address, and a request beyond \<open>limit\<close> is the ENOMEM case, in
  which the program exits with status 1. Freed blocks are not reused.
\<close>

section \<open>Structs and globals\<close>

record bnode =
  pointers :: "addr list"
  keys :: "u64 list"
  parent :: addr
  is_leaf :: bool
  num_keys :: nat
  nxt :: addr

record brec =
  cell :: u64
  flags :: u64

record bheap =
  nodes :: "addr \<Rightarrow> bnode option"
  recs :: "addr \<Rightarrow> brec option"
  brk :: nat
  limit :: nat
  allocator_stat :: nat
  free_nodes :: addr
  free_recs :: addr
  order :: nat

definition zero_node :: bnode where
  "zero_node = \<lparr>pointers = [], keys = [], parent = NULL, is_leaf = False, num_keys = 0, nxt = NULL\<rparr>"

definition zero_rec :: brec where
  "zero_rec = \<lparr>cell = 0, flags = 0\<rparr>"

definition get_node :: "bheap \<Rightarrow> addr \<Rightarrow> bnode result" where
  "get_node h p = (case nodes h p of None \<Rightarrow> Inl Bad_pointer | Some nd \<Rightarrow> Inr nd)"

definition put_node :: "addr \<Rightarrow> bnode \<Rightarrow> bheap \<Rightarrow> bheap" where
  "put_node p nd h = h\<lparr>nodes := (nodes h)(p \<mapsto> nd)\<rparr>"

definition upd_node :: "addr \<Rightarrow> (bnode \<Rightarrow> bnode) \<Rightarrow> bheap \<Rightarrow> bheap result" where
  "upd_node p f h = bindE (get_node h p) (\<lambda>nd. Inr (put_node p (f nd) h))"

definition get_rec :: "bheap \<Rightarrow> addr \<Rightarrow> brec result" where
  "get_rec h p = (case recs h p of None \<Rightarrow> Inl Bad_pointer | Some r \<Rightarrow> Inr r)"

definition put_rec :: "addr \<Rightarrow> brec \<Rightarrow> bheap \<Rightarrow> bheap" where
  "put_rec p r h = h\<lparr>recs := (recs h)(p \<mapsto> r)\<rparr>"

section \<open>Allocation\<close>

definition align_up :: "nat \<Rightarrow> nat \<Rightarrow> nat" where
  "align_up al a = (a + al - 1) div al * al"

definition posix_memalign :: "nat \<Rightarrow> nat \<Rightarrow> bheap \<Rightarrow> (addr \<times> bheap) option" where
  "posix_memalign al sz h =
     (let p = align_up al (brk h) in
      if p + sz \<le> limit h then Some (p, h\<lparr>brk := p + sz\<rparr>) else None)"

definition allocate_aligned :: "nat \<Rightarrow> nat \<Rightarrow> bheap \<Rightarrow> (addr \<times> bheap) result" where
  "allocate_aligned al sz h =
     (case posix_memalign al sz h of
        None \<Rightarrow> Inl (Exit 1)
      | Some (p, h) \<Rightarrow>
          Inr (p, h\<lparr>allocator_stat := (allocator_stat h + sz) mod 2 ^ 64\<rparr>))"

definition allocate :: "nat \<Rightarrow> bheap \<Rightarrow> (addr \<times> bheap) result" where
  "allocate sz h = allocate_aligned (2 ^ 21) sz h"

definition allocate_align64 :: "nat \<Rightarrow> bheap \<Rightarrow> (addr \<times> bheap) result" where
  "allocate_align64 sz h = allocate_aligned 64 sz h"

definition sizeof_node :: nat where
  "sizeof_node = 48"

definition NODE_SLAB_GROW :: nat where
  "NODE_SLAB_GROW = 2 ^ 18"

definition sizeof_record :: nat where
  "sizeof_record = 16"

definition RECORD_SLAB_GROW :: nat where
  "RECORD_SLAB_GROW = 2 ^ 18"

text \<open>
  The slab is zeroed memory, in which the loop threads the new structs onto the free list.
\<close>

definition slab_node :: "addr \<Rightarrow> nat \<Rightarrow> bheap \<Rightarrow> bheap" where
  "slab_node n i h =
     (let p = n + i * sizeof_node in
      (put_node p (zero_node\<lparr>nxt := free_nodes h\<rparr>) h)\<lparr>free_nodes := p\<rparr>)"

definition alloc_node :: "bheap \<Rightarrow> (addr \<times> bheap) result" where
  "alloc_node h =
     bindE (if free_nodes h = NULL then
              bindE (allocate NODE_SLAB_GROW h) (\<lambda>(n, h).
              Inr (fold (slab_node n) [0..<NODE_SLAB_GROW div sizeof_node] h))
            else Inr h) (\<lambda>h.
     let nd = free_nodes h in
     bindE (get_node h nd) (\<lambda>n. Inr (nd, h\<lparr>free_nodes := nxt n\<rparr>)))"

definition free_node :: "addr \<Rightarrow> bheap \<Rightarrow> bheap result" where
  "free_node n h =
     bindE (upd_node n (\<lambda>nd. nd\<lparr>nxt := free_nodes h\<rparr>) h) (\<lambda>h. Inr (h\<lparr>free_nodes := n\<rparr>))"

definition slab_record :: "addr \<Rightarrow> nat \<Rightarrow> bheap \<Rightarrow> bheap" where
  "slab_record r i h =
     (let p = r + i * sizeof_record in
      (put_rec p (zero_rec\<lparr>cell := of_nat (free_recs h)\<rparr>) h)\<lparr>free_recs := p\<rparr>)"

definition alloc_record :: "bheap \<Rightarrow> (addr \<times> bheap) result" where
  "alloc_record h =
     bindE (if free_recs h = NULL then
              bindE (allocate RECORD_SLAB_GROW h) (\<lambda>(r, h).
              Inr (fold (slab_record r) [0..<RECORD_SLAB_GROW div sizeof_record] h))
            else Inr h) (\<lambda>h.
     let rc = free_recs h in
     bindE (get_rec h rc) (\<lambda>r. Inr (rc, h\<lparr>free_recs := unat (cell r)\<rparr>)))"

definition free_record :: "addr \<Rightarrow> bheap \<Rightarrow> bheap result" where
  "free_record r h =
     bindE (get_rec h r) (\<lambda>rc.
     Inr ((put_rec r (rc\<lparr>cell := of_nat (free_recs h)\<rparr>) h)\<lparr>free_recs := r\<rparr>))"

definition make_record :: "u64 \<Rightarrow> bheap \<Rightarrow> (addr \<times> bheap) result" where
  "make_record val h =
     bindE (alloc_record h) (\<lambda>(new_record, h).
     if new_record = NULL then Inl (Exit 1)
     else bindE (get_rec h new_record) (\<lambda>rc.
     Inr (new_record, put_rec new_record (rc\<lparr>cell := val\<rparr>) h)))"

definition make_node :: "bheap \<Rightarrow> (addr \<times> bheap) result" where
  "make_node h =
     bindE (alloc_node h) (\<lambda>(new_node, h).
     if new_node = NULL then Inl (Exit 1)
     else bindE (allocate_align64 ((order h - 1) * 8) h) (\<lambda>(ks, h).
     if ks = NULL then Inl (Exit 1)
     else bindE (upd_node new_node (\<lambda>nd. nd\<lparr>keys := replicate (order h - 1) 0\<rparr>) h) (\<lambda>h.
     bindE (allocate_align64 (order h * 8) h) (\<lambda>(ps, h).
     if ps = NULL then Inl (Exit 1)
     else bindE (upd_node new_node (\<lambda>nd. nd\<lparr>pointers := replicate (order h) NULL\<rparr>) h) (\<lambda>h.
     bindE (upd_node new_node
              (\<lambda>nd. nd\<lparr>is_leaf := False, num_keys := 0, parent := NULL, nxt := NULL\<rparr>) h) (\<lambda>h.
     Inr (new_node, h)))))))"

definition make_leaf :: "bheap \<Rightarrow> (addr \<times> bheap) result" where
  "make_leaf h =
     bindE (make_node h) (\<lambda>(leaf, h).
     bindE (upd_node leaf (\<lambda>nd. nd\<lparr>is_leaf := True\<rparr>) h) (\<lambda>h. Inr (leaf, h)))"

section \<open>Basic laws of the heap\<close>

lemma get_node_Some [simp]: "nodes h p = Some nd \<Longrightarrow> get_node h p = Inr nd"
  by (simp add: get_node_def)

lemma get_rec_Some [simp]: "recs h p = Some r \<Longrightarrow> get_rec h p = Inr r"
  by (simp add: get_rec_def)

lemma upd_node_Some [simp]: "nodes h p = Some nd \<Longrightarrow> upd_node p f h = Inr (put_node p (f nd) h)"
  by (simp add: upd_node_def)

lemma put_node_sel [simp]:
  "nodes (put_node p nd h) = (nodes h)(p \<mapsto> nd)" "recs (put_node p nd h) = recs h"
  "brk (put_node p nd h) = brk h" "limit (put_node p nd h) = limit h"
  "free_nodes (put_node p nd h) = free_nodes h" "free_recs (put_node p nd h) = free_recs h"
  "order (put_node p nd h) = order h"
  by (simp_all add: put_node_def)

lemma put_rec_sel [simp]:
  "recs (put_rec p r h) = (recs h)(p \<mapsto> r)" "nodes (put_rec p r h) = nodes h"
  "brk (put_rec p r h) = brk h" "limit (put_rec p r h) = limit h"
  "free_nodes (put_rec p r h) = free_nodes h" "free_recs (put_rec p r h) = free_recs h"
  "order (put_rec p r h) = order h"
  by (simp_all add: put_rec_def)

section \<open>Free lists and room\<close>

fun flist :: "(addr \<Rightarrow> bnode option) \<Rightarrow> addr \<Rightarrow> addr list \<Rightarrow> bool" where
  "flist N p [] \<longleftrightarrow> p = NULL"
| "flist N p (a # as) \<longleftrightarrow> p = a \<and> a \<noteq> NULL \<and>
     (case N a of None \<Rightarrow> False | Some nd \<Rightarrow> flist N (nxt nd) as)"

fun rlist :: "(addr \<Rightarrow> brec option) \<Rightarrow> addr \<Rightarrow> addr list \<Rightarrow> bool" where
  "rlist R p [] \<longleftrightarrow> p = NULL"
| "rlist R p (a # as) \<longleftrightarrow> p = a \<and> a \<noteq> NULL \<and>
     (case R a of None \<Rightarrow> False | Some r \<Rightarrow> rlist R (unat (cell r)) as)"

definition heap_ok :: "bheap \<Rightarrow> addr set \<Rightarrow> addr set \<Rightarrow> bool" where
  "heap_ok h U V \<longleftrightarrow>
     (\<exists>F. flist (nodes h) (free_nodes h) F \<and> distinct F \<and> set F \<inter> U = {}) \<and>
     (\<exists>G. rlist (recs h) (free_recs h) G \<and> distinct G \<and> set G \<inter> V = {}) \<and>
     (\<forall>a \<in> dom (nodes h) \<union> dom (recs h). a < brk h) \<and>
     U \<subseteq> dom (nodes h) \<and> V \<subseteq> dom (recs h) \<and> NULL \<notin> U \<and> NULL \<notin> V \<and>
     0 < brk h \<and> limit h \<le> 2 ^ 64"

definition room :: "bheap \<Rightarrow> nat \<Rightarrow> bool" where
  "room h b \<longleftrightarrow> brk h + b \<le> limit h"

abbreviation (input) slab_cost :: nat where
  "slab_cost \<equiv> 2 ^ 21 + 2 ^ 18"

lemma flist_upd [simp]: "p \<notin> set F \<Longrightarrow> flist (N(p \<mapsto> nd)) q F = flist N q F"
  by (induction F arbitrary: q) (auto split: option.splits)

lemma rlist_upd [simp]: "p \<notin> set G \<Longrightarrow> rlist (R(p \<mapsto> r)) q G = rlist R q G"
  by (induction G arbitrary: q) (auto split: option.splits)

lemma flist_dom: "flist N p F \<Longrightarrow> set F \<subseteq> dom N"
  by (induction F arbitrary: p) (auto split: option.splits)

lemma rlist_dom: "rlist R p G \<Longrightarrow> set G \<subseteq> dom R"
  by (induction G arbitrary: p) (auto split: option.splits)

lemma align_up_bounds:
  assumes "0 < al"
  shows "a \<le> align_up al a" "align_up al a \<le> a + al"
proof -
  have *: "(a + al - 1) div al * al + (a + al - 1) mod al = a + al - 1" by simp
  have "(a + al - 1) mod al < al" using assms by simp
  then show "a \<le> align_up al a" "align_up al a \<le> a + al"
    unfolding align_up_def using * assms by linarith+
qed

lemma allocate_aligned_room:
  assumes "0 < al" and "room h (b + (al + sz))"
  obtains p st where
    "allocate_aligned al sz h = Inr (p, h\<lparr>brk := p + sz, allocator_stat := st\<rparr>)"
    "brk h \<le> p" "room (h\<lparr>brk := p + sz, allocator_stat := st\<rparr>) b"
proof
  define p where "p = align_up al (brk h)"
  have p: "brk h \<le> p" "p \<le> brk h + al" unfolding p_def using assms(1) align_up_bounds by auto
  have le: "p + sz \<le> limit h" using p assms(2) by (simp add: room_def)
  show "allocate_aligned al sz h
      = Inr (p, h\<lparr>brk := p + sz, allocator_stat := (allocator_stat h + sz) mod 2 ^ 64\<rparr>)"
    using le by (simp add: allocate_aligned_def posix_memalign_def p_def Let_def)
  show "brk h \<le> p" by (rule p)
  show "room (h\<lparr>brk := p + sz, allocator_stat := (allocator_stat h + sz) mod 2 ^ 64\<rparr>) b"
    using p assms(2) by (simp add: room_def)
qed

section \<open>The slab allocators\<close>

definition slab_addrs :: "addr \<Rightarrow> nat \<Rightarrow> nat \<Rightarrow> addr list" where
  "slab_addrs b sz n = rev (map (\<lambda>i. b + i * sz) [0..<n])"

lemma slab_addrs_Suc: "slab_addrs b sz (Suc n) = (b + n * sz) # slab_addrs b sz n"
  by (simp add: slab_addrs_def)

lemma slab_addrs_0 [simp]: "slab_addrs b sz 0 = []"
  by (simp add: slab_addrs_def)

lemma slab_addrs_distinct: "0 < sz \<Longrightarrow> distinct (slab_addrs b sz n)"
  by (simp add: slab_addrs_def distinct_map inj_on_def)

lemma slab_addrs_bounds: "a \<in> set (slab_addrs b sz n) \<Longrightarrow> b \<le> a \<and> (0 < sz \<longrightarrow> a < b + n * sz)"
  by (auto simp: slab_addrs_def)

lemma slab_addrs_new: "0 < sz \<Longrightarrow> b + n * sz \<notin> set (slab_addrs b sz n)"
  using slab_addrs_bounds by fastforce

lemma slab_node_fold:
  assumes "free_nodes h = NULL" and "b \<noteq> NULL"
  shows "let h' = fold (slab_node b) [0..<n] h in
     flist (nodes h') (free_nodes h') (slab_addrs b sizeof_node n) \<and>
     (\<forall>a. a \<notin> set (slab_addrs b sizeof_node n) \<longrightarrow> nodes h' a = nodes h a) \<and>
     recs h' = recs h \<and> brk h' = brk h \<and> limit h' = limit h \<and> free_recs h' = free_recs h \<and>
     order h' = order h"
proof (induction n)
  case 0
  then show ?case using assms by (simp add: Let_def)
next
  case (Suc n)
  have "0 < sizeof_node" by (simp add: sizeof_node_def)
  from slab_addrs_new [OF this, of b n] show ?case
    using Suc assms(2) by (simp add: Let_def slab_node_def slab_addrs_Suc)
qed

lemma slab_record_fold:
  assumes "free_recs h = NULL" and "b \<noteq> NULL" and "b + n * sizeof_record \<le> 2 ^ 64"
  shows "let h' = fold (slab_record b) [0..<n] h in
     rlist (recs h') (free_recs h') (slab_addrs b sizeof_record n) \<and> free_recs h' < 2 ^ 64 \<and>
     (\<forall>a. a \<notin> set (slab_addrs b sizeof_record n) \<longrightarrow> recs h' a = recs h a) \<and>
     nodes h' = nodes h \<and> brk h' = brk h \<and> limit h' = limit h \<and> free_nodes h' = free_nodes h \<and>
     order h' = order h"
  using assms(3)
proof (induction n)
  case 0
  then show ?case using assms by (simp add: Let_def)
next
  case (Suc n)
  have pos: "0 < sizeof_record" by (simp add: sizeof_record_def)
  then have lt: "b + n * sizeof_record < 2 ^ 64" using Suc.prems by (simp add: sizeof_record_def)
  from slab_addrs_new [OF pos, of b n] show ?case
    using Suc lt assms(2)
    by (simp add: Let_def slab_record_def slab_addrs_Suc unat_of_nat)
qed

text \<open>What an allocation leaves alone: the nodes in use, the records in use and the order.\<close>

definition keeps :: "addr set \<Rightarrow> addr set \<Rightarrow> bheap \<Rightarrow> bheap \<Rightarrow> bool" where
  "keeps U V h h' \<longleftrightarrow> (\<forall>a \<in> U. nodes h' a = nodes h a) \<and> (\<forall>a \<in> V. recs h' a = recs h a) \<and>
     order h' = order h"

lemma keeps_refl [simp]: "keeps U V h h"
  by (simp add: keeps_def)

lemma keeps_trans: "keeps U V h h' \<Longrightarrow> keeps U V h' h'' \<Longrightarrow> keeps U V h h''"
  by (simp add: keeps_def)

lemma keeps_mono: "keeps U V h h' \<Longrightarrow> U' \<subseteq> U \<Longrightarrow> V' \<subseteq> V \<Longrightarrow> keeps U' V' h h'"
  by (auto simp: keeps_def)

lemma heap_ok_brk:
  "heap_ok h U V \<Longrightarrow> brk h \<le> b \<Longrightarrow> heap_ok (h\<lparr>brk := b, allocator_stat := st\<rparr>) U V"
  unfolding heap_ok_def by simp (meson less_le_trans)

lemma grow_nodes:
  assumes ok: "heap_ok h U V" and null: "free_nodes h = NULL" and room: "room h (b + slab_cost)"
  obtains h' where
    "bindE (allocate NODE_SLAB_GROW h) (\<lambda>(n, h).
       Inr (fold (slab_node n) [0..<NODE_SLAB_GROW div sizeof_node] h)) = Inr h'"
    "heap_ok h' U V" "free_nodes h' \<noteq> NULL" "keeps U V h h'" "room h' b"
proof -
  obtain p st where al: "allocate NODE_SLAB_GROW h
        = Inr (p, h\<lparr>brk := p + NODE_SLAB_GROW, allocator_stat := st\<rparr>)"
      and p: "brk h \<le> p" and r: "room (h\<lparr>brk := p + NODE_SLAB_GROW, allocator_stat := st\<rparr>) b"
    using allocate_aligned_room [of "2 ^ 21" h b NODE_SLAB_GROW] room
    by (auto simp: allocate_def NODE_SLAB_GROW_def add.assoc)
  define h1 where "h1 = h\<lparr>brk := p + NODE_SLAB_GROW, allocator_stat := st\<rparr>"
  let ?n = "NODE_SLAB_GROW div sizeof_node" and ?S = "slab_addrs p sizeof_node (NODE_SLAB_GROW div sizeof_node)"
  define h2 where "h2 = fold (slab_node p) [0..<?n] h1"
  have p0: "p \<noteq> NULL" using p ok by (auto simp: heap_ok_def)
  have f: "flist (nodes h2) (free_nodes h2) ?S" "\<And>a. a \<notin> set ?S \<Longrightarrow> nodes h2 a = nodes h a"
      "recs h2 = recs h" "brk h2 = p + NODE_SLAB_GROW" "limit h2 = limit h"
      "free_recs h2 = free_recs h" "order h2 = order h"
    using slab_node_fold [of h1 p ?n] null p0 by (simp_all add: h2_def h1_def Let_def)
  have S: "distinct ?S" by (rule slab_addrs_distinct) (simp add: sizeof_node_def)
  have "a \<in> set ?S \<Longrightarrow> p \<le> a \<and> a < p + ?n * sizeof_node" for a
    using slab_addrs_bounds [of a p sizeof_node ?n] by (simp add: sizeof_node_def)
  then have Sb: "a \<in> set ?S \<Longrightarrow> brk h \<le> a \<and> a < p + NODE_SLAB_GROW" for a
    using p by (fastforce simp: NODE_SLAB_GROW_def sizeof_node_def)
  have old: "a \<in> dom (nodes h) \<union> dom (recs h) \<Longrightarrow> a < brk h" for a
    using ok by (auto simp: heap_ok_def)
  have U: "U \<subseteq> dom (nodes h)" using ok by (simp add: heap_ok_def)
  have dis: "set ?S \<inter> U = {}" using Sb old U by fastforce
  have newdom: "a \<in> dom (nodes h2) \<Longrightarrow> a \<in> set ?S \<or> a \<in> dom (nodes h)" for a
    using f(2) by (metis domIff)
  have Udom: "U \<subseteq> dom (nodes h2)" using U dis f(2) by fastforce
  have "heap_ok h2 U V"
    unfolding heap_ok_def
  proof (intro conjI)
    show "\<exists>F. flist (nodes h2) (free_nodes h2) F \<and> distinct F \<and> set F \<inter> U = {}"
      using f(1) S dis by blast
    show "\<exists>G. rlist (recs h2) (free_recs h2) G \<and> distinct G \<and> set G \<inter> V = {}"
      using ok f by (simp add: heap_ok_def)
    show "\<forall>a \<in> dom (nodes h2) \<union> dom (recs h2). a < brk h2"
      using newdom Sb old p f(3,4) by (fastforce dest: newdom)
  qed (use ok f Udom p in \<open>auto simp: heap_ok_def\<close>)
  moreover have "free_nodes h2 \<noteq> NULL"
  proof -
    have "?S \<noteq> []" by (simp add: slab_addrs_def NODE_SLAB_GROW_def sizeof_node_def)
    then show ?thesis using f(1) by (cases ?S) auto
  qed
  moreover have "keeps U V h h2" using f dis by (auto simp: keeps_def)
  moreover have "room h2 b" using r f by (simp add: room_def)
  ultimately show thesis using that [of h2] al by (simp add: h1_def h2_def)
qed

lemma alloc_node_spec:
  assumes ok: "heap_ok h U V" and room: "room h (b + slab_cost)"
  obtains q nd h' where "alloc_node h = Inr (q, h')" "q \<notin> U" "q \<noteq> NULL" "nodes h' q = Some nd"
    "heap_ok h' (insert q U) V" "keeps U V h h'" "room h' b"
proof -
  obtain h1 where h1: "(if free_nodes h = NULL then
              bindE (allocate NODE_SLAB_GROW h) (\<lambda>(n, h).
              Inr (fold (slab_node n) [0..<NODE_SLAB_GROW div sizeof_node] h))
            else Inr h) = Inr h1"
      "heap_ok h1 U V" "free_nodes h1 \<noteq> NULL" "keeps U V h h1" "room h1 b"
  proof (cases "free_nodes h = NULL")
    case True
    then show thesis using grow_nodes [OF ok True room] that by auto
  next
    case False
    then show thesis using that [of h] ok room by (auto simp: room_def)
  qed
  obtain F where F: "flist (nodes h1) (free_nodes h1) F" "distinct F" "set F \<inter> U = {}"
    using h1(2) by (auto simp: heap_ok_def)
  then obtain F' nd where F': "F = free_nodes h1 # F'" "nodes h1 (free_nodes h1) = Some nd"
      "flist (nodes h1) (nxt nd) F'"
    using h1(3) by (cases F) (auto split: option.splits)
  define h2 where "h2 = h1\<lparr>free_nodes := nxt nd\<rparr>"
  have "alloc_node h = Inr (free_nodes h1, h2)"
    unfolding alloc_node_def h1(1) by (simp add: F' h2_def Let_def)
  moreover have "heap_ok h2 (insert (free_nodes h1) U) V"
    using h1(2,3) F F' by (auto simp: heap_ok_def h2_def)
  ultimately show thesis
    using that [of "free_nodes h1" h2 nd] F F' h1 by (simp add: h2_def keeps_def room_def)
qed

lemma grow_records:
  assumes ok: "heap_ok h U V" and null: "free_recs h = NULL" and room: "room h (b + slab_cost)"
  obtains h' where
    "bindE (allocate RECORD_SLAB_GROW h) (\<lambda>(r, h).
       Inr (fold (slab_record r) [0..<RECORD_SLAB_GROW div sizeof_record] h)) = Inr h'"
    "heap_ok h' U V" "free_recs h' \<noteq> NULL" "keeps U V h h'" "room h' b"
proof -
  obtain p st where al: "allocate RECORD_SLAB_GROW h
        = Inr (p, h\<lparr>brk := p + RECORD_SLAB_GROW, allocator_stat := st\<rparr>)"
      and p: "brk h \<le> p" and r: "room (h\<lparr>brk := p + RECORD_SLAB_GROW, allocator_stat := st\<rparr>) b"
    using allocate_aligned_room [of "2 ^ 21" h b RECORD_SLAB_GROW] room
    by (auto simp: allocate_def RECORD_SLAB_GROW_def add.assoc)
  define h1 where "h1 = h\<lparr>brk := p + RECORD_SLAB_GROW, allocator_stat := st\<rparr>"
  let ?n = "RECORD_SLAB_GROW div sizeof_record"
  let ?S = "slab_addrs p sizeof_record (RECORD_SLAB_GROW div sizeof_record)"
  define h2 where "h2 = fold (slab_record p) [0..<?n] h1"
  have p0: "p \<noteq> NULL" using p ok by (auto simp: heap_ok_def)
  have "p + RECORD_SLAB_GROW \<le> 2 ^ 64" using r ok by (simp add: room_def heap_ok_def)
  then have lim: "p + ?n * sizeof_record \<le> 2 ^ 64"
    by (simp add: RECORD_SLAB_GROW_def sizeof_record_def)
  have f: "rlist (recs h2) (free_recs h2) ?S" "\<And>a. a \<notin> set ?S \<Longrightarrow> recs h2 a = recs h a"
      "nodes h2 = nodes h" "brk h2 = p + RECORD_SLAB_GROW" "limit h2 = limit h"
      "free_nodes h2 = free_nodes h" "order h2 = order h"
    using slab_record_fold [of h1 p ?n] null p0 lim by (simp_all add: h2_def h1_def Let_def)
  have S: "distinct ?S" by (rule slab_addrs_distinct) (simp add: sizeof_record_def)
  have "a \<in> set ?S \<Longrightarrow> p \<le> a \<and> a < p + ?n * sizeof_record" for a
    using slab_addrs_bounds [of a p sizeof_record ?n] by (simp add: sizeof_record_def)
  then have Sb: "a \<in> set ?S \<Longrightarrow> brk h \<le> a \<and> a < p + RECORD_SLAB_GROW" for a
    using p by (fastforce simp: RECORD_SLAB_GROW_def sizeof_record_def)
  have old: "a \<in> dom (nodes h) \<union> dom (recs h) \<Longrightarrow> a < brk h" for a
    using ok by (auto simp: heap_ok_def)
  have V: "V \<subseteq> dom (recs h)" using ok by (simp add: heap_ok_def)
  have dis: "set ?S \<inter> V = {}" using Sb old V by fastforce
  have newdom: "a \<in> dom (recs h2) \<Longrightarrow> a \<in> set ?S \<or> a \<in> dom (recs h)" for a
    using f(2) by (metis domIff)
  have Vdom: "V \<subseteq> dom (recs h2)" using V dis f(2) by fastforce
  have "heap_ok h2 U V"
    unfolding heap_ok_def
  proof (intro conjI)
    show "\<exists>G. rlist (recs h2) (free_recs h2) G \<and> distinct G \<and> set G \<inter> V = {}"
      using f(1) S dis by blast
    show "\<exists>F. flist (nodes h2) (free_nodes h2) F \<and> distinct F \<and> set F \<inter> U = {}"
      using ok f by (simp add: heap_ok_def)
    show "\<forall>a \<in> dom (nodes h2) \<union> dom (recs h2). a < brk h2"
      using newdom Sb old p f(3,4) by (fastforce dest: newdom)
  qed (use ok f Vdom p in \<open>auto simp: heap_ok_def\<close>)
  moreover have "free_recs h2 \<noteq> NULL"
  proof -
    have "?S \<noteq> []" by (simp add: slab_addrs_def RECORD_SLAB_GROW_def sizeof_record_def)
    then show ?thesis using f(1) by (cases ?S) auto
  qed
  moreover have "keeps U V h h2" using f dis by (auto simp: keeps_def)
  moreover have "room h2 b" using r f by (simp add: room_def)
  ultimately show thesis using that [of h2] al by (simp add: h1_def h2_def)
qed

lemma make_record_spec:
  assumes ok: "heap_ok h U V" and room: "room h (b + slab_cost)"
  obtains q rc h' where "make_record val h = Inr (q, h')" "q \<notin> V" "q \<noteq> NULL"
    "recs h' q = Some rc" "cell rc = val"
    "heap_ok h' U (insert q V)" "keeps U V h h'" "room h' b"
proof -
  obtain h1 where h1: "(if free_recs h = NULL then
              bindE (allocate RECORD_SLAB_GROW h) (\<lambda>(r, h).
              Inr (fold (slab_record r) [0..<RECORD_SLAB_GROW div sizeof_record] h))
            else Inr h) = Inr h1"
      "heap_ok h1 U V" "free_recs h1 \<noteq> NULL" "keeps U V h h1" "room h1 b"
  proof (cases "free_recs h = NULL")
    case True
    then show thesis using grow_records [OF ok True room] that by auto
  next
    case False
    then show thesis using that [of h] ok room by (auto simp: room_def)
  qed
  obtain G where G: "rlist (recs h1) (free_recs h1) G" "distinct G" "set G \<inter> V = {}"
    using h1(2) by (auto simp: heap_ok_def)
  then obtain G' rc where G': "G = free_recs h1 # G'" "recs h1 (free_recs h1) = Some rc"
      "rlist (recs h1) (unat (cell rc)) G'"
    using h1(3) by (cases G) (auto split: option.splits)
  define q where "q = free_recs h1"
  define h2 where "h2 = put_rec q (rc\<lparr>cell := val\<rparr>) (h1\<lparr>free_recs := unat (cell rc)\<rparr>)"
  have "make_record val h = Inr (q, h2)"
    using h1(3) unfolding make_record_def alloc_record_def h1(1)
    by (simp add: G' h2_def q_def Let_def)
  moreover have "\<exists>G. rlist (recs h2) (free_recs h2) G \<and> distinct G \<and> set G \<inter> insert q V = {}"
    using G G' by (intro exI [of _ G']) (auto simp: h2_def q_def)
  then have "heap_ok h2 U (insert q V)"
    using h1(2,3) G' by (auto simp: heap_ok_def h2_def q_def)
  ultimately show thesis
    using that [of q h2 "rc\<lparr>cell := val\<rparr>"] G G' h1 by (auto simp: h2_def q_def keeps_def room_def)
qed

section \<open>Node creation\<close>

definition fresh_node :: "nat \<Rightarrow> bool \<Rightarrow> bnode" where
  "fresh_node m lf = \<lparr>pointers = replicate m NULL, keys = replicate (m - 1) 0, parent = NULL,
     is_leaf = lf, num_keys = 0, nxt = NULL\<rparr>"

definition node_cost :: "nat \<Rightarrow> nat" where
  "node_cost m = 2 ^ 21 + 2 ^ 18 + 128 + 16 * m"

lemma heap_ok_put:
  assumes "heap_ok h U V" and "q \<in> U"
  shows "heap_ok (put_node q nd h) U V"
proof -
  obtain F where F: "flist (nodes h) (free_nodes h) F" "distinct F" "set F \<inter> U = {}"
    using assms(1) by (auto simp: heap_ok_def)
  moreover have "q \<notin> set F" using F(3) assms(2) by auto
  ultimately have "\<exists>F. flist ((nodes h)(q \<mapsto> nd)) (free_nodes h) F \<and> distinct F \<and> set F \<inter> U = {}"
    by (intro exI [of _ F]) simp
  then show ?thesis using assms by (auto simp: heap_ok_def)
qed

lemma keeps_put: "q \<notin> U \<Longrightarrow> keeps U V h (put_node q nd h)"
  by (auto simp: keeps_def)

lemma make_node_spec:
  assumes ok: "heap_ok h U V" and room: "room h (b + node_cost (order h))"
  obtains q h' where "make_node h = Inr (q, h')" "q \<notin> U" "q \<noteq> NULL"
    "nodes h' q = Some (fresh_node (order h) False)"
    "heap_ok h' (insert q U) V" "keeps U V h h'" "room h' b"
proof -
  have "room h ((b + (64 + (order h - 1) * 8) + (64 + order h * 8)) + slab_cost)"
    using room by (simp add: room_def node_cost_def)
  then obtain q nd h1 where h1: "alloc_node h = Inr (q, h1)" "q \<notin> U" "q \<noteq> NULL"
      "nodes h1 q = Some nd" "heap_ok h1 (insert q U) V" "keeps U V h h1"
      "room h1 (b + (64 + (order h - 1) * 8) + (64 + order h * 8))"
    by (rule alloc_node_spec [OF ok])
  have o1: "order h1 = order h" using h1(6) by (simp add: keeps_def)
  have pos: "0 < brk h1" using h1(5) by (simp add: heap_ok_def)
  have "room h1 ((b + (64 + order h * 8)) + (64 + (order h1 - 1) * 8))"
    using h1(7) o1 by (simp add: room_def)
  then obtain kp st1 where a1: "allocate_align64 ((order h1 - 1) * 8) h1
        = Inr (kp, h1\<lparr>brk := kp + (order h1 - 1) * 8, allocator_stat := st1\<rparr>)"
      and kp: "brk h1 \<le> kp"
      and r1: "room (h1\<lparr>brk := kp + (order h1 - 1) * 8, allocator_stat := st1\<rparr>) (b + (64 + order h * 8))"
    unfolding allocate_align64_def by (rule allocate_aligned_room [rotated]) simp_all
  define h2 where "h2 = put_node q (nd\<lparr>keys := replicate (order h1 - 1) 0\<rparr>)
      (h1\<lparr>brk := kp + (order h1 - 1) * 8, allocator_stat := st1\<rparr>)"
  have ok2: "heap_ok h2 (insert q U) V"
    unfolding h2_def by (intro heap_ok_put heap_ok_brk h1) (use kp in auto)
  have r2: "room h2 (b + (64 + order h2 * 8))" using r1 o1 by (simp add: h2_def room_def)
  then obtain pp st2 where a2: "allocate_align64 (order h2 * 8) h2
        = Inr (pp, h2\<lparr>brk := pp + order h2 * 8, allocator_stat := st2\<rparr>)"
      and pp: "brk h2 \<le> pp" and r3: "room (h2\<lparr>brk := pp + order h2 * 8, allocator_stat := st2\<rparr>) b"
    unfolding allocate_align64_def by (rule allocate_aligned_room [rotated]) simp_all
  define h3 where "h3 = put_node q (fresh_node (order h) False)
      (h2\<lparr>brk := pp + order h2 * 8, allocator_stat := st2\<rparr>)"
  have ok3: "heap_ok h3 (insert q U) V"
    unfolding h3_def by (intro heap_ok_put heap_ok_brk ok2) (use pp in auto)
  have kp0: "kp \<noteq> NULL" "pp \<noteq> NULL" using kp pos pp ok2 by (auto simp: heap_ok_def)
  have "make_node h = Inr (q, put_node q ((nd\<lparr>keys := replicate (order h1 - 1) 0\<rparr>)
      \<lparr>pointers := replicate (order h1) NULL, is_leaf := False, num_keys := 0, parent := NULL, nxt := NULL\<rparr>)
      (put_node q ((nd\<lparr>keys := replicate (order h1 - 1) 0\<rparr>)\<lparr>pointers := replicate (order h1) NULL\<rparr>)
      (h2\<lparr>brk := pp + order h2 * 8, allocator_stat := st2\<rparr>)))"
    using a1 a2 kp0 h1(3,4) by (simp add: make_node_def h1(1) h2_def [symmetric]) (simp add: h2_def)
  also have "\<dots> = Inr (q, h3)"
    by (cases nd) (simp add: h3_def put_node_def fresh_node_def o1)
  finally have "make_node h = Inr (q, h3)" .
  moreover have "keeps U V h h3" using h1(2,6) by (auto simp: keeps_def h3_def h2_def)
  ultimately show thesis
    using that [of q h3] h1(2,3) ok3 r3 by (simp add: h3_def room_def)
qed

lemma make_leaf_spec:
  assumes ok: "heap_ok h U V" and room: "room h (b + node_cost (order h))"
  obtains q h' where "make_leaf h = Inr (q, h')" "q \<notin> U" "q \<noteq> NULL"
    "nodes h' q = Some (fresh_node (order h) True)"
    "heap_ok h' (insert q U) V" "keeps U V h h'" "room h' b"
proof -
  obtain q h1 where h1: "make_node h = Inr (q, h1)" "q \<notin> U" "q \<noteq> NULL"
      "nodes h1 q = Some (fresh_node (order h) False)"
      "heap_ok h1 (insert q U) V" "keeps U V h h1" "room h1 b"
    using assms by (rule make_node_spec)
  then show thesis
    using that [of q "put_node q (fresh_node (order h) True) h1"] heap_ok_put [OF h1(5), of q]
      keeps_trans [OF h1(6) keeps_put [OF h1(2)]]
    by (simp add: make_leaf_def fresh_node_def room_def)
qed

end
