(* ===== verification/Bpt_Insert.thy ===== *)
theory Bpt_Insert
  imports Bpt_Heap
begin

text \<open>
  Search and insertion of the B+ tree benchmark (\<^verbatim>\<open>btree/btree1.c\<close>), statement by
  statement on the heap of \<open>Bpt_Heap\<close>. Loops that walk the heap take fuel, because in an
  arbitrary heap they need not end; running out is the error \<open>Out_of_fuel\<close>, and the
  correctness theorems show that the height of the tree is enough. The verbose printing of
  the search path is left out.
\<close>

section \<open>Array loops\<close>

text \<open>
  \<^verbatim>\<open>while (i < n && P(a[i])) i++\<close>, the loop with which the program looks for a key, a
  child or an insertion point.
\<close>

function scan :: "('a \<Rightarrow> bool) \<Rightarrow> 'a list \<Rightarrow> nat \<Rightarrow> nat \<Rightarrow> nat result" where
  "scan P xs n i =
     (if i < n then bindE (arr_get xs i) (\<lambda>x. if P x then scan P xs n (Suc i) else Inr i)
      else Inr i)"
  by pat_completeness auto
termination
  by (relation "measure (\<lambda>(P, xs, n, i). n - i)") auto

declare scan.simps [simp del]

text \<open>
  \<^verbatim>\<open>for (i = hi; i > lo; i--) a[i] = a[i - 1]\<close>. Where the source moves the keys and the
  pointers of a node in one loop, the model moves the two arrays one after the other.
\<close>

fun shift_up :: "nat \<Rightarrow> nat \<Rightarrow> 'a list \<Rightarrow> 'a list result" where
  "shift_up lo 0 xs = Inr xs"
| "shift_up lo (Suc i) xs =
     (if Suc i > lo then
        bindE (arr_get xs i) (\<lambda>x. bindE (arr_set xs (Suc i) x) (shift_up lo i))
      else Inr xs)"

text \<open>\<^verbatim>\<open>for (i = a, j = b; i < e; i++, j++) dst[j] = src[i]\<close>.\<close>

function copy_range :: "'a list \<Rightarrow> nat \<Rightarrow> nat \<Rightarrow> nat \<Rightarrow> 'a list \<Rightarrow> 'a list result" where
  "copy_range src i e j dst =
     (if i < e then
        bindE (arr_get src i) (\<lambda>x. bindE (arr_set dst j x) (copy_range src (Suc i) e (Suc j)))
      else Inr dst)"
  by pat_completeness auto
termination
  by (relation "measure (\<lambda>(src, i, e, j, dst). e - i)") auto

declare copy_range.simps [simp del]

text \<open>
  \<^verbatim>\<open>for (i = 0, j = 0; i < n; i++, j++) { if (j == gap) j++; dst[j] = src[i]; }\<close>: copying
  with a hole for the new element.
\<close>

function copy_gap :: "nat \<Rightarrow> 'a list \<Rightarrow> nat \<Rightarrow> nat \<Rightarrow> nat \<Rightarrow> 'a list \<Rightarrow> 'a list result" where
  "copy_gap gap src n i j dst =
     (if i < n then
        let j = (if j = gap then Suc j else j) in
        bindE (arr_get src i) (\<lambda>x. bindE (arr_set dst j x) (copy_gap gap src n (Suc i) (Suc j)))
      else Inr dst)"
  by pat_completeness auto
termination
  by (relation "measure (\<lambda>(gap, src, n, i, j, dst). n - i)") auto

declare copy_gap.simps [simp del]

text \<open>\<^verbatim>\<open>for (i = a; i < b; i++) ps[i] = NULL\<close>.\<close>

definition fill_null :: "nat \<Rightarrow> nat \<Rightarrow> addr list \<Rightarrow> addr list result" where
  "fill_null a b ps = foldE (\<lambda>i ps. arr_set ps i NULL) [a..<b] ps"

section \<open>Search\<close>

fun find_leaf_loop :: "nat \<Rightarrow> addr \<Rightarrow> u64 \<Rightarrow> bheap \<Rightarrow> addr result" where
  "find_leaf_loop 0 c key h = Inl Out_of_fuel"
| "find_leaf_loop (Suc fuel) c key h =
     bindE (get_node h c) (\<lambda>nd.
     if is_leaf nd then Inr c
     else bindE (scan (\<lambda>k. key \<ge> k) (keys nd) (num_keys nd) 0) (\<lambda>i.
     bindE (arr_get (pointers nd) i) (\<lambda>c. find_leaf_loop fuel c key h)))"

definition find_leaf :: "nat \<Rightarrow> addr \<Rightarrow> u64 \<Rightarrow> bheap \<Rightarrow> addr result" where
  "find_leaf fuel root key h = (if root = NULL then Inr root else find_leaf_loop fuel root key h)"

text \<open>\<^verbatim>\<open>find\<close> returns the record and, through \<^verbatim>\<open>leaf_out\<close>, the leaf.\<close>

definition find_bpt :: "nat \<Rightarrow> addr \<Rightarrow> u64 \<Rightarrow> bheap \<Rightarrow> (addr \<times> addr) result" where
  "find_bpt fuel root key h =
     (if root = NULL then Inr (NULL, NULL)
      else bindE (find_leaf fuel root key h) (\<lambda>leaf.
      bindE (get_node h leaf) (\<lambda>nd.
      bindE (scan (\<lambda>k. k \<noteq> key) (keys nd) (num_keys nd) 0) (\<lambda>i.
      if i = num_keys nd then Inr (NULL, leaf)
      else bindE (arr_get (pointers nd) i) (\<lambda>r. Inr (r, leaf))))))"

definition cut :: "nat \<Rightarrow> nat" where
  "cut len = (if len mod 2 = 0 then len div 2 else len div 2 + 1)"

section \<open>Insertion\<close>

definition get_left_index :: "addr \<Rightarrow> addr \<Rightarrow> bheap \<Rightarrow> nat result" where
  "get_left_index par left h =
     bindE (get_node h par) (\<lambda>nd. scan (\<lambda>p. p \<noteq> left) (pointers nd) (num_keys nd + 1) 0)"

definition insert_into_leaf :: "addr \<Rightarrow> u64 \<Rightarrow> addr \<Rightarrow> bheap \<Rightarrow> (addr \<times> bheap) result" where
  "insert_into_leaf leaf key pointer h =
     bindE (get_node h leaf) (\<lambda>nd.
     bindE (scan (\<lambda>k. k < key) (keys nd) (num_keys nd) 0) (\<lambda>insertion_point.
     bindE (shift_up insertion_point (num_keys nd) (keys nd)) (\<lambda>ks.
     bindE (shift_up insertion_point (num_keys nd) (pointers nd)) (\<lambda>ps.
     bindE (arr_set ks insertion_point key) (\<lambda>ks.
     bindE (arr_set ps insertion_point pointer) (\<lambda>ps.
     Inr (leaf, put_node leaf (nd\<lparr>keys := ks, pointers := ps, num_keys := num_keys nd + 1\<rparr>) h)))))))"

definition insert_into_node ::
  "addr \<Rightarrow> addr \<Rightarrow> nat \<Rightarrow> u64 \<Rightarrow> addr \<Rightarrow> bheap \<Rightarrow> (addr \<times> bheap) result" where
  "insert_into_node root n left_index key right h =
     bindE (get_node h n) (\<lambda>nd.
     bindE (shift_up (Suc left_index) (Suc (num_keys nd)) (pointers nd)) (\<lambda>ps.
     bindE (shift_up left_index (num_keys nd) (keys nd)) (\<lambda>ks.
     bindE (arr_set ps (left_index + 1) right) (\<lambda>ps.
     bindE (arr_set ks left_index key) (\<lambda>ks.
     Inr (root, put_node n (nd\<lparr>keys := ks, pointers := ps, num_keys := num_keys nd + 1\<rparr>) h))))))"

definition insert_into_new_root :: "addr \<Rightarrow> u64 \<Rightarrow> addr \<Rightarrow> bheap \<Rightarrow> (addr \<times> bheap) result" where
  "insert_into_new_root left key right h =
     bindE (make_node h) (\<lambda>(root, h).
     bindE (get_node h root) (\<lambda>nd.
     bindE (arr_set (keys nd) 0 key) (\<lambda>ks.
     bindE (arr_set (pointers nd) 0 left) (\<lambda>ps.
     bindE (arr_set ps 1 right) (\<lambda>ps.
     let h = put_node root (nd\<lparr>keys := ks, pointers := ps, num_keys := num_keys nd + 1,
               parent := NULL\<rparr>) h in
     bindE (upd_node left (\<lambda>nd. nd\<lparr>parent := root\<rparr>) h) (\<lambda>h.
     bindE (upd_node right (\<lambda>nd. nd\<lparr>parent := root\<rparr>) h) (\<lambda>h.
     Inr (root, h))))))))"

text \<open>
  The part of \<^verbatim>\<open>insert_into_node_after_splitting\<close> before its final call: the node is split
  and the separator and the new node for the parent are returned.
\<close>

definition split_node ::
  "addr \<Rightarrow> nat \<Rightarrow> u64 \<Rightarrow> addr \<Rightarrow> bheap \<Rightarrow> (u64 \<times> addr \<times> bheap) result" where
  "split_node old_node left_index key right h =
     bindE (allocate_align64 ((order h + 1) * 8) h) (\<lambda>(_, h).
     bindE (allocate_align64 (order h * 8) h) (\<lambda>(_, h).
     bindE (get_node h old_node) (\<lambda>nd.
     bindE (copy_gap (left_index + 1) (pointers nd) (num_keys nd + 1) 0 0
              (replicate (order h + 1) NULL)) (\<lambda>temp_pointers.
     bindE (copy_gap left_index (keys nd) (num_keys nd) 0 0 (replicate (order h) 0)) (\<lambda>temp_keys.
     bindE (arr_set temp_pointers (left_index + 1) right) (\<lambda>temp_pointers.
     bindE (arr_set temp_keys left_index key) (\<lambda>temp_keys.
     let split = cut (order h) in
     bindE (make_node h) (\<lambda>(new_node, h).
     bindE (copy_range temp_pointers 0 (split - 1) 0 (pointers nd)) (\<lambda>ps.
     bindE (copy_range temp_keys 0 (split - 1) 0 (keys nd)) (\<lambda>ks.
     bindE (arr_get temp_pointers (split - 1)) (\<lambda>p.
     bindE (arr_set ps (split - 1) p) (\<lambda>ps.
     let h = put_node old_node (nd\<lparr>pointers := ps, keys := ks, num_keys := split - 1\<rparr>) h in
     bindE (arr_get temp_keys (split - 1)) (\<lambda>k_prime.
     bindE (get_node h new_node) (\<lambda>nn.
     bindE (copy_range temp_pointers split (order h) 0 (pointers nn)) (\<lambda>ps.
     bindE (copy_range temp_keys split (order h) 0 (keys nn)) (\<lambda>ks.
     bindE (arr_get temp_pointers (order h)) (\<lambda>p.
     bindE (arr_set ps (order h - split) p) (\<lambda>ps.
     bindE (get_node h old_node) (\<lambda>nd.
     let nn = nn\<lparr>pointers := ps, keys := ks, num_keys := num_keys nn + (order h - split),
                parent := parent nd\<rparr>;
         h = put_node new_node nn h in
     bindE (foldE (\<lambda>i h. bindE (arr_get (pointers nn) i) (\<lambda>child.
              upd_node child (\<lambda>nd. nd\<lparr>parent := new_node\<rparr>) h))
            [0..<num_keys nn + 1] h) (\<lambda>h.
     Inr (k_prime, new_node, h)))))))))))))))))))))"

function insert_into_parent ::
    "nat \<Rightarrow> addr \<Rightarrow> addr \<Rightarrow> u64 \<Rightarrow> addr \<Rightarrow> bheap \<Rightarrow> (addr \<times> bheap) result"
  and insert_into_node_after_splitting ::
    "nat \<Rightarrow> addr \<Rightarrow> addr \<Rightarrow> nat \<Rightarrow> u64 \<Rightarrow> addr \<Rightarrow> bheap \<Rightarrow> (addr \<times> bheap) result"
where
  "insert_into_parent 0 root left key right h = Inl Out_of_fuel"
| "insert_into_parent (Suc fuel) root left key right h =
     bindE (get_node h left) (\<lambda>l.
     let par = parent l in
     if par = NULL then insert_into_new_root left key right h
     else bindE (get_left_index par left h) (\<lambda>left_index.
     bindE (get_node h par) (\<lambda>pn.
     if num_keys pn < order h - 1 then insert_into_node root par left_index key right h
     else insert_into_node_after_splitting fuel root par left_index key right h)))"
| "insert_into_node_after_splitting fuel root old_node left_index key right h =
     bindE (split_node old_node left_index key right h) (\<lambda>(k_prime, new_node, h).
     insert_into_parent fuel root old_node k_prime new_node h)"
  by pat_completeness auto
termination
  by (relation "measure (case_sum (\<lambda>x. 2 * fst x) (\<lambda>x. Suc (2 * fst x)))") auto

text \<open>
  The split of a full leaf, up to the call of \<^verbatim>\<open>insert_into_parent\<close>: it returns the first
  key of the new leaf and the new leaf.
\<close>

definition split_leaf ::
  "addr \<Rightarrow> u64 \<Rightarrow> addr \<Rightarrow> bheap \<Rightarrow> (u64 \<times> addr \<times> bheap) result" where
  "split_leaf leaf key pointer h =
     bindE (make_leaf h) (\<lambda>(new_leaf, h).
     bindE (allocate_align64 ((order h + 1) * 8) h) (\<lambda>(_, h).
     bindE (allocate_align64 ((order h + 1) * 8) h) (\<lambda>(_, h).
     bindE (get_node h leaf) (\<lambda>nd.
     bindE (scan (\<lambda>k. k < key) (keys nd) (order h - 1) 0) (\<lambda>insertion_index.
     bindE (copy_gap insertion_index (keys nd) (num_keys nd) 0 0
              (replicate (order h + 1) 0)) (\<lambda>temp_keys.
     bindE (copy_gap insertion_index (pointers nd) (num_keys nd) 0 0
              (replicate (order h + 1) NULL)) (\<lambda>temp_pointers.
     bindE (arr_set temp_keys insertion_index key) (\<lambda>temp_keys.
     bindE (arr_set temp_pointers insertion_index pointer) (\<lambda>temp_pointers.
     let split = cut (order h - 1) in
     bindE (copy_range temp_pointers 0 split 0 (pointers nd)) (\<lambda>ps.
     bindE (copy_range temp_keys 0 split 0 (keys nd)) (\<lambda>ks.
     bindE (get_node h new_leaf) (\<lambda>nl.
     bindE (copy_range temp_pointers split (order h) 0 (pointers nl)) (\<lambda>nps.
     bindE (copy_range temp_keys split (order h) 0 (keys nl)) (\<lambda>nks.
     let new_num_keys = num_keys nl + (order h - split) in
     bindE (arr_get ps (order h - 1)) (\<lambda>link.
     bindE (arr_set nps (order h - 1) link) (\<lambda>nps.
     bindE (arr_set ps (order h - 1) new_leaf) (\<lambda>ps.
     bindE (fill_null split (order h - 1) ps) (\<lambda>ps.
     bindE (fill_null new_num_keys (order h - 1) nps) (\<lambda>nps.
     let h = put_node leaf (nd\<lparr>pointers := ps, keys := ks, num_keys := split\<rparr>) h;
         h = put_node new_leaf (nl\<lparr>pointers := nps, keys := nks, num_keys := new_num_keys,
               parent := parent nd\<rparr>) h in
     bindE (arr_get nks 0) (\<lambda>new_key.
     Inr (new_key, new_leaf, h)))))))))))))))))))))"

definition insert_into_leaf_after_splitting ::
  "nat \<Rightarrow> addr \<Rightarrow> addr \<Rightarrow> u64 \<Rightarrow> addr \<Rightarrow> bheap \<Rightarrow> (addr \<times> bheap) result" where
  "insert_into_leaf_after_splitting fuel root leaf key pointer h =
     bindE (split_leaf leaf key pointer h) (\<lambda>(new_key, new_leaf, h).
     insert_into_parent fuel root leaf new_key new_leaf h)"

definition start_new_tree :: "u64 \<Rightarrow> addr \<Rightarrow> bheap \<Rightarrow> (addr \<times> bheap) result" where
  "start_new_tree key pointer h =
     bindE (make_leaf h) (\<lambda>(root, h).
     bindE (get_node h root) (\<lambda>nd.
     bindE (arr_set (keys nd) 0 key) (\<lambda>ks.
     bindE (arr_set (pointers nd) 0 pointer) (\<lambda>ps.
     bindE (arr_set ps (order h - 1) NULL) (\<lambda>ps.
     Inr (root, put_node root (nd\<lparr>keys := ks, pointers := ps, parent := NULL,
            num_keys := num_keys nd + 1\<rparr>) h))))))"

definition insert_bpt :: "nat \<Rightarrow> addr \<Rightarrow> u64 \<Rightarrow> u64 \<Rightarrow> bheap \<Rightarrow> (addr \<times> bheap) result" where
  "insert_bpt fuel root key val h =
     bindE (find_bpt fuel root key h) (\<lambda>(record_pointer, _).
     if record_pointer \<noteq> NULL then
       bindE (get_rec h record_pointer) (\<lambda>rc.
       Inr (root, put_rec record_pointer (rc\<lparr>cell := val\<rparr>) h))
     else
       bindE (make_record val h) (\<lambda>(record_pointer, h).
       if root = NULL then start_new_tree key record_pointer h
       else bindE (find_leaf fuel root key h) (\<lambda>leaf.
       bindE (get_node h leaf) (\<lambda>nd.
       if num_keys nd < order h - 1 then
         bindE (insert_into_leaf leaf key record_pointer h) (\<lambda>(_, h). Inr (root, h))
       else insert_into_leaf_after_splitting fuel root leaf key record_pointer h))))"

end
