(* ===== verification/Bpt_Delete.thy ===== *)
theory Bpt_Delete
  imports Bpt_Insert
begin

text \<open>
  Deletion of the B+ tree benchmark (\<^verbatim>\<open>btree/btree1.c\<close>), on the same heap. The recursion
  of \<^verbatim>\<open>delete_entry\<close> and \<^verbatim>\<open>coalesce_nodes\<close> towards the root takes fuel, as in the
  insertion.
\<close>

text \<open>\<^verbatim>\<open>for (i = a; i < n; i++) xs[i - 1] = xs[i]\<close>\<close>

definition shift_down :: "nat \<Rightarrow> nat \<Rightarrow> 'a list \<Rightarrow> 'a list result" where
  "shift_down a n xs = foldE (\<lambda>i xs. bindE (arr_get xs i) (arr_set xs (i - 1))) [a..<n] xs"

text \<open>Decrementing a \<^verbatim>\<open>uint64_t\<close> counter.\<close>

definition dec64 :: "nat \<Rightarrow> nat" where
  "dec64 n = (if n = 0 then 2 ^ 64 - 1 else n - 1)"

text \<open>The index left of the node among its siblings, as a \<^verbatim>\<open>uint64_t\<close> that wraps to -1.\<close>

definition get_neighbor_index :: "addr \<Rightarrow> bheap \<Rightarrow> u64 result" where
  "get_neighbor_index n h =
     bindE (get_node h n) (\<lambda>nd.
     bindE (get_node h (parent nd)) (\<lambda>pn.
     bindE (scan (\<lambda>p. p \<noteq> n) (pointers pn) (num_keys pn + 1) 0) (\<lambda>i.
     if i \<le> num_keys pn then Inr (of_nat i - 1) else Inl (Exit 1))))"

text \<open>
  The searches for the key and for the pointer have no bound: they end at the entry or leave
  the array.
\<close>

definition remove_entry_from_node :: "addr \<Rightarrow> u64 \<Rightarrow> addr \<Rightarrow> bheap \<Rightarrow> bheap result" where
  "remove_entry_from_node n key pointer h =
     bindE (get_node h n) (\<lambda>nd.
     bindE (scan (\<lambda>k. k \<noteq> key) (keys nd) (Suc (length (keys nd))) 0) (\<lambda>i.
     bindE (shift_down (Suc i) (num_keys nd) (keys nd)) (\<lambda>ks.
     let num_pointers = (if is_leaf nd then num_keys nd else num_keys nd + 1) in
     bindE (scan (\<lambda>p. p \<noteq> pointer) (pointers nd) (Suc (length (pointers nd))) 0) (\<lambda>i.
     bindE (shift_down (Suc i) num_pointers (pointers nd)) (\<lambda>ps.
     let nk = dec64 (num_keys nd) in
     bindE (if is_leaf nd then fill_null nk (order h - 1) ps
            else fill_null (nk + 1) (order h) ps) (\<lambda>ps.
     Inr (put_node n (nd\<lparr>keys := ks, pointers := ps, num_keys := nk\<rparr>) h)))))))"

text \<open>\<^verbatim>\<open>free(n->keys); free(n->pointers); free_node(n);\<close>\<close>

definition release_node :: "addr \<Rightarrow> bheap \<Rightarrow> bheap result" where
  "release_node n h =
     bindE (upd_node n (\<lambda>nd. nd\<lparr>keys := [], pointers := []\<rparr>) h) (free_node n)"

definition adjust_root :: "addr \<Rightarrow> bheap \<Rightarrow> (addr \<times> bheap) result" where
  "adjust_root root h =
     bindE (get_node h root) (\<lambda>nd.
     if num_keys nd > 0 then Inr (root, h)
     else bindE (if \<not> is_leaf nd then
                   bindE (arr_get (pointers nd) 0) (\<lambda>new_root.
                   bindE (upd_node new_root (\<lambda>nd. nd\<lparr>parent := NULL\<rparr>) h) (\<lambda>h. Inr (new_root, h)))
                 else Inr (NULL, h)) (\<lambda>(new_root, h).
     bindE (release_node root h) (\<lambda>h. Inr (new_root, h))))"

text \<open>
  The first part of \<^verbatim>\<open>coalesce_nodes\<close>, after the swap: the entries of \<open>n\<close> are
  appended to its left neighbor.
\<close>

definition merge_nodes :: "addr \<Rightarrow> addr \<Rightarrow> u64 \<Rightarrow> bheap \<Rightarrow> bheap result" where
  "merge_nodes n neighbor k_prime h =
     bindE (get_node h n) (\<lambda>nd.
     bindE (get_node h neighbor) (\<lambda>nb.
     let neighbor_insertion_index = num_keys nb in
     if \<not> is_leaf nd then
       let n_end = num_keys nd in
       bindE (arr_set (keys nb) neighbor_insertion_index k_prime) (\<lambda>ks.
       bindE (copy_range (keys nd) 0 n_end (neighbor_insertion_index + 1) ks) (\<lambda>ks.
       bindE (copy_range (pointers nd) 0 n_end (neighbor_insertion_index + 1) (pointers nb)) (\<lambda>ps.
       bindE (arr_get (pointers nd) n_end) (\<lambda>p.
       bindE (arr_set ps (neighbor_insertion_index + 1 + n_end) p) (\<lambda>ps.
       let nb = nb\<lparr>keys := ks, pointers := ps, num_keys := neighbor_insertion_index + 1 + n_end\<rparr>;
           h = put_node neighbor nb (put_node n (nd\<lparr>num_keys := 0\<rparr>) h) in
       foldE (\<lambda>i h. bindE (arr_get (pointers nb) i) (\<lambda>tmp.
                upd_node tmp (\<lambda>nd. nd\<lparr>parent := neighbor\<rparr>) h))
             [0..<num_keys nb + 1] h)))))
     else
       bindE (copy_range (keys nd) 0 (num_keys nd) neighbor_insertion_index (keys nb)) (\<lambda>ks.
       bindE (copy_range (pointers nd) 0 (num_keys nd) neighbor_insertion_index (pointers nb)) (\<lambda>ps.
       bindE (arr_get (pointers nd) (order h - 1)) (\<lambda>link.
       bindE (arr_set ps (order h - 1) link) (\<lambda>ps.
       Inr (put_node neighbor (nb\<lparr>keys := ks, pointers := ps,
              num_keys := neighbor_insertion_index + num_keys nd\<rparr>) h)))))))"

text \<open>Redistribution with a left neighbor: its last entry moves to the front of \<open>n\<close>.\<close>

definition redistribute_left :: "addr \<Rightarrow> addr \<Rightarrow> nat \<Rightarrow> u64 \<Rightarrow> bheap \<Rightarrow> bheap result" where
  "redistribute_left n neighbor k_prime_index k_prime h =
     bindE (get_node h n) (\<lambda>nd.
     bindE (get_node h neighbor) (\<lambda>nb.
     bindE (if \<not> is_leaf nd then
              bindE (arr_get (pointers nd) (num_keys nd)) (arr_set (pointers nd) (num_keys nd + 1))
            else Inr (pointers nd)) (\<lambda>ps.
     bindE (shift_up 0 (num_keys nd) (keys nd)) (\<lambda>ks.
     bindE (shift_up 0 (num_keys nd) ps) (\<lambda>ps.
     bindE (if \<not> is_leaf nd then
              bindE (arr_get (pointers nb) (num_keys nb)) (\<lambda>tmp.
              bindE (arr_set ps 0 tmp) (\<lambda>ps.
              bindE (arr_set (pointers nb) (num_keys nb) NULL) (\<lambda>nps.
              bindE (arr_set ks 0 k_prime) (\<lambda>ks.
              bindE (arr_get (keys nb) (dec64 (num_keys nb))) (\<lambda>sep.
              bindE (upd_node tmp (\<lambda>nd. nd\<lparr>parent := n\<rparr>) h) (\<lambda>h.
              Inr (ks, ps, nps, sep, h)))))))
            else
              bindE (arr_get (pointers nb) (dec64 (num_keys nb))) (\<lambda>r.
              bindE (arr_set ps 0 r) (\<lambda>ps.
              bindE (arr_set (pointers nb) (dec64 (num_keys nb)) NULL) (\<lambda>nps.
              bindE (arr_get (keys nb) (dec64 (num_keys nb))) (\<lambda>sep.
              bindE (arr_set ks 0 sep) (\<lambda>ks.
              Inr (ks, ps, nps, sep, h))))))) (\<lambda>(ks, ps, nps, sep, h).
     bindE (get_node h (parent nd)) (\<lambda>pn.
     bindE (arr_set (keys pn) k_prime_index sep) (\<lambda>pks.
     let h = put_node (parent nd) (pn\<lparr>keys := pks\<rparr>) h;
         h = put_node n (nd\<lparr>keys := ks, pointers := ps, num_keys := num_keys nd + 1\<rparr>) h in
     Inr (put_node neighbor (nb\<lparr>pointers := nps, num_keys := dec64 (num_keys nb)\<rparr>) h)))))))))"

text \<open>Redistribution with the right neighbor: its first entry moves to the end of \<open>n\<close>.\<close>

definition redistribute_right :: "addr \<Rightarrow> addr \<Rightarrow> nat \<Rightarrow> u64 \<Rightarrow> bheap \<Rightarrow> bheap result" where
  "redistribute_right n neighbor k_prime_index k_prime h =
     bindE (get_node h n) (\<lambda>nd.
     bindE (get_node h neighbor) (\<lambda>nb.
     bindE (if is_leaf nd then
              bindE (arr_get (keys nb) 0) (\<lambda>k0.
              bindE (arr_set (keys nd) (num_keys nd) k0) (\<lambda>ks.
              bindE (arr_get (pointers nb) 0) (\<lambda>p0.
              bindE (arr_set (pointers nd) (num_keys nd) p0) (\<lambda>ps.
              bindE (arr_get (keys nb) 1) (\<lambda>sep.
              Inr (ks, ps, sep, h))))))
            else
              bindE (arr_set (keys nd) (num_keys nd) k_prime) (\<lambda>ks.
              bindE (arr_get (pointers nb) 0) (\<lambda>tmp.
              bindE (arr_set (pointers nd) (num_keys nd + 1) tmp) (\<lambda>ps.
              bindE (arr_get (keys nb) 0) (\<lambda>sep.
              bindE (upd_node tmp (\<lambda>nd. nd\<lparr>parent := n\<rparr>) h) (\<lambda>h.
              Inr (ks, ps, sep, h))))))) (\<lambda>(ks, ps, sep, h).
     bindE (shift_down 1 (num_keys nb) (keys nb)) (\<lambda>nks.
     bindE (shift_down 1 (if is_leaf nd then num_keys nb else num_keys nb + 1) (pointers nb)) (\<lambda>nps.
     bindE (get_node h (parent nd)) (\<lambda>pn.
     bindE (arr_set (keys pn) k_prime_index sep) (\<lambda>pks.
     let h = put_node (parent nd) (pn\<lparr>keys := pks\<rparr>) h;
         h = put_node n (nd\<lparr>keys := ks, pointers := ps, num_keys := num_keys nd + 1\<rparr>) h in
     Inr (put_node neighbor (nb\<lparr>keys := nks, pointers := nps, num_keys := dec64 (num_keys nb)\<rparr>) h))))))))"

definition redistribute_nodes ::
  "addr \<Rightarrow> addr \<Rightarrow> addr \<Rightarrow> u64 \<Rightarrow> nat \<Rightarrow> u64 \<Rightarrow> bheap \<Rightarrow> (addr \<times> bheap) result" where
  "redistribute_nodes root n neighbor neighbor_index k_prime_index k_prime h =
     bindE (if neighbor_index \<noteq> - 1 then redistribute_left n neighbor k_prime_index k_prime h
            else redistribute_right n neighbor k_prime_index k_prime h) (\<lambda>h. Inr (root, h))"

text \<open>
  \<open>rebalance\<close> is the body of \<^verbatim>\<open>delete_entry\<close> after the entry is removed.
\<close>

function delete_entry ::
    "nat \<Rightarrow> addr \<Rightarrow> addr \<Rightarrow> u64 \<Rightarrow> addr \<Rightarrow> bheap \<Rightarrow> (addr \<times> bheap) result"
  and rebalance :: "nat \<Rightarrow> addr \<Rightarrow> addr \<Rightarrow> bheap \<Rightarrow> (addr \<times> bheap) result"
  and coalesce_nodes ::
    "nat \<Rightarrow> addr \<Rightarrow> addr \<Rightarrow> addr \<Rightarrow> u64 \<Rightarrow> u64 \<Rightarrow> bheap \<Rightarrow> (addr \<times> bheap) result"
where
  "delete_entry 0 root n key pointer h = Inl Out_of_fuel"
| "delete_entry (Suc fuel) root n key pointer h =
     bindE (remove_entry_from_node n key pointer h) (\<lambda>h. rebalance fuel root n h)"
| "rebalance fuel root n h =
     (if n = root then adjust_root root h
      else bindE (get_node h n) (\<lambda>nd.
      let min_keys = (if is_leaf nd then cut (order h - 1) else cut (order h) - 1) in
      if num_keys nd \<ge> min_keys then Inr (root, h)
      else bindE (get_neighbor_index n h) (\<lambda>neighbor_index.
      let k_prime_index = (if neighbor_index = - 1 then 0 else unat neighbor_index) in
      bindE (get_node h (parent nd)) (\<lambda>pn.
      bindE (arr_get (keys pn) k_prime_index) (\<lambda>k_prime.
      bindE (arr_get (pointers pn) (if neighbor_index = - 1 then 1 else unat neighbor_index)) (\<lambda>neighbor.
      let capacity = (if is_leaf nd then order h else order h - 1) in
      bindE (get_node h neighbor) (\<lambda>nb.
      if num_keys nb + num_keys nd < capacity
      then coalesce_nodes fuel root n neighbor neighbor_index k_prime h
      else redistribute_nodes root n neighbor neighbor_index k_prime_index k_prime h)))))))"
| "coalesce_nodes fuel root n neighbor neighbor_index k_prime h =
     (let (n, neighbor) = (if neighbor_index = - 1 then (neighbor, n) else (n, neighbor)) in
      bindE (merge_nodes n neighbor k_prime h) (\<lambda>h.
      bindE (get_node h n) (\<lambda>nd.
      bindE (delete_entry fuel root (parent nd) k_prime n h) (\<lambda>(root, h).
      bindE (release_node n h) (\<lambda>h. Inr (root, h))))))"
  by pat_completeness auto
termination
  by (relation "measure (case_sum (\<lambda>x. 3 * fst x)
        (case_sum (\<lambda>x. 3 * fst x + 2) (\<lambda>x. 3 * fst x + 1)))") auto

definition delete :: "nat \<Rightarrow> addr \<Rightarrow> u64 \<Rightarrow> bheap \<Rightarrow> (addr \<times> bheap) result" where
  "delete fuel root key h =
     bindE (find_bpt fuel root key h) (\<lambda>(key_record, key_leaf).
     if key_record \<noteq> NULL \<and> key_leaf \<noteq> NULL then
       bindE (delete_entry fuel root key_leaf key key_record h) (\<lambda>(root, h).
       bindE (free_record key_record h) (\<lambda>h. Inr (root, h)))
     else Inr (root, h))"

end
