(* ===== verification/Bpt_Tree.thy ===== *)
theory Bpt_Tree
  imports Bpt_Insert "HOL-Library.Multiset"
begin

text \<open>
  The abstract side of the B+ tree: what the array loops compute as list functions, trees with
  their addresses, the relation between a tree and the heap that holds it, contexts (a tree
  with a hole, read from the hole upwards as the parent pointers lead), and the order, shape
  and leaf-chain invariants.
\<close>

section \<open>The array loops as list functions\<close>

lemma scan_eq:
  assumes "n \<le> length xs" and "i \<le> n"
  shows "scan P xs n i = Inr (i + length (takeWhile P (drop i (take n xs))))"
  using assms
proof (induction P xs n i rule: scan.induct)
  case (1 P xs n i)
  show ?case
  proof (cases "i < n")
    case True
    then have "drop i (take n xs) = xs ! i # drop (Suc i) (take n xs)"
      using "1.prems" by (simp add: Cons_nth_drop_Suc [symmetric])
    then show ?thesis
      using 1 True by (subst scan.simps) simp
  next
    case False
    then show ?thesis using "1.prems" by (subst scan.simps) simp
  qed
qed

lemma scan_split:
  assumes "take n xs = as @ bs" and "\<forall>a \<in> set as. P a" and "bs = [] \<or> \<not> P (hd bs)" and "n \<le> length xs"
  shows "scan P xs n 0 = Inr (length as)"
proof -
  have "takeWhile P (as @ bs) = as" using assms(2,3) by (cases bs) (auto simp: takeWhile_append)
  then show ?thesis using scan_eq [OF assms(4), of 0 P] assms(1) by simp
qed

lemma shift_up_eq:
  assumes "lo \<le> n" and "n < length xs"
  shows "shift_up lo n xs = Inr (take (Suc lo) xs @ drop lo (take n xs) @ drop (Suc n) xs)"
  using assms
proof (induction n arbitrary: xs)
  case 0
  then show ?case by (simp add: id_take_nth_drop [symmetric])
next
  case (Suc n)
  show ?case
  proof (cases "Suc n > lo")
    case True
    define ys where "ys = xs[Suc n := xs ! n]"
    have "shift_up lo n ys = Inr (take (Suc lo) ys @ drop lo (take n ys) @ drop (Suc n) ys)"
      using Suc True by (simp add: ys_def)
    moreover have "take (Suc lo) ys = take (Suc lo) xs" "take n ys = take n xs"
      using True by (simp_all add: ys_def)
    moreover have "drop (Suc n) ys = xs ! n # drop (Suc (Suc n)) xs"
      using Suc.prems by (simp add: ys_def Cons_nth_drop_Suc [symmetric])
    moreover have "drop lo (take (Suc n) xs) = drop lo (take n xs) @ [xs ! n]"
      using Suc.prems True by (simp add: take_Suc_conv_app_nth)
    ultimately show ?thesis using Suc.prems True by (simp add: ys_def [symmetric])
  next
    case False
    then have "lo = Suc n" using Suc.prems by simp
    then show ?thesis using Suc.prems by simp
  qed
qed

lemma shift_up_set:
  assumes "lo \<le> n" and "n < length xs"
  shows "(take (Suc lo) xs @ drop lo (take n xs) @ drop (Suc n) xs)[lo := v]
    = take lo xs @ v # drop lo (take n xs) @ drop (Suc n) xs"
  using assms by (simp add: take_Suc_conv_app_nth list_update_append)

lemma copy_range_eq:
  assumes "i \<le> e" and "e \<le> length src" and "j + (e - i) \<le> length dst"
  shows "copy_range src i e j dst
    = Inr (take j dst @ drop i (take e src) @ drop (j + (e - i)) dst)"
  using assms
proof (induction src i e j dst rule: copy_range.induct)
  case (1 src i e j dst)
  show ?case
  proof (cases "i < e")
    case True
    define d where "d = dst[j := src ! i]"
    have "copy_range src (Suc i) e (Suc j) d
        = Inr (take (Suc j) d @ drop (Suc i) (take e src) @ drop (Suc j + (e - Suc i)) d)"
      using 1 True by (simp add: d_def)
    moreover have "take (Suc j) d = take j dst @ [src ! i]"
      using "1.prems" True by (simp add: d_def take_Suc_conv_app_nth)
    moreover have "drop i (take e src) = src ! i # drop (Suc i) (take e src)"
      using "1.prems" True by (simp add: Cons_nth_drop_Suc [symmetric])
    moreover have "Suc j + (e - Suc i) = j + (e - i)" using True by simp
    then have "drop (Suc j + (e - Suc i)) d = drop (j + (e - i)) dst"
      using True unfolding d_def by (simp only: drop_update_cancel)
    ultimately show ?thesis
      using "1.prems" True by (subst copy_range.simps) (simp add: d_def [symmetric])
  next
    case False
    then show ?thesis using "1.prems" by (subst copy_range.simps) simp
  qed
qed

lemma copy_gap_past: "gap < j \<Longrightarrow> copy_gap gap src n i j dst = copy_range src i n j dst"
proof (induction gap src n i j dst rule: copy_gap.induct)
  case (1 gap src n i j dst)
  then show ?case
    by (subst copy_gap.simps, subst copy_range.simps)
       (auto simp: arr_get_def arr_set_def)
qed

lemma copy_gap_before:
  assumes "i \<le> gap" and "gap \<le> n"
  shows "copy_gap gap src n i i dst
    = bindE (copy_range src i gap i dst) (copy_range src gap n (Suc gap))"
  using assms
proof (induction "gap - i" arbitrary: i dst)
  case 0
  then have "i = gap" by simp
  moreover have "copy_range src gap gap gap dst = Inr dst" by (subst copy_range.simps) simp
  moreover have "copy_gap gap src n gap gap dst = copy_range src gap n (Suc gap) dst"
    by (subst copy_gap.simps, subst copy_range.simps)
       (auto simp: copy_gap_past arr_get_def arr_set_def Let_def)
  ultimately show ?case by simp
next
  case (Suc x)
  then have "copy_gap gap src n (Suc i) (Suc i) d
      = bindE (copy_range src (Suc i) gap (Suc i) d) (copy_range src gap n (Suc gap))" for d
    by simp
  then show ?case
    using Suc by (subst copy_gap.simps, subst copy_range.simps)
       (auto simp: arr_get_def arr_set_def)
qed

lemma copy_gap_eq:
  assumes "gap \<le> n" and "n \<le> length src" and "n < length dst"
  shows "copy_gap gap src n 0 0 dst
    = Inr (take gap src @ dst ! gap # drop gap (take n src) @ drop (Suc n) dst)"
  using assms by (simp add: copy_gap_before copy_range_eq take_Suc_conv_app_nth nth_append)

lemma fill_null_eq:
  assumes "a \<le> b" and "b \<le> length ps"
  shows "fill_null a b ps = Inr (take a ps @ replicate (b - a) NULL @ drop b ps)"
  using assms
proof (induction b rule: dec_induct)
  case base
  then show ?case by (simp add: fill_null_def)
next
  case (step n)
  then have "drop n ps = ps ! n # drop (Suc n) ps" by (simp add: Cons_nth_drop_Suc)
  moreover have "Suc n - a = (n - a) + 1" using step.hyps by simp
  then have "replicate (Suc n - a) NULL = replicate (n - a) NULL @ [NULL]"
    by (metis replicate_add replicate_0 replicate_Suc One_nat_def)
  ultimately show ?case
    using step by (simp add: fill_null_def foldE_append list_update_append)
qed

section \<open>Trees\<close>

datatype btree = Lf addr "(u64 \<times> addr) list" | Nd addr "u64 list" "btree list"

fun root_addr :: "btree \<Rightarrow> addr" where
  "root_addr (Lf p es) = p"
| "root_addr (Nd p ks ts) = p"

fun addrs :: "btree \<Rightarrow> addr list" where
  "addrs (Lf p es) = [p]"
| "addrs (Nd p ks ts) = p # concat (map addrs ts)"

fun leaf_addrs :: "btree \<Rightarrow> addr list" where
  "leaf_addrs (Lf p es) = [p]"
| "leaf_addrs (Nd p ks ts) = concat (map leaf_addrs ts)"

fun contents :: "btree \<Rightarrow> (u64 \<times> addr) list" where
  "contents (Lf p es) = es"
| "contents (Nd p ks ts) = concat (map contents ts)"

text \<open>
  The keys and separators of a tree in order, as numbers: a key \<open>k\<close> of a leaf is
  \<open>2 k + 1\<close> and a separator is \<open>2 k\<close>. The list is strictly increasing exactly when
  the leaves are sorted and every separator is above the keys to its left and not above those
  to its right.
\<close>

definition key_code :: "u64 \<Rightarrow> nat" where
  "key_code k = Suc (2 * unat k)"

definition sep_code :: "u64 \<Rightarrow> nat" where
  "sep_code k = 2 * unat k"

fun inter :: "nat list list \<Rightarrow> u64 list \<Rightarrow> nat list" where
  "inter [] ks = []"
| "inter (x # xs) [] = x"
| "inter (x # xs) (k # ks) = x @ sep_code k # inter xs ks"

fun keyseq :: "btree \<Rightarrow> nat list" where
  "keyseq (Lf p es) = map (\<lambda>e. key_code (fst e)) es"
| "keyseq (Nd p ks ts) = inter (map keyseq ts) ks"

fun lpart :: "nat list list \<Rightarrow> u64 list \<Rightarrow> nat list" where
  "lpart (x # xs) (k # ks) = x @ sep_code k # lpart xs ks"
| "lpart xs ks = []"

fun rpart :: "u64 list \<Rightarrow> nat list list \<Rightarrow> nat list" where
  "rpart (k # ks) (x # xs) = sep_code k # x @ rpart ks xs"
| "rpart ks xs = []"

lemma inter_rpart: "length ks = length xs \<Longrightarrow> inter (x # xs) ks = x @ rpart ks xs"
  by (induction ks xs arbitrary: x rule: list_induct2) auto

lemma inter_lpart:
  "length xsL = length ksL \<Longrightarrow> inter (xsL @ x # xs) (ksL @ ks) = lpart xsL ksL @ inter (x # xs) ks"
  by (induction xsL ksL rule: list_induct2) auto

lemma inter_append:
  "length xs = Suc (length ks) \<Longrightarrow>
   inter (xs @ ys) (ks @ k # ls) = inter xs ks @ sep_code k # inter ys ls"
proof (induction ks arbitrary: xs)
  case Nil
  then obtain x where "xs = [x]" by (cases xs) auto
  then show ?case by simp
next
  case (Cons k' ks)
  then obtain x xs' where "xs = x # xs'" by (cases xs) auto
  then show ?case using Cons by simp
qed

text \<open>The minimum number of keys of a node other than the root, at height \<open>n\<close>.\<close>

definition min_keys_at :: "nat \<Rightarrow> nat \<Rightarrow> nat" where
  "min_keys_at m n = (if n = 0 then cut (m - 1) else cut m - 1)"

text \<open>A balanced tree of height \<open>n\<close> and order \<open>m\<close> whose root has at least \<open>lo\<close> keys.\<close>

fun tshape :: "nat \<Rightarrow> nat \<Rightarrow> nat \<Rightarrow> btree \<Rightarrow> bool" where
  "tshape m lo 0 (Lf p es) \<longleftrightarrow> lo \<le> length es \<and> length es \<le> m - 1"
| "tshape m lo (Suc n) (Nd p ks ts) \<longleftrightarrow> lo \<le> length ks \<and> length ks \<le> m - 1 \<and>
     length ts = Suc (length ks) \<and> (\<forall>t \<in> set ts. tshape m (min_keys_at m n) n t)"
| "tshape m lo n t \<longleftrightarrow> False"

section \<open>Trees in the heap\<close>

type_synonym nheap = "addr \<Rightarrow> bnode option"

definition node_ok :: "nat \<Rightarrow> addr \<Rightarrow> bool \<Rightarrow> u64 list \<Rightarrow> addr list \<Rightarrow> bnode \<Rightarrow> bool" where
  "node_ok m par lf ks ps nd \<longleftrightarrow> is_leaf nd = lf \<and> parent nd = par \<and> num_keys nd = length ks \<and>
     length (keys nd) = m - 1 \<and> length (pointers nd) = m \<and>
     take (length ks) (keys nd) = ks \<and> take (length ps) (pointers nd) = ps"

definition node_at :: "nheap \<Rightarrow> addr \<Rightarrow> (bnode \<Rightarrow> bool) \<Rightarrow> bool" where
  "node_at N p Q \<longleftrightarrow> (case N p of None \<Rightarrow> False | Some nd \<Rightarrow> p \<noteq> NULL \<and> Q nd)"

fun repr :: "nheap \<Rightarrow> nat \<Rightarrow> addr \<Rightarrow> btree \<Rightarrow> bool" where
  "repr N m par (Lf p es) \<longleftrightarrow> node_at N p (node_ok m par True (map fst es) (map snd es))"
| "repr N m par (Nd p ks ts) \<longleftrightarrow> node_at N p (node_ok m par False ks (map root_addr ts)) \<and>
     (\<forall>t \<in> set ts. repr N m p t)"

text \<open>The link of a leaf is its last pointer; the chain of the leaves ends with NULL.\<close>

definition link :: "nheap \<Rightarrow> nat \<Rightarrow> addr \<Rightarrow> addr option" where
  "link N m a = map_option (\<lambda>nd. pointers nd ! (m - 1)) (N a)"

fun chain :: "nheap \<Rightarrow> nat \<Rightarrow> addr list \<Rightarrow> bool" where
  "chain N m [] \<longleftrightarrow> True"
| "chain N m [a] \<longleftrightarrow> link N m a = Some NULL"
| "chain N m (a # b # as) \<longleftrightarrow> link N m a = Some b \<and> chain N m (b # as)"

lemma node_at_cong: "N p = N' p \<Longrightarrow> node_at N p Q = node_at N' p Q"
  by (simp add: node_at_def)

lemma node_atE:
  assumes "node_at N p Q"
  obtains nd where "N p = Some nd" "p \<noteq> NULL" "Q nd"
  using assms by (auto simp: node_at_def split: option.splits)

lemma node_at_Some: "N p = Some nd \<Longrightarrow> node_at N p Q \<longleftrightarrow> p \<noteq> NULL \<and> Q nd"
  by (simp add: node_at_def)

lemma root_in_addrs: "root_addr t \<in> set (addrs t)"
  by (cases t) auto

lemma repr_cong: "(\<And>a. a \<in> set (addrs t) \<Longrightarrow> N a = N' a) \<Longrightarrow> repr N m par t \<longleftrightarrow> repr N' m par t"
proof (induction t arbitrary: par)
  case (Lf p es)
  then show ?case using node_at_cong [of N p N'] by simp
next
  case (Nd p ks ts)
  have "repr N m p t \<longleftrightarrow> repr N' m p t" if "t \<in> set ts" for t
    using that Nd by (intro Nd.IH) auto
  moreover have "N p = N' p" using Nd.prems by simp
  ultimately show ?case using node_at_cong [of N p N'] by simp
qed

lemma repr_root: "repr N m par t \<Longrightarrow> root_addr t \<noteq> NULL \<and> root_addr t \<in> dom N"
  by (cases t) (auto elim!: node_atE)

lemma repr_dom: "repr N m par t \<Longrightarrow> set (addrs t) \<subseteq> dom N"
  by (induction t arbitrary: par) (fastforce elim!: node_atE)+

lemma repr_nonnull: "repr N m par t \<Longrightarrow> NULL \<notin> set (addrs t)"
  by (induction t arbitrary: par) (fastforce elim!: node_atE)+

text \<open>Redirecting the parent pointer of the root.\<close>

lemma repr_reparent:
  assumes "repr N m par t" and "N' (root_addr t) = map_option (\<lambda>nd. nd\<lparr>parent := q\<rparr>) (N (root_addr t))"
    and "\<And>a. a \<in> set (addrs t) \<Longrightarrow> a \<noteq> root_addr t \<Longrightarrow> N' a = N a"
    and "distinct (addrs t)"
  shows "repr N' m q t"
proof (cases t)
  case (Lf p es)
  then show ?thesis using assms by (auto simp: node_at_def node_ok_def split: option.splits)
next
  case (Nd p ks ts)
  have "repr N' m p s = repr N m p s" if "s \<in> set ts" for s
    using that assms(3,4) Nd by (intro repr_cong) auto
  then show ?thesis using assms Nd by (auto simp: node_at_def node_ok_def split: option.splits)
qed

lemma chain_cong: "(\<And>a. a \<in> set as \<Longrightarrow> link N m a = link N' m a) \<Longrightarrow> chain N m as = chain N' m as"
  by (induction N m as rule: chain.induct) auto

section \<open>Contexts\<close>

text \<open>
  A frame is an inner node with a hole among its children: the separators and the children to
  the left of the hole and to the right. A context lists the frames from the hole to the root.
\<close>

datatype frame = Fr addr "u64 list" "btree list" "u64 list" "btree list"

fun plug :: "frame list \<Rightarrow> btree \<Rightarrow> btree" where
  "plug [] t = t"
| "plug (Fr p ksL tsL ksR tsR # c) t = plug c (Nd p (ksL @ ksR) (tsL @ t # tsR))"

fun hole_parent :: "frame list \<Rightarrow> addr" where
  "hole_parent [] = NULL"
| "hole_parent (Fr p ksL tsL ksR tsR # c) = p"

fun crepr :: "nheap \<Rightarrow> nat \<Rightarrow> frame list \<Rightarrow> addr \<Rightarrow> bool" where
  "crepr N m [] a \<longleftrightarrow> True"
| "crepr N m (Fr p ksL tsL ksR tsR # c) a \<longleftrightarrow>
     node_at N p (node_ok m (hole_parent c) False (ksL @ ksR)
       (map root_addr tsL @ a # map root_addr tsR)) \<and>
     (\<forall>t \<in> set tsL \<union> set tsR. repr N m p t) \<and> crepr N m c p"

fun caddrs :: "frame list \<Rightarrow> addr list" where
  "caddrs [] = []"
| "caddrs (Fr p ksL tsL ksR tsR # c) =
     p # concat (map addrs tsL) @ concat (map addrs tsR) @ caddrs c"

fun lseq :: "frame list \<Rightarrow> nat list" where
  "lseq [] = []"
| "lseq (Fr p ksL tsL ksR tsR # c) = lseq c @ lpart (map keyseq tsL) ksL"

fun rseq :: "frame list \<Rightarrow> nat list" where
  "rseq [] = []"
| "rseq (Fr p ksL tsL ksR tsR # c) = rpart ksR (map keyseq tsR) @ rseq c"

fun lcont :: "frame list \<Rightarrow> (u64 \<times> addr) list" where
  "lcont [] = []"
| "lcont (Fr p ksL tsL ksR tsR # c) = lcont c @ concat (map contents tsL)"

fun rcont :: "frame list \<Rightarrow> (u64 \<times> addr) list" where
  "rcont [] = []"
| "rcont (Fr p ksL tsL ksR tsR # c) = concat (map contents tsR) @ rcont c"

fun lleaf :: "frame list \<Rightarrow> addr list" where
  "lleaf [] = []"
| "lleaf (Fr p ksL tsL ksR tsR # c) = lleaf c @ concat (map leaf_addrs tsL)"

fun rleaf :: "frame list \<Rightarrow> addr list" where
  "rleaf [] = []"
| "rleaf (Fr p ksL tsL ksR tsR # c) = concat (map leaf_addrs tsR) @ rleaf c"

definition hole_min :: "nat \<Rightarrow> nat \<Rightarrow> frame list \<Rightarrow> nat" where
  "hole_min m n c = (if c = [] then 1 else min_keys_at m n)"

fun cshape :: "nat \<Rightarrow> nat \<Rightarrow> frame list \<Rightarrow> bool" where
  "cshape m n [] \<longleftrightarrow> True"
| "cshape m n (Fr p ksL tsL ksR tsR # c) \<longleftrightarrow>
     length ksL = length tsL \<and> length ksR = length tsR \<and>
     hole_min m (Suc n) c \<le> length ksL + length ksR \<and> length ksL + length ksR \<le> m - 1 \<and>
     (\<forall>t \<in> set tsL \<union> set tsR. tshape m (min_keys_at m n) n t) \<and> cshape m (Suc n) c"

lemma hole_min_simps [simp]:
  "hole_min m n [] = 1" "hole_min m n (f # c) = min_keys_at m n"
  by (simp_all add: hole_min_def)

lemma repr_plug: "repr N m NULL (plug c t) \<longleftrightarrow> crepr N m c (root_addr t) \<and> repr N m (hole_parent c) t"
  by (induction c t rule: plug.induct) auto

lemma addrs_plug: "mset (addrs (plug c t)) = mset (caddrs c) + mset (addrs t)"
  by (induction c t rule: plug.induct) auto

lemma contents_plug: "contents (plug c t) = lcont c @ contents t @ rcont c"
  by (induction c t rule: plug.induct) auto

lemma leaf_addrs_plug: "leaf_addrs (plug c t) = lleaf c @ leaf_addrs t @ rleaf c"
  by (induction c t rule: plug.induct) auto

lemma keyseq_plug: "cshape m n c \<Longrightarrow> keyseq (plug c t) = lseq c @ keyseq t @ rseq c"
  by (induction c t arbitrary: n rule: plug.induct) (auto simp: inter_lpart inter_rpart)

lemma tshape_plug:
  "tshape m 1 (n + length c) (plug c t) \<longleftrightarrow> cshape m n c \<and> tshape m (hole_min m n c) n t"
  if "\<forall>f \<in> set c. case f of Fr p ksL tsL ksR tsR \<Rightarrow> length ksL = length tsL \<and> length ksR = length tsR"
  using that
proof (induction c t arbitrary: n rule: plug.induct)
  case (2 p ksL tsL ksR tsR c t)
  from 2 show ?case using "2.IH" [of "Suc n"] by (auto simp: hole_min_def)
qed simp

lemma addrs_plug_set: "set (addrs (plug c t)) = set (caddrs c) \<union> set (addrs t)"
  using arg_cong [OF addrs_plug, of set_mset] by simp

lemma addrs_plug_distinct:
  "distinct (addrs (plug c t)) \<longleftrightarrow> distinct (caddrs c @ addrs t)"
  using addrs_plug [of c t] by (intro mset_eq_imp_distinct_iff) simp

lemma crepr_cong:
  "(\<And>a. a \<in> set (caddrs c) \<Longrightarrow> N a = N' a) \<Longrightarrow> crepr N m c x \<longleftrightarrow> crepr N' m c x"
proof (induction c x rule: crepr.induct [of _ N m])
  case (2 N m p ksL tsL ksR tsR c a)
  have "repr N m p t = repr N' m p t" if "t \<in> set tsL \<union> set tsR" for t
    using that "2.prems" by (intro repr_cong) auto
  moreover have "N p = N' p" using "2.prems" by simp
  ultimately show ?case using 2 node_at_cong [of N p N'] by simp
qed simp

lemma crepr_hole_parent: "crepr N m c a \<Longrightarrow> hole_parent c = NULL \<longleftrightarrow> c = []"
  by (cases "(N, m, c, a)" rule: crepr.cases) (auto elim: node_atE)

end
