(* ===== verification/Bpt_Find.thy ===== *)
theory Bpt_Find
  imports Bpt_Tree
begin

text \<open>
  Correctness of the search: from the root of a represented tree, \<^verbatim>\<open>find_leaf\<close> reaches
  the leaf whose range holds the key, and \<^verbatim>\<open>find\<close> returns the record of the key exactly
  when the tree holds one.
\<close>

section \<open>Code numbers\<close>

lemma code_less [simp]:
  "key_code a < key_code b \<longleftrightarrow> a < b" "sep_code a < sep_code b \<longleftrightarrow> a < b"
  "key_code a < sep_code b \<longleftrightarrow> a < b" "sep_code a < key_code b \<longleftrightarrow> a \<le> b"
  by (auto simp: key_code_def sep_code_def word_less_nat_alt word_le_nat_alt)

lemma lpart_less:
  assumes "sorted_wrt (<) (lpart xs ks @ ys)" and "\<forall>k \<in> set ks. sep_code k < b" and "length xs = length ks"
  shows "\<forall>x \<in> set (lpart xs ks). x < b"
  using assms(3,1,2)
proof (induction xs ks rule: list_induct2)
  case (Cons x xs k ks)
  then show ?case by (fastforce simp: sorted_wrt_append)
qed simp

lemma rpart_greater:
  assumes "sorted_wrt (<) (rpart ks xs)" and "ks = [] \<or> b < sep_code (hd ks)"
  shows "\<forall>x \<in> set (rpart ks xs). b < x"
  using assms by (cases ks; cases xs) (auto intro: less_trans)

section \<open>The search for the leaf\<close>

text \<open>The context and leaf a search leads to.\<close>

definition leads_to ::
  "nat \<Rightarrow> u64 \<Rightarrow> btree \<Rightarrow> frame list \<Rightarrow> addr \<Rightarrow> (u64 \<times> addr) list \<Rightarrow> bool" where
  "leads_to m k t c p es \<longleftrightarrow> t = plug c (Lf p es) \<and> cshape m 0 c \<and>
     tshape m (hole_min m 0 c) 0 (Lf p es) \<and>
     (\<forall>x \<in> set (lseq c). x < key_code k) \<and> (\<forall>x \<in> set (rseq c). key_code k < x)"

lemma node_okD:
  assumes "node_ok m par lf ks ps nd"
  shows "is_leaf nd = lf" "parent nd = par" "num_keys nd = length ks"
    "length (keys nd) = m - 1" "length (pointers nd) = m"
    "take (length ks) (keys nd) = ks" "take (length ps) (pointers nd) = ps"
    "length ks \<le> m - 1" "length ps \<le> m"
proof -
  show "is_leaf nd = lf" "parent nd = par" "num_keys nd = length ks"
    "length (keys nd) = m - 1" "length (pointers nd) = m"
    and k: "take (length ks) (keys nd) = ks" and p: "take (length ps) (pointers nd) = ps"
    using assms by (auto simp: node_ok_def)
  show "length ks \<le> m - 1" using arg_cong [OF k, of length] assms by (simp add: node_ok_def)
  show "length ps \<le> m" using arg_cong [OF p, of length] assms by (simp add: node_ok_def)
qed

lemma find_leaf_loop_leads:
  assumes "repr (nodes h) m (hole_parent c) t" and "tshape m (hole_min m n c) n t" and "cshape m n c"
    and "sorted_wrt (<) (lseq c @ keyseq t @ rseq c)"
    and "\<forall>x \<in> set (lseq c). x < key_code k" and "\<forall>x \<in> set (rseq c). key_code k < x"
    and "n < fuel"
  shows "\<exists>c' p es. leads_to m k (plug c t) c' p es \<and> length c' = length c + n \<and>
    find_leaf_loop fuel (root_addr t) k h = Inr p"
  using assms
proof (induction n arbitrary: t c fuel)
  case 0
  obtain p es where t: "t = Lf p es" using "0.prems"(2) by (cases t) auto
  obtain f where "fuel = Suc f" using "0.prems"(7) by (cases fuel) auto
  then have "find_leaf_loop fuel (root_addr t) k h = Inr p"
    using "0.prems"(1) t by (auto elim!: node_atE dest: node_okD)
  then show ?case using 0 t
    by (intro exI [of _ c] exI [of _ p] exI [of _ es]) (simp add: leads_to_def)
next
  case (Suc n)
  obtain p ks ts where t: "t = Nd p ks ts" using Suc.prems(2) by (cases t) auto
  obtain f where f: "fuel = Suc f" "n < f" using Suc.prems(7) by (cases fuel) auto
  have len: "length ts = Suc (length ks)" using Suc.prems(2) t by simp
  obtain nd where nd: "nodes h p = Some nd" "node_ok m (hole_parent c) False ks (map root_addr ts) nd"
    using Suc.prems(1) t by (auto elim: node_atE)
  define ksL where "ksL = takeWhile (\<lambda>x. x \<le> k) ks"
  define ksR where "ksR = dropWhile (\<lambda>x. x \<le> k) ks"
  have ks: "ks = ksL @ ksR" by (simp add: ksL_def ksR_def)
  have R: "ksR = [] \<or> \<not> hd ksR \<le> k" using hd_dropWhile [of "\<lambda>x. x \<le> k" ks] by (auto simp: ksR_def)
  have L: "\<forall>x \<in> set ksL. x \<le> k" by (auto simp: ksL_def dest: set_takeWhileD)
  define i where "i = length ksL"
  have i: "i < length ts" using len ks by (simp add: i_def)
  define tsL u tsR where "tsL = take i ts" and "u = ts ! i" and "tsR = drop (Suc i) ts"
  have ts: "ts = tsL @ u # tsR" using i by (simp add: tsL_def u_def tsR_def id_take_nth_drop)
  have lens: "length ksL = length tsL" "length ksR = length tsR"
    using len ks i by (auto simp: tsL_def tsR_def i_def)
  let ?c = "Fr p ksL tsL ksR tsR # c"
  have pl: "plug ?c u = plug c t" using t ks ts by simp
  have seq: "keyseq t = lpart (map keyseq tsL) ksL @ keyseq u @ rpart ksR (map keyseq tsR)"
    using lens by (simp add: t ks ts inter_lpart inter_rpart)
  have srt: "sorted_wrt (<) (lseq ?c @ keyseq u @ rseq ?c)"
    using Suc.prems(4) by (simp add: seq)
  have "\<forall>x \<in> set (lpart (map keyseq tsL) ksL). x < key_code k"
    by (rule lpart_less [where ys = "[]"]) (use srt L lens in \<open>auto simp: sorted_wrt_append\<close>)
  then have l: "\<forall>x \<in> set (lseq ?c). x < key_code k" using Suc.prems(5) by auto
  have "\<forall>x \<in> set (rpart ksR (map keyseq tsR)). key_code k < x"
    by (rule rpart_greater) (use srt R in \<open>auto simp: sorted_wrt_append\<close>)
  then have r: "\<forall>x \<in> set (rseq ?c). key_code k < x" using Suc.prems(6) by auto
  have "repr (nodes h) m (hole_parent ?c) u" using Suc.prems(1) t ts by simp
  moreover have "tshape m (hole_min m n ?c) n u" using Suc.prems(2) t ts by simp
  moreover have "cshape m n ?c" using Suc.prems(2,3) t ts ks lens by auto
  ultimately obtain c' q es where z: "leads_to m k (plug ?c u) c' q es" "length c' = length ?c + n"
      "find_leaf_loop f (root_addr u) k h = Inr q"
    using Suc.IH [OF _ _ _ srt l r f(2)] by blast
  note d = node_okD [OF nd(2)]
  have "scan (\<lambda>x. x \<le> k) (keys nd) (num_keys nd) 0 = Inr i"
    unfolding i_def by (rule scan_split [where bs = ksR]) (use d ks L R in auto)
  moreover have "pointers nd ! i = root_addr u" "i < m"
  proof -
    have "take (length ts) (pointers nd) ! i = root_addr u" using d(7) i by (simp add: u_def)
    then show "pointers nd ! i = root_addr u" using i by simp
    show "i < m" using i d(9) by simp
  qed
  ultimately have "find_leaf_loop fuel (root_addr t) k h = Inr q"
    using nd(1) d(1,5) z(3) by (simp add: f(1) t)
  then show ?case using z pl by (intro exI [of _ c'] exI [of _ q] exI [of _ es]) simp
qed

section \<open>Contents and keys\<close>

lemma inter_mem: "x \<in> set xs \<Longrightarrow> y \<in> set x \<Longrightarrow> length xs = Suc (length ks) \<Longrightarrow> y \<in> set (inter xs ks)"
proof (induction xs ks rule: inter.induct)
  case (2 x' xs)
  then show ?case by (cases xs) auto
qed auto

lemma lpart_mem: "x \<in> set xs \<Longrightarrow> y \<in> set x \<Longrightarrow> length xs = length ks \<Longrightarrow> y \<in> set (lpart xs ks)"
  by (induction xs ks rule: lpart.induct) auto

lemma rpart_mem: "x \<in> set xs \<Longrightarrow> y \<in> set x \<Longrightarrow> length ks = length xs \<Longrightarrow> y \<in> set (rpart ks xs)"
  by (induction ks xs rule: rpart.induct) auto

lemma contents_keyseq:
  "tshape m lo n t \<Longrightarrow> e \<in> set (contents t) \<Longrightarrow> key_code (fst e) \<in> set (keyseq t)"
proof (induction m lo n t rule: tshape.induct)
  case (2 m lo n p ks ts)
  then show ?case by (fastforce intro: inter_mem)
qed auto

lemma lcont_lseq:
  "cshape m n c \<Longrightarrow> e \<in> set (lcont c) \<Longrightarrow> key_code (fst e) \<in> set (lseq c)"
proof (induction m n c rule: cshape.induct)
  case (2 m n p ksL tsL ksR tsR c)
  then show ?case by (fastforce intro: lpart_mem dest: contents_keyseq)
qed simp

lemma rcont_rseq:
  "cshape m n c \<Longrightarrow> e \<in> set (rcont c) \<Longrightarrow> key_code (fst e) \<in> set (rseq c)"
proof (induction m n c rule: cshape.induct)
  case (2 m n p ksL tsL ksR tsR c)
  then show ?case by (fastforce intro: rpart_mem dest: contents_keyseq)
qed simp

lemma map_of_middle:
  assumes "\<And>e. e \<in> set as \<union> set bs \<Longrightarrow> fst e \<noteq> k"
  shows "map_of (as @ es @ bs) k = map_of es k"
proof -
  have "map_of as k = None" "map_of bs k = None" using assms by (auto simp: map_of_eq_None_iff)
  then show ?thesis by (simp add: map_add_def split: option.splits)
qed

lemma leads_to_map_of:
  assumes "leads_to m k t c p es"
  shows "map_of (contents t) k = map_of es k"
proof -
  have "fst e \<noteq> k" if "e \<in> set (lcont c) \<union> set (rcont c)" for e
    using that assms lcont_lseq [of m 0 c e] rcont_rseq [of m 0 c e] by (auto simp: leads_to_def)
  then have "map_of (lcont c @ es @ rcont c) k = map_of es k" by (rule map_of_middle)
  moreover have "contents t = lcont c @ es @ rcont c"
    using assms by (simp add: leads_to_def contents_plug)
  ultimately show ?thesis by simp
qed

section \<open>The invariant and the map it stands for\<close>

text \<open>
  A tree of height \<open>n\<close> in the heap: its nodes and records are in use and not on the free
  lists, no record is shared, the keys are in order, the leaves are linked from left to right
  and every node has the number of keys a B+ tree of this order requires.
\<close>

definition bpt :: "bheap \<Rightarrow> nat \<Rightarrow> btree \<Rightarrow> bool" where
  "bpt h n t \<longleftrightarrow> repr (nodes h) (order h) NULL t \<and> tshape (order h) 1 n t \<and>
     sorted_wrt (<) (keyseq t) \<and> distinct (addrs t) \<and>
     chain (nodes h) (order h) (leaf_addrs t) \<and> distinct (map snd (contents t)) \<and>
     heap_ok h (set (addrs t)) (snd ` set (contents t)) \<and> 3 \<le> order h"

definition amap :: "bheap \<Rightarrow> btree \<Rightarrow> u64 \<rightharpoonup> u64" where
  "amap h t k = (case map_of (contents t) k of None \<Rightarrow> None | Some r \<Rightarrow> map_option cell (recs h r))"

definition bpt_map :: "bheap \<Rightarrow> addr \<Rightarrow> nat \<Rightarrow> (u64 \<rightharpoonup> u64) \<Rightarrow> bool" where
  "bpt_map h root n M \<longleftrightarrow>
     root = NULL \<and> n = 0 \<and> M = Map.empty \<and> heap_ok h {} {} \<and> 3 \<le> order h \<or>
     (\<exists>t. root = root_addr t \<and> bpt h n t \<and> M = amap h t)"

lemma find_leaf_leads:
  assumes "bpt h n t" and "n < fuel"
  obtains c p es where "leads_to (order h) k t c p es" "length c = n"
    "find_leaf fuel (root_addr t) k h = Inr p"
proof -
  have "root_addr t \<noteq> NULL" using assms(1) repr_root by (auto simp: bpt_def)
  moreover have "\<exists>c p es. leads_to (order h) k t c p es \<and> length c = n \<and>
      find_leaf_loop fuel (root_addr t) k h = Inr p"
    using find_leaf_loop_leads [of h "order h" "[]" t n k fuel] assms by (simp add: bpt_def)
  ultimately show thesis using that by (auto simp: find_leaf_def)
qed

lemma leads_to_leaf:
  assumes "repr N m NULL t" and "leads_to m k t c p es"
  obtains nd where "N p = Some nd" "p \<noteq> NULL" "node_ok m (hole_parent c) True (map fst es) (map snd es) nd"
    "crepr N m c p"
  using assms by (auto simp: leads_to_def repr_plug elim!: node_atE)

lemma leads_to_sorted:
  assumes "sorted_wrt (<) (keyseq t)" and "leads_to m k t c p es"
  shows "sorted_wrt (<) (map fst es)" "sorted_wrt (<) (lseq c @ keyseq (Lf p es) @ rseq c)"
proof -
  show "sorted_wrt (<) (lseq c @ keyseq (Lf p es) @ rseq c)"
    using assms keyseq_plug [of m 0 c "Lf p es"] by (simp add: leads_to_def)
  then show "sorted_wrt (<) (map fst es)" by (auto simp: sorted_wrt_append sorted_wrt_map)
qed

lemma leaf_find:
  assumes "node_ok m par True (map fst es) (map snd es) nd" and "sorted_wrt (<) (map fst es)"
  shows "(\<exists>i < length es. scan (\<lambda>x. x \<noteq> k) (keys nd) (num_keys nd) 0 = Inr i \<and> i < m \<and>
            map_of es k = Some (pointers nd ! i)) \<or>
         scan (\<lambda>x. x \<noteq> k) (keys nd) (num_keys nd) 0 = Inr (num_keys nd) \<and> map_of es k = None"
proof -
  note d = node_okD [OF assms(1)]
  define i where "i = length (takeWhile (\<lambda>x. x \<noteq> k) (map fst es))"
  have s: "scan (\<lambda>x. x \<noteq> k) (keys nd) (num_keys nd) 0 = Inr i"
    using d by (simp add: scan_eq i_def)
  show ?thesis
  proof (cases "i < length es")
    case True
    then have "fst (es ! i) = k"
      using nth_length_takeWhile [of "\<lambda>x. x \<noteq> k" "map fst es"] by (simp add: i_def)
    moreover have "distinct (map fst es)" using assms(2) by (simp add: strict_sorted_iff)
    ultimately have "map_of es k = Some (snd (es ! i))"
      using True by (metis map_of_is_SomeI nth_mem prod.collapse)
    moreover have "take (length es) (pointers nd) ! i = snd (es ! i)" using d(7) True by simp
    moreover have "i < m" using True d(8) by simp
    ultimately show ?thesis using s True by auto
  next
    case False
    then have i: "i = length es"
      using length_takeWhile_le [of "\<lambda>x. x \<noteq> k" "map fst es"] by (simp add: i_def)
    then have "takeWhile (\<lambda>x. x \<noteq> k) (map fst es) = map fst es"
      using takeWhile_eq_take [of "\<lambda>x. x \<noteq> k" "map fst es"] by (simp add: i_def)
    then have "k \<notin> set (map fst es)" using set_takeWhileD [of k "\<lambda>x. x \<noteq> k" "map fst es"] by auto
    then have "map_of es k = None" by (simp add: map_of_eq_None_iff)
    then show ?thesis using s d(3) i by simp
  qed
qed

lemma find_bpt_spec:
  assumes "bpt h n t" and "n < fuel"
  obtains p where "find_bpt fuel (root_addr t) k h
      = Inr (case map_of (contents t) k of None \<Rightarrow> NULL | Some r \<Rightarrow> r, p)"
    and "find_leaf fuel (root_addr t) k h = Inr p"
proof -
  obtain c p es where z: "leads_to (order h) k t c p es" "find_leaf fuel (root_addr t) k h = Inr p"
    using find_leaf_leads [OF assms] by metis
  have r: "repr (nodes h) (order h) NULL t" and srt: "sorted_wrt (<) (keyseq t)"
    using assms(1) by (auto simp: bpt_def)
  obtain nd where nd: "nodes h p = Some nd"
      "node_ok (order h) (hole_parent c) True (map fst es) (map snd es) nd"
    using leads_to_leaf [OF r z(1)] by metis
  have "root_addr t \<noteq> NULL" using r repr_root by blast
  moreover note leaf_find [OF nd(2) leads_to_sorted(1) [OF srt z(1)], of k]
  ultimately have "find_bpt fuel (root_addr t) k h
      = Inr (case map_of (contents t) k of None \<Rightarrow> NULL | Some r \<Rightarrow> r, p)"
    using z nd node_okD(3,5) [OF nd(2)] leads_to_map_of [OF z(1)]
    by (auto simp: find_bpt_def)
  then show thesis using that z(2) by blast
qed

lemma contents_rec:
  assumes "bpt h n t" and "map_of (contents t) k = Some r"
  shows "r \<noteq> NULL" "\<exists>rc. recs h r = Some rc"
proof -
  have "r \<in> snd ` set (contents t)" using map_of_SomeD [OF assms(2)] by force
  then show "r \<noteq> NULL" "\<exists>rc. recs h r = Some rc" using assms(1) by (auto simp: bpt_def heap_ok_def)
qed

end
