(* ===== verification/Bpt_Insert_Correct.thy ===== *)
theory Bpt_Insert_Correct
  imports Bpt_Find
begin

text \<open>
  Correctness of insertion: each step of \<^verbatim>\<open>insert\<close> on the heap, the propagation of a
  split towards the root by induction on the context, and the theorem that \<^verbatim>\<open>insert\<close>
  updates the map the tree stands for and keeps the invariant.
\<close>

section \<open>Inserting into and splitting arrays\<close>

declare shift_up.simps [simp del]

lemma take_prefix:
  assumes "take n xs = as @ bs" and "length as \<le> n"
  shows "take (length as) xs = as"
proof -
  have "take (length as) xs = take (length as) (take n xs)" using assms(2) by (simp add: min_def)
  also have "\<dots> = as" unfolding assms(1) by simp
  finally show ?thesis .
qed

lemma shift_insert:
  assumes "take n xs = as @ bs" and "n = length as + length bs" and "n < length xs"
  obtains ys where "shift_up (length as) n xs = Inr ys" "length ys = length xs"
    "ys[length as := v] = as @ v # bs @ drop (Suc n) xs"
proof
  let ?ys = "take (Suc (length as)) xs @ drop (length as) (take n xs) @ drop (Suc n) xs"
  show "shift_up (length as) n xs = Inr ?ys" using assms by (intro shift_up_eq) auto
  show "length ?ys = length xs" using assms by simp
  have "take (length as) xs = as" using assms by (intro take_prefix) auto
  then show "?ys[length as := v] = as @ v # bs @ drop (Suc n) xs"
    using assms shift_up_set [of "length as" n xs v] by simp
qed

lemma gap_insert:
  assumes "take n src = as @ bs" and "n = length as + length bs" and "n \<le> length src" and "n < length dst"
  obtains ys where "copy_gap (length as) src n 0 0 dst = Inr ys" "length ys = length dst"
    "ys[length as := v] = as @ v # bs @ drop (Suc n) dst"
proof
  let ?ys = "take (length as) src @ dst ! length as # drop (length as) (take n src) @ drop (Suc n) dst"
  show "copy_gap (length as) src n 0 0 dst = Inr ?ys" using assms by (intro copy_gap_eq) auto
  show "length ?ys = length dst" using assms by simp
  have "take (length as) src = as" using assms by (intro take_prefix) auto
  then show "?ys[length as := v] = as @ v # bs @ drop (Suc n) dst"
    using assms by (simp add: list_update_append)
qed

lemma replicate_update_last: "(replicate (Suc n) z)[n := v] = replicate n z @ [v]"
  by (induction n) auto

lemma drop_last:
  assumes "length xs = Suc n" and "s \<le> n"
  shows "drop s xs = drop s (take n xs) @ [xs ! n]"
proof -
  have "xs = take n xs @ [xs ! n]" using take_Suc_conv_app_nth [of n xs] assms by simp
  then have "drop s xs = drop s (take n xs @ [xs ! n])" by simp
  then show ?thesis using assms by simp
qed

lemma cut_bounds:
  assumes "3 \<le> m"
  shows "1 \<le> cut (m - 1)" "cut (m - 1) \<le> m - 1" "cut (m - 1) \<le> m - cut (m - 1)" "m - cut (m - 1) \<le> m - 1"
    "2 \<le> cut m" "cut m \<le> m - 1" "cut m - 1 \<le> m - cut m" "m - cut m \<le> m - 1"
    "cut (m - 1) < m" "cut m < m"
proof -
  have "2 * cut x = x \<or> 2 * cut x = Suc x" for x unfolding cut_def by presburger
  from this [of "m - 1"] this [of m] assms
  show "1 \<le> cut (m - 1)" "cut (m - 1) \<le> m - 1" "cut (m - 1) \<le> m - cut (m - 1)" "m - cut (m - 1) \<le> m - 1"
    "2 \<le> cut m" "cut m \<le> m - 1" "cut m - 1 \<le> m - cut m" "m - cut m \<le> m - 1"
    "cut (m - 1) < m" "cut m < m" by linarith+
qed

section \<open>Insertion into a node with room\<close>

lemma insert_into_leaf_spec:
  assumes nd: "nodes h p = Some nd" and ok: "node_ok m par True (map fst (esL @ esR)) (map snd (esL @ esR)) nd"
    and full: "length (esL @ esR) < m - 1"
    and L: "\<forall>e \<in> set esL. fst e < k" and R: "esR = [] \<or> k < fst (hd esR)"
  obtains nd' where "insert_into_leaf p k r h = Inr (p, put_node p nd' h)"
    "node_ok m par True (map fst (esL @ (k, r) # esR)) (map snd (esL @ (k, r) # esR)) nd'"
    "pointers nd' ! (m - 1) = pointers nd ! (m - 1)"
proof -
  note d = node_okD [OF ok]
  let ?n = "length (esL @ esR)"
  obtain ks where ks: "shift_up (length esL) ?n (keys nd) = Inr ks" "length ks = m - 1"
      "ks[length esL := k] = map fst esL @ k # map fst esR @ drop (Suc ?n) (keys nd)"
    using d full by (auto intro: shift_insert [of ?n "keys nd" "map fst esL" "map fst esR" k])
  obtain ps where ps: "shift_up (length esL) ?n (pointers nd) = Inr ps" "length ps = m"
      "ps[length esL := r] = map snd esL @ r # map snd esR @ drop (Suc ?n) (pointers nd)"
    using d full by (auto intro: shift_insert [of ?n "pointers nd" "map snd esL" "map snd esR" r])
  have "scan (\<lambda>x. x < k) (keys nd) (num_keys nd) 0 = Inr (length (map fst esL))"
    by (rule scan_split [where bs = "map fst esR"]) (use d L R in \<open>auto simp: hd_map\<close>)
  then have "insert_into_leaf p k r h = Inr (p, put_node p (nd\<lparr>keys := ks[length esL := k],
      pointers := ps[length esL := r], num_keys := num_keys nd + 1\<rparr>) h)"
    using nd d(3) ks ps full by (simp add: insert_into_leaf_def)
  then show thesis
    by (rule that)
       (use d full in \<open>auto simp: ks ps node_ok_def nth_append
         intro!: arg_cong [where f = "(!) (pointers nd)"]\<close>)
qed

lemma insert_into_node_spec:
  assumes nd: "nodes h p = Some nd" and ok: "node_ok m par False (ksL @ ksR) (psL @ a # psR) nd"
    and len: "length psL = length ksL" "length psR = length ksR"
    and full: "length (ksL @ ksR) < m - 1"
  obtains nd' where "insert_into_node root p (length ksL) k r h = Inr (root, put_node p nd' h)"
    "node_ok m par False (ksL @ k # ksR) (psL @ a # r # psR) nd'"
proof -
  note d = node_okD [OF ok]
  let ?n = "length (ksL @ ksR)"
  obtain ks where ks: "shift_up (length ksL) ?n (keys nd) = Inr ks" "length ks = m - 1"
      "ks[length ksL := k] = ksL @ k # ksR @ drop (Suc ?n) (keys nd)"
    using d full by (auto intro: shift_insert [of ?n "keys nd" ksL ksR k])
  obtain ps where ps: "shift_up (Suc (length ksL)) (Suc ?n) (pointers nd) = Inr ps" "length ps = m"
      "ps[Suc (length ksL) := r] = psL @ a # r # psR @ drop (Suc (Suc ?n)) (pointers nd)"
    using d full len by (auto intro: shift_insert [of "Suc ?n" "pointers nd" "psL @ [a]" psR r])
  have "insert_into_node root p (length ksL) k r h = Inr (root, put_node p (nd\<lparr>keys := ks[length ksL := k],
      pointers := ps[Suc (length ksL) := r], num_keys := num_keys nd + 1\<rparr>) h)"
    using nd d(3) ks ps full by (simp add: insert_into_node_def)
  then show thesis
    by (rule that) (use d full len in \<open>auto simp: ks ps node_ok_def\<close>)
qed

section \<open>Splitting\<close>

text \<open>Memory for a split: a node and two temporary arrays.\<close>

definition split_cost :: "nat \<Rightarrow> nat" where
  "split_cost m = node_cost m + 2 * (64 + (m + 1) * 8)"

lemma allocate_align64_spec:
  assumes "heap_ok h U V" and "room h (b + (64 + sz))"
  obtains p h' where "allocate_align64 sz h = Inr (p, h')" "nodes h' = nodes h" "recs h' = recs h"
    "order h' = order h" "heap_ok h' U V" "room h' b"
proof -
  obtain p st where *: "allocate_aligned 64 sz h = Inr (p, h\<lparr>brk := p + sz, allocator_stat := st\<rparr>)"
      "brk h \<le> p" "room (h\<lparr>brk := p + sz, allocator_stat := st\<rparr>) b"
    using assms(2) by (rule allocate_aligned_room [rotated]) simp_all
  then show thesis
    using that [of p "h\<lparr>brk := p + sz, allocator_stat := st\<rparr>"] heap_ok_brk [OF assms(1), of "p + sz" st]
    by (simp add: allocate_align64_def)
qed

text \<open>The arrays a leaf split computes, without the heap around them.\<close>

lemma split_leaf_arrays:
  assumes ok: "node_ok m par True (map fst (esL @ esR)) (map snd (esL @ esR)) nd"
    and len: "length (esL @ esR) = m - 1" and m: "3 \<le> m"
    and s: "s = cut (m - 1)" and al: "al = esL @ (k, r) # esR"
  obtains tk tp where
    "copy_gap (length esL) (keys nd) (num_keys nd) 0 0 (replicate (m + 1) 0) = Inr tk"
    "copy_gap (length esL) (pointers nd) (num_keys nd) 0 0 (replicate (m + 1) NULL) = Inr tp"
    "length tk = m + 1" "length tp = m + 1"
    "tk[length esL := k] = map fst al @ [0]" "tp[length esL := r] = map snd al @ [NULL]"
    "copy_range (map snd al @ [NULL]) 0 s 0 (pointers nd) = Inr (map snd (take s al) @ drop s (pointers nd))"
    "copy_range (map fst al @ [0]) 0 s 0 (keys nd) = Inr (map fst (take s al) @ drop s (keys nd))"
    "copy_range (map snd al @ [NULL]) s m 0 (replicate m NULL)
       = Inr (map snd (drop s al) @ replicate s NULL)"
    "copy_range (map fst al @ [0]) s m 0 (replicate (m - 1) 0)
       = Inr (map fst (drop s al) @ replicate (s - 1) 0)"
proof -
  note d = node_okD [OF ok]
  have sb: "1 \<le> s" "s \<le> m - 1" "s < m" using cut_bounds [OF m, folded s] by blast+
  have mm: "m = Suc (length esL + length esR)" using len m by simp
  then have l: "length al = m" by (simp add: al)
  obtain tk where tk: "copy_gap (length esL) (keys nd) (num_keys nd) 0 0 (replicate (m + 1) 0) = Inr tk"
      "length tk = m + 1" "tk[length esL := k] = map fst al @ [0]"
  proof -
    let ?n = "length esL + length esR" and ?z = "replicate (m + 1) 0"
    have t: "take ?n (keys nd) = map fst esL @ map fst esR" using d(6) by simp
    obtain ys where "copy_gap (length (map fst esL)) (keys nd) ?n 0 0 ?z = Inr ys"
        "length ys = length ?z"
        "ys[length (map fst esL) := k] = map fst esL @ k # map fst esR @ drop (Suc ?n) ?z"
      by (rule gap_insert [OF t, where dst = ?z and v = k]) (use d(4) mm in auto)
    moreover have "drop (Suc ?n) ?z = [0]" unfolding drop_replicate mm by simp
    ultimately show thesis using that [of ys] d(3) mm by (simp add: al)
  qed
  obtain tp where tp: "copy_gap (length esL) (pointers nd) (num_keys nd) 0 0 (replicate (m + 1) NULL) = Inr tp"
      "length tp = m + 1" "tp[length esL := r] = map snd al @ [NULL]"
  proof -
    let ?n = "length esL + length esR" and ?z = "replicate (m + 1) NULL"
    have t: "take ?n (pointers nd) = map snd esL @ map snd esR" using d(7) by simp
    obtain ys where "copy_gap (length (map snd esL)) (pointers nd) ?n 0 0 ?z = Inr ys"
        "length ys = length ?z"
        "ys[length (map snd esL) := r] = map snd esL @ r # map snd esR @ drop (Suc ?n) ?z"
      by (rule gap_insert [OF t, where dst = ?z and v = r]) (use d(5) mm in auto)
    moreover have "drop (Suc ?n) ?z = [NULL]" unfolding drop_replicate mm by simp
    ultimately show thesis using that [of ys] d(3) mm by (simp add: al)
  qed
  show thesis
    by (rule that [OF tk(1) tp(1) tk(2) tp(2) tk(3) tp(3)])
       (use d(4,5) l sb in \<open>simp_all add: copy_range_eq take_map drop_map\<close>)
qed

lemma split_leaf_spec:
  assumes ok: "heap_ok h U V" and p: "p \<in> U" and nd: "nodes h p = Some nd"
    and nok: "node_ok (order h) par True (map fst (esL @ esR)) (map snd (esL @ esR)) nd"
    and len: "length (esL @ esR) = order h - 1" and m: "3 \<le> order h"
    and L: "\<forall>e \<in> set esL. fst e < k" and R: "esR = [] \<or> k < fst (hd esR)"
    and room: "room h (b + split_cost (order h))"
    and s: "s = cut (order h - 1)" and al: "al = esL @ (k, r) # esR"
  obtains q h' where "split_leaf p k r h = Inr (fst (al ! s), q, h')" "q \<notin> U" "q \<noteq> NULL"
    "heap_ok h' (Set.insert q U) V" "keeps (U - {p}) V h h'" "room h' b"
    "repr (nodes h') (order h) par (Lf p (take s al))" "repr (nodes h') (order h) par (Lf q (drop s al))"
    "link (nodes h') (order h) p = Some q" "link (nodes h') (order h) q = link (nodes h) (order h) p"
proof -
  define m where "m = order h"
  have sb: "1 \<le> s" "s \<le> m - 1" "s < m" using cut_bounds [OF m, folded s m_def] by blast+
  have al_len: "length al = m" using len m by (simp add: al m_def)
  have "room h ((b + (64 + (m + 1) * 8) + (64 + (m + 1) * 8)) + node_cost (order h))"
    using room by (simp add: room_def split_cost_def m_def)
  then obtain q h1 where h1: "make_leaf h = Inr (q, h1)" "q \<notin> U" "q \<noteq> NULL"
      "nodes h1 q = Some (fresh_node (order h) True)" "heap_ok h1 (Set.insert q U) V" "keeps U V h h1"
      "room h1 (b + (64 + (m + 1) * 8) + (64 + (m + 1) * 8))"
    by (rule make_leaf_spec [OF ok])
  obtain p2 h2 where h2: "allocate_align64 ((m + 1) * 8) h1 = Inr (p2, h2)" "nodes h2 = nodes h1"
      "recs h2 = recs h1" "order h2 = order h1" "heap_ok h2 (Set.insert q U) V" "room h2 (b + (64 + (m + 1) * 8))"
    by (rule allocate_align64_spec [OF h1(5,7)])
  obtain p3 h3 where h3: "allocate_align64 ((m + 1) * 8) h2 = Inr (p3, h3)" "nodes h3 = nodes h2"
      "recs h3 = recs h2" "order h3 = order h2" "heap_ok h3 (Set.insert q U) V" "room h3 b"
    by (rule allocate_align64_spec [OF h2(5,6)])
  have ord: "order h1 = m" "order h2 = m" "order h3 = m"
    using h1(6) h2(4) h3(4) by (simp_all add: keeps_def m_def)
  have n3: "nodes h3 p = Some nd" "nodes h3 q = Some (fresh_node m True)"
    using h1(4,6) h2(2) h3(2) nd p by (simp_all add: keeps_def m_def)
  obtain tk tp where arr:
    "copy_gap (length esL) (keys nd) (num_keys nd) 0 0 (replicate (m + 1) 0) = Inr tk"
    "copy_gap (length esL) (pointers nd) (num_keys nd) 0 0 (replicate (m + 1) NULL) = Inr tp"
    "length tk = m + 1" "length tp = m + 1"
    "tk[length esL := k] = map fst al @ [0]" "tp[length esL := r] = map snd al @ [NULL]"
    "copy_range (map snd al @ [NULL]) 0 s 0 (pointers nd) = Inr (map snd (take s al) @ drop s (pointers nd))"
    "copy_range (map fst al @ [0]) 0 s 0 (keys nd) = Inr (map fst (take s al) @ drop s (keys nd))"
    "copy_range (map snd al @ [NULL]) s m 0 (replicate m NULL)
       = Inr (map snd (drop s al) @ replicate s NULL)"
    "copy_range (map fst al @ [0]) s m 0 (replicate (m - 1) 0)
       = Inr (map fst (drop s al) @ replicate (s - 1) 0)"
    by (rule split_leaf_arrays [OF nok len m s al]) (use m_def in blast)
  note d = node_okD [OF nok, folded m_def]
  have R': "map fst esR = [] \<or> \<not> hd (map fst esR) < k" using R by (cases esR) auto
  have sc: "scan (\<lambda>x. x < k) (keys nd) (m - 1) 0 = Inr (length esL)"
    using scan_split [where as = "map fst esL" and bs = "map fst esR" and P = "\<lambda>x. x < k"
        and n = "m - 1" and xs = "keys nd"] d(4,6) len L R' by (simp add: m_def)
  define lk where "lk = pointers nd ! (m - 1)"
  have mg: "length esL < m" using len m by (simp add: m_def)
  have dl: "drop s (pointers nd) = drop s (take (m - 1) (pointers nd)) @ [lk]"
    using sb d(5) m unfolding lk_def by (intro drop_last) auto
  define nd' where "nd' = nd\<lparr>pointers := map snd (take s al) @ replicate (m - 1 - s) NULL @ [q],
      keys := map fst (take s al) @ drop s (keys nd), num_keys := s\<rparr>"
  define nl' where "nl' = (fresh_node m True)\<lparr>pointers := map snd (drop s al) @ replicate (s - 1) NULL @ [lk],
      keys := map fst (drop s al) @ replicate (s - 1) 0, num_keys := m - s, parent := parent nd\<rparr>"
  define h' where "h' = put_node q nl' (put_node p nd' h3)"
  have s': "cut (m - Suc 0) = s" by (simp add: s m_def)
  have fl: "fill_null s (m - 1) (map snd (take s al) @ drop s (take (m - 1) (pointers nd)) @ [q])
      = Inr (pointers nd')" "fill_null (m - s) (m - 1) (map snd (drop s al) @ replicate (s - 1) NULL @ [lk])
      = Inr (pointers nl')"
    using sb al_len d(5) by (simp_all add: fill_null_eq nd'_def nl'_def)
  obtain s1 where s1: "s = Suc s1" using sb(1) by (cases s) auto
  have nlt: "\<not> m - Suc 0 < m - s" using sb by simp
  then have up: "arr_set (map snd (drop s al) @ replicate s NULL) (m - 1) lk
        = Inr (map snd (drop s al) @ replicate (s - 1) NULL @ [lk])"
    "arr_get (map snd (take s al) @ drop s (pointers nd)) (m - 1) = Inr lk"
    "arr_set (map snd (take s al) @ drop s (pointers nd)) (m - 1) q
        = Inr (map snd (take s al) @ drop s (take (m - 1) (pointers nd)) @ [q])"
    "arr_get (map fst (drop s al) @ replicate (s - 1) 0) 0 = Inr (fst (al ! s))"
    using sb al_len d(5) unfolding dl
    by (simp_all add: arr_get_def arr_set_def nth_append list_update_append s1
        replicate_update_last del: replicate_Suc)
  have i: "length esL < length tk" "length esL < length tp" using mg arr(3,4) by simp_all
  have fr: "pointers (fresh_node m True) = replicate m NULL" "keys (fresh_node m True) = replicate (m - 1) 0"
      "num_keys (fresh_node m True) = 0" by (simp_all add: fresh_node_def)
  have sp: "pointers nd' = map snd (take s al) @ replicate (m - 1 - s) NULL @ [q]"
      "pointers nl' = map snd (drop s al) @ replicate (s - 1) NULL @ [lk]"
    by (simp_all add: nd'_def nl'_def)
  have "split_leaf p k r h = Inr (fst (al ! s), q, h')"
    unfolding split_leaf_def
    by (simp only: ord h1(1) h2(1) h3(1) bindE.simps prod.case n3 [THEN get_node_Some] sc arr
        i [THEN arr_set_in] s' [unfolded One_nat_def [symmetric]] Let_def up fl [unfolded sp] fr add_0
        nd'_def [symmetric] nl'_def [symmetric] h'_def [symmetric])
  moreover have pq: "p \<noteq> q" "p \<noteq> NULL" using p h1(2) ok by (auto simp: heap_ok_def)
  moreover have "heap_ok h' (Set.insert q U) V"
    unfolding h'_def by (intro heap_ok_put h3) (use p in auto)
  moreover have "keeps (U - {p}) V h h'"
    using h1(2,6) h2 h3 by (auto simp: keeps_def h'_def)
  moreover have "repr (nodes h') (order h) par (Lf p (take s al))"
    using pq sb al_len d(1,2,4) by (simp add: h'_def node_at_def node_ok_def nd'_def flip: m_def)
  moreover have "repr (nodes h') (order h) par (Lf q (drop s al))"
    using sb al_len d(2) h1(3)
    by (simp add: h'_def node_at_def node_ok_def nl'_def fresh_node_def flip: m_def)
  moreover have "link (nodes h') (order h) p = Some q" "link (nodes h') (order h) q = link (nodes h) (order h) p"
    using pq sb al_len nd nlt
    by (simp_all add: h'_def link_def nd'_def nl'_def nth_append flip: m_def) (simp add: lk_def)
  moreover have "room h' b" using h3(6) by (simp add: h'_def room_def)
  ultimately show thesis using that h1(2,3) by blast
qed

text \<open>The loop that makes a list of nodes children of \<open>q\<close>.\<close>

definition set_parents :: "addr \<Rightarrow> addr set \<Rightarrow> bheap \<Rightarrow> bheap" where
  "set_parents q A h = h\<lparr>nodes := (\<lambda>a. if a \<in> A then map_option (\<lambda>nd. nd\<lparr>parent := q\<rparr>) (nodes h a)
     else nodes h a)\<rparr>"

lemma set_parents_sel [simp]:
  "recs (set_parents q A h) = recs h" "brk (set_parents q A h) = brk h"
  "limit (set_parents q A h) = limit h" "free_nodes (set_parents q A h) = free_nodes h"
  "free_recs (set_parents q A h) = free_recs h" "order (set_parents q A h) = order h"
  by (simp_all add: set_parents_def)

lemma set_parents_loop:
  assumes "n \<le> length ps" and "set (take n ps) \<subseteq> dom (nodes h)"
  shows "foldE (\<lambda>i h. bindE (arr_get ps i) (\<lambda>child. upd_node child (\<lambda>nd. nd\<lparr>parent := q\<rparr>) h)) [0..<n] h
    = Inr (set_parents q (set (take n ps)) h)"
  using assms
proof (induction n)
  case 0
  then show ?case by (simp add: set_parents_def)
next
  case (Suc n)
  then have n: "n < length ps" and "ps ! n \<in> dom (nodes h)"
    by (auto simp: take_Suc_conv_app_nth)
  then obtain nd where nd: "nodes h (ps ! n) = Some nd" by auto
  have *: "set (take (Suc n) ps) = Set.insert (ps ! n) (set (take n ps))"
    using n by (simp add: take_Suc_conv_app_nth)
  have "put_node (ps ! n) ((if ps ! n \<in> set (take n ps) then nd\<lparr>parent := q\<rparr> else nd)\<lparr>parent := q\<rparr>)
      (set_parents q (set (take n ps)) h) = set_parents q (set (take (Suc n) ps)) h"
    unfolding * using nd by (cases h) (auto simp: put_node_def set_parents_def fun_eq_iff)
  moreover have "nodes (set_parents q (set (take n ps)) h) (ps ! n)
      = Some (if ps ! n \<in> set (take n ps) then nd\<lparr>parent := q\<rparr> else nd)"
    using nd by (simp add: set_parents_def)
  ultimately show ?case using Suc n * by (simp add: foldE_append)
qed

lemma flist_cong: "(\<And>a. a \<in> set F \<Longrightarrow> N a = N' a) \<Longrightarrow> flist N q F = flist N' q F"
  by (induction F arbitrary: q) (auto split: option.splits)

lemma heap_ok_set_parents:
  assumes "heap_ok h U V" and "A \<subseteq> U"
  shows "heap_ok (set_parents q A h) U V"
proof -
  obtain F where F: "flist (nodes h) (free_nodes h) F" "distinct F" "set F \<inter> U = {}"
    using assms(1) by (auto simp: heap_ok_def)
  have "flist (nodes (set_parents q A h)) (free_nodes h) F = flist (nodes h) (free_nodes h) F"
    by (rule flist_cong) (use F(3) assms(2) in \<open>auto simp: set_parents_def\<close>)
  moreover have "dom (nodes (set_parents q A h)) = dom (nodes h)"
    by (auto simp: set_parents_def dom_def)
  ultimately show ?thesis
    using assms(1) F unfolding heap_ok_def by auto
qed

lemma split_node_arrays:
  assumes ok: "node_ok m par False (ksL @ ksR) (psL @ a # psR) nd"
    and l: "length psL = length ksL" "length psR = length ksR"
    and len: "length (ksL @ ksR) = m - 1" and m: "3 \<le> m"
    and s: "s = cut m" and KS: "KS = ksL @ k # ksR" and PS: "PS = psL @ a # r # psR"
  obtains tk tp where
    "copy_gap (length ksL) (keys nd) (num_keys nd) 0 0 (replicate m 0) = Inr tk"
    "copy_gap (length ksL + 1) (pointers nd) (num_keys nd + 1) 0 0 (replicate (m + 1) NULL) = Inr tp"
    "length tk = m" "length tp = m + 1" "tk[length ksL := k] = KS" "tp[length ksL + 1 := r] = PS"
    "copy_range PS 0 (s - 1) 0 (pointers nd) = Inr (take (s - 1) PS @ drop (s - 1) (pointers nd))"
    "copy_range KS 0 (s - 1) 0 (keys nd) = Inr (take (s - 1) KS @ drop (s - 1) (keys nd))"
    "(take (s - 1) PS @ drop (s - 1) (pointers nd))[s - 1 := PS ! (s - 1)] = take s PS @ drop s (pointers nd)"
    "copy_range PS s m 0 (replicate m NULL) = Inr (drop s (take m PS) @ replicate s NULL)"
    "copy_range KS s m 0 (replicate (m - 1) 0) = Inr (drop s KS @ replicate (s - 1) 0)"
    "(drop s (take m PS) @ replicate s NULL)[m - s := PS ! m] = drop s PS @ replicate (s - 1) NULL"
proof -
  note d = node_okD [OF ok]
  have sb: "1 \<le> s" "s - 1 \<le> m - 1" "s < m" using cut_bounds [OF m, folded s] by auto
  have mm: "m = Suc (length ksL + length ksR)" using len m by simp
  have pl: "length PS = m + 1" "length KS = m" using mm l by (simp_all add: PS KS)
  obtain tk where tk: "copy_gap (length ksL) (keys nd) (num_keys nd) 0 0 (replicate m 0) = Inr tk"
      "length tk = m" "tk[length ksL := k] = KS"
  proof -
    let ?n = "length ksL + length ksR" and ?z = "replicate m 0"
    have t: "take ?n (keys nd) = ksL @ ksR" using d(6) by simp
    obtain ys where "copy_gap (length ksL) (keys nd) ?n 0 0 ?z = Inr ys" "length ys = length ?z"
        "ys[length ksL := k] = ksL @ k # ksR @ drop (Suc ?n) ?z"
      by (rule gap_insert [OF t, where dst = ?z and v = k]) (use d(4) mm in auto)
    moreover have "drop (Suc ?n) ?z = []" unfolding drop_replicate mm by simp
    ultimately show thesis using that [of ys] d(3) by (simp add: KS)
  qed
  obtain tp where tp: "copy_gap (length ksL + 1) (pointers nd) (num_keys nd + 1) 0 0 (replicate (m + 1) NULL) = Inr tp"
      "length tp = m + 1" "tp[length ksL + 1 := r] = PS"
  proof -
    let ?n = "Suc (length ksL + length ksR)" and ?z = "replicate (m + 1) NULL"
    have t: "take ?n (pointers nd) = (psL @ [a]) @ psR" using d(7) l by simp
    obtain ys where "copy_gap (length (psL @ [a])) (pointers nd) ?n 0 0 ?z = Inr ys" "length ys = length ?z"
        "ys[length (psL @ [a]) := r] = (psL @ [a]) @ r # psR @ drop (Suc ?n) ?z"
      by (rule gap_insert [OF t, where dst = ?z and v = r]) (use d(5) mm l in auto)
    moreover have "drop (Suc ?n) ?z = []" unfolding drop_replicate mm by simp
    ultimately show thesis using that [of ys] d(3) l by (simp add: PS)
  qed
  obtain s1 where s1: "s = Suc s1" using sb(1) by (cases s) auto
  have up1: "(take (s - 1) PS @ drop (s - 1) (pointers nd))[s - 1 := PS ! (s - 1)] = take s PS @ drop s (pointers nd)"
    using sb pl d(5) by (simp add: s1 list_update_append take_Suc_conv_app_nth Cons_nth_drop_Suc [symmetric])
  have "drop s PS = drop s (take m PS) @ [PS ! m]"
    using sb pl by (intro drop_last) auto
  then have up2: "(drop s (take m PS) @ replicate s NULL)[m - s := PS ! m] = drop s PS @ replicate (s - 1) NULL"
    using sb pl by (simp add: s1 list_update_append)
  show thesis
    by (rule that [OF tk(1) tp(1) tk(2) tp(2) tk(3) tp(3) _ _ up1 _ _ up2])
       (use d(4,5) pl sb in \<open>simp_all add: copy_range_eq\<close>)
qed

lemma split_node_spec:
  assumes ok: "heap_ok h U V" and p: "p \<in> U" and nd: "nodes h p = Some nd"
    and nok: "node_ok (order h) par False (ksL @ ksR) (psL @ a # psR) nd"
    and l: "length psL = length ksL" "length psR = length ksR"
    and len: "length (ksL @ ksR) = order h - 1" and m: "3 \<le> order h"
    and room: "room h (b + split_cost (order h))"
    and s: "s = cut (order h)" and KS: "KS = ksL @ k # ksR" and PS: "PS = psL @ a # r # psR"
    and ch: "set PS \<subseteq> U - {p}"
  obtains q h' where "split_node p (length ksL) k r h = Inr (KS ! (s - 1), q, h')" "q \<notin> U" "q \<noteq> NULL"
    "heap_ok h' (Set.insert q U) V" "keeps {} V h h'" "room h' b"
    "node_at (nodes h') p (node_ok (order h) par False (take (s - 1) KS) (take s PS))"
    "node_at (nodes h') q (node_ok (order h) par False (drop s KS) (drop s PS))"
    "\<And>a. a \<in> U - {p} \<Longrightarrow> nodes h' a = (if a \<in> set (drop s PS)
        then map_option (\<lambda>nd. nd\<lparr>parent := q\<rparr>) (nodes h a) else nodes h a)"
proof -
  define m where "m = order h"
  have sb: "1 \<le> s" "s - 1 < m - 1" "s - 1 < m" "s < m" using cut_bounds(5,10) [OF m, folded s m_def] by linarith+
  have mm: "m = Suc (length ksL + length ksR)" using len m by (simp add: m_def)
  have pl: "length PS = m + 1" "length KS = m" using mm l by (simp_all add: PS KS)
  have "room h ((b + node_cost m + (64 + m * 8)) + (64 + (m + 1) * 8))"
    using room by (simp add: room_def split_cost_def m_def)
  then obtain p1 h1 where h1: "allocate_align64 ((m + 1) * 8) h = Inr (p1, h1)" "nodes h1 = nodes h"
      "recs h1 = recs h" "order h1 = order h" "heap_ok h1 U V" "room h1 (b + node_cost m + (64 + m * 8))"
    by (rule allocate_align64_spec [OF ok])
  obtain p2 h2 where h2: "allocate_align64 (m * 8) h1 = Inr (p2, h2)" "nodes h2 = nodes h1"
      "recs h2 = recs h1" "order h2 = order h1" "heap_ok h2 U V" "room h2 (b + node_cost m)"
    by (rule allocate_align64_spec [OF h1(5,6)])
  have ord: "order h = m" "order h1 = m" "order h2 = m" using h1(4) h2(4) by (simp_all add: m_def)
  obtain q h3 where h3: "make_node h2 = Inr (q, h3)" "q \<notin> U" "q \<noteq> NULL"
      "nodes h3 q = Some (fresh_node m False)" "heap_ok h3 (Set.insert q U) V" "keeps U V h2 h3" "room h3 b"
    using h2(6) ord by (metis make_node_spec [OF h2(5)])
  have o3: "order h3 = m" using h3(6) ord by (simp add: keeps_def)
  have k3: "keeps U V h h3" using h3(6) h2(2-4) h1(2-4) by (simp add: keeps_def)
  obtain tk tp where arr:
    "copy_gap (length ksL) (keys nd) (num_keys nd) 0 0 (replicate m 0) = Inr tk"
    "copy_gap (length ksL + 1) (pointers nd) (num_keys nd + 1) 0 0 (replicate (m + 1) NULL) = Inr tp"
    "length tk = m" "length tp = m + 1" "tk[length ksL := k] = KS" "tp[length ksL + 1 := r] = PS"
    "copy_range PS 0 (s - 1) 0 (pointers nd) = Inr (take (s - 1) PS @ drop (s - 1) (pointers nd))"
    "copy_range KS 0 (s - 1) 0 (keys nd) = Inr (take (s - 1) KS @ drop (s - 1) (keys nd))"
    "(take (s - 1) PS @ drop (s - 1) (pointers nd))[s - 1 := PS ! (s - 1)] = take s PS @ drop s (pointers nd)"
    "copy_range PS s m 0 (replicate m NULL) = Inr (drop s (take m PS) @ replicate s NULL)"
    "copy_range KS s m 0 (replicate (m - 1) 0) = Inr (drop s KS @ replicate (s - 1) 0)"
    "(drop s (take m PS) @ replicate s NULL)[m - s := PS ! m] = drop s PS @ replicate (s - 1) NULL"
    by (rule split_node_arrays [OF nok l len m s KS PS]) (use m_def in blast)
  note d = node_okD [OF nok, folded m_def]
  have n3: "nodes h3 p = Some nd" using k3 p nd by (simp add: keeps_def)
  have mg: "length ksL < m" using mm by simp
  have s': "cut m = s" by (simp add: s m_def)
  define nd' where "nd' = nd\<lparr>pointers := take s PS @ drop s (pointers nd),
      keys := take (s - 1) KS @ drop (s - 1) (keys nd), num_keys := s - 1\<rparr>"
  define nn' where "nn' = (fresh_node m False)\<lparr>pointers := drop s PS @ replicate (s - 1) NULL,
      keys := drop s KS @ replicate (s - 1) 0, num_keys := m - s, parent := parent nd\<rparr>"
  define h4 where "h4 = put_node q nn' (put_node p nd' h3)"
  define h' where "h' = set_parents q (set (drop s PS)) h4"
  have pq: "p \<noteq> q" "p \<noteq> NULL" using p h3(2) ok by (auto simp: heap_ok_def)
  have chU: "set (drop s PS) \<subseteq> U - {p}" using ch by (meson order_trans set_drop_subset)
  have nlen: "length (drop s PS) = num_keys nn' + 1" using pl sb by (simp add: nn'_def)
  have "take (num_keys nn' + 1) (pointers nn') = drop s PS" using nlen by (simp add: nn'_def)
  moreover have "U \<subseteq> dom (nodes h4)" using h3(5) by (auto simp: heap_ok_def h4_def)
  ultimately have lp: "foldE (\<lambda>i h. bindE (arr_get (pointers nn') i)
        (\<lambda>child. upd_node child (\<lambda>nd. nd\<lparr>parent := q\<rparr>) h)) [0..<num_keys nn' + 1] h4 = Inr h'"
    using set_parents_loop [of "num_keys nn' + 1" "pointers nn'" h4 q] chU nlen
    by (auto simp: h'_def nn'_def)
  have n2: "nodes h2 p = Some nd" using nd by (simp add: h1(2) h2(2))
  have n4: "nodes (put_node p nd' h3) q = Some (fresh_node m False)" using pq h3(4) by simp
  have n5: "nodes (put_node p nd' h3) p = Some nd'" by simp
  have i: "length ksL + 1 < length tp" "length ksL < length tk" "s - 1 < length PS" "s - 1 < length KS"
      "m < length PS" "s - 1 < length (take (s - 1) PS @ drop (s - 1) (pointers nd))"
      "m - s < length (drop s (take m PS) @ replicate s NULL)"
    using mg arr(3,4) pl sb d(5) by simp_all
  have fr: "pointers (fresh_node m False) = replicate m NULL" "keys (fresh_node m False) = replicate (m - 1) 0"
      "num_keys (fresh_node m False) = 0" "parent nd' = parent nd"
    by (simp_all add: fresh_node_def nd'_def)
  have "split_node p (length ksL) k r h = Inr (KS ! (s - 1), q, h')"
    unfolding split_node_def
    by (simp only: ord o3 h1(1) h2(1) h3(1) bindE.simps prod.case get_node_Some [OF n2] arr s' Let_def
        i [THEN arr_set_in] i [THEN arr_get_in] nd'_def [symmetric] put_node_sel(7) add_0
        get_node_Some [OF n4] get_node_Some [OF n5] fr nn'_def [symmetric] h4_def [symmetric] lp)
  moreover have h4: "heap_ok h4 (Set.insert q U) V"
    unfolding h4_def by (intro heap_ok_put h3) (use p in auto)
  then have "heap_ok h' (Set.insert q U) V"
    unfolding h'_def by (rule heap_ok_set_parents) (use chU in auto)
  moreover have "keeps {} V h h'" "room h' b"
    using k3 h3(7) by (simp_all add: keeps_def h'_def h4_def room_def)
  moreover have "node_at (nodes h') p (node_ok (order h) par False (take (s - 1) KS) (take s PS))"
    using pq chU sb pl d(1,2,4,5)
    by (auto simp: h'_def set_parents_def h4_def node_at_def node_ok_def nd'_def m_def [symmetric])
  moreover have "node_at (nodes h') q (node_ok (order h) par False (drop s KS) (drop s PS))"
    using pq chU sb pl d(2) h3(2,3)
    by (auto simp: h'_def set_parents_def h4_def node_at_def node_ok_def nn'_def fresh_node_def m_def [symmetric])
  moreover have "nodes h' a = (if a \<in> set (drop s PS)
        then map_option (\<lambda>nd. nd\<lparr>parent := q\<rparr>) (nodes h a) else nodes h a)" if "a \<in> U - {p}" for a
    using that k3 h3(2) by (auto simp: h'_def set_parents_def h4_def keeps_def)
  ultimately show thesis using that h3(2,3) by blast
qed

end
