(* ===== verification/Bpt_Insert_Up.thy ===== *)
theory Bpt_Insert_Up
  imports Bpt_Insert_Correct
begin

text \<open>
  The propagation of a split towards the root: \<^verbatim>\<open>insert_into_parent\<close> hangs the two halves
  of a split node into the context above them, by induction on that context.
\<close>

section \<open>Addresses of siblings\<close>

lemma leaf_addrs_subset: "set (leaf_addrs t) \<subseteq> set (addrs t)"
  by (induction t) auto

lemma lleaf_subset: "set (lleaf c) \<union> set (rleaf c) \<subseteq> set (caddrs c)"
proof (induction c rule: caddrs.induct)
  case (2 p ksL tsL ksR tsR c)
  have "set (concat (map leaf_addrs ts)) \<subseteq> set (concat (map addrs ts))" for ts
    using leaf_addrs_subset by fastforce
  from this [of tsL] this [of tsR] 2 show ?case by auto
qed simp

lemma leaves_concat: "set (concat (map leaf_addrs ts)) \<subseteq> set (concat (map addrs ts))"
  using leaf_addrs_subset by fastforce

lemma leaves_plug_Nd:
  "set (leaf_addrs (plug c (Nd p ks ts))) \<subseteq> set (caddrs c @ concat (map addrs ts))"
  using lleaf_subset [of c] leaves_concat [of ts] by (auto simp: leaf_addrs_plug)

lemma root_plug: "root_addr t = root_addr u \<Longrightarrow> root_addr (plug c t) = root_addr (plug c u)"
proof (induction c t arbitrary: u rule: plug.induct)
  case (2 p ksL tsL ksR tsR c t)
  show ?case using "2.IH" [of "Nd p (ksL @ ksR) (tsL @ u # tsR)"] by simp
qed simp

lemma root_in_concat: "t \<in> set ts \<Longrightarrow> root_addr t \<in> set (concat (map addrs ts))"
  by (auto intro: root_in_addrs)

lemma distinct_same_tree:
  assumes "distinct (concat (map addrs ts))" and "t \<in> set ts" and "u \<in> set ts"
    and "a \<in> set (addrs t)" and "a \<in> set (addrs u)"
  shows "t = u"
  using assms by (induction ts) auto

lemma distinct_member: "distinct (concat (map addrs ts)) \<Longrightarrow> t \<in> set ts \<Longrightarrow> distinct (addrs t)"
  by (induction ts) auto

text \<open>Making every tree of a list a child of \<open>q\<close>.\<close>

lemma reparent_all:
  assumes "\<forall>t \<in> set ts. \<exists>p. repr N m p t" and dis: "distinct (concat (map addrs ts))"
    and new: "\<And>a. a \<in> set (concat (map addrs ts)) \<Longrightarrow> N' a = (if a \<in> set (map root_addr ts)
        then map_option (\<lambda>nd. nd\<lparr>parent := q\<rparr>) (N a) else N a)"
    and t: "t \<in> set ts"
  shows "repr N' m q t"
proof -
  obtain p where "repr N m p t" using assms(1) t by blast
  then show ?thesis
  proof (rule repr_reparent)
    show "N' (root_addr t) = map_option (\<lambda>nd. nd\<lparr>parent := q\<rparr>) (N (root_addr t))"
      using new [OF root_in_concat [OF t]] t by simp
    show "distinct (addrs t)" using dis t by (rule distinct_member)
    show "N' a = N a" if a: "a \<in> set (addrs t)" "a \<noteq> root_addr t" for a
    proof -
      have "a \<noteq> root_addr u" if "u \<in> set ts" for u
        using a distinct_same_tree [OF dis t that a(1)] root_in_addrs [of u] by auto
      then have "a \<notin> set (map root_addr ts)" by auto
      moreover have "a \<in> set (concat (map addrs ts))" using a(1) t by auto
      ultimately show ?thesis using new [of a] by simp
    qed
  qed
qed

section \<open>The state before and after\<close>

definition split_state :: "bheap \<Rightarrow> addr set \<Rightarrow> nat \<Rightarrow> frame list \<Rightarrow> btree \<Rightarrow> btree \<Rightarrow> bool" where
  "split_state h V n c l r \<longleftrightarrow>
     heap_ok h (set (caddrs c @ addrs l @ addrs r)) V \<and> distinct (caddrs c @ addrs l @ addrs r) \<and>
     crepr (nodes h) (order h) c (root_addr l) \<and>
     repr (nodes h) (order h) (hole_parent c) l \<and> repr (nodes h) (order h) (hole_parent c) r \<and>
     cshape (order h) n c \<and> tshape (order h) (min_keys_at (order h) n) n l \<and>
     tshape (order h) (min_keys_at (order h) n) n r \<and> 3 \<le> order h"

definition grown ::
  "bheap \<Rightarrow> addr set \<Rightarrow> nat \<Rightarrow> frame list \<Rightarrow> btree \<Rightarrow> u64 \<Rightarrow> btree \<Rightarrow> bheap \<Rightarrow> btree \<Rightarrow> bool" where
  "grown h V n c l k r h' t \<longleftrightarrow> repr (nodes h') (order h) NULL t \<and>
     (\<exists>n' \<le> Suc (n + length c). tshape (order h) 1 n' t) \<and>
     keyseq t = lseq c @ keyseq l @ sep_code k # keyseq r @ rseq c \<and>
     contents t = lcont c @ contents l @ contents r @ rcont c \<and>
     leaf_addrs t = lleaf c @ leaf_addrs l @ leaf_addrs r @ rleaf c \<and>
     distinct (addrs t) \<and> heap_ok h' (set (addrs t)) V \<and> keeps {} V h h' \<and>
     (\<forall>a \<in> set (leaf_addrs t). link (nodes h') (order h) a = link (nodes h) (order h) a)"

lemma min_keys_pos: "3 \<le> m \<Longrightarrow> 1 \<le> min_keys_at m n"
  using cut_bounds(1,5) [of m] by (cases "n = 0") (simp_all add: min_keys_at_def)

lemma cshape_lens:
  "cshape m n c \<Longrightarrow> \<forall>f \<in> set c. case f of Fr p ksL tsL ksR tsR \<Rightarrow>
     length ksL = length tsL \<and> length ksR = length tsR"
  by (induction m n c rule: cshape.induct) auto

section \<open>A new root\<close>

lemma new_root_grown:
  assumes st: "split_state h V n [] l r" and room: "room h (b + split_cost (order h))"
  obtains h' t where "insert_into_new_root (root_addr l) k (root_addr r) h = Inr (root_addr t, h')"
    "grown h V n [] l k r h' t" "room h' b"
proof -
  let ?m = "order h" and ?U = "set (addrs l) \<union> set (addrs r)"
  have ok: "heap_ok h ?U V" and dis: "distinct (addrs l @ addrs r)"
    and rl: "repr (nodes h) ?m NULL l" and rr: "repr (nodes h) ?m NULL r" and m: "3 \<le> ?m"
    using st by (simp_all add: split_state_def)
  have "room h (b + node_cost ?m)" using room by (simp add: room_def split_cost_def)
  then obtain q h1 where h1: "make_node h = Inr (q, h1)" "q \<notin> ?U" "q \<noteq> NULL"
      "nodes h1 q = Some (fresh_node ?m False)" "heap_ok h1 (Set.insert q ?U) V" "keeps ?U V h h1" "room h1 b"
    by (rule make_node_spec [OF ok])
  have o1: "order h1 = ?m" using h1(6) by (simp add: keeps_def)
  define nd where "nd = (fresh_node ?m False)\<lparr>keys := (replicate (?m - 1) 0)[0 := k],
      pointers := (replicate ?m NULL)[0 := root_addr l, 1 := root_addr r], num_keys := 1, parent := NULL\<rparr>"
  obtain ln rn where ln: "nodes h (root_addr l) = Some ln" and rn: "nodes h (root_addr r) = Some rn"
    using repr_root [OF rl] repr_root [OF rr] by auto
  have n1: "nodes h1 a = nodes h a" if "a \<in> ?U" for a using h1(6) that by (simp add: keeps_def)
  have lr: "root_addr l \<noteq> root_addr r" using dis root_in_addrs [of l] root_in_addrs [of r] by auto
  have ql: "root_addr l \<noteq> q" "root_addr r \<noteq> q" using h1(2) root_in_addrs [of l] root_in_addrs [of r] by auto
  define h' where "h' = put_node (root_addr r) (rn\<lparr>parent := q\<rparr>)
      (put_node (root_addr l) (ln\<lparr>parent := q\<rparr>) (put_node q nd h1))"
  define t where "t = Nd q [k] [l, r]"
  have "insert_into_new_root (root_addr l) k (root_addr r) h = Inr (root_addr t, h')"
    using m o1 ql lr ln rn n1 root_in_addrs
    by (simp add: insert_into_new_root_def h1(1,4) fresh_node_def h'_def nd_def t_def Let_def)
  moreover have new: "nodes h' a = (if a \<in> set (map root_addr [l, r])
      then map_option (\<lambda>nd. nd\<lparr>parent := q\<rparr>) (nodes h a) else nodes h a)" if "a \<in> ?U" for a
    using that n1 ln rn h1(2) lr by (auto simp: h'_def)
  have "repr (nodes h') ?m q x" if "x \<in> set [l, r]" for x
    using new that dis rl rr by (intro reparent_all [of "[l, r]" "nodes h" ?m]) auto
  then have "repr (nodes h') ?m NULL t"
    using ql h1(3) m by (auto simp: t_def h'_def node_at_def node_ok_def nd_def fresh_node_def
        take_Suc_conv_app_nth numeral_2_eq_2)
  moreover have "\<exists>n' \<le> Suc n. tshape ?m 1 n' t"
    using st m by (intro exI [of _ "Suc n"]) (simp add: split_state_def t_def)
  moreover have "heap_ok h' (set (addrs t)) V"
  proof -
    have "heap_ok h' (Set.insert q ?U) V" unfolding h'_def by (intro heap_ok_put h1) (auto simp: root_in_addrs)
    then show ?thesis by (simp add: t_def)
  qed
  moreover have "keeps {} V h h'" "room h' b" using h1(6,7) by (simp_all add: keeps_def h'_def room_def)
  moreover have "link (nodes h') ?m a = link (nodes h) ?m a" if "a \<in> set (leaf_addrs t)" for a
  proof -
    have "a \<in> ?U" using that leaf_addrs_subset by (auto simp: t_def)
    then show ?thesis using new [of a] by (cases "nodes h a") (auto simp: link_def)
  qed
  ultimately show thesis
    using that [of t h'] dis h1(2) by (auto simp: grown_def t_def)
qed

section \<open>A parent with room\<close>

lemma left_index:
  assumes "nodes h p = Some nd" and "node_ok m par False ks (psL @ a # psR) nd" and "a \<notin> set psL"
    and "length ks = length psL + length psR"
  shows "get_left_index p a h = Inr (length psL)"
proof -
  note d = node_okD [OF assms(2)]
  have "scan (\<lambda>x. x \<noteq> a) (pointers nd) (num_keys nd + 1) 0 = Inr (length psL)"
    by (rule scan_split [where bs = "a # psR"]) (use d assms(3,4) in auto)
  then show ?thesis using assms(1) by (simp add: get_left_index_def)
qed

lemma split_state_frame:
  assumes "split_state h V n (Fr p ksL tsL ksR tsR # c) l r"
  obtains nd where "nodes h p = Some nd" "p \<noteq> NULL"
    "node_ok (order h) (hole_parent c) False (ksL @ ksR)
       (map root_addr tsL @ root_addr l # map root_addr tsR) nd"
    "\<forall>t \<in> set (tsL @ l # r # tsR). repr (nodes h) (order h) p t"
    "crepr (nodes h) (order h) c p" "root_addr l \<notin> set (map root_addr tsL)"
    "length tsL = length ksL" "length tsR = length ksR"
    "distinct (p # caddrs c @ concat (map addrs (tsL @ l # r # tsR)))"
    "nodes h (root_addr l) \<noteq> None" "parent (the (nodes h (root_addr l))) = p"
proof -
  let ?c = "Fr p ksL tsL ksR tsR # c" and ?N = "nodes h" and ?m = "order h"
  have cr: "crepr ?N ?m ?c (root_addr l)" and rl: "repr ?N ?m p l" and rr: "repr ?N ?m p r"
    and dis: "distinct (caddrs ?c @ addrs l @ addrs r)" and sh: "cshape ?m n ?c"
    using assms by (simp_all add: split_state_def)
  obtain nd where "?N p = Some nd" "p \<noteq> NULL" "node_ok ?m (hole_parent c) False (ksL @ ksR)
       (map root_addr tsL @ root_addr l # map root_addr tsR) nd"
    using cr by (auto elim: node_atE)
  moreover have "mset (p # caddrs c @ concat (map addrs (tsL @ l # r # tsR))) = mset (caddrs ?c @ addrs l @ addrs r)"
    by simp
  then have d2: "distinct (p # caddrs c @ concat (map addrs (tsL @ l # r # tsR)))"
    using dis mset_eq_imp_distinct_iff by blast
  moreover have "root_addr l \<notin> set (map root_addr tsL)"
    using d2 root_in_addrs [of l] root_in_concat [of _ tsL] by fastforce
  moreover obtain ln where "?N (root_addr l) = Some ln" "parent ln = p"
    using rl by (cases l) (auto elim!: node_atE dest: node_okD(2))
  ultimately show thesis using that [of nd] cr rl rr sh by auto
qed

lemma room_grown:
  assumes st: "split_state h V n (Fr p ksL tsL ksR tsR # c) l r"
    and full: "length ksL + length ksR < order h - 1"
    and root: "root = root_addr (plug (Fr p ksL tsL ksR tsR # c) l)"
  obtains h' t where "insert_into_node root p (length ksL) k (root_addr r) h = Inr (root_addr t, h')"
    "grown h V n (Fr p ksL tsL ksR tsR # c) l k r h' t" "brk h' = brk h" "limit h' = limit h"
proof -
  let ?c = "Fr p ksL tsL ksR tsR # c" and ?m = "order h" and ?ts = "tsL @ l # r # tsR"
  from split_state_frame [OF st] obtain nd where nd: "nodes h p = Some nd" "p \<noteq> NULL"
      "node_ok ?m (hole_parent c) False (ksL @ ksR) (map root_addr tsL @ root_addr l # map root_addr tsR) nd"
    and f: "\<forall>t \<in> set ?ts. repr (nodes h) ?m p t" "crepr (nodes h) ?m c p"
      "length tsL = length ksL" "length tsR = length ksR" "distinct (p # caddrs c @ concat (map addrs ?ts))"
    by metis
  obtain nd' where nd': "insert_into_node root p (length ksL) k (root_addr r) h = Inr (root, put_node p nd' h)"
      "node_ok ?m (hole_parent c) False (ksL @ k # ksR)
         (map root_addr tsL @ root_addr l # root_addr r # map root_addr tsR) nd'"
    using insert_into_node_spec [OF nd(1,3), of root k "root_addr r"] f(3,4) full by auto
  define u where "u = Nd p (ksL @ k # ksR) ?ts"
  define t where "t = plug c u"
  let ?h' = "put_node p nd' h"
  have same: "nodes ?h' a = nodes h a" if "a \<in> set (caddrs c @ concat (map addrs ?ts))" for a
    using that f(5) by auto
  have "crepr (nodes ?h') ?m c p" using f(2) same crepr_cong [of c "nodes ?h'" "nodes h" ?m p] by auto
  moreover have "repr (nodes ?h') ?m p x" if "x \<in> set ?ts" for x
  proof -
    have "repr (nodes ?h') ?m p x = repr (nodes h) ?m p x"
      by (rule repr_cong, rule same) (use that in auto)
    then show ?thesis using f(1) that by blast
  qed
  then have "repr (nodes ?h') ?m (hole_parent c) u" using nd(2) nd'(2) by (simp add: u_def node_at_def)
  ultimately have rep: "repr (nodes ?h') ?m NULL t" by (simp add: t_def repr_plug u_def)
  have sh: "cshape ?m n ?c" and m: "3 \<le> ?m" using st by (auto simp: split_state_def)
  have "tshape ?m (hole_min ?m (Suc n) c) (Suc n) u"
    using st full f(3,4) by (auto simp: split_state_def u_def)
  moreover have lens: "\<forall>f \<in> set c. case f of Fr p ksL tsL ksR tsR \<Rightarrow> length ksL = length tsL \<and> length ksR = length tsR"
    using sh by (intro cshape_lens [of ?m "Suc n"]) simp
  ultimately have ts: "tshape ?m 1 (Suc n + length c) t"
    unfolding t_def using tshape_plug [OF lens, of ?m "Suc n" u] sh by simp
  have ks: "keyseq t = lseq c @ keyseq u @ rseq c"
    using sh keyseq_plug [of ?m "Suc n" c u] by (simp add: t_def)
  have "keyseq u = lpart (map keyseq tsL) ksL @ keyseq l @ sep_code k # keyseq r @ rpart ksR (map keyseq tsR)"
    using f(3,4) by (simp add: u_def inter_lpart inter_rpart)
  then have "keyseq t = lseq ?c @ keyseq l @ sep_code k # keyseq r @ rseq ?c" using ks by simp
  moreover have ad: "mset (addrs t) = mset (caddrs ?c @ addrs l @ addrs r)"
    by (simp add: t_def addrs_plug u_def)
  then have "set (addrs t) = set (caddrs ?c @ addrs l @ addrs r)" "distinct (addrs t)"
    using st mset_eq_setD [OF ad] mset_eq_imp_distinct_iff [OF ad] by (simp_all add: split_state_def)
  moreover have "heap_ok ?h' (set (caddrs ?c @ addrs l @ addrs r)) V"
    using st by (intro heap_ok_put) (auto simp: split_state_def)
  moreover have lf: "leaf_addrs t = lleaf ?c @ leaf_addrs l @ leaf_addrs r @ rleaf ?c"
    by (simp add: t_def leaf_addrs_plug u_def)
  moreover have "link (nodes ?h') ?m a = link (nodes h) ?m a" if "a \<in> set (leaf_addrs t)" for a
  proof -
    have "a \<in> set (caddrs c @ concat (map addrs ?ts))"
      using that leaves_plug_Nd [of c p "ksL @ k # ksR" ?ts] unfolding t_def u_def by blast
    then show ?thesis using same by (simp only: link_def)
  qed
  moreover have "root_addr t = root"
    unfolding t_def root plug.simps by (rule root_plug) (simp add: u_def)
  moreover have "\<exists>n' \<le> Suc (n + length ?c). tshape ?m 1 n' t"
    using ts by (intro exI [of _ "Suc n + length c"]) simp
  moreover have "contents t = lcont ?c @ contents l @ contents r @ rcont ?c"
    by (simp add: t_def contents_plug u_def)
  ultimately show thesis
    using that [of t ?h'] nd'(1) rep by (simp add: grown_def keeps_def)
qed

section \<open>A full parent\<close>

lemma full_split:
  assumes st: "split_state h V n (Fr p ksL tsL ksR tsR # c) l r"
    and full: "length ksL + length ksR = order h - 1"
    and room: "room h (b + split_cost (order h))"
    and KS: "KS = ksL @ k # ksR" and TS: "TS = tsL @ l # r # tsR" and s: "s = cut (order h)"
  obtains q h' where "split_node p (length ksL) k (root_addr r) h = Inr (KS ! (s - 1), q, h')"
    "split_state h' V (Suc n) c (Nd p (take (s - 1) KS) (take s TS)) (Nd q (drop s KS) (drop s TS))"
    "room h' b" "keeps {} V h h'"
    "\<forall>a \<in> set (caddrs c @ concat (map addrs TS)). link (nodes h') (order h) a = link (nodes h) (order h) a"
proof -
  let ?c = "Fr p ksL tsL ksR tsR # c" and ?m = "order h" and ?PS = "map root_addr TS"
  let ?U = "set (caddrs ?c @ addrs l @ addrs r)"
  from split_state_frame [OF st] obtain nd where nd: "nodes h p = Some nd" "p \<noteq> NULL"
      "node_ok ?m (hole_parent c) False (ksL @ ksR) (map root_addr tsL @ root_addr l # map root_addr tsR) nd"
    and f: "\<forall>t \<in> set TS. repr (nodes h) ?m p t" "crepr (nodes h) ?m c p"
      "length tsL = length ksL" "length tsR = length ksR" "distinct (p # caddrs c @ concat (map addrs TS))"
    unfolding TS by metis
  have ok: "heap_ok h ?U V" and m: "3 \<le> ?m" and sh: "cshape ?m n ?c"
    and shl: "tshape ?m (min_keys_at ?m n) n l" "tshape ?m (min_keys_at ?m n) n r"
    using st by (simp_all add: split_state_def)
  have U: "?U = Set.insert p (set (caddrs c) \<union> set (concat (map addrs TS)))" by (auto simp: TS)
  have pU: "p \<in> ?U" by simp
  have PS: "?PS = map root_addr tsL @ root_addr l # root_addr r # map root_addr tsR" by (simp add: TS)
  have "set ?PS \<subseteq> set (concat (map addrs TS))" using root_in_concat by auto
  then have ch: "set ?PS \<subseteq> ?U - {p}" using f(5) unfolding U by auto
  have len: "length (map root_addr tsL) = length ksL" "length (map root_addr tsR) = length ksR"
      "length (ksL @ ksR) = ?m - 1" using f(3,4) full by simp_all
  obtain q h' where q: "split_node p (length ksL) k (root_addr r) h = Inr (KS ! (s - 1), q, h')"
      "q \<notin> ?U" "q \<noteq> NULL" "heap_ok h' (Set.insert q ?U) V" "keeps {} V h h'" "room h' b"
      "node_at (nodes h') p (node_ok ?m (hole_parent c) False (take (s - 1) KS) (take s ?PS))"
      "node_at (nodes h') q (node_ok ?m (hole_parent c) False (drop s KS) (drop s ?PS))"
      "\<And>a. a \<in> ?U - {p} \<Longrightarrow> nodes h' a = (if a \<in> set (drop s ?PS)
        then map_option (\<lambda>nd. nd\<lparr>parent := q\<rparr>) (nodes h a) else nodes h a)"
    using split_node_spec [OF ok pU nd(1,3) len(1,2,3) m room s KS PS ch] by metis
  have new: "nodes h' a = (if a \<in> set (map root_addr (drop s TS))
        then map_option (\<lambda>nd. nd\<lparr>parent := q\<rparr>) (nodes h a) else nodes h a)"
    if "a \<in> set (caddrs c @ concat (map addrs TS))" for a
  proof -
    have "a \<noteq> p" using that f(5) by auto
    then have "a \<in> ?U - {p}" using that unfolding U by auto
    then show ?thesis using q(9) by (simp only: drop_map)
  qed
  have cat: "concat (map addrs TS) = concat (map addrs (take s TS)) @ concat (map addrs (drop s TS))"
    by (metis append_take_drop_id concat_append map_append)
  have dis: "distinct (caddrs c @ concat (map addrs (take s TS)) @ concat (map addrs (drop s TS)))"
    using f(5) by (simp add: cat)
  have rt: "root_addr x \<in> set (concat (map addrs (drop s TS)))" if "x \<in> set (drop s TS)" for x
    using that by (rule root_in_concat)
  have old: "nodes h' a = nodes h a" if "a \<in> set (caddrs c @ concat (map addrs (take s TS)))" for a
  proof -
    have "a \<notin> set (concat (map addrs (drop s TS)))" using that dis by auto
    then have "a \<notin> set (map root_addr (drop s TS))" using rt by auto
    moreover have "a \<in> set (caddrs c @ concat (map addrs TS))" using that by (auto simp: cat)
    ultimately show ?thesis using new [of a] by simp
  qed
  have "crepr (nodes h') ?m c p"
    using f(2) crepr_cong [of c "nodes h'" "nodes h" ?m p] old by auto
  moreover have "repr (nodes h') ?m p x" if "x \<in> set (take s TS)" for x
  proof -
    have "repr (nodes h') ?m p x = repr (nodes h) ?m p x"
      by (rule repr_cong, rule old) (use that in auto)
    then show ?thesis using f(1) that by (meson in_set_takeD)
  qed
  moreover have "repr (nodes h') ?m q x" if "x \<in> set (drop s TS)" for x
  proof (rule reparent_all [OF _ _ _ that])
    show "\<forall>t \<in> set (drop s TS). \<exists>p. repr (nodes h) ?m p t" using f(1) by (meson in_set_dropD)
    show "distinct (concat (map addrs (drop s TS)))" using dis by simp
    show "nodes h' a = (if a \<in> set (map root_addr (drop s TS))
        then map_option (\<lambda>nd. nd\<lparr>parent := q\<rparr>) (nodes h a) else nodes h a)"
      if "a \<in> set (concat (map addrs (drop s TS)))" for a
      by (rule new) (use that in \<open>simp add: cat\<close>)
  qed
  moreover have "tshape ?m (min_keys_at ?m (Suc n)) (Suc n) (Nd p (take (s - 1) KS) (take s TS))"
    "tshape ?m (min_keys_at ?m (Suc n)) (Suc n) (Nd q (drop s KS) (drop s TS))"
  proof -
    have "length KS = ?m" "length TS = Suc ?m" using full f(3,4) m by (simp_all add: KS TS)
    moreover have "\<forall>t \<in> set TS. tshape ?m (min_keys_at ?m n) n t" using sh shl by (auto simp: TS)
    then have "\<forall>t \<in> set (take s TS) \<union> set (drop s TS). tshape ?m (min_keys_at ?m n) n t"
      by (auto dest: in_set_takeD in_set_dropD)
    ultimately show "tshape ?m (min_keys_at ?m (Suc n)) (Suc n) (Nd p (take (s - 1) KS) (take s TS))"
      "tshape ?m (min_keys_at ?m (Suc n)) (Suc n) (Nd q (drop s KS) (drop s TS))"
      using cut_bounds(5-8,10) [OF m, folded s] by (auto simp: min_keys_at_def s [symmetric])
  qed
  moreover have "order h' = ?m" using q(5) by (simp add: keeps_def)
  moreover have "set (caddrs c @ addrs (Nd p (take (s - 1) KS) (take s TS)) @ addrs (Nd q (drop s KS) (drop s TS)))
      = Set.insert q ?U" unfolding U cat by auto
  moreover have "distinct (caddrs c @ addrs (Nd p (take (s - 1) KS) (take s TS)) @ addrs (Nd q (drop s KS) (drop s TS)))"
    using f(5) q(2) unfolding U cat by auto
  ultimately have "split_state h' V (Suc n) c (Nd p (take (s - 1) KS) (take s TS)) (Nd q (drop s KS) (drop s TS))"
    using q(4,7,8) sh m by (simp add: split_state_def take_map drop_map)
  moreover have "\<forall>a \<in> set (caddrs c @ concat (map addrs TS)). link (nodes h') ?m a = link (nodes h) ?m a"
  proof
    fix a assume "a \<in> set (caddrs c @ concat (map addrs TS))"
    from new [OF this] show "link (nodes h') ?m a = link (nodes h) ?m a"
      by (cases "nodes h a") (auto simp: link_def)
  qed
  ultimately show thesis using that q(1,5,6) by blast
qed

section \<open>Up to the root\<close>

lemma split_seqs:
  assumes "length KS = m" and "length TS = Suc m" and "1 \<le> s" and "s \<le> m"
  shows "inter (map keyseq TS) KS = keyseq (Nd p (take (s - 1) KS) (take s TS)) @
      sep_code (KS ! (s - 1)) # keyseq (Nd q (drop s KS) (drop s TS))"
proof -
  have "KS = take (s - 1) KS @ KS ! (s - 1) # drop s KS"
    using assms id_take_nth_drop [of "s - 1" KS] by simp
  moreover have "map keyseq TS = map keyseq (take s TS) @ map keyseq (drop s TS)"
    by (metis append_take_drop_id map_append)
  ultimately have "inter (map keyseq TS) KS = inter (map keyseq (take s TS) @ map keyseq (drop s TS))
      (take (s - 1) KS @ KS ! (s - 1) # drop s KS)" by simp
  also have "\<dots> = inter (map keyseq (take s TS)) (take (s - 1) KS) @
      sep_code (KS ! (s - 1)) # inter (map keyseq (drop s TS)) (drop s KS)"
    using assms by (intro inter_append) auto
  finally show ?thesis by simp
qed

lemma insert_into_parent_grown:
  assumes "split_state h V n c l r" and "room h (b + Suc (length c) * split_cost (order h))"
    and "length c < fuel" and "root = root_addr (plug c l)"
  shows "\<exists>h' t. insert_into_parent fuel root (root_addr l) k (root_addr r) h = Inr (root_addr t, h') \<and>
    grown h V n c l k r h' t \<and> room h' b"
  using assms
proof (induction c arbitrary: n l r k h fuel)
  case Nil
  obtain f where f: "fuel = Suc f" using Nil.prems(3) by (cases fuel) auto
  have "repr (nodes h) (order h) NULL l" using Nil.prems(1) by (simp add: split_state_def)
  then obtain ln where "nodes h (root_addr l) = Some ln" "parent ln = NULL"
    by (cases l) (auto elim!: node_atE dest: node_okD(2))
  then have "insert_into_parent fuel root (root_addr l) k (root_addr r) h
      = insert_into_new_root (root_addr l) k (root_addr r) h" by (simp add: f)
  moreover have "room h (b + split_cost (order h))" using Nil.prems(2) by simp
  ultimately show ?case by (metis new_root_grown [OF Nil.prems(1)])
next
  case (Cons fr c)
  obtain p ksL tsL ksR tsR where fr: "fr = Fr p ksL tsL ksR tsR" by (cases fr)
  let ?c = "Fr p ksL tsL ksR tsR # c" and ?m = "order h"
  obtain f where f: "fuel = Suc f" "length c < f" using Cons.prems(3) by (cases fuel) auto
  note st = Cons.prems(1) [unfolded fr]
  from split_state_frame [OF st] obtain nd ln where nd: "nodes h p = Some nd" "p \<noteq> NULL"
      "node_ok ?m (hole_parent c) False (ksL @ ksR) (map root_addr tsL @ root_addr l # map root_addr tsR) nd"
    and g: "root_addr l \<notin> set (map root_addr tsL)" "length tsL = length ksL" "length tsR = length ksR"
    and ln: "nodes h (root_addr l) = Some ln" "parent ln = p"
    by (metis option.exhaust_sel option.sel)
  have li: "get_left_index p (root_addr l) h = Inr (length ksL)"
    using left_index [OF nd(1,3)] g by simp
  note d = node_okD [OF nd(3)]
  show ?case
  proof (cases "length ksL + length ksR < ?m - 1")
    case True
    then have "insert_into_parent fuel root (root_addr l) k (root_addr r) h
        = insert_into_node root p (length ksL) k (root_addr r) h"
      using f ln nd li d(3) by simp
    moreover obtain h' t where "insert_into_node root p (length ksL) k (root_addr r) h = Inr (root_addr t, h')"
      "grown h V n ?c l k r h' t" "brk h' = brk h" "limit h' = limit h"
      using room_grown [OF st True] Cons.prems(4) fr by blast
    moreover have "room h b" using Cons.prems(2) by (simp add: room_def)
    ultimately show ?thesis by (auto simp: fr room_def)
  next
    case False
    then have full: "length ksL + length ksR = ?m - 1" using d(8) by simp
    define KS where "KS = ksL @ k # ksR"
    define TS where "TS = tsL @ l # r # tsR"
    define s where "s = cut ?m"
    have "room h ((b + Suc (length c) * split_cost ?m) + split_cost ?m)"
      using Cons.prems(2) by (simp add: algebra_simps)
    then obtain q h1 where q: "split_node p (length ksL) k (root_addr r) h = Inr (KS ! (s - 1), q, h1)"
        "split_state h1 V (Suc n) c (Nd p (take (s - 1) KS) (take s TS)) (Nd q (drop s KS) (drop s TS))"
        "room h1 (b + Suc (length c) * split_cost ?m)" "keeps {} V h h1"
        "\<forall>a \<in> set (caddrs c @ concat (map addrs TS)). link (nodes h1) ?m a = link (nodes h) ?m a"
      by (rule full_split [OF st full _ KS_def TS_def s_def])
    let ?l = "Nd p (take (s - 1) KS) (take s TS)" and ?r = "Nd q (drop s KS) (drop s TS)"
    have o1: "order h1 = ?m" using q(4) by (simp add: keeps_def)
    have root: "root = root_addr (plug c ?l)"
      using Cons.prems(4) root_plug [of ?l "Nd p (ksL @ ksR) (tsL @ l # tsR)" c] by (simp add: fr)
    have "insert_into_parent fuel root (root_addr l) k (root_addr r) h
        = insert_into_parent f root p (KS ! (s - 1)) q h1"
      using f ln nd li d(3) False q(1) by simp
    moreover obtain h' t where t: "insert_into_parent f root p (KS ! (s - 1)) q h1 = Inr (root_addr t, h')"
        "grown h1 V (Suc n) c ?l (KS ! (s - 1)) ?r h' t" "room h' b"
      using Cons.IH [OF q(2) _ f(2) root, of "KS ! (s - 1)"] q(3) o1 by auto
    moreover have "grown h V n ?c l k r h' t"
    proof -
      have m: "3 \<le> ?m" and sh: "cshape ?m n ?c" using st by (simp_all add: split_state_def)
      have len: "length KS = ?m" "length TS = Suc ?m" using full g m by (simp_all add: KS_def TS_def)
      have seq: "keyseq ?l @ sep_code (KS ! (s - 1)) # keyseq ?r = inter (map keyseq TS) KS"
        using split_seqs [OF len, of s] cut_bounds(5,10) [OF m] by (simp add: s_def)
      have "inter (map keyseq TS) KS = lpart (map keyseq tsL) ksL @ keyseq l @ sep_code k # keyseq r @
          rpart ksR (map keyseq tsR)"
        using g by (simp add: TS_def KS_def inter_lpart inter_rpart)
      then have "keyseq t = lseq ?c @ keyseq l @ sep_code k # keyseq r @ rseq ?c"
        using t(2) seq by (simp add: grown_def)
      moreover have cat: "concat (map F (take s TS)) @ concat (map F (drop s TS)) = concat (map F TS)" for F :: "btree \<Rightarrow> 'x list"
        by (metis append_take_drop_id concat_append map_append)
      have "contents t = lcont ?c @ contents l @ contents r @ rcont ?c"
        using t(2) cat [of contents] by (simp add: grown_def TS_def)
      moreover have lf: "leaf_addrs t = lleaf ?c @ leaf_addrs l @ leaf_addrs r @ rleaf ?c"
        "leaf_addrs t = lleaf c @ concat (map leaf_addrs TS) @ rleaf c"
        using t(2) cat [of leaf_addrs] by (simp_all add: grown_def TS_def)
      moreover have "link (nodes h') ?m a = link (nodes h) ?m a" if "a \<in> set (leaf_addrs t)" for a
      proof -
        have "a \<in> set (lleaf c) \<union> set (rleaf c) \<union> set (concat (map leaf_addrs TS))"
          using that unfolding lf(2) by auto
        then have "a \<in> set (caddrs c @ concat (map addrs TS))"
          using lleaf_subset [of c] leaves_concat [of TS] unfolding set_append by blast
        then have "link (nodes h1) ?m a = link (nodes h) ?m a" using q(5) by blast
        then show ?thesis using t(2) that unfolding grown_def o1 by simp
      qed
      ultimately show ?thesis using t(2) o1 q(4) by (auto simp: grown_def keeps_def)
    qed
    ultimately show ?thesis by (auto simp: fr)
  qed
qed

end
