(* ===== verification/Bpt_Map.thy ===== *)
theory Bpt_Map
  imports Bpt_Insert_Up
begin

text \<open>
  The B+ tree as a map: \<^verbatim>\<open>find\<close> looks a key up and \<^verbatim>\<open>insert\<close> updates it, both keep
  the invariant, and neither runs out of bounds, follows a bad pointer or loops, given memory
  for the new nodes.
\<close>

section \<open>Smaller frames\<close>

lemma heap_ok_antimono:
  assumes "heap_ok h U V" and "U' \<subseteq> U" and "V' \<subseteq> V"
  shows "heap_ok h U' V'"
proof -
  obtain F G where "flist (nodes h) (free_nodes h) F" "distinct F" "set F \<inter> U = {}"
      "rlist (recs h) (free_recs h) G" "distinct G" "set G \<inter> V = {}"
    using assms(1) by (auto simp: heap_ok_def)
  then have "\<exists>F. flist (nodes h) (free_nodes h) F \<and> distinct F \<and> set F \<inter> U' = {}"
      "\<exists>G. rlist (recs h) (free_recs h) G \<and> distinct G \<and> set G \<inter> V' = {}"
    using assms(2,3) by blast+
  then show ?thesis using assms unfolding heap_ok_def by auto
qed

lemma bpt_keeps:
  assumes "bpt h n t" and "keeps (set (addrs t)) (snd ` set (contents t)) h h'"
    and "heap_ok h' (set (addrs t)) (snd ` set (contents t))"
  shows "bpt h' n t" "amap h' t = amap h t"
proof -
  have o: "order h' = order h" using assms(2) by (simp add: keeps_def)
  have "repr (nodes h') (order h) NULL t = repr (nodes h) (order h) NULL t"
    by (rule repr_cong) (use assms(2) in \<open>simp add: keeps_def\<close>)
  moreover have "chain (nodes h') (order h) (leaf_addrs t) = chain (nodes h) (order h) (leaf_addrs t)"
    by (rule chain_cong) (use assms(2) leaf_addrs_subset [of t] in \<open>auto simp: keeps_def link_def\<close>)
  ultimately show "bpt h' n t" using assms o by (simp add: bpt_def)
  have "recs h' r = recs h r" if "map_of (contents t) k = Some r" for k r
  proof -
    have "r \<in> snd ` set (contents t)" using map_of_SomeD [OF that] by force
    then show ?thesis using assms(2) by (auto simp: keeps_def)
  qed
  then show "amap h' t = amap h t" by (auto simp: amap_def fun_eq_iff split: option.splits)
qed

section \<open>Lists\<close>

lemma sorted_insert_between:
  fixes y :: nat
  assumes "sorted_wrt (<) (as @ bs)" and "\<forall>x \<in> set as. x < y" and "\<forall>x \<in> set bs. y < x"
  shows "sorted_wrt (<) (as @ y # bs)"
  using assms by (simp add: sorted_wrt_append)

lemma map_of_insert:
  assumes "k \<notin> fst ` set as"
  shows "map_of (as @ (k, r) # bs) = (map_of (as @ bs))(k \<mapsto> r)"
proof
  fix x
  have "map_of as k = None" using assms by (simp add: map_of_eq_None_iff)
  then show "map_of (as @ (k, r) # bs) x = ((map_of (as @ bs))(k \<mapsto> r)) x"
    by (auto simp: map_add_def split: option.splits)
qed

lemma chain_insert:
  assumes "chain N m (as @ p # bs)" and "p \<notin> set as \<union> set bs"
    and "\<And>a. a \<in> set as \<union> set bs \<Longrightarrow> link N' m a = link N m a"
    and "link N' m p = Some q" and "link N' m q = link N m p"
  shows "chain N' m (as @ p # q # bs)"
  using assms
proof (induction as)
  case Nil
  have "chain N' m bs = chain N m bs" by (rule chain_cong) (use Nil in auto)
  then show ?case using Nil by (cases bs) auto
next
  case (Cons a as)
  then show ?case by (cases as) auto
qed

text \<open>What a key that is not in the tree splits a leaf into.\<close>

lemma leaf_split:
  fixes k :: u64 and es :: "(u64 \<times> addr) list"
  assumes "sorted_wrt (<) (map fst es)" and "k \<notin> fst ` set es"
  obtains esL esR where "es = esL @ esR" "\<forall>e \<in> set esL. fst e < k" "\<forall>e \<in> set esR. k < fst e"
proof
  let ?L = "takeWhile (\<lambda>e. fst e < k) es" and ?R = "dropWhile (\<lambda>e. fst e < k) es"
  show "es = ?L @ ?R" by simp
  show "\<forall>e \<in> set ?L. fst e < k" by (auto dest: set_takeWhileD)
  show "\<forall>e \<in> set ?R. k < fst e"
  proof (cases ?R)
    case (Cons e R)
    have "\<not> fst e < k" using hd_dropWhile [of "\<lambda>e. fst e < k" es] Cons by simp
    moreover have "e \<in> set es" using Cons by (metis list.set_intros(1) set_dropWhileD)
    then have "fst e \<noteq> k" using assms(2) by auto
    ultimately have "k < fst e" by order
    moreover have "sorted_wrt (<) (map fst ?L @ map fst ?R)"
      using assms(1) by (metis map_append takeWhile_dropWhile_id)
    then have "\<forall>x \<in> set R. fst e < fst x" unfolding Cons by (simp add: sorted_wrt_append)
    ultimately show ?thesis unfolding Cons by auto
  next
    case Nil
    then show ?thesis by (simp only: list.set) simp
  qed
qed

section \<open>Updating a record\<close>

lemma update_record:
  assumes "bpt h n t" and r: "map_of (contents t) k = Some r" and rc: "recs h r = Some rc"
  shows "bpt (put_rec r (rc\<lparr>cell := v\<rparr>) h) n t"
    "amap (put_rec r (rc\<lparr>cell := v\<rparr>) h) t = (amap h t)(k \<mapsto> v)"
proof -
  let ?V = "snd ` set (contents t)" and ?h = "put_rec r (rc\<lparr>cell := v\<rparr>) h"
  have ok: "heap_ok h (set (addrs t)) ?V" and dis: "distinct (map snd (contents t))"
    using assms(1) by (auto simp: bpt_def)
  have rV: "r \<in> ?V" using map_of_SomeD [OF r] by force
  obtain G where G: "rlist (recs h) (free_recs h) G" "distinct G" "set G \<inter> ?V = {}"
    using ok by (auto simp: heap_ok_def)
  moreover have "r \<notin> set G" using G(3) rV by blast
  ultimately have "\<exists>G. rlist (recs ?h) (free_recs ?h) G \<and> distinct G \<and> set G \<inter> ?V = {}"
    by (intro exI [of _ G]) simp
  then have "heap_ok ?h (set (addrs t)) ?V" using ok rc by (auto simp: heap_ok_def)
  then show "bpt ?h n t" using assms(1) by (simp add: bpt_def)
  show "amap ?h t = (amap h t)(k \<mapsto> v)"
  proof
    fix x
    have "x = k" if "map_of (contents t) x = Some r"
    proof -
      have "(x, r) \<in> set (contents t)" "(k, r) \<in> set (contents t)"
        using map_of_SomeD that r by fast+
      then have "(x, r) = (k, r)"
        using dis inj_onD [of snd "set (contents t)" "(x, r)" "(k, r)"] by (simp add: distinct_map)
      then show ?thesis by simp
    qed
    then have "map_of (contents t) x \<noteq> Some r" if "x \<noteq> k" using that by blast
    then show "amap ?h t x = ((amap h t)(k \<mapsto> v)) x"
      using r by (cases "x = k"; cases "map_of (contents t) x") (simp_all add: amap_def)
  qed
qed

section \<open>Inserting a new key\<close>

definition insert_cost :: "nat \<Rightarrow> nat \<Rightarrow> nat" where
  "insert_cost m n = slab_cost + (n + 2) * split_cost m"

lemma start_new_tree_spec:
  assumes ok: "heap_ok h {} V" and r: "recs h r = Some rc" "r \<in> V" and m: "3 \<le> order h"
    and room: "room h (b + node_cost (order h))"
  obtains h' t where "start_new_tree k r h = Inr (root_addr t, h')" "bpt h' 0 t" "contents t = [(k, r)]"
    "recs h' r = Some rc" "room h' b" "order h' = order h"
proof -
  obtain q h1 where h1: "make_leaf h = Inr (q, h1)" "q \<noteq> NULL" "nodes h1 q = Some (fresh_node (order h) True)"
      "heap_ok h1 {q} V" "keeps {} V h h1" "room h1 b"
    using make_leaf_spec [OF ok room] by metis
  have o1: "order h1 = order h" and r1: "recs h1 r = Some rc" using h1(5) r by (auto simp: keeps_def)
  define nd where "nd = (fresh_node (order h) True)\<lparr>keys := (replicate (order h - 1) 0)[0 := k],
      pointers := (replicate (order h) NULL)[0 := r, order h - 1 := NULL], parent := NULL, num_keys := 1\<rparr>"
  let ?t = "Lf q [(k, r)]" and ?h = "put_node q nd h1"
  have "start_new_tree k r h = Inr (root_addr ?t, ?h)"
    using m h1(1,3) o1 by (simp add: start_new_tree_def fresh_node_def nd_def)
  moreover have "heap_ok ?h {q} {r}"
    by (rule heap_ok_antimono [OF heap_ok_put [OF h1(4)]]) (use r in auto)
  then have "bpt ?h 0 ?t"
    using m h1(2) o1
    by (simp add: bpt_def node_at_def node_ok_def nd_def fresh_node_def link_def take_Suc_conv_app_nth)
  ultimately show thesis using that [of ?t ?h] r1 h1(6) o1 by (simp add: room_def)
qed

text \<open>
  The state in which a key that is not in the tree is inserted: its record is made, and the
  search has led to a leaf, cut at the place of the key.
\<close>

definition insert_at ::
  "bheap \<Rightarrow> nat \<Rightarrow> btree \<Rightarrow> u64 \<Rightarrow> addr \<Rightarrow> frame list \<Rightarrow> addr \<Rightarrow>
   (u64 \<times> addr) list \<Rightarrow> (u64 \<times> addr) list \<Rightarrow> bnode \<Rightarrow> bool" where
  "insert_at h n t k r c p esL esR nd \<longleftrightarrow> bpt h n t \<and> leads_to (order h) k t c p (esL @ esR) \<and>
     length c = n \<and> (\<forall>e \<in> set esL. fst e < k) \<and> (\<forall>e \<in> set esR. k < fst e) \<and>
     r \<notin> snd ` set (contents t) \<and> heap_ok h (set (addrs t)) (Set.insert r (snd ` set (contents t))) \<and>
     nodes h p = Some nd \<and>
     node_ok (order h) (hole_parent c) True (map fst (esL @ esR)) (map snd (esL @ esR)) nd \<and>
     crepr (nodes h) (order h) c p"

lemma insert_at_facts:
  assumes "insert_at h n t k r c p esL esR nd"
  shows "t = plug c (Lf p (esL @ esR))" "3 \<le> order h" "cshape (order h) 0 c" "p \<noteq> NULL"
    "distinct (caddrs c @ [p])" "set (addrs t) = Set.insert p (set (caddrs c))"
    "chain (nodes h) (order h) (lleaf c @ p # rleaf c)"
proof -
  show t: "t = plug c (Lf p (esL @ esR))" and "3 \<le> order h" "cshape (order h) 0 c"
    using assms by (auto simp: insert_at_def leads_to_def bpt_def)
  show "set (addrs t) = Set.insert p (set (caddrs c))" by (auto simp: t addrs_plug_set)
  show "chain (nodes h) (order h) (lleaf c @ p # rleaf c)" "distinct (caddrs c @ [p])"
    using assms addrs_plug_distinct [of c "Lf p (esL @ esR)"]
    by (auto simp: insert_at_def bpt_def leaf_addrs_plug t)
  have "repr (nodes h) (order h) NULL t" using assms by (simp add: insert_at_def bpt_def)
  then show "p \<noteq> NULL" by (auto simp: t repr_plug elim: node_atE)
qed

lemma insert_at_sorted:
  assumes "insert_at h n t k r c p esL esR nd" and al: "al = esL @ (k, r) # esR"
  shows "sorted_wrt (<) (lseq c @ keyseq (Lf p al) @ rseq c)"
proof -
  have z: "leads_to (order h) k t c p (esL @ esR)" and L: "\<forall>e \<in> set esL. fst e < k" and R: "\<forall>e \<in> set esR. k < fst e"
    and "sorted_wrt (<) (keyseq t)"
    using assms by (simp_all add: insert_at_def bpt_def)
  then have "sorted_wrt (<) (lseq c @ keyseq (Lf p (esL @ esR)) @ rseq c)" by (intro leads_to_sorted(2))
  moreover have "\<forall>x \<in> set (lseq c). x < key_code k" "\<forall>x \<in> set (rseq c). key_code k < x"
    using z by (auto simp: leads_to_def)
  ultimately have "sorted_wrt (<) ((lseq c @ keyseq (Lf p esL)) @ key_code k # keyseq (Lf p esR) @ rseq c)"
    using L R by (intro sorted_insert_between) auto
  then show ?thesis by (simp add: al)
qed

lemma insert_at_map:
  assumes A: "insert_at h n t k r c p esL esR nd" and al: "al = esL @ (k, r) # esR"
    and cu: "contents u = lcont c @ al @ rcont c" and rc: "recs h' r = Some rc"
    and same: "\<And>x. x \<in> snd ` set (contents t) \<Longrightarrow> recs h' x = recs h x"
  shows "amap h' u = (amap h t)(k \<mapsto> cell rc)" "distinct (map snd (contents u))"
    "snd ` set (contents u) = Set.insert r (snd ` set (contents t))"
proof -
  note f = insert_at_facts [OF A]
  have ct: "contents t = lcont c @ esL @ esR @ rcont c" by (simp add: f(1) contents_plug)
  have "fst e \<noteq> k" if "e \<in> set (lcont c @ esL)" for e
    using that lcont_lseq [OF f(3), of e] A by (auto simp: insert_at_def leads_to_def)
  then have "map_of ((lcont c @ esL) @ (k, r) # (esR @ rcont c)) = (map_of ((lcont c @ esL) @ esR @ rcont c))(k \<mapsto> r)"
    by (intro map_of_insert) auto
  then have mo: "map_of (contents u) = (map_of (contents t))(k \<mapsto> r)" by (simp add: cu al ct)
  have "recs h' x = recs h x" if "map_of (contents t) y = Some x" for x y
    using that map_of_SomeD same by force
  then show "amap h' u = (amap h t)(k \<mapsto> cell rc)"
    using rc by (auto simp: amap_def mo fun_eq_iff split: option.splits)
  show "snd ` set (contents u) = Set.insert r (snd ` set (contents t))" by (auto simp: cu al ct)
  have "distinct (map snd (contents t))" "r \<notin> snd ` set (contents t)" using A by (auto simp: insert_at_def bpt_def)
  then show "distinct (map snd (contents u))" by (auto simp: cu al ct)
qed

lemma insert_room:
  assumes A: "insert_at h n t k r c p esL esR nd" and rc: "recs h r = Some rc"
    and full: "num_keys nd < order h - 1"
  obtains h' u where "insert_into_leaf p k r h = Inr (p, h')" "bpt h' n u" "root_addr u = root_addr t"
    "amap h' u = (amap h t)(k \<mapsto> cell rc)" "brk h' = brk h" "limit h' = limit h" "order h' = order h"
proof -
  note f = insert_at_facts [OF A]
  let ?m = "order h" and ?al = "esL @ (k, r) # esR"
  have nd: "nodes h p = Some nd" "node_ok ?m (hole_parent c) True (map fst (esL @ esR)) (map snd (esL @ esR)) nd"
    and L: "\<forall>e \<in> set esL. fst e < k" and R: "esR = [] \<or> k < fst (hd esR)" and cr: "crepr (nodes h) ?m c p"
    using A by (auto simp: insert_at_def)
  have len: "length (esL @ esR) < ?m - 1" using node_okD(3) [OF nd(2)] full by simp
  obtain nd' where nd': "insert_into_leaf p k r h = Inr (p, put_node p nd' h)"
      "node_ok ?m (hole_parent c) True (map fst ?al) (map snd ?al) nd'"
      "pointers nd' ! (?m - 1) = pointers nd ! (?m - 1)"
    by (rule insert_into_leaf_spec [OF nd len L R])
  define u where "u = plug c (Lf p ?al)"
  let ?h = "put_node p nd' h"
  have cu: "contents u = lcont c @ ?al @ rcont c" by (simp add: u_def contents_plug)
  note mp = insert_at_map [OF A refl cu, of ?h rc]
  have "crepr (nodes ?h) ?m c p = crepr (nodes h) ?m c p"
    by (rule crepr_cong) (use f(5) in auto)
  then have "repr (nodes ?h) ?m NULL u" using cr nd'(2) f(4) by (simp add: u_def repr_plug node_at_def)
  moreover have "tshape ?m 1 n u"
  proof -
    have "tshape ?m (hole_min ?m 0 c) 0 (Lf p (esL @ esR))" "length c = n"
      using A by (auto simp: insert_at_def leads_to_def)
    then show ?thesis
      unfolding u_def using tshape_plug [OF cshape_lens [OF f(3)], of ?m 0 "Lf p ?al"] f(3) len by auto
  qed
  moreover have "sorted_wrt (<) (keyseq u)"
    using insert_at_sorted [OF A refl] keyseq_plug [OF f(3), of "Lf p ?al"] by (simp add: u_def)
  moreover have "chain (nodes ?h) ?m (leaf_addrs u) = chain (nodes h) ?m (leaf_addrs u)"
    by (rule chain_cong) (use nd nd'(3) in \<open>auto simp: link_def\<close>)
  moreover have au: "set (addrs u) = set (addrs t)" "distinct (addrs u)"
    using f(5,6) by (auto simp: u_def addrs_plug_set addrs_plug_distinct)
  moreover have "heap_ok ?h (set (addrs u)) (Set.insert r (snd ` set (contents t)))"
    unfolding au by (rule heap_ok_put) (use A f(6) in \<open>auto simp: insert_at_def\<close>)
  ultimately have "bpt ?h n u"
    using mp(2,3) rc f(2,7) by (simp add: bpt_def u_def leaf_addrs_plug)
  moreover have "root_addr u = root_addr t" unfolding u_def f(1) by (rule root_plug) simp
  ultimately show thesis using that [of ?h u] nd'(1) mp(1) rc by simp
qed

lemma split_sorted:
  assumes "sorted_wrt (<) (L @ keyseq (Lf p al) @ R)" and "0 < s" and "s < length al"
  shows "sorted_wrt (<) (L @ keyseq (Lf p (take s al)) @ sep_code (fst (al ! s)) #
    keyseq (Lf q (drop s al)) @ R)"
proof -
  let ?l = "map (\<lambda>e. key_code (fst e)) (take s al)" and ?r = "map (\<lambda>e. key_code (fst e)) (drop s al)"
  let ?k = "fst (al ! s)"
  have cat: "map (\<lambda>e. key_code (fst e)) al = ?l @ ?r" by (metis append_take_drop_id map_append)
  have srt: "sorted_wrt (<) ((L @ ?l) @ (?r @ R))" using assms(1) by (simp add: cat)
  obtain r' where r: "?r = key_code ?k # r'" using assms(3) by (simp add: Cons_nth_drop_Suc [symmetric])
  obtain l' e where l: "?l = l' @ [key_code (fst e)]"
    using assms(2,3) by (cases "take s al" rule: rev_cases) auto
  have s2: "sorted_wrt (<) ((L @ l' @ [key_code (fst e)]) @ (key_code ?k # r' @ R))"
    using srt unfolding l r by simp
  then have "fst e < ?k" by (auto simp: sorted_wrt_append)
  then have e: "key_code (fst e) < sep_code ?k" by simp
  have "\<forall>x \<in> set (L @ ?l). x < sep_code ?k"
    using s2 e unfolding l by (auto simp: sorted_wrt_append intro: less_trans)
  moreover have "sep_code ?k < key_code ?k" by simp
  then have "\<forall>x \<in> set (?r @ R). sep_code ?k < x"
    using s2 unfolding r by (auto simp: sorted_wrt_append intro: less_trans simp del: code_less)
  ultimately have "sorted_wrt (<) ((L @ ?l) @ sep_code ?k # (?r @ R))"
    by (intro sorted_insert_between srt)
  then show ?thesis by simp
qed

lemma insert_split:
  assumes A: "insert_at h n t k r c p esL esR nd" and rc: "recs h r = Some rc"
    and full: "\<not> num_keys nd < order h - 1" and room: "room h (b + (n + 2) * split_cost (order h))" and fuel: "n < fuel"
  obtains h' u n' where "insert_into_leaf_after_splitting fuel (root_addr t) p k r h = Inr (root_addr u, h')"
    "bpt h' n' u" "n' \<le> Suc n" "amap h' u = (amap h t)(k \<mapsto> cell rc)" "room h' b" "order h' = order h"
proof -
  note f = insert_at_facts [OF A]
  let ?m = "order h" and ?V = "Set.insert r (snd ` set (contents t))"
  define al where "al = esL @ (k, r) # esR"
  define s where "s = cut (?m - 1)"
  have nd: "nodes h p = Some nd" "node_ok ?m (hole_parent c) True (map fst (esL @ esR)) (map snd (esL @ esR)) nd"
    and L: "\<forall>e \<in> set esL. fst e < k" and R: "esR = [] \<or> k < fst (hd esR)" and cr: "crepr (nodes h) ?m c p"
    and ok: "heap_ok h (set (addrs t)) ?V" and n: "length c = n"
    using A by (auto simp: insert_at_def)
  have len: "length (esL @ esR) = ?m - 1" using node_okD(3,8) [OF nd(2)] full by simp
  then have al_len: "length al = ?m" using f(2) by (simp add: al_def)
  have sb: "0 < s" "s < ?m" "s \<le> ?m - s" "?m - s \<le> ?m - 1" "s \<le> ?m - 1"
    using cut_bounds [OF f(2), folded s_def] by linarith+
  have "room h ((b + Suc n * split_cost ?m) + split_cost ?m)" using room by (simp add: algebra_simps)
  note rm = this
  have pU: "p \<in> set (addrs t)" by (simp add: f(6))
  obtain q h1 where q: "split_leaf p k r h = Inr (fst (al ! s), q, h1)" "q \<notin> set (addrs t)" "q \<noteq> NULL"
      "heap_ok h1 (Set.insert q (set (addrs t))) ?V" "keeps (set (addrs t) - {p}) ?V h h1"
      "room h1 (b + Suc n * split_cost ?m)"
      "repr (nodes h1) ?m (hole_parent c) (Lf p (take s al))" "repr (nodes h1) ?m (hole_parent c) (Lf q (drop s al))"
      "link (nodes h1) ?m p = Some q" "link (nodes h1) ?m q = link (nodes h) ?m p"
    by (rule split_leaf_spec [OF ok pU nd len f(2) L R rm s_def al_def])
  let ?l = "Lf p (take s al)" and ?r = "Lf q (drop s al)"
  have mk: "min_keys_at ?m 0 = s" by (simp add: min_keys_at_def s_def)
  have o1: "order h1 = ?m" using q(5) by (simp add: keeps_def)
  have pc: "p \<notin> set (caddrs c)" using f(5) by auto
  have old: "nodes h1 a = nodes h a" if "a \<in> set (caddrs c)" for a
    using that q(5) pc by (auto simp: keeps_def f(6))
  have "crepr (nodes h1) ?m c p = crepr (nodes h) ?m c p" by (rule crepr_cong) (rule old)
  moreover have "Set.insert q (set (addrs t)) = set (caddrs c @ addrs ?l @ addrs ?r)" by (auto simp: f(6))
  moreover have "distinct (caddrs c @ addrs ?l @ addrs ?r)" using f(5,6) q(2) by auto
  ultimately have st: "split_state h1 ?V 0 c ?l ?r"
    using q(4,7,8) o1 f(2,3) cr sb al_len mk by (simp add: split_state_def)
  have "root_addr t = root_addr (plug c ?l)" unfolding f(1) by (rule root_plug) simp
  then obtain h' u where u: "insert_into_parent fuel (root_addr t) p (fst (al ! s)) q h1 = Inr (root_addr u, h')"
      "grown h1 ?V 0 c ?l (fst (al ! s)) ?r h' u" "room h' b"
    using insert_into_parent_grown [OF st, of b fuel "root_addr t" "fst (al ! s)"] q(6) o1 n fuel by auto
  then obtain n' where n': "n' \<le> Suc n" "tshape ?m 1 n' u" using n o1 by (auto simp: grown_def)
  have o': "order h' = ?m" using u(2) o1 by (simp add: grown_def keeps_def)
  have lf: "leaf_addrs u = lleaf c @ p # q # rleaf c" using u(2) by (simp add: grown_def)
  have cu: "contents u = lcont c @ al @ rcont c" using u(2) by (simp add: grown_def)
  have rs: "recs h' x = recs h x" if "x \<in> ?V" for x
    using that u(2) q(5) by (auto simp: grown_def keeps_def)
  note mp = insert_at_map [OF A al_def cu, of h' rc]
  have lks: "link (nodes h') ?m a = link (nodes h1) ?m a" if "a \<in> set (leaf_addrs u)" for a
    using that u(2) o1 by (simp add: grown_def)
  have "chain (nodes h1) ?m (lleaf c @ p # q # rleaf c)"
  proof (rule chain_insert [OF f(7)])
    show "p \<notin> set (lleaf c) \<union> set (rleaf c)" using pc lleaf_subset [of c] by blast
    show "link (nodes h1) ?m a = link (nodes h) ?m a" if "a \<in> set (lleaf c) \<union> set (rleaf c)" for a
      using old that lleaf_subset [of c] by (auto simp: link_def)
  qed (rule q)+
  moreover have "chain (nodes h') ?m (leaf_addrs u) = chain (nodes h1) ?m (leaf_addrs u)"
    by (rule chain_cong) (rule lks)
  moreover have "sorted_wrt (<) (keyseq u)"
    using u(2) split_sorted [OF insert_at_sorted [OF A al_def], of s q] sb al_len by (simp add: grown_def)
  moreover have "repr (nodes h') ?m NULL u" "distinct (addrs u)" "heap_ok h' (set (addrs u)) ?V"
    using u(2) o1 by (simp_all add: grown_def)
  ultimately have "bpt h' n' u"
    using n'(2) mp(2,3) rs rc f(2) o' by (simp add: bpt_def lf)
  moreover have "insert_into_leaf_after_splitting fuel (root_addr t) p k r h = Inr (root_addr u, h')"
    using q(1) u(1) by (simp add: insert_into_leaf_after_splitting_def)
  ultimately show thesis using that [of u h' n'] n'(1) mp(1) rs rc u(3) o' by simp
qed

section \<open>The interface\<close>

lemma find_map:
  assumes "bpt_map h root n M" and "n < fuel"
  obtains r p where "find_bpt fuel root k h = Inr (r, p)"
    "case M k of None \<Rightarrow> r = NULL | Some v \<Rightarrow> r \<noteq> NULL \<and> (\<exists>rc. recs h r = Some rc \<and> cell rc = v)"
proof -
  consider "root = NULL" "M = Map.empty" | t where "root = root_addr t" "bpt h n t" "M = amap h t"
    using assms(1) by (auto simp: bpt_map_def)
  then show thesis
  proof cases
    case 1
    then show ?thesis using that by (simp add: find_bpt_def)
  next
    case 2
    obtain p where p: "find_bpt fuel root k h
        = Inr (case map_of (contents t) k of None \<Rightarrow> NULL | Some r \<Rightarrow> r, p)"
      using find_bpt_spec [OF 2(2) assms(2)] 2(1) by metis
    show ?thesis
      by (rule that [OF p]) (use 2(3) contents_rec [OF 2(2), of k] in \<open>auto simp: amap_def split: option.splits\<close>)
  qed
qed

lemma insert_new_key:
  assumes inv: "bpt h n t" and k: "map_of (contents t) k = None" and fuel: "n < fuel"
    and room: "room h (b + insert_cost (order h) n)"
  obtains h' u n' where "insert_bpt fuel (root_addr t) k v h = Inr (root_addr u, h')"
    "bpt h' n' u" "n' \<le> Suc n" "amap h' u = (amap h t)(k \<mapsto> v)" "room h' b" "order h' = order h"
proof -
  let ?U = "set (addrs t)" and ?V = "snd ` set (contents t)" and ?m = "order h"
  have ok: "heap_ok h ?U ?V" and root: "root_addr t \<noteq> NULL"
    using inv repr_root by (auto simp: bpt_def)
  have "room h ((b + (n + 2) * split_cost ?m) + slab_cost)"
    using room by (simp add: insert_cost_def algebra_simps)
  then obtain r rc h1 where r: "make_record v h = Inr (r, h1)" "r \<notin> ?V" "r \<noteq> NULL" "recs h1 r = Some rc"
      "cell rc = v" "heap_ok h1 ?U (Set.insert r ?V)" "keeps ?U ?V h h1" "room h1 (b + (n + 2) * split_cost ?m)"
    by (rule make_record_spec [OF ok])
  have ok1: "heap_ok h1 ?U ?V" by (rule heap_ok_antimono [OF r(6)]) auto
  note b1 = bpt_keeps [OF inv r(7) ok1]
  have o1: "order h1 = ?m" using r(7) by (simp add: keeps_def)
  obtain c p es where z: "leads_to (order h1) k t c p es" "length c = n" "find_leaf fuel (root_addr t) k h1 = Inr p"
    by (rule find_leaf_leads [OF b1(1) fuel])
  have rep: "repr (nodes h1) (order h1) NULL t" and srt: "sorted_wrt (<) (keyseq t)"
    using b1(1) by (auto simp: bpt_def)
  obtain nd where nd: "nodes h1 p = Some nd" "node_ok (order h1) (hole_parent c) True (map fst es) (map snd es) nd"
      "crepr (nodes h1) (order h1) c p"
    using leads_to_leaf [OF rep z(1)] by metis
  have "k \<notin> fst ` set es" using k leads_to_map_of [OF z(1)] by (simp add: map_of_eq_None_iff)
  then obtain esL esR where es: "es = esL @ esR" "\<forall>e \<in> set esL. fst e < k" "\<forall>e \<in> set esR. k < fst e"
    using leaf_split [OF leads_to_sorted(1) [OF srt z(1)]] by metis
  have A: "insert_at h1 n t k r c p esL esR nd"
    using b1(1) z(1,2) es nd r(2,6) by (simp add: insert_at_def)
  obtain p' where fb: "find_bpt fuel (root_addr t) k h = Inr (NULL, p')"
    using find_bpt_spec [OF inv fuel, of k] k by (metis option.simps(4))
  show thesis
  proof (cases "num_keys nd < order h1 - 1")
    case True
    obtain h' u where u: "insert_into_leaf p k r h1 = Inr (p, h')" "bpt h' n u" "root_addr u = root_addr t"
        "amap h' u = (amap h1 t)(k \<mapsto> cell rc)" "brk h' = brk h1" "limit h' = limit h1" "order h' = order h1"
      by (rule insert_room [OF A r(4) True])
    have "insert_bpt fuel (root_addr t) k v h = Inr (root_addr u, h')"
      using fb root r(1) z(3) nd(1) True u(1,3) by (simp add: insert_bpt_def)
    moreover have "room h' b" using r(8) u(5,6) by (simp add: room_def)
    ultimately show ?thesis using that [of u h' n] u(2,4,7) b1(2) r(5) o1 by simp
  next
    case False
    have "room h1 (b + (n + 2) * split_cost (order h1))" using r(8) o1 by simp
    from insert_split [OF A r(4) False this fuel]
    obtain h' u n' where u: "insert_into_leaf_after_splitting fuel (root_addr t) p k r h1 = Inr (root_addr u, h')"
        "bpt h' n' u" "n' \<le> Suc n" "amap h' u = (amap h1 t)(k \<mapsto> cell rc)" "room h' b" "order h' = order h1"
      by metis
    have "insert_bpt fuel (root_addr t) k v h = Inr (root_addr u, h')"
      using fb root r(1) z(3) nd(1) False u(1) by (simp add: insert_bpt_def)
    then show ?thesis using that [of u h' n'] u b1(2) r(5) o1 by simp
  qed
qed

text \<open>A key of the tree is updated in its record, without memory.\<close>

lemma update_map:
  assumes "bpt_map h root n M" and fuel: "n < fuel" and "M k = Some w"
  obtains r rc where "insert_bpt fuel root k v h = Inr (root, put_rec r (rc\<lparr>cell := v\<rparr>) h)"
    "bpt_map (put_rec r (rc\<lparr>cell := v\<rparr>) h) root n (M(k \<mapsto> v))"
proof -
  obtain t where t: "root = root_addr t" "bpt h n t" "M = amap h t" using assms(1,3) by (auto simp: bpt_map_def)
  then obtain r where r: "map_of (contents t) k = Some r" using assms(3) by (auto simp: amap_def split: option.splits)
  obtain rc where rc: "recs h r = Some rc" "r \<noteq> NULL" using contents_rec [OF t(2) r] by auto
  obtain p where "find_bpt fuel root k h = Inr (r, p)"
    using find_bpt_spec [OF t(2) fuel, of k] t(1) r by (metis option.simps(5))
  then have "insert_bpt fuel root k v h = Inr (root, put_rec r (rc\<lparr>cell := v\<rparr>) h)" using rc by (simp add: insert_bpt_def)
  moreover have "bpt_map (put_rec r (rc\<lparr>cell := v\<rparr>) h) root n (M(k \<mapsto> v))"
    using update_record [OF t(2) r rc(1), of v] t(1,3) by (auto simp: bpt_map_def)
  ultimately show thesis using that by blast
qed

lemma insert_map:
  assumes inv: "bpt_map h root n M" and fuel: "n < fuel" and room: "room h (b + insert_cost (order h) n)"
  obtains root' h' n' where "insert_bpt fuel root k v h = Inr (root', h')"
    "bpt_map h' root' n' (M(k \<mapsto> v))" "n' \<le> Suc n" "room h' b" "order h' = order h"
proof -
  consider "root = NULL" "M = Map.empty" "heap_ok h {} {}" "3 \<le> order h"
    | t where "root = root_addr t" "bpt h n t" "M = amap h t"
    using inv by (auto simp: bpt_map_def)
  then show thesis
  proof cases
    case 1
    have "room h ((b + node_cost (order h)) + slab_cost)"
      using room by (simp add: insert_cost_def split_cost_def room_def)
    then obtain r rc h1 where r: "make_record v h = Inr (r, h1)" "recs h1 r = Some rc" "cell rc = v"
        "heap_ok h1 {} {r}" "keeps {} {} h h1" "room h1 (b + node_cost (order h))"
      by (rule make_record_spec [OF 1(3)])
    have o1: "order h1 = order h" using r(5) by (simp add: keeps_def)
    obtain h' t where t: "start_new_tree k r h1 = Inr (root_addr t, h')" "bpt h' 0 t" "contents t = [(k, r)]"
        "recs h' r = Some rc" "room h' b" "order h' = order h1"
      by (rule start_new_tree_spec [OF r(4,2), of b k]) (use 1(4) o1 r(6) in simp_all)
    have "insert_bpt fuel root k v h = Inr (root_addr t, h')"
      using 1(1) r(1) t(1) by (simp add: insert_bpt_def find_bpt_def)
    moreover have "M(k \<mapsto> v) = amap h' t" using 1(2) t(3,4) r(3) by (auto simp: amap_def)
    ultimately show ?thesis using that [of "root_addr t" h' 0] t(2,5,6) o1 by (auto simp: bpt_map_def)
  next
    case 2
    show ?thesis
    proof (cases "map_of (contents t) k")
      case None
      then show ?thesis
        using insert_new_key [OF 2(2) None fuel room, of v] that 2 by (metis bpt_map_def)
    next
      case (Some r)
      then obtain w where "M k = Some w" using contents_rec [OF 2(2) Some] 2(3) by (auto simp: amap_def)
      from update_map [OF inv fuel this, of v] obtain r rc where
        "insert_bpt fuel root k v h = Inr (root, put_rec r (rc\<lparr>cell := v\<rparr>) h)"
        "bpt_map (put_rec r (rc\<lparr>cell := v\<rparr>) h) root n (M(k \<mapsto> v))" .
      moreover have "room (put_rec r (rc\<lparr>cell := v\<rparr>) h) b" using room by (simp add: room_def)
      ultimately show ?thesis using that [of root _ n] by simp
    qed
  qed
qed

end
