(* ===== verification/Bpt_Delete_Nodes.thy ===== *)
theory Bpt_Delete_Nodes
  imports Bpt_Delete Bpt_Map
begin

text \<open>
  What the steps of deletion do to the nodes they touch: removing an entry, merging two
  siblings, moving an entry between two siblings, and releasing a node.
\<close>

section \<open>Arrays\<close>

lemma scan_found:
  assumes "i \<le> j" and "j < n" and "j < length xs" and "\<And>x. i \<le> x \<Longrightarrow> x < j \<Longrightarrow> P (xs ! x)" and "\<not> P (xs ! j)"
  shows "scan P xs n i = Inr j"
  using assms
proof (induction "j - i" arbitrary: i)
  case 0
  then show ?case by (subst scan.simps) simp
next
  case (Suc d)
  then have "scan P xs n (Suc i) = Inr j" by simp
  then show ?case using Suc by (subst scan.simps) simp
qed

lemma scan_unbounded:
  assumes "take n xs = as @ v # bs" and "v \<notin> set as" and "n \<le> length xs"
  shows "scan (\<lambda>x. x \<noteq> v) xs (Suc (length xs)) 0 = Inr (length as)"
proof (rule scan_found)
  have n: "length as < n" using arg_cong [OF assms(1), of length] assms(3) by simp
  have x: "xs ! i = (as @ v # bs) ! i" if "i \<le> length as" for i
    using that n by (simp add: assms(1) [symmetric])
  show "length as < Suc (length xs)" "length as < length xs" using n assms(3) by simp_all
  show "xs ! i \<noteq> v" if "i < length as" for i using that x [of i] assms(2) by (auto simp: nth_append)
  show "\<not> xs ! length as \<noteq> v" using x by simp
qed simp

lemma shift_down_eq:
  assumes "Suc i \<le> n" and "n \<le> length xs"
  shows "shift_down (Suc i) n xs = Inr (take i xs @ drop (Suc i) (take n xs) @ drop (n - 1) xs)"
  using assms
proof (induction n rule: dec_induct)
  case base
  then show ?case by (simp add: shift_down_def)
next
  case (step n)
  let ?ys = "take i xs @ drop (Suc i) (take n xs) @ drop (n - 1) xs"
  have n: "Suc i \<le> n" "n < length xs" using step by simp_all
  have "shift_down (Suc i) (Suc n) xs = bindE (arr_get ?ys n) (arr_set ?ys (n - 1))"
    using step by (simp add: shift_down_def foldE_append)
  moreover have "?ys ! n = xs ! n" using n by (auto simp: nth_append)
  moreover have "drop (n - 1) xs = xs ! (n - 1) # drop n xs"
    using n Cons_nth_drop_Suc [of "n - 1" xs] by simp
  then have "?ys[n - 1 := xs ! n] = take i xs @ drop (Suc i) (take n xs) @ xs ! n # drop n xs"
    using n by (auto simp: list_update_append)
  moreover have "drop (Suc i) (take (Suc n) xs) = drop (Suc i) (take n xs) @ [xs ! n]"
    using n by (simp add: take_Suc_conv_app_nth)
  ultimately show ?case using n by simp
qed

lemma remove_arr:
  assumes "take n xs = as @ v # bs" and "n = Suc (length as + length bs)" and "n \<le> length xs"
  obtains ys where "shift_down (Suc (length as)) n xs = Inr ys" "length ys = length xs"
    "take (length as + length bs) ys = as @ bs" "drop n ys = drop n xs"
proof
  let ?ys = "take (length as) xs @ drop (Suc (length as)) (take n xs) @ drop (n - 1) xs"
  have as: "take (length as) xs = as" using assms by (intro take_prefix [of n _ _ "v # bs"]) auto
  show "shift_down (Suc (length as)) n xs = Inr ?ys" using assms by (intro shift_down_eq) auto
  show "length ?ys = length xs" using assms by simp
  show "take (length as + length bs) ?ys = as @ bs" unfolding as assms(1) by simp
  show "drop n ?ys = drop n xs" unfolding as assms(1) using assms(2) by simp
qed

lemma nth_of_drop:
  assumes "drop n xs = drop n ys" and "n \<le> i" and "i < length xs" and "i < length ys"
  shows "xs ! i = ys ! i"
proof -
  have "xs ! i = drop n xs ! (i - n)" "ys ! i = drop n ys ! (i - n)"
    using assms(2-4) by simp_all
  then show ?thesis using assms(1) by simp
qed

section \<open>Removing an entry\<close>

lemma remove_leaf_entry:
  assumes nd: "nodes h p = Some nd"
    and ok: "node_ok (order h) par True (map fst (esL @ (k, r) # esR)) (map snd (esL @ (k, r) # esR)) nd"
    and k: "k \<notin> fst ` set esL" and r: "r \<notin> snd ` set esL"
  obtains nd' where "remove_entry_from_node p k r h = Inr (put_node p nd' h)"
    "node_ok (order h) par True (map fst (esL @ esR)) (map snd (esL @ esR)) nd'"
    "pointers nd' ! (order h - 1) = pointers nd ! (order h - 1)"
proof -
  note d = node_okD [OF ok]
  define m where "m = order h"
  let ?n = "Suc (length esL + length esR)"
  have tk: "take ?n (keys nd) = map fst esL @ k # map fst esR" and tp: "take ?n (pointers nd) = map snd esL @ r # map snd esR"
    and l: "?n \<le> m - 1" "length (keys nd) = m - 1" "length (pointers nd) = m" and nk: "num_keys nd = ?n"
    using d by (simp_all add: m_def)
  obtain ks where ks: "shift_down (Suc (length esL)) ?n (keys nd) = Inr ks" "length ks = m - 1"
      "take (length esL + length esR) ks = map fst (esL @ esR)"
    using remove_arr [OF tk] l by auto
  obtain ps where ps: "shift_down (Suc (length esL)) ?n (pointers nd) = Inr ps" "length ps = m"
      "take (length esL + length esR) ps = map snd (esL @ esR)" "drop ?n ps = drop ?n (pointers nd)"
    by (rule remove_arr [OF tp]) (use l in auto)
  have sk: "scan (\<lambda>x. x \<noteq> k) (keys nd) (Suc (length (keys nd))) 0 = Inr (length esL)"
    using scan_unbounded [OF tk] k l by simp
  have sp: "scan (\<lambda>x. x \<noteq> r) (pointers nd) (Suc (length (pointers nd))) 0 = Inr (length esL)"
    using scan_unbounded [OF tp] r l by simp
  let ?ps = "take (length esL + length esR) ps @ replicate (m - 1 - (length esL + length esR)) NULL @ drop (m - 1) ps"
  define nd' where "nd' = nd\<lparr>keys := ks, pointers := ?ps, num_keys := length esL + length esR\<rparr>"
  have "fill_null (length esL + length esR) (m - 1) ps = Inr ?ps" using l ps(2) by (intro fill_null_eq) auto
  then have "remove_entry_from_node p k r h = Inr (put_node p nd' h)"
    using nd d(1) nk sk sp ks(1) ps(1)
    by (simp add: remove_entry_from_node_def dec64_def nd'_def Let_def flip: m_def)
  moreover have "node_ok m par True (map fst (esL @ esR)) (map snd (esL @ esR)) nd'"
    using d(1,2) ks ps l by (simp add: node_ok_def nd'_def)
  moreover have "?ps ! (m - 1) = ps ! (m - 1)" using l ps(2) by (simp add: nth_append)
  moreover have "ps ! (m - 1) = pointers nd ! (m - 1)"
    by (rule nth_of_drop [OF ps(4)]) (use l ps(2) in simp_all)
  ultimately show thesis using that [of nd'] by (simp add: nd'_def m_def)
qed

lemma remove_inner_entry:
  assumes nd: "nodes h p = Some nd" and ok: "node_ok (order h) par False (ksL @ k # ksR) (psL @ y # psR) nd"
    and l: "length psL = Suc (length ksL)" "length psR = length ksR" and k: "k \<notin> set ksL" and y: "y \<notin> set psL"
  obtains nd' where "remove_entry_from_node p k y h = Inr (put_node p nd' h)"
    "node_ok (order h) par False (ksL @ ksR) (psL @ psR) nd'"
proof -
  note d = node_okD [OF ok]
  define m where "m = order h"
  let ?n = "Suc (length ksL + length ksR)" and ?np = "Suc (length psL + length psR)"
  have tk: "take ?n (keys nd) = ksL @ k # ksR" and tp: "take ?np (pointers nd) = psL @ y # psR"
    and b: "?n \<le> m - 1" "?np \<le> m" "length (keys nd) = m - 1" "length (pointers nd) = m" and nk: "num_keys nd = ?n"
    using d by (simp_all add: m_def)
  obtain ks where ks: "shift_down (Suc (length ksL)) ?n (keys nd) = Inr ks" "length ks = m - 1"
      "take (length ksL + length ksR) ks = ksL @ ksR"
    using remove_arr [OF tk] b by auto
  obtain ps where ps: "shift_down (Suc (length psL)) ?np (pointers nd) = Inr ps" "length ps = m"
      "take (length psL + length psR) ps = psL @ psR"
    using remove_arr [OF tp] b by auto
  have sk: "scan (\<lambda>x. x \<noteq> k) (keys nd) (Suc (length (keys nd))) 0 = Inr (length ksL)"
    using scan_unbounded [OF tk] k b by simp
  have sp: "scan (\<lambda>x. x \<noteq> y) (pointers nd) (Suc (length (pointers nd))) 0 = Inr (length psL)"
    using scan_unbounded [OF tp] y b by simp
  let ?ps = "take (length psL + length psR) ps @ replicate (m - (length psL + length psR)) NULL @ drop m ps"
  define nd' where "nd' = nd\<lparr>keys := ks, pointers := ?ps, num_keys := length ksL + length ksR\<rparr>"
  have "fill_null (length psL + length psR) m ps = Inr ?ps" using b ps(2) by (intro fill_null_eq) auto
  then have "remove_entry_from_node p k y h = Inr (put_node p nd' h)"
    using nd d(1) nk sk sp ks(1) ps(1) l
    by (simp add: remove_entry_from_node_def dec64_def nd'_def Let_def flip: m_def)
  moreover have "node_ok m par False (ksL @ ksR) (psL @ psR) nd'"
    using d(1,2) ks ps b l by (simp add: node_ok_def nd'_def)
  ultimately show thesis using that [of nd'] by (simp add: m_def)
qed

section \<open>Releasing a node\<close>

lemma release_node_spec:
  assumes ok: "heap_ok h (Set.insert n U) V" and n: "n \<notin> U"
  obtains h' where "release_node n h = Inr h'" "heap_ok h' U V" "keeps U V h h'" "brk h' = brk h" "limit h' = limit h"
    "recs h' = recs h"
proof -
  obtain nd where nd: "nodes h n = Some nd" and n0: "n \<noteq> NULL" using ok by (auto simp: heap_ok_def)
  obtain F where F: "flist (nodes h) (free_nodes h) F" "distinct F" "set F \<inter> Set.insert n U = {}"
    using ok by (auto simp: heap_ok_def)
  define nd' where "nd' = nd\<lparr>keys := [], pointers := [], nxt := free_nodes h\<rparr>"
  define h' where "h' = (put_node n nd' h)\<lparr>free_nodes := n\<rparr>"
  have "release_node n h = Inr h'"
    using nd by (simp add: release_node_def free_node_def h'_def nd'_def put_node_def)
  moreover have "flist (nodes h') (free_nodes h') (n # F)"
    using F n0 by (auto simp: h'_def nd'_def)
  then have "\<exists>F. flist (nodes h') (free_nodes h') F \<and> distinct F \<and> set F \<inter> U = {}"
    using F(2,3) n by (intro exI [of _ "n # F"]) auto
  then have "heap_ok h' U V" using ok nd by (auto simp: heap_ok_def h'_def)
  moreover have "keeps U V h h'" using n by (auto simp: keeps_def h'_def)
  ultimately show thesis using that [of h'] by (simp add: h'_def)
qed

section \<open>Merging two siblings\<close>

lemma append_arr:
  assumes "take a dst = xs" and "take b src = ys" and "a + b \<le> length dst" and "b \<le> length src"
  shows "copy_range src 0 b a dst = Inr (xs @ ys @ drop (a + b) dst)"
  using assms by (simp add: copy_range_eq)

lemma merge_leaves:
  assumes a: "nodes h a = Some na" "node_ok (order h) par True (map fst es) (map snd es) na"
    and y: "nodes h y = Some ny" "node_ok (order h) par' True (map fst fs) (map snd fs) ny"
    and len: "length es + length fs \<le> order h - 1" and m: "1 \<le> order h"
  obtains na' where "merge_nodes y a k h = Inr (put_node a na' h)"
    "node_ok (order h) par True (map fst (es @ fs)) (map snd (es @ fs)) na'"
    "pointers na' ! (order h - 1) = pointers ny ! (order h - 1)"
proof -
  note d = node_okD [OF a(2)] and e = node_okD [OF y(2)]
  define m where "m = order h"
  have m1: "m - 1 < m" using m by (simp add: m_def)
  let ?n = "length es + length fs"
  let ?ks = "map fst es @ map fst fs @ drop ?n (keys na)" and ?ps = "map snd es @ map snd fs @ drop ?n (pointers na)"
  have ks: "copy_range (keys ny) 0 (length fs) (length es) (keys na) = Inr ?ks"
    by (rule append_arr) (use d e len in \<open>auto simp: m_def\<close>)
  have ps: "copy_range (pointers ny) 0 (length fs) (length es) (pointers na) = Inr ?ps"
    by (rule append_arr) (use d e len in \<open>auto simp: m_def\<close>)
  have lp: "length ?ps = m" "length ?ks = m - 1" using d len m1 by (auto simp: m_def)
  define na' where "na' = na\<lparr>keys := ?ks, pointers := ?ps[m - 1 := pointers ny ! (m - 1)], num_keys := ?n\<rparr>"
  have "merge_nodes y a k h = Inr (put_node a na' h)"
    using a(1) y(1) d(3) e(1,3,5) ks ps lp m1
    by (simp add: merge_nodes_def Let_def na'_def flip: m_def)
  moreover have "node_ok m par True (map fst (es @ fs)) (map snd (es @ fs)) na'"
    using d(1,2) lp len by (simp add: node_ok_def na'_def m_def [symmetric])
  ultimately show thesis using that [of na'] lp m1 by (simp add: na'_def m_def)
qed

lemma merge_inner:
  assumes a: "nodes h a = Some na" "node_ok (order h) par False ks ps na"
    and y: "nodes h y = Some ny" "node_ok (order h) par' False ls qs ny"
    and lps: "length ps = Suc (length ks)" "length qs = Suc (length ls)"
    and len: "Suc (length ks + length ls) \<le> order h - 1" and ay: "a \<noteq> y"
    and dom: "set (ps @ qs) \<subseteq> dom (nodes h)"
  obtains na' where "merge_nodes y a k h = Inr (set_parents a (set (ps @ qs))
      (put_node a na' (put_node y (ny\<lparr>num_keys := 0\<rparr>) h)))"
    "node_ok (order h) par False (ks @ k # ls) (ps @ qs) na'"
proof -
  note d = node_okD [OF a(2)] and e = node_okD [OF y(2)]
  define m where "m = order h"
  define nk where "nk = length ks"
  define nl where "nl = length ls"
  have b: "nk < m - 1" "nk + 1 + nl \<le> m - 1" "nk + 1 + nl < m" using len by (auto simp: m_def nk_def nl_def)
  have lk: "length (keys na) = m - 1" "length (pointers na) = m" "length (keys ny) = m - 1" "length (pointers ny) = m"
    using d e by (simp_all add: m_def)
  let ?kz = "(keys na)[nk := k]"
  let ?ks = "(ks @ [k]) @ ls @ drop (nk + 1 + nl) ?kz"
  let ?pz = "ps @ take nl qs @ drop (nk + 1 + nl) (pointers na)"
  let ?ps = "ps @ qs @ drop (nk + 1 + nl + 1) (pointers na)"
  have "take (nk + 1) ?kz = ks @ [k]"
    using d(6) b lk by (simp add: take_Suc_conv_app_nth nk_def)
  then have ks: "copy_range (keys ny) 0 nl (nk + 1) ?kz = Inr ?ks"
    by (rule append_arr) (use e(6) b lk in \<open>auto simp: nl_def\<close>)
  have "take nl (pointers ny) = take nl (take (length qs) (pointers ny))" using lps by (simp add: nl_def)
  then have "take nl (pointers ny) = take nl qs" using e(7) by simp
  then have ps0: "copy_range (pointers ny) 0 nl (nk + 1) (pointers na) = Inr ?pz"
    using d(7) b lk lps by (intro append_arr) (auto simp: nk_def nl_def)
  have pq: "pointers ny ! nl = qs ! nl"
  proof -
    have "take (length qs) (pointers ny) ! nl = qs ! nl" using e(7) by simp
    then show ?thesis using lps by (simp add: nl_def)
  qed
  have qs: "take nl qs @ [qs ! nl] = qs" using lps take_Suc_conv_app_nth [of nl qs] by (simp add: nl_def)
  have up: "?pz[nk + 1 + nl := pointers ny ! nl] = ?ps"
  proof -
    have "drop (nk + 1 + nl) (pointers na) = pointers na ! (nk + 1 + nl) # drop (nk + 1 + nl + 1) (pointers na)"
      using b lk Cons_nth_drop_Suc [of "nk + 1 + nl" "pointers na"] by simp
    then show ?thesis
      using lps qs pq by (simp add: list_update_append nk_def nl_def)
  qed
  define na' where "na' = na\<lparr>keys := ?ks, pointers := ?ps, num_keys := nk + 1 + nl\<rparr>"
  let ?h = "put_node a na' (put_node y (ny\<lparr>num_keys := 0\<rparr>) h)"
  have tk: "take (nk + 1 + nl + 1) (pointers na') = ps @ qs" using lps by (simp add: na'_def nk_def nl_def)
  have lp: "foldE (\<lambda>i h. bindE (arr_get (pointers na') i) (\<lambda>tmp. upd_node tmp (\<lambda>nd. nd\<lparr>parent := a\<rparr>) h))
      [0..<nk + 1 + nl + 1] ?h = Inr (set_parents a (set (take (nk + 1 + nl + 1) (pointers na'))) ?h)"
  proof (rule set_parents_loop)
    show "nk + 1 + nl + 1 \<le> length (pointers na')" using lps by (simp add: na'_def nk_def nl_def)
    show "set (take (nk + 1 + nl + 1) (pointers na')) \<subseteq> dom (nodes ?h)" unfolding tk using dom by auto
  qed
  have i: "nk < length (keys na)" "nl < length (pointers ny)" "nk + 1 + nl < length ?pz"
    using b lk lps by (simp_all add: nk_def nl_def)
  have nn: "num_keys na = nk" "num_keys ny = nl" "is_leaf ny = False" "num_keys na' = nk + 1 + nl"
    using d e by (simp_all add: nk_def nl_def na'_def)
  have "merge_nodes y a k h = Inr (set_parents a (set (ps @ qs)) ?h)"
    unfolding merge_nodes_def
    by (simp only: get_node_Some [OF a(1)] get_node_Some [OF y(1)] bindE.simps Let_def nn
        i [THEN arr_set_in] i [THEN arr_get_in] ks ps0 up na'_def [symmetric] lp tk not_False_eq_True if_True)
  moreover have "node_ok m par False (ks @ k # ls) (ps @ qs) na'"
    using d(1,2) lk b lps by (auto simp: node_ok_def na'_def nk_def nl_def)
  ultimately show thesis using that [of na'] by (simp add: m_def)
qed

section \<open>Moving an entry from the left sibling\<close>

lemma shift_front:
  assumes "take n xs = bs" and "n = length bs" and "n < length xs"
  obtains ys where "shift_up 0 n xs = Inr ys" "length ys = length xs" "ys[0 := v] = v # bs @ drop (Suc n) xs"
  using shift_insert [of n xs "[]" bs v] assms by auto

lemma rotate_right_leaves:
  assumes a: "nodes h a = Some na" "node_ok (order h) par True (map fst (es @ [e])) (map snd (es @ [e])) na"
    and y: "nodes h y = Some ny" "node_ok (order h) p True (map fst fs) (map snd fs) ny"
    and p: "nodes h p = Some pn" "i < length (keys pn)" and len: "length fs < order h - 1"
  obtains na' ny' where "redistribute_left y a i k h = Inr (put_node a na' (put_node y ny'
      (put_node p (pn\<lparr>keys := (keys pn)[i := fst e]\<rparr>) h)))"
    "node_ok (order h) par True (map fst es) (map snd es) na'"
    "node_ok (order h) p True (map fst (e # fs)) (map snd (e # fs)) ny'"
    "pointers na' ! (order h - 1) = pointers na ! (order h - 1)"
    "pointers ny' ! (order h - 1) = pointers ny ! (order h - 1)"
proof -
  note d = node_okD [OF a(2)] and f = node_okD [OF y(2)]
  define m where "m = order h"
  have b: "length es < m - 1" "length es < m" "length fs < m - 1" "length fs < m" "0 < m - 1" "0 < m"
    using d(8) len by (auto simp: m_def)
  have lk: "length (keys na) = m - 1" "length (pointers na) = m" "length (keys ny) = m - 1" "length (pointers ny) = m"
    using d f by (simp_all add: m_def)
  obtain ks where ks: "shift_up 0 (length fs) (keys ny) = Inr ks" "length ks = m - 1"
      "ks[0 := fst e] = fst e # map fst fs @ drop (Suc (length fs)) (keys ny)"
    by (rule shift_front [of "length fs" "keys ny" "map fst fs" "fst e"]) (use f(6) lk b in auto)
  obtain ps where ps: "shift_up 0 (length fs) (pointers ny) = Inr ps" "length ps = m"
      "ps[0 := snd e] = snd e # map snd fs @ drop (Suc (length fs)) (pointers ny)"
    by (rule shift_front [of "length fs" "pointers ny" "map snd fs" "snd e"]) (use f(7) lk b in auto)
  have last: "pointers na ! length es = snd e" "keys na ! length es = fst e"
  proof -
    have "take (Suc (length es)) (pointers na) ! length es = snd e" "take (Suc (length es)) (keys na) ! length es = fst e"
      using d(6,7) by (simp_all add: nth_append)
    then show "pointers na ! length es = snd e" "keys na ! length es = fst e" by simp_all
  qed
  define na' where "na' = na\<lparr>pointers := (pointers na)[length es := NULL], num_keys := length es\<rparr>"
  define ny' where "ny' = ny\<lparr>keys := ks[0 := fst e], pointers := ps[0 := snd e], num_keys := length fs + 1\<rparr>"
  have nn: "num_keys na = Suc (length es)" "num_keys ny = length fs" "is_leaf ny = True" "parent ny = p"
      "dec64 (Suc (length es)) = length es"
    using d f by (simp_all add: dec64_def)
  have j: "length es < length (pointers na)" "length es < length (keys na)" "0 < length ps" "0 < length ks"
    using b lk ks(2) ps(2) by simp_all
  have "redistribute_left y a i k h = Inr (put_node a na' (put_node y ny'
      (put_node p (pn\<lparr>keys := (keys pn)[i := fst e]\<rparr>) h)))"
    unfolding redistribute_left_def
    by (simp only: get_node_Some [OF a(1)] get_node_Some [OF y(1)] bindE.simps Let_def nn not_True_eq_False if_False
        ks(1) ps(1) j [THEN arr_set_in] j [THEN arr_get_in] last prod.case get_node_Some [OF p(1)]
        arr_set_in [OF p(2)] na'_def ny'_def)
  moreover have "node_ok m par True (map fst es) (map snd es) na'"
    using d lk b by (simp add: node_ok_def na'_def take_Suc_conv_app_nth)
  moreover have "node_ok m p True (map fst (e # fs)) (map snd (e # fs)) ny'"
    using f(1,2) lk b by (auto simp: node_ok_def ny'_def ks(3) ps(3))
  moreover have "pointers na' ! (m - 1) = pointers na ! (m - 1)" using b by (simp add: na'_def)
  moreover have "pointers ny' ! (m - 1) = pointers ny ! (m - 1)"
  proof -
    have "m - 1 = Suc (length fs + (m - 1 - Suc (length fs)))" using b by simp
    then have "(snd e # map snd fs @ drop (Suc (length fs)) (pointers ny)) ! (m - 1)
        = drop (Suc (length fs)) (pointers ny) ! (m - 1 - Suc (length fs))"
      by (metis length_map nth_Cons_Suc nth_append_length_plus)
    moreover have "Suc (m - 2) = m - Suc 0" using b by simp
    ultimately show ?thesis using b lk by (simp add: ny'_def ps(3))
  qed
  ultimately show thesis using that [of na' ny'] by (simp add: m_def)
qed

lemma rotate_right_inner:
  assumes a: "nodes h a = Some na" "node_ok (order h) par False (ks @ [kl]) (ps @ [c]) na"
    and y: "nodes h y = Some ny" "node_ok (order h) p False ls qs ny"
    and p: "nodes h p = Some pn" "i < length (keys pn)"
    and lps: "length ps = Suc (length ks)" "length qs = Suc (length ls)"
    and c: "nodes h c = Some nc" "c \<noteq> p" and len: "length ls < order h - 1"
  obtains na' ny' where "redistribute_left y a i k h = Inr (put_node a na' (put_node y ny'
      (put_node p (pn\<lparr>keys := (keys pn)[i := kl]\<rparr>) (put_node c (nc\<lparr>parent := y\<rparr>) h))))"
    "node_ok (order h) par False ks ps na'" "node_ok (order h) p False (k # ls) (c # qs) ny'"
proof -
  note d = node_okD [OF a(2)] and f = node_okD [OF y(2)]
  define m where "m = order h"
  have b: "length ks < m - 1" "Suc (length ks) < m" "length ls < m - 1" "length ls < m" "Suc (length ls) < m" "0 < m - 1" "0 < m"
    using d(8) len by (auto simp: m_def)
  have lk: "length (keys na) = m - 1" "length (pointers na) = m" "length (keys ny) = m - 1" "length (pointers ny) = m"
    using d f by (simp_all add: m_def)
  obtain ks' where ks': "shift_up 0 (length ls) (keys ny) = Inr ks'" "length ks' = m - 1"
      "ks'[0 := k] = k # ls @ drop (Suc (length ls)) (keys ny)"
    by (rule shift_front [of "length ls" "keys ny" ls k]) (use f(6) lk b in auto)
  define pz where "pz = (pointers ny)[length ls + 1 := pointers ny ! length ls]"
  have qs: "take (Suc (length ls)) (pointers ny) = qs" using f(7) lps by simp
  have pz: "length pz = m" "take (length ls) pz = take (length ls) qs" "pz ! Suc (length ls) = qs ! length ls"
  proof -
    show "length pz = m" using lk by (simp add: pz_def)
    have "take (length ls) pz = take (length ls) (take (Suc (length ls)) (pointers ny))" by (simp add: pz_def)
    then show "take (length ls) pz = take (length ls) qs" using qs by simp
    have "pointers ny ! length ls = take (Suc (length ls)) (pointers ny) ! length ls" by simp
    then show "pz ! Suc (length ls) = qs ! length ls" using qs lk b by (simp add: pz_def)
  qed
  obtain ps' where ps': "shift_up 0 (length ls) pz = Inr ps'" "length ps' = m"
      "ps'[0 := c] = c # take (length ls) qs @ drop (Suc (length ls)) pz"
    by (rule shift_front [of "length ls" pz "take (length ls) qs" c]) (use pz lps b in auto)
  have "drop (Suc (length ls)) pz = qs ! length ls # drop (Suc (Suc (length ls))) pz"
    using pz b by (simp add: Cons_nth_drop_Suc [symmetric])
  moreover have "take (length ls) qs @ [qs ! length ls] = qs"
    using lps take_Suc_conv_app_nth [of "length ls" qs] by simp
  ultimately have ps'': "ps'[0 := c] = c # qs @ drop (Suc (Suc (length ls))) pz"
    using ps'(3) by (metis append.assoc append_Cons append_Nil)
  have last: "pointers na ! Suc (length ks) = c" "keys na ! length ks = kl"
  proof -
    have "take (Suc (Suc (length ks))) (pointers na) ! Suc (length ks) = c" "take (Suc (length ks)) (keys na) ! length ks = kl"
      using d(6,7) lps by (simp_all add: nth_append)
    then show "pointers na ! Suc (length ks) = c" "keys na ! length ks = kl" by simp_all
  qed
  define na' where "na' = na\<lparr>pointers := (pointers na)[Suc (length ks) := NULL], num_keys := length ks\<rparr>"
  define ny' where "ny' = ny\<lparr>keys := ks'[0 := k], pointers := ps'[0 := c], num_keys := length ls + 1\<rparr>"
  have nn: "num_keys na = Suc (length ks)" "num_keys ny = length ls" "is_leaf ny = False" "parent ny = p"
      "dec64 (Suc (length ks)) = length ks"
    using d f by (simp_all add: dec64_def)
  have j: "Suc (length ks) < length (pointers na)" "length ks < length (keys na)" "0 < length ps'" "0 < length ks'"
      "length ls < length (pointers ny)" "length ls + 1 < length (pointers ny)"
    using b lk ks'(2) ps'(2) by simp_all
  let ?h = "put_node c (nc\<lparr>parent := y\<rparr>) h"
  have p': "nodes ?h p = Some pn" using p(1) c(2) by simp
  have "redistribute_left y a i k h = Inr (put_node a na' (put_node y ny'
      (put_node p (pn\<lparr>keys := (keys pn)[i := kl]\<rparr>) ?h)))"
    unfolding redistribute_left_def
    by (simp only: get_node_Some [OF a(1)] get_node_Some [OF y(1)] bindE.simps Let_def nn not_False_eq_True if_True
        ks'(1) ps'(1) j [THEN arr_set_in] j [THEN arr_get_in] last prod.case upd_node_Some [OF c(1)]
        get_node_Some [OF p'] arr_set_in [OF p(2)] na'_def ny'_def pz_def [symmetric])
  moreover have "node_ok m par False ks ps na'"
    using d lk b lps by (simp add: node_ok_def na'_def take_Suc_conv_app_nth)
  moreover have "node_ok m p False (k # ls) (c # qs) ny'"
    using f(1,2) lk b lps pz(1) by (auto simp: node_ok_def ny'_def ks'(3) ps'')
  ultimately show thesis using that [of na' ny'] by (simp add: m_def)
qed

section \<open>Moving an entry from the right sibling\<close>

lemma append_last:
  assumes "take n xs = as" and "n = length as" and "n < length xs"
  shows "take (Suc n) (xs[n := v]) = as @ [v]"
  using assms by (simp add: take_Suc_conv_app_nth)

lemma rotate_left_leaves:
  assumes a: "nodes h a = Some na" "node_ok (order h) p True (map fst es) (map snd es) na"
    and y: "nodes h y = Some ny" "node_ok (order h) par True (map fst (e # e' # fs)) (map snd (e # e' # fs)) ny"
    and p: "nodes h p = Some pn" "i < length (keys pn)" and len: "length es < order h - 1"
  obtains na' ny' where "redistribute_right a y i k h = Inr (put_node y ny' (put_node a na'
      (put_node p (pn\<lparr>keys := (keys pn)[i := fst e']\<rparr>) h)))"
    "node_ok (order h) p True (map fst (es @ [e])) (map snd (es @ [e])) na'"
    "node_ok (order h) par True (map fst (e' # fs)) (map snd (e' # fs)) ny'"
    "pointers na' ! (order h - 1) = pointers na ! (order h - 1)"
    "pointers ny' ! (order h - 1) = pointers ny ! (order h - 1)"
proof -
  note d = node_okD [OF a(2)] and f = node_okD [OF y(2)]
  define m where "m = order h"
  let ?n = "Suc (Suc (length fs))"
  have b: "?n \<le> m - 1" "?n \<le> m" "1 < m - 1" "0 < m - 1" "0 < m" "length es < m - 1" "length es < m"
    using f(8) len by (auto simp: m_def)
  have lk: "length (keys na) = m - 1" "length (pointers na) = m" "length (keys ny) = m - 1" "length (pointers ny) = m"
    using d f by (simp_all add: m_def)
  have tk: "take ?n (keys ny) = [] @ fst e # map fst (e' # fs)" and tp: "take ?n (pointers ny) = [] @ snd e # map snd (e' # fs)"
    using f(6,7) by simp_all
  obtain ks where ks: "shift_down 1 ?n (keys ny) = Inr ks" "length ks = m - 1" "take (Suc (length fs)) ks = map fst (e' # fs)"
    by (rule remove_arr [OF tk]) (use lk b in auto)
  obtain ps where ps: "shift_down 1 ?n (pointers ny) = Inr ps" "length ps = m" "take (Suc (length fs)) ps = map snd (e' # fs)"
      "drop ?n ps = drop ?n (pointers ny)"
    by (rule remove_arr [OF tp]) (use lk b in auto)
  have hd: "keys ny ! 0 = fst e" "keys ny ! 1 = fst e'" "pointers ny ! 0 = snd e"
  proof -
    have "take ?n (keys ny) ! 0 = fst e" "take ?n (keys ny) ! 1 = fst e'" "take ?n (pointers ny) ! 0 = snd e"
      unfolding tk tp by simp_all
    then show "keys ny ! 0 = fst e" "keys ny ! 1 = fst e'" "pointers ny ! 0 = snd e" by simp_all
  qed
  define na' where "na' = na\<lparr>keys := (keys na)[length es := fst e], pointers := (pointers na)[length es := snd e],
      num_keys := length es + 1\<rparr>"
  define ny' where "ny' = ny\<lparr>keys := ks, pointers := ps, num_keys := Suc (length fs)\<rparr>"
  have nn: "num_keys na = length es" "num_keys ny = ?n" "is_leaf na = True" "parent na = p" "dec64 ?n = Suc (length fs)"
    using d f by (simp_all add: dec64_def)
  have j: "0 < length (keys ny)" "1 < length (keys ny)" "0 < length (pointers ny)" "length es < length (keys na)"
      "length es < length (pointers na)"
    using b lk by simp_all
  have "redistribute_right a y i k h = Inr (put_node y ny' (put_node a na'
      (put_node p (pn\<lparr>keys := (keys pn)[i := fst e']\<rparr>) h)))"
    unfolding redistribute_right_def
    by (simp only: get_node_Some [OF a(1)] get_node_Some [OF y(1)] bindE.simps Let_def nn if_True
        ks(1) ps(1) j [THEN arr_set_in] j [THEN arr_get_in] hd prod.case get_node_Some [OF p(1)]
        arr_set_in [OF p(2)] na'_def ny'_def)
  moreover have "node_ok m p True (map fst (es @ [e])) (map snd (es @ [e])) na'"
  proof -
    have "take (Suc (length es)) ((keys na)[length es := fst e]) = map fst es @ [fst e]"
      by (rule append_last) (use d lk b in auto)
    moreover have "take (Suc (length es)) ((pointers na)[length es := snd e]) = map snd es @ [snd e]"
      by (rule append_last) (use d lk b in auto)
    ultimately show ?thesis using d(1,2) lk by (simp add: node_ok_def na'_def)
  qed
  moreover have "node_ok m par True (map fst (e' # fs)) (map snd (e' # fs)) ny'"
    using f(1,2) ks(2,3) ps(2,3) by (simp add: node_ok_def ny'_def)
  moreover have "pointers na' ! (m - 1) = pointers na ! (m - 1)" using b by (simp add: na'_def)
  moreover have "pointers ny' ! (m - 1) = pointers ny ! (m - 1)"
    using nth_of_drop [OF ps(4), of "m - 1"] b lk ps(2) by (simp add: ny'_def)
  ultimately show thesis using that [of ny' na'] by (simp add: m_def)
qed

lemma rotate_left_inner:
  assumes a: "nodes h a = Some na" "node_ok (order h) p False ks ps na"
    and y: "nodes h y = Some ny" "node_ok (order h) par False (kb # ls) (c # qs) ny"
    and p: "nodes h p = Some pn" "i < length (keys pn)"
    and lps: "length ps = Suc (length ks)" "length qs = Suc (length ls)"
    and c: "nodes h c = Some nc" "c \<noteq> p" and len: "length ks < order h - 1"
  obtains na' ny' where "redistribute_right a y i k h = Inr (put_node y ny' (put_node a na'
      (put_node p (pn\<lparr>keys := (keys pn)[i := kb]\<rparr>) (put_node c (nc\<lparr>parent := a\<rparr>) h))))"
    "node_ok (order h) p False (ks @ [k]) (ps @ [c]) na'" "node_ok (order h) par False ls qs ny'"
proof -
  note d = node_okD [OF a(2)] and f = node_okD [OF y(2)]
  define m where "m = order h"
  let ?n = "Suc (length ls)"
  have b: "?n \<le> m - 1" "Suc ?n \<le> m" "0 < m - 1" "0 < m" "length ks < m - 1" "Suc (length ks) < m"
    using f(8,9) lps len by (auto simp: m_def)
  have lk: "length (keys na) = m - 1" "length (pointers na) = m" "length (keys ny) = m - 1" "length (pointers ny) = m"
    using d f by (simp_all add: m_def)
  have tk: "take ?n (keys ny) = [] @ kb # ls" and tp: "take (Suc ?n) (pointers ny) = [] @ c # qs"
    using f(6,7) lps by simp_all
  obtain ks' where ks': "shift_down 1 ?n (keys ny) = Inr ks'" "length ks' = m - 1" "take (length ls) ks' = ls"
    by (rule remove_arr [OF tk]) (use lk b in auto)
  obtain ps' where ps': "shift_down 1 (Suc ?n) (pointers ny) = Inr ps'" "length ps' = m" "take (length qs) ps' = qs"
    by (rule remove_arr [OF tp]) (use lk b lps in auto)
  have hd: "keys ny ! 0 = kb" "pointers ny ! 0 = c"
  proof -
    have "take ?n (keys ny) ! 0 = kb" "take (Suc ?n) (pointers ny) ! 0 = c" unfolding tk tp by simp_all
    then show "keys ny ! 0 = kb" "pointers ny ! 0 = c" by simp_all
  qed
  define na' where "na' = na\<lparr>keys := (keys na)[length ks := k], pointers := (pointers na)[length ks + 1 := c],
      num_keys := length ks + 1\<rparr>"
  define ny' where "ny' = ny\<lparr>keys := ks', pointers := ps', num_keys := length ls\<rparr>"
  have nn: "num_keys na = length ks" "num_keys ny = ?n" "is_leaf na = False" "parent na = p" "dec64 ?n = length ls"
      "?n + 1 = Suc ?n"
    using d f by (simp_all add: dec64_def)
  have j: "0 < length (keys ny)" "0 < length (pointers ny)" "length ks < length (keys na)"
      "length ks + 1 < length (pointers na)"
    using b lk by simp_all
  let ?h = "put_node c (nc\<lparr>parent := a\<rparr>) h"
  have p': "nodes ?h p = Some pn" using p(1) c(2) by simp
  have "redistribute_right a y i k h = Inr (put_node y ny' (put_node a na'
      (put_node p (pn\<lparr>keys := (keys pn)[i := kb]\<rparr>) ?h)))"
    unfolding redistribute_right_def
    by (simp only: get_node_Some [OF a(1)] get_node_Some [OF y(1)] bindE.simps Let_def nn if_False
        ks'(1) ps'(1) j [THEN arr_set_in] j [THEN arr_get_in] hd prod.case upd_node_Some [OF c(1)]
        get_node_Some [OF p'] arr_set_in [OF p(2)] na'_def ny'_def)
  moreover have "node_ok m p False (ks @ [k]) (ps @ [c]) na'"
  proof -
    have "take (Suc (length ks)) ((keys na)[length ks := k]) = ks @ [k]"
      by (rule append_last) (use d lk b in auto)
    moreover have "take (Suc (Suc (length ks))) ((pointers na)[Suc (length ks) := c]) = ps @ [c]"
      by (rule append_last) (use d lk b lps in auto)
    ultimately show ?thesis using d(1,2) lk lps by (simp add: node_ok_def na'_def)
  qed
  moreover have "node_ok m par False ls qs ny'"
    using f(1,2) ks'(2,3) ps'(2,3) by (simp add: node_ok_def ny'_def)
  ultimately show thesis using that [of ny' na'] by (simp add: m_def)
qed

end
