(* ===== verification/Bpt_Delete_Up.thy ===== *)
theory Bpt_Delete_Up
  imports Bpt_Delete_Nodes
begin

text \<open>
  The repair of the tree after an entry is removed, from the node that lost it towards the
  root: nothing to do, a move between siblings, or a merge that removes an entry from the
  parent.
\<close>

section \<open>States\<close>

fun nkeys :: "btree \<Rightarrow> nat" where
  "nkeys (Lf p es) = length es"
| "nkeys (Nd p ks ts) = length ks"

text \<open>
  The hole of \<open>c\<close> holds \<open>u\<close>, which may lack one key; the nodes in \<open>E\<close> are
  allocated but not part of the tree.
\<close>

definition reb_state :: "bheap \<Rightarrow> addr set \<Rightarrow> addr set \<Rightarrow> nat \<Rightarrow> nat \<Rightarrow> frame list \<Rightarrow> btree \<Rightarrow> bool" where
  "reb_state h E V lo n c u \<longleftrightarrow>
     heap_ok h (E \<union> set (caddrs c @ addrs u)) V \<and> E \<inter> set (caddrs c @ addrs u) = {} \<and>
     distinct (caddrs c @ addrs u) \<and> crepr (nodes h) (order h) c (root_addr u) \<and>
     repr (nodes h) (order h) (hole_parent c) u \<and> cshape (order h) n c \<and> tshape (order h) lo n u \<and>
     sorted_wrt (<) (lseq c @ keyseq u @ rseq c) \<and>
     chain (nodes h) (order h) (lleaf c @ leaf_addrs u @ rleaf c) \<and> 3 \<le> order h"

definition same_rest :: "bheap \<Rightarrow> bheap \<Rightarrow> bool" where
  "same_rest h h' \<longleftrightarrow> recs h' = recs h \<and> free_recs h' = free_recs h \<and> brk h' = brk h \<and>
     limit h' = limit h \<and> order h' = order h"

definition shrunk ::
  "bheap \<Rightarrow> addr set \<Rightarrow> addr set \<Rightarrow> (u64 \<times> addr) list \<Rightarrow> nat \<Rightarrow> addr \<Rightarrow> bheap \<Rightarrow> bool" where
  "shrunk h E V cont n root h' \<longleftrightarrow> same_rest h h' \<and>
     (root = NULL \<and> cont = [] \<and> heap_ok h' E V \<or>
      (\<exists>t n'. root = root_addr t \<and> n' \<le> n \<and> tshape (order h) 1 n' t \<and> contents t = cont \<and>
         repr (nodes h') (order h) NULL t \<and> sorted_wrt (<) (keyseq t) \<and> distinct (addrs t) \<and>
         chain (nodes h') (order h) (leaf_addrs t) \<and> E \<inter> set (addrs t) = {} \<and>
         heap_ok h' (E \<union> set (addrs t)) V))"

lemma same_rest_refl [simp]: "same_rest h h"
  by (simp add: same_rest_def)

lemma same_rest_trans: "same_rest h h' \<Longrightarrow> same_rest h' h'' \<Longrightarrow> same_rest h h''"
  by (simp add: same_rest_def)

lemma same_rest_put [simp]: "same_rest h (put_node p nd h') = same_rest h h'"
  by (simp add: same_rest_def)

lemma same_rest_set_parents [simp]: "same_rest h (set_parents q A h') = same_rest h h'"
  by (simp add: same_rest_def)

lemma same_rest_order: "same_rest h h' \<Longrightarrow> order h' = order h"
  by (simp add: same_rest_def)

lemma tshape_nkeys: "tshape m lo n t \<Longrightarrow> lo \<le> nkeys t \<and> nkeys t \<le> m - 1"
  by (cases "(m, lo, n, t)" rule: tshape.cases) auto

lemma tshape_lo: "tshape m lo n t \<Longrightarrow> lo' \<le> nkeys t \<Longrightarrow> tshape m lo' n t"
  by (cases "(m, lo, n, t)" rule: tshape.cases) auto

lemma shrunk_plug:
  assumes "reb_state h' E V (hole_min (order h) n c) n c u" and "same_rest h h'"
    and "cont = lcont c @ contents u @ rcont c" and "root = root_addr (plug c u)" and "n + length c \<le> N"
  shows "shrunk h E V cont N root h'"
proof -
  let ?t = "plug c u" and ?m = "order h"
  have m: "order h' = ?m" using assms(2) by (simp add: same_rest_def)
  have s: "cshape ?m n c" "tshape ?m (hole_min ?m n c) n u" using assms(1) m by (simp_all add: reb_state_def)
  have "tshape ?m 1 (n + length c) ?t" using tshape_plug [OF cshape_lens [OF s(1)]] s by blast
  moreover have "keyseq ?t = lseq c @ keyseq u @ rseq c" by (rule keyseq_plug [OF s(1)])
  moreover have "repr (nodes h') ?m NULL ?t" using assms(1) m by (simp add: reb_state_def repr_plug)
  moreover have "distinct (addrs ?t)" "set (addrs ?t) = set (caddrs c @ addrs u)"
    using assms(1) by (simp_all add: reb_state_def addrs_plug_distinct addrs_plug_set)
  ultimately have "root = root_addr ?t \<and> n + length c \<le> N \<and> tshape ?m 1 (n + length c) ?t \<and> contents ?t = cont \<and>
         repr (nodes h') ?m NULL ?t \<and> sorted_wrt (<) (keyseq ?t) \<and> distinct (addrs ?t) \<and>
         chain (nodes h') ?m (leaf_addrs ?t) \<and> E \<inter> set (addrs ?t) = {} \<and>
         heap_ok h' (E \<union> set (addrs ?t)) V"
    using assms m by (simp add: reb_state_def contents_plug leaf_addrs_plug)
  then show ?thesis using assms(2) unfolding shrunk_def by blast
qed

section \<open>The root\<close>

lemma release_same: "release_node n h = Inr h' \<Longrightarrow> same_rest h h'"
  by (auto simp: release_node_def free_node_def upd_node_def bindE_eq_Inr_iff same_rest_def)

lemma adjust_root_shrunk:
  assumes st: "reb_state h E V 0 n [] u"
  shows "\<exists>root' h'. adjust_root (root_addr u) h = Inr (root', h') \<and> shrunk h E V (contents u) n root' h'"
proof -
  let ?m = "order h"
  have rep: "repr (nodes h) ?m NULL u" and sh: "tshape ?m 0 n u" and dis: "distinct (addrs u)"
    and ok: "heap_ok h (E \<union> set (addrs u)) V" and E: "E \<inter> set (addrs u) = {}" and m: "3 \<le> ?m"
    using st by (simp_all add: reb_state_def)
  obtain nd where nd: "nodes h (root_addr u) = Some nd" "num_keys nd = nkeys u"
      "is_leaf nd = (\<exists>p es. u = Lf p es)"
    using rep by (cases u) (auto elim!: node_atE simp: node_ok_def)
  show ?thesis
  proof (cases "nkeys u = 0")
    case False
    then have "adjust_root (root_addr u) h = Inr (root_addr u, h)" using nd by (simp add: adjust_root_def)
    moreover have "reb_state h E V (hole_min ?m n []) n [] u"
      using st False tshape_lo [OF sh, of 1] by (simp add: reb_state_def)
    then have "shrunk h E V (contents u) n (root_addr u) h" by (rule shrunk_plug) simp_all
    ultimately show ?thesis by blast
  next
    case True
    show ?thesis
    proof (cases u)
      case (Lf p es)
      then have ok': "heap_ok h (Set.insert p E) V" "p \<notin> E" using ok E by auto
      obtain h' where h': "release_node p h = Inr h'" "heap_ok h' E V"
        using release_node_spec [OF ok'] by metis
      then have "adjust_root (root_addr u) h = Inr (NULL, h')" using nd True Lf by (simp add: adjust_root_def)
      moreover have "shrunk h E V (contents u) n NULL h'"
        using h' release_same True Lf by (simp add: shrunk_def)
      ultimately show ?thesis by blast
    next
      case (Nd p ks ts)
      obtain n0 where n0: "n = Suc n0" using sh Nd by (cases n) auto
      obtain t where t: "ks = []" "ts = [t]" using True sh Nd n0 by (auto simp: length_Suc_conv)
      have rt: "repr (nodes h) ?m p t" and tm: "tshape ?m (min_keys_at ?m n0) n0 t" using rep sh Nd t n0 by simp_all
      obtain tn where tn: "nodes h (root_addr t) = Some tn" using repr_root [OF rt] by auto
      have pt: "p \<notin> set (addrs t)" "distinct (addrs t)" using dis Nd t by simp_all
      define h1 where "h1 = put_node (root_addr t) (tn\<lparr>parent := NULL\<rparr>) h"
      have ok1: "heap_ok h1 (Set.insert p (E \<union> set (addrs t))) V"
        unfolding h1_def by (rule heap_ok_put) (use ok Nd t root_in_addrs [of t] in auto)
      have np: "p \<notin> E \<union> set (addrs t)" using pt E Nd by auto
      obtain h' where h': "release_node p h1 = Inr h'" "heap_ok h' (E \<union> set (addrs t)) V"
          "keeps (E \<union> set (addrs t)) V h1 h'"
        using release_node_spec [OF ok1 np] by metis
      have "node_ok ?m NULL False ks (map root_addr ts) nd" using rep Nd nd(1) by (simp add: node_at_Some)
      note dd = node_okD [OF this]
      have "take 1 (pointers nd) = [root_addr t]" "0 < length (pointers nd)" using dd(5,7) t m by auto
      then have "pointers nd ! 0 = root_addr t" "0 < length (pointers nd)" by (cases "pointers nd"; simp)+
      then have "adjust_root (root_addr u) h = Inr (root_addr t, h')"
        using nd True Nd h'(1) tn by (simp add: adjust_root_def h1_def)
      moreover have same: "same_rest h h'" using release_same [OF h'(1)] by (simp add: h1_def same_rest_def)
      have "repr (nodes h') ?m NULL t"
        by (rule repr_reparent [OF rt]) (use h'(3) tn pt in \<open>auto simp: keeps_def h1_def root_in_addrs\<close>)
      moreover have "chain (nodes h') ?m (leaf_addrs t) = chain (nodes h) ?m (leaf_addrs t)"
      proof (rule chain_cong)
        fix a assume "a \<in> set (leaf_addrs t)"
        then have "nodes h' a = nodes h1 a" using leaf_addrs_subset h'(3) by (auto simp: keeps_def)
        then show "link (nodes h') ?m a = link (nodes h) ?m a" using tn by (simp add: link_def h1_def)
      qed
      ultimately have "shrunk h E V (contents u) n (root_addr t) h'"
        using same st h'(2) tshape_lo [OF tm, of 1] tshape_nkeys [OF tm] min_keys_pos [OF m, of n0] E pt Nd t n0
        unfolding shrunk_def reb_state_def by (intro conjI disjI2 exI [of _ t] exI [of _ n0]) auto
      then show ?thesis using \<open>adjust_root (root_addr u) h = Inr (root_addr t, h')\<close> by blast
    qed
  qed
qed

section \<open>Two siblings\<close>

text \<open>
  The children \<open>A\<close> and \<open>B\<close> of the node \<open>p\<close>, with the separator \<open>k\<close>
  between them; one of them lacks a key.
\<close>

definition pair_state :: "bheap \<Rightarrow> addr set \<Rightarrow> addr set \<Rightarrow> nat \<Rightarrow> frame list \<Rightarrow> addr \<Rightarrow>
    u64 list \<Rightarrow> btree list \<Rightarrow> btree \<Rightarrow> u64 \<Rightarrow> btree \<Rightarrow> u64 list \<Rightarrow> btree list \<Rightarrow> bool" where
  "pair_state h E V n c p ksL tsL A k B ksR tsR \<longleftrightarrow>
     heap_ok h (E \<union> set (caddrs c @ addrs (Nd p (ksL @ k # ksR) (tsL @ A # B # tsR)))) V \<and>
     E \<inter> set (caddrs c @ addrs (Nd p (ksL @ k # ksR) (tsL @ A # B # tsR))) = {} \<and>
     distinct (caddrs c @ addrs (Nd p (ksL @ k # ksR) (tsL @ A # B # tsR))) \<and>
     crepr (nodes h) (order h) c p \<and>
     repr (nodes h) (order h) (hole_parent c) (Nd p (ksL @ k # ksR) (tsL @ A # B # tsR)) \<and>
     cshape (order h) (Suc n) c \<and> length tsL = length ksL \<and> length tsR = length ksR \<and>
     hole_min (order h) (Suc n) c \<le> Suc (length ksL + length ksR) \<and> Suc (length ksL + length ksR) \<le> order h - 1 \<and>
     (\<forall>t \<in> set tsL \<union> set tsR. tshape (order h) (min_keys_at (order h) n) n t) \<and>
     tshape (order h) (min_keys_at (order h) n - 1) n A \<and> tshape (order h) (min_keys_at (order h) n - 1) n B \<and>
     sorted_wrt (<) (lseq c @ keyseq (Nd p (ksL @ k # ksR) (tsL @ A # B # tsR)) @ rseq c) \<and>
     chain (nodes h) (order h) (lleaf c @ leaf_addrs (Nd p (ksL @ k # ksR) (tsL @ A # B # tsR)) @ rleaf c) \<and>
     3 \<le> order h"

lemma pair_facts:
  assumes "pair_state h E V n c p ksL tsL A k B ksR tsR"
  shows "distinct (p # caddrs c @ concat (map addrs tsL) @ addrs A @ addrs B @ concat (map addrs tsR))"
    "sorted_wrt (<) ((lseq c @ lpart (map keyseq tsL) ksL) @ keyseq A @ sep_code k # keyseq B @
       rpart ksR (map keyseq tsR) @ rseq c)"
    "node_at (nodes h) p (node_ok (order h) (hole_parent c) False (ksL @ k # ksR)
       (map root_addr tsL @ root_addr A # root_addr B # map root_addr tsR))"
    "\<forall>t \<in> set tsL \<union> set tsR. repr (nodes h) (order h) p t" "repr (nodes h) (order h) p A" "repr (nodes h) (order h) p B"
    "k \<notin> set ksL" "root_addr B \<notin> set (map root_addr tsL @ [root_addr A])"
    "chain (nodes h) (order h) ((lleaf c @ concat (map leaf_addrs tsL)) @ leaf_addrs A @ leaf_addrs B @
       concat (map leaf_addrs tsR) @ rleaf c)"
proof -
  let ?t = "Nd p (ksL @ k # ksR) (tsL @ A # B # tsR)"
  have d0: "distinct (caddrs c @ addrs ?t)" and l: "length tsL = length ksL" "length tsR = length ksR"
    using assms by (simp_all add: pair_state_def)
  then show d: "distinct (p # caddrs c @ concat (map addrs tsL) @ addrs A @ addrs B @ concat (map addrs tsR))"
    by auto
  have ks: "keyseq ?t = lpart (map keyseq tsL) ksL @ keyseq A @ sep_code k # keyseq B @ rpart ksR (map keyseq tsR)"
    using l by (simp add: inter_lpart inter_rpart)
  show srt: "sorted_wrt (<) ((lseq c @ lpart (map keyseq tsL) ksL) @ keyseq A @ sep_code k # keyseq B @
       rpart ksR (map keyseq tsR) @ rseq c)"
    using assms unfolding pair_state_def ks by simp
  show "node_at (nodes h) p (node_ok (order h) (hole_parent c) False (ksL @ k # ksR)
       (map root_addr tsL @ root_addr A # root_addr B # map root_addr tsR))"
    "\<forall>t \<in> set tsL \<union> set tsR. repr (nodes h) (order h) p t" "repr (nodes h) (order h) p A" "repr (nodes h) (order h) p B"
    using assms by (auto simp: pair_state_def)
  have "sep_code x \<in> set (lpart (map keyseq tsL) ksL)" if "x \<in> set ksL" for x
    using l(1) that by (induction tsL ksL rule: list_induct2) auto
  then have "sep_code x < sep_code k" if "x \<in> set ksL" for x
    using srt that by (auto simp: sorted_wrt_append simp del: code_less)
  then show "k \<notin> set ksL" by auto
  show "root_addr B \<notin> set (map root_addr tsL @ [root_addr A])"
    using d root_in_addrs [of B] root_in_addrs [of A] root_in_concat [of _ tsL] by fastforce
  show "chain (nodes h) (order h) ((lleaf c @ concat (map leaf_addrs tsL)) @ leaf_addrs A @ leaf_addrs B @
       concat (map leaf_addrs tsR) @ rleaf c)"
    using assms by (simp add: pair_state_def)
qed

lemma rest_cong:
  assumes "pair_state h E V n c p ksL tsL A k B ksR tsR"
    and "\<And>a. a \<in> set (caddrs c) \<union> set (concat (map addrs (tsL @ tsR))) \<Longrightarrow> N' a = nodes h a"
  shows "crepr N' (order h) c p" "\<forall>t \<in> set tsL \<union> set tsR. repr N' (order h) p t"
proof -
  have "crepr N' (order h) c p = crepr (nodes h) (order h) c p" by (rule crepr_cong) (use assms(2) in auto)
  then show "crepr N' (order h) c p" using assms(1) by (simp add: pair_state_def)
  have "repr N' (order h) p t = repr (nodes h) (order h) p t" if "t \<in> set tsL \<union> set tsR" for t
    by (rule repr_cong, rule assms(2)) (use that in auto)
  then show "\<forall>t \<in> set tsL \<union> set tsR. repr N' (order h) p t" using pair_facts(4) [OF assms(1)] by blast
qed

text \<open>An exchange of entries between the siblings keeps everything else.\<close>

lemma pair_update:
  assumes st: "pair_state h E V n c p ksL tsL A k B ksR tsR" and same: "same_rest h h'"
    and rest: "\<And>a. a \<in> set (caddrs c) \<union> set (concat (map addrs (tsL @ tsR))) \<Longrightarrow> nodes h' a = nodes h a"
    and p: "node_at (nodes h') p (node_ok (order h) (hole_parent c) False (ksL @ k' # ksR)
       (map root_addr tsL @ root_addr A # root_addr B # map root_addr tsR))"
    and r: "repr (nodes h') (order h) p A'" "repr (nodes h') (order h) p B'"
    and roots: "root_addr A' = root_addr A" "root_addr B' = root_addr B"
    and ad: "mset (addrs A') + mset (addrs B') = mset (addrs A) + mset (addrs B)"
    and lf: "leaf_addrs A' @ leaf_addrs B' = leaf_addrs A @ leaf_addrs B"
    and lk: "\<And>a. a \<in> set (leaf_addrs A @ leaf_addrs B) \<Longrightarrow> link (nodes h') (order h) a = link (nodes h) (order h) a"
    and ok: "heap_ok h' (E \<union> set (caddrs c @ addrs (Nd p (ksL @ k # ksR) (tsL @ A # B # tsR)))) V"
    and sh: "tshape (order h) (min_keys_at (order h) n) n A'" "tshape (order h) (min_keys_at (order h) n) n B'"
    and srt: "sorted_wrt (<) ((lseq c @ lpart (map keyseq tsL) ksL) @ keyseq A' @ sep_code k' # keyseq B' @
       rpart ksR (map keyseq tsR) @ rseq c)"
  shows "reb_state h' E V (hole_min (order h) (Suc n) c) (Suc n) c (Nd p (ksL @ k' # ksR) (tsL @ A' # B' # tsR))"
proof -
  let ?u = "Nd p (ksL @ k # ksR) (tsL @ A # B # tsR)" and ?u' = "Nd p (ksL @ k' # ksR) (tsL @ A' # B' # tsR)"
  note rc = rest_cong [OF st rest]
  have m: "order h' = order h" using same by (simp add: same_rest_def)
  have ms: "mset (caddrs c @ addrs ?u') = mset (caddrs c @ addrs ?u)"
    using ad by (simp add: add.assoc [symmetric])
  have old: "E \<inter> set (caddrs c @ addrs ?u) = {}" "distinct (caddrs c @ addrs ?u)" "cshape (order h) (Suc n) c" "3 \<le> order h"
      "chain (nodes h) (order h) (lleaf c @ leaf_addrs ?u @ rleaf c)"
    using st unfolding pair_state_def by blast+
  have sets: "set (caddrs c @ addrs ?u') = set (caddrs c @ addrs ?u)" by (rule mset_eq_setD [OF ms])
  have leaves: "leaf_addrs ?u' = leaf_addrs ?u" using lf by simp
  have keys: "keyseq ?u' = lpart (map keyseq tsL) ksL @ keyseq A' @ sep_code k' # keyseq B' @ rpart ksR (map keyseq tsR)"
    using st by (simp add: pair_state_def inter_lpart inter_rpart)
  have ch: "chain (nodes h') (order h) (lleaf c @ leaf_addrs ?u @ rleaf c)
      = chain (nodes h) (order h) (lleaf c @ leaf_addrs ?u @ rleaf c)"
  proof (rule chain_cong)
    fix a assume a: "a \<in> set (lleaf c @ leaf_addrs ?u @ rleaf c)"
    show "link (nodes h') (order h) a = link (nodes h) (order h) a"
    proof (cases "a \<in> set (leaf_addrs A @ leaf_addrs B)")
      case False
      then have "a \<in> set (lleaf c) \<union> set (rleaf c) \<union> set (concat (map leaf_addrs (tsL @ tsR)))" using a by auto
      then have "a \<in> set (caddrs c) \<union> set (concat (map addrs (tsL @ tsR)))"
        using lleaf_subset [of c] leaves_concat [of "tsL @ tsR"] by blast
      then show ?thesis using rest by (simp only: link_def)
    qed (rule lk)
  qed
  show ?thesis
    unfolding reb_state_def m sets leaves ch
  proof (intro conjI)
    show "distinct (caddrs c @ addrs ?u')" using old(2) mset_eq_imp_distinct_iff [OF ms] by blast
    show "repr (nodes h') (order h) (hole_parent c) ?u'" using p r rc(2) roots by auto
    show "tshape (order h) (hole_min (order h) (Suc n) c) (Suc n) ?u'" using st sh by (auto simp: pair_state_def)
    show "sorted_wrt (<) (lseq c @ keyseq ?u' @ rseq c)" using srt unfolding keys by simp
    show "crepr (nodes h') (order h) c (root_addr ?u')" using rc(1) by simp
  qed (rule old ok)+
qed

section \<open>Moving an entry\<close>

lemma pair_nodes:
  assumes "pair_state h E V n c p ksL tsL A k B ksR tsR"
  obtains na nb pn where "nodes h (root_addr A) = Some na" "nodes h (root_addr B) = Some nb" "nodes h p = Some pn"
    "length ksL < length (keys pn)" "p \<noteq> NULL" "root_addr A \<noteq> NULL" "root_addr B \<noteq> NULL"
    "root_addr A \<noteq> root_addr B" "root_addr A \<noteq> p" "root_addr B \<noteq> p"
    "\<And>x. node_ok (order h) (hole_parent c) False (ksL @ x # ksR)
       (map root_addr tsL @ root_addr A # root_addr B # map root_addr tsR) (pn\<lparr>keys := (keys pn)[length ksL := x]\<rparr>)"
    "keys pn ! length ksL = k"
proof -
  note f = pair_facts [OF assms]
  obtain na where na: "nodes h (root_addr A) = Some na" "root_addr A \<noteq> NULL" using repr_root [OF f(5)] by auto
  obtain nb where nb: "nodes h (root_addr B) = Some nb" "root_addr B \<noteq> NULL" using repr_root [OF f(6)] by auto
  obtain pn where pn: "nodes h p = Some pn" "p \<noteq> NULL" "node_ok (order h) (hole_parent c) False (ksL @ k # ksR)
       (map root_addr tsL @ root_addr A # root_addr B # map root_addr tsR) pn"
    using f(3) by (rule node_atE)
  note d = node_okD [OF pn(3)]
  have ne: "root_addr A \<noteq> root_addr B" "root_addr A \<noteq> p" "root_addr B \<noteq> p"
    using f(1) root_in_addrs [of A] root_in_addrs [of B] by auto
  have len: "length ksL < length (keys pn)" using d(4,8) by simp
  have kL: "keys pn ! length ksL = k"
  proof -
    have "take (length (ksL @ k # ksR)) (keys pn) ! length ksL = k" using d(6) by simp
    then show ?thesis by simp
  qed
  have upd: "take (length (ksL @ x # ksR)) ((keys pn)[length ksL := x]) = ksL @ x # ksR" for x
  proof -
    have "take (length (ksL @ x # ksR)) ((keys pn)[length ksL := x]) = (take (length (ksL @ k # ksR)) (keys pn))[length ksL := x]"
      by (simp add: take_update_swap)
    then show ?thesis using d(6) by simp
  qed
  have "node_ok (order h) (hole_parent c) False (ksL @ x # ksR)
       (map root_addr tsL @ root_addr A # root_addr B # map root_addr tsR) (pn\<lparr>keys := (keys pn)[length ksL := x]\<rparr>)" for x
    using d upd [of x] by (simp add: node_ok_def)
  then show thesis using that na nb pn(1,2) ne len kL by blast
qed

lemma pair_rest_ne:
  assumes "pair_state h E V n c p ksL tsL A k B ksR tsR"
    and "a \<in> set (caddrs c) \<union> set (concat (map addrs (tsL @ tsR)))"
  shows "a \<noteq> p" "a \<notin> set (addrs A)" "a \<notin> set (addrs B)"
  using pair_facts(1) [OF assms(1)] assms(2) by auto

lemma pair_in_use:
  assumes "pair_state h E V n c p ksL tsL A k B ksR tsR"
  shows "Set.insert p (set (addrs A) \<union> set (addrs B)) \<subseteq>
    E \<union> set (caddrs c @ addrs (Nd p (ksL @ k # ksR) (tsL @ A # B # tsR)))"
    "heap_ok h (E \<union> set (caddrs c @ addrs (Nd p (ksL @ k # ksR) (tsL @ A # B # tsR)))) V"
  using assms by (auto simp: pair_state_def)

lemma move_sorted:
  assumes "sorted_wrt (<) (L @ keyseq (Lf a es) @ sep_code k # keyseq (Lf y fs) @ R)"
    and "0 < s" and "s < length (es @ fs)" and "A' = Lf a (take s (es @ fs))" and "B' = Lf y (drop s (es @ fs))"
    and "k' = fst ((es @ fs) ! s)"
  shows "sorted_wrt (<) (L @ keyseq A' @ sep_code k' # keyseq B' @ R)"
proof -
  have "sorted_wrt (<) (L @ keyseq (Lf a (es @ fs)) @ R)" using assms(1) by (simp add: sorted_wrt_append)
  then show ?thesis unfolding assms(4-6) by (rule split_sorted) (use assms(2,3) in auto)
qed

lemma move_right_leaves:
  assumes st: "pair_state h E V n c p ksL tsL (Lf a es) k (Lf y fs) ksR tsR"
    and b: "min_keys_at (order h) n < length es" "length fs < order h - 1" "min_keys_at (order h) n \<le> Suc (length fs)"
  obtains h' A' B' k' where "redistribute_left y a (length ksL) k h = Inr h'" "same_rest h h'"
    "contents A' @ contents B' = es @ fs"
    "reb_state h' E V (hole_min (order h) (Suc n) c) (Suc n) c (Nd p (ksL @ k' # ksR) (tsL @ A' # B' # tsR))"
proof -
  let ?m = "order h" and ?A = "Lf a es" and ?B = "Lf y fs"
  note f = pair_facts [OF st]
  obtain na nb pn where nd: "nodes h a = Some na" "nodes h y = Some nb" "nodes h p = Some pn" "length ksL < length (keys pn)"
      "p \<noteq> NULL" "a \<noteq> NULL" "y \<noteq> NULL" "a \<noteq> y" "a \<noteq> p" "y \<noteq> p"
    and pn: "\<And>x. node_ok ?m (hole_parent c) False (ksL @ x # ksR)
       (map root_addr tsL @ a # y # map root_addr tsR) (pn\<lparr>keys := (keys pn)[length ksL := x]\<rparr>)"
    using pair_nodes [OF st] by (metis root_addr.simps(1))
  have n: "n = 0" and m3: "3 \<le> ?m" using st by (cases n; auto simp: pair_state_def)+
  obtain es' e where es: "es = es' @ [e]" using b(1) by (cases es rule: rev_cases) auto
  have na: "node_ok ?m p True (map fst (es' @ [e])) (map snd (es' @ [e])) na" "node_ok ?m p True (map fst fs) (map snd fs) nb"
    using f(5,6) nd by (simp_all add: node_at_Some es)
  obtain na' nb' where r: "redistribute_left y a (length ksL) k h = Inr (put_node a na' (put_node y nb'
      (put_node p (pn\<lparr>keys := (keys pn)[length ksL := fst e]\<rparr>) h)))"
    "node_ok ?m p True (map fst es') (map snd es') na'" "node_ok ?m p True (map fst (e # fs)) (map snd (e # fs)) nb'"
    "pointers na' ! (?m - 1) = pointers na ! (?m - 1)" "pointers nb' ! (?m - 1) = pointers nb ! (?m - 1)"
    by (rule rotate_right_leaves [OF nd(1) na(1) nd(2) na(2) nd(3,4) b(2)])
  define h' where "h' = put_node a na' (put_node y nb' (put_node p (pn\<lparr>keys := (keys pn)[length ksL := fst e]\<rparr>) h))"
  have same: "same_rest h h'" by (simp add: h'_def)
  have "reb_state h' E V (hole_min ?m (Suc n) c) (Suc n) c (Nd p (ksL @ fst e # ksR) (tsL @ Lf a es' # Lf y (e # fs) # tsR))"
  proof (rule pair_update [OF st same])
    show "nodes h' z = nodes h z" if "z \<in> set (caddrs c) \<union> set (concat (map addrs (tsL @ tsR)))" for z
      using pair_rest_ne [OF st that] by (auto simp: h'_def)
    show "node_at (nodes h') p (node_ok ?m (hole_parent c) False (ksL @ fst e # ksR)
       (map root_addr tsL @ root_addr ?A # root_addr ?B # map root_addr tsR))"
      using pn nd by (simp add: h'_def node_at_def)
    show "repr (nodes h') ?m p (Lf a es')" "repr (nodes h') ?m p (Lf y (e # fs))"
      using r(2,3) nd by (simp_all add: h'_def node_at_def)
    show "link (nodes h') ?m z = link (nodes h) ?m z" if "z \<in> set (leaf_addrs ?A @ leaf_addrs ?B)" for z
      using that r(4,5) nd by (auto simp: h'_def link_def)
    show "heap_ok h' (E \<union> set (caddrs c @ addrs (Nd p (ksL @ k # ksR) (tsL @ ?A # ?B # tsR)))) V"
      unfolding h'_def by (intro heap_ok_put pair_in_use(2) [OF st]) (use pair_in_use(1) [OF st] in auto)
    show "tshape ?m (min_keys_at ?m n) n (Lf a es')" "tshape ?m (min_keys_at ?m n) n (Lf y (e # fs))"
      using st b n by (auto simp: es pair_state_def)
    show "sorted_wrt (<) ((lseq c @ lpart (map keyseq tsL) ksL) @ keyseq (Lf a es') @ sep_code (fst e) #
       keyseq (Lf y (e # fs)) @ rpart ksR (map keyseq tsR) @ rseq c)"
      by (rule move_sorted [OF f(2), of "length es'"]) (use b(1) min_keys_pos [OF m3, of n] in \<open>auto simp: es\<close>)
  qed simp_all
  then show thesis using that [of h' "Lf a es'" "Lf y (e # fs)" "fst e"] r(1) same by (simp add: h'_def es)
qed

lemma move_left_leaves:
  assumes st: "pair_state h E V n c p ksL tsL (Lf a es) k (Lf y fs) ksR tsR"
    and b: "min_keys_at (order h) n < length fs" "length es < order h - 1" "min_keys_at (order h) n \<le> Suc (length es)"
  obtains h' A' B' k' where "redistribute_right a y (length ksL) k h = Inr h'" "same_rest h h'"
    "contents A' @ contents B' = es @ fs"
    "reb_state h' E V (hole_min (order h) (Suc n) c) (Suc n) c (Nd p (ksL @ k' # ksR) (tsL @ A' # B' # tsR))"
proof -
  let ?m = "order h" and ?A = "Lf a es" and ?B = "Lf y fs"
  note f = pair_facts [OF st]
  obtain na nb pn where nd: "nodes h a = Some na" "nodes h y = Some nb" "nodes h p = Some pn" "length ksL < length (keys pn)"
      "p \<noteq> NULL" "a \<noteq> NULL" "y \<noteq> NULL" "a \<noteq> y" "a \<noteq> p" "y \<noteq> p"
    and pn: "\<And>x. node_ok ?m (hole_parent c) False (ksL @ x # ksR)
       (map root_addr tsL @ a # y # map root_addr tsR) (pn\<lparr>keys := (keys pn)[length ksL := x]\<rparr>)"
    using pair_nodes [OF st] by (metis root_addr.simps(1))
  have n: "n = 0" and m3: "3 \<le> ?m" using st by (cases n; auto simp: pair_state_def)+
  have "1 < length fs" using b(1) min_keys_pos [OF m3, of n] by simp
  then obtain e e' fs' where fs: "fs = e # e' # fs'" by (cases fs; cases "tl fs") auto
  have na: "node_ok ?m p True (map fst es) (map snd es) na"
      "node_ok ?m p True (map fst (e # e' # fs')) (map snd (e # e' # fs')) nb"
    using f(5,6) nd by (simp_all add: node_at_Some fs)
  obtain na' nb' where r: "redistribute_right a y (length ksL) k h = Inr (put_node y nb' (put_node a na'
      (put_node p (pn\<lparr>keys := (keys pn)[length ksL := fst e']\<rparr>) h)))"
    "node_ok ?m p True (map fst (es @ [e])) (map snd (es @ [e])) na'" "node_ok ?m p True (map fst (e' # fs')) (map snd (e' # fs')) nb'"
    "pointers na' ! (?m - 1) = pointers na ! (?m - 1)" "pointers nb' ! (?m - 1) = pointers nb ! (?m - 1)"
    by (rule rotate_left_leaves [OF nd(1) na(1) nd(2) na(2) nd(3,4) b(2)])
  define h' where "h' = put_node y nb' (put_node a na' (put_node p (pn\<lparr>keys := (keys pn)[length ksL := fst e']\<rparr>) h))"
  have same: "same_rest h h'" by (simp add: h'_def)
  have "reb_state h' E V (hole_min ?m (Suc n) c) (Suc n) c (Nd p (ksL @ fst e' # ksR) (tsL @ Lf a (es @ [e]) # Lf y (e' # fs') # tsR))"
  proof (rule pair_update [OF st same])
    show "nodes h' z = nodes h z" if "z \<in> set (caddrs c) \<union> set (concat (map addrs (tsL @ tsR)))" for z
      using pair_rest_ne [OF st that] by (auto simp: h'_def)
    show "node_at (nodes h') p (node_ok ?m (hole_parent c) False (ksL @ fst e' # ksR)
       (map root_addr tsL @ root_addr ?A # root_addr ?B # map root_addr tsR))"
      using pn nd by (simp add: h'_def node_at_def)
    show "repr (nodes h') ?m p (Lf a (es @ [e]))" "repr (nodes h') ?m p (Lf y (e' # fs'))"
      using r(2,3) nd by (simp_all add: h'_def node_at_def)
    show "link (nodes h') ?m z = link (nodes h) ?m z" if "z \<in> set (leaf_addrs ?A @ leaf_addrs ?B)" for z
      using that r(4,5) nd by (auto simp: h'_def link_def)
    show "heap_ok h' (E \<union> set (caddrs c @ addrs (Nd p (ksL @ k # ksR) (tsL @ ?A # ?B # tsR)))) V"
      unfolding h'_def by (intro heap_ok_put pair_in_use(2) [OF st]) (use pair_in_use(1) [OF st] in auto)
    show "tshape ?m (min_keys_at ?m n) n (Lf a (es @ [e]))" "tshape ?m (min_keys_at ?m n) n (Lf y (e' # fs'))"
      using st b n by (auto simp: fs pair_state_def)
    show "sorted_wrt (<) ((lseq c @ lpart (map keyseq tsL) ksL) @ keyseq (Lf a (es @ [e])) @ sep_code (fst e') #
       keyseq (Lf y (e' # fs')) @ rpart ksR (map keyseq tsR) @ rseq c)"
      by (rule move_sorted [OF f(2), of "Suc (length es)"]) (auto simp: fs nth_append)
  qed simp_all
  then show thesis using that [of h' "Lf a (es @ [e])" "Lf y (e' # fs')" "fst e'"] r(1) same by (simp add: h'_def fs)
qed

text \<open>The child that moves gets a new parent; its former and new siblings stay as they are.\<close>

lemma moved_child:
  assumes "nodes h (root_addr t) = Some nt" and "repr (nodes h) m q t" and "distinct (addrs t)"
    and "\<And>z. z \<in> set (addrs t) \<Longrightarrow> nodes h' z = (if z = root_addr t then Some (nt\<lparr>parent := y\<rparr>) else nodes h z)"
  shows "repr (nodes h') m y t"
  by (rule repr_reparent [OF assms(2)]) (use assms root_in_addrs [of t] in auto)

lemma siblings_kept:
  assumes "\<forall>x \<in> set ts. repr N m q x" and "\<And>z. z \<in> set (concat (map addrs ts)) \<Longrightarrow> N' z = N z"
  shows "\<forall>x \<in> set ts. repr N' m q x"
proof
  fix x assume x: "x \<in> set ts"
  have "repr N' m q x = repr N m q x" by (rule repr_cong, rule assms(2)) (use x in auto)
  then show "repr N' m q x" using assms(1) x by blast
qed

lemma move_right_inner:
  assumes st: "pair_state h E V n c p ksL tsL (Nd a ks ts) k (Nd y ls us) ksR tsR"
    and b: "min_keys_at (order h) n < length ks" "length ls < order h - 1" "min_keys_at (order h) n \<le> Suc (length ls)"
  obtains h' A' B' k' where "redistribute_left y a (length ksL) k h = Inr h'" "same_rest h h'"
    "contents A' @ contents B' = contents (Nd a ks ts) @ contents (Nd y ls us)"
    "reb_state h' E V (hole_min (order h) (Suc n) c) (Suc n) c (Nd p (ksL @ k' # ksR) (tsL @ A' # B' # tsR))"
proof -
  let ?m = "order h" and ?A = "Nd a ks ts" and ?B = "Nd y ls us"
  note f = pair_facts [OF st]
  obtain na nb pn where nd: "nodes h a = Some na" "nodes h y = Some nb" "nodes h p = Some pn" "length ksL < length (keys pn)"
      "p \<noteq> NULL" "a \<noteq> NULL" "y \<noteq> NULL" "a \<noteq> y" "a \<noteq> p" "y \<noteq> p"
    and pn: "\<And>x. node_ok ?m (hole_parent c) False (ksL @ x # ksR)
       (map root_addr tsL @ a # y # map root_addr tsR) (pn\<lparr>keys := (keys pn)[length ksL := x]\<rparr>)"
    using pair_nodes [OF st] by (metis root_addr.simps(2))
  obtain n0 where n: "n = Suc n0" using st by (cases n) (auto simp: pair_state_def)
  have sh: "tshape ?m (min_keys_at ?m n - 1) n ?A" "tshape ?m (min_keys_at ?m n - 1) n ?B"
    using st by (simp_all add: pair_state_def)
  obtain ks' kl where ks: "ks = ks' @ [kl]" using b(1) by (cases ks rule: rev_cases) auto
  obtain ts' t where ts: "ts = ts' @ [t]" using sh n by (cases ts rule: rev_cases) auto
  have len: "length ts' = Suc (length ks')" "length us = Suc (length ls)" using sh n ks ts by auto
  have na: "node_ok ?m p False (ks' @ [kl]) (map root_addr ts' @ [root_addr t]) na" "node_ok ?m p False ls (map root_addr us) nb"
    and ch: "\<forall>x \<in> set ts'. repr (nodes h) ?m a x" "repr (nodes h) ?m a t" "\<forall>x \<in> set us. repr (nodes h) ?m y x"
    using f(5,6) nd by (auto simp: node_at_Some ks ts)
  obtain nt where nt: "nodes h (root_addr t) = Some nt" using repr_root [OF ch(2)] by auto
  have D: "distinct (p # caddrs c @ concat (map addrs tsL) @ (a # concat (map addrs ts') @ addrs t) @
      (y # concat (map addrs us)) @ concat (map addrs tsR))"
    using f(1) by (simp add: ts)
  have tne: "root_addr t \<noteq> p" "root_addr t \<noteq> a" "root_addr t \<noteq> y" using D root_in_addrs [of t] by auto
  have l: "length (map root_addr ts') = Suc (length ks')" "length (map root_addr us) = Suc (length ls)" using len by simp_all
  obtain na' nb' where r: "redistribute_left y a (length ksL) k h = Inr (put_node a na' (put_node y nb'
      (put_node p (pn\<lparr>keys := (keys pn)[length ksL := kl]\<rparr>) (put_node (root_addr t) (nt\<lparr>parent := y\<rparr>) h))))"
    "node_ok ?m p False ks' (map root_addr ts') na'" "node_ok ?m p False (k # ls) (root_addr t # map root_addr us) nb'"
    by (rule rotate_right_inner [OF nd(1) na(1) nd(2) na(2) nd(3,4) l nt tne(1) b(2)])
  define h' where "h' = put_node a na' (put_node y nb' (put_node p (pn\<lparr>keys := (keys pn)[length ksL := kl]\<rparr>)
      (put_node (root_addr t) (nt\<lparr>parent := y\<rparr>) h)))"
  have same: "same_rest h h'" by (simp add: h'_def)
  have N': "nodes h' z = (if z = root_addr t then Some (nt\<lparr>parent := y\<rparr>) else nodes h z)" if "z \<notin> {a, y, p}" for z
    using that by (simp add: h'_def)
  have kept: "nodes h' z = nodes h z" if "z \<in> set (concat (map addrs ts') @ concat (map addrs us))" for z
  proof -
    have "z \<notin> {a, y, p}" "z \<notin> set (addrs t)" using that D by auto
    then show ?thesis using N' [of z] root_in_addrs [of t] by auto
  qed
  have tN: "nodes h' z = (if z = root_addr t then Some (nt\<lparr>parent := y\<rparr>) else nodes h z)" if "z \<in> set (addrs t)" for z
    by (rule N') (use that D in auto)
  let ?A' = "Nd a ks' ts'" and ?B' = "Nd y (k # ls) (t # us)"
  have "reb_state h' E V (hole_min ?m (Suc n) c) (Suc n) c (Nd p (ksL @ kl # ksR) (tsL @ ?A' # ?B' # tsR))"
  proof (rule pair_update [OF st same])
    show "nodes h' z = nodes h z" if "z \<in> set (caddrs c) \<union> set (concat (map addrs (tsL @ tsR)))" for z
    proof -
      note x = pair_rest_ne [OF st that]
      have "z \<noteq> root_addr t" using x(2) root_in_addrs [of t] by (auto simp: ts)
      then show ?thesis using N' [of z] x by auto
    qed
    show "node_at (nodes h') p (node_ok ?m (hole_parent c) False (ksL @ kl # ksR)
       (map root_addr tsL @ root_addr ?A # root_addr ?B # map root_addr tsR))"
      using pn nd tne by (simp add: h'_def node_at_def)
    have "\<forall>x \<in> set ts'. repr (nodes h') ?m a x"
      by (rule siblings_kept [OF ch(1)], rule kept) simp
    then show "repr (nodes h') ?m p ?A'" using r(2) nd tne by (auto simp: h'_def node_at_def)
    have "\<forall>x \<in> set us. repr (nodes h') ?m y x"
      by (rule siblings_kept [OF ch(3)], rule kept) simp
    moreover have "repr (nodes h') ?m y t"
      by (rule moved_child [OF nt ch(2) _ tN]) (use D in auto)
    ultimately show "repr (nodes h') ?m p ?B'" using r(3) nd tne by (auto simp: h'_def node_at_def)
    show "link (nodes h') ?m z = link (nodes h) ?m z" if "z \<in> set (leaf_addrs ?A @ leaf_addrs ?B)" for z
    proof -
      have "z \<in> set (concat (map addrs ts) @ concat (map addrs us))"
        using that leaves_concat [of ts] leaves_concat [of us] by auto
      then have "z \<notin> {a, y, p}" using D unfolding ts by auto
      then show ?thesis using N' nt by (auto simp: link_def)
    qed
    show "heap_ok h' (E \<union> set (caddrs c @ addrs (Nd p (ksL @ k # ksR) (tsL @ ?A # ?B # tsR)))) V"
      unfolding h'_def by (intro heap_ok_put pair_in_use(2) [OF st])
        (use pair_in_use(1) [OF st] root_in_addrs [of t] in \<open>auto simp: ts\<close>)
    show "tshape ?m (min_keys_at ?m n) n ?A'" "tshape ?m (min_keys_at ?m n) n ?B'"
      using sh b n len by (auto simp: ks ts)
    have "keyseq ?A @ sep_code k # keyseq ?B = keyseq ?A' @ sep_code kl # keyseq ?B'"
      using len inter_append [of "map keyseq ts'" ks' "[keyseq t]" kl "[]"] by (simp add: ks ts)
    then show "sorted_wrt (<) ((lseq c @ lpart (map keyseq tsL) ksL) @ keyseq ?A' @ sep_code kl #
       keyseq ?B' @ rpart ksR (map keyseq tsR) @ rseq c)"
      using f(2) by (metis append.assoc append_Cons)
  qed (simp_all add: ts)
  then show thesis using that [of h' ?A' ?B' kl] r(1) same by (simp add: h'_def ts)
qed

lemma move_left_inner:
  assumes st: "pair_state h E V n c p ksL tsL (Nd a ks ts) k (Nd y ls us) ksR tsR"
    and b: "min_keys_at (order h) n < length ls" "length ks < order h - 1" "min_keys_at (order h) n \<le> Suc (length ks)"
  obtains h' A' B' k' where "redistribute_right a y (length ksL) k h = Inr h'" "same_rest h h'"
    "contents A' @ contents B' = contents (Nd a ks ts) @ contents (Nd y ls us)"
    "reb_state h' E V (hole_min (order h) (Suc n) c) (Suc n) c (Nd p (ksL @ k' # ksR) (tsL @ A' # B' # tsR))"
proof -
  let ?m = "order h" and ?A = "Nd a ks ts" and ?B = "Nd y ls us"
  note f = pair_facts [OF st]
  obtain na nb pn where nd: "nodes h a = Some na" "nodes h y = Some nb" "nodes h p = Some pn" "length ksL < length (keys pn)"
      "p \<noteq> NULL" "a \<noteq> NULL" "y \<noteq> NULL" "a \<noteq> y" "a \<noteq> p" "y \<noteq> p"
    and pn: "\<And>x. node_ok ?m (hole_parent c) False (ksL @ x # ksR)
       (map root_addr tsL @ a # y # map root_addr tsR) (pn\<lparr>keys := (keys pn)[length ksL := x]\<rparr>)"
    using pair_nodes [OF st] by (metis root_addr.simps(2))
  obtain n0 where n: "n = Suc n0" using st by (cases n) (auto simp: pair_state_def)
  have sh: "tshape ?m (min_keys_at ?m n - 1) n ?A" "tshape ?m (min_keys_at ?m n - 1) n ?B"
    using st by (simp_all add: pair_state_def)
  obtain kb ls' where ls: "ls = kb # ls'" using b(1) by (cases ls) auto
  obtain t us' where us: "us = t # us'" using sh n by (cases us) auto
  have len: "length ts = Suc (length ks)" "length us' = Suc (length ls')" using sh n ls us by auto
  have na: "node_ok ?m p False ks (map root_addr ts) na" "node_ok ?m p False (kb # ls') (root_addr t # map root_addr us') nb"
    and ch: "\<forall>x \<in> set ts. repr (nodes h) ?m a x" "repr (nodes h) ?m y t" "\<forall>x \<in> set us'. repr (nodes h) ?m y x"
    using f(5,6) nd by (auto simp: node_at_Some ls us)
  obtain nt where nt: "nodes h (root_addr t) = Some nt" using repr_root [OF ch(2)] by auto
  have D: "distinct (p # caddrs c @ concat (map addrs tsL) @ (a # concat (map addrs ts)) @
      (y # addrs t @ concat (map addrs us')) @ concat (map addrs tsR))"
    using f(1) by (simp add: us)
  have tne: "root_addr t \<noteq> p" "root_addr t \<noteq> a" "root_addr t \<noteq> y" using D root_in_addrs [of t] by auto
  have l: "length (map root_addr ts) = Suc (length ks)" "length (map root_addr us') = Suc (length ls')" using len by simp_all
  obtain na' nb' where r: "redistribute_right a y (length ksL) k h = Inr (put_node y nb' (put_node a na'
      (put_node p (pn\<lparr>keys := (keys pn)[length ksL := kb]\<rparr>) (put_node (root_addr t) (nt\<lparr>parent := a\<rparr>) h))))"
    "node_ok ?m p False (ks @ [k]) (map root_addr ts @ [root_addr t]) na'" "node_ok ?m p False ls' (map root_addr us') nb'"
    by (rule rotate_left_inner [OF nd(1) na(1) nd(2) na(2) nd(3,4) l nt tne(1) b(2)])
  define h' where "h' = put_node y nb' (put_node a na' (put_node p (pn\<lparr>keys := (keys pn)[length ksL := kb]\<rparr>)
      (put_node (root_addr t) (nt\<lparr>parent := a\<rparr>) h)))"
  have same: "same_rest h h'" by (simp add: h'_def)
  have N': "nodes h' z = (if z = root_addr t then Some (nt\<lparr>parent := a\<rparr>) else nodes h z)" if "z \<notin> {a, y, p}" for z
    using that by (simp add: h'_def)
  have kept: "nodes h' z = nodes h z" if "z \<in> set (concat (map addrs ts) @ concat (map addrs us'))" for z
  proof -
    have "z \<notin> {a, y, p}" "z \<notin> set (addrs t)" using that D by auto
    then show ?thesis using N' [of z] root_in_addrs [of t] by auto
  qed
  have tN: "nodes h' z = (if z = root_addr t then Some (nt\<lparr>parent := a\<rparr>) else nodes h z)" if "z \<in> set (addrs t)" for z
    by (rule N') (use that D in auto)
  let ?A' = "Nd a (ks @ [k]) (ts @ [t])" and ?B' = "Nd y ls' us'"
  have "reb_state h' E V (hole_min ?m (Suc n) c) (Suc n) c (Nd p (ksL @ kb # ksR) (tsL @ ?A' # ?B' # tsR))"
  proof (rule pair_update [OF st same])
    show "nodes h' z = nodes h z" if "z \<in> set (caddrs c) \<union> set (concat (map addrs (tsL @ tsR)))" for z
    proof -
      note x = pair_rest_ne [OF st that]
      have "z \<noteq> root_addr t" using x(3) root_in_addrs [of t] by (auto simp: us)
      then show ?thesis using N' [of z] x by auto
    qed
    show "node_at (nodes h') p (node_ok ?m (hole_parent c) False (ksL @ kb # ksR)
       (map root_addr tsL @ root_addr ?A # root_addr ?B # map root_addr tsR))"
      using pn nd tne by (simp add: h'_def node_at_def)
    have "\<forall>x \<in> set ts. repr (nodes h') ?m a x" by (rule siblings_kept [OF ch(1)], rule kept) simp
    moreover have "repr (nodes h') ?m a t" by (rule moved_child [OF nt ch(2) _ tN]) (use D in auto)
    ultimately show "repr (nodes h') ?m p ?A'" using r(2) nd tne by (auto simp: h'_def node_at_def)
    have "\<forall>x \<in> set us'. repr (nodes h') ?m y x" by (rule siblings_kept [OF ch(3)], rule kept) simp
    then show "repr (nodes h') ?m p ?B'" using r(3) nd tne by (auto simp: h'_def node_at_def)
    show "link (nodes h') ?m z = link (nodes h) ?m z" if "z \<in> set (leaf_addrs ?A @ leaf_addrs ?B)" for z
    proof -
      have "z \<in> set (concat (map addrs ts) @ concat (map addrs us))"
        using that leaves_concat [of ts] leaves_concat [of us] by auto
      then have "z \<notin> {a, y, p}" using D unfolding us by auto
      then show ?thesis using N' nt by (auto simp: link_def)
    qed
    show "heap_ok h' (E \<union> set (caddrs c @ addrs (Nd p (ksL @ k # ksR) (tsL @ ?A # ?B # tsR)))) V"
      unfolding h'_def by (intro heap_ok_put pair_in_use(2) [OF st])
        (use pair_in_use(1) [OF st] root_in_addrs [of t] in \<open>auto simp: us\<close>)
    show "tshape ?m (min_keys_at ?m n) n ?A'" "tshape ?m (min_keys_at ?m n) n ?B'"
      using sh b n len by (auto simp: ls us)
    have "keyseq ?A @ sep_code k # keyseq ?B = keyseq ?A' @ sep_code kb # keyseq ?B'"
      using len inter_append [of "map keyseq ts" ks "[keyseq t]" k "[]"] by (simp add: ls us)
    then show "sorted_wrt (<) ((lseq c @ lpart (map keyseq tsL) ksL) @ keyseq ?A' @ sep_code kb #
       keyseq ?B' @ rpart ksR (map keyseq tsR) @ rseq c)"
      using f(2) by (metis append.assoc append_Cons)
  qed (simp_all add: us)
  then show thesis using that [of h' ?A' ?B' kb] r(1) same by (simp add: h'_def us)
qed

section \<open>Merging\<close>

lemma chain_remove:
  assumes "chain N m (as @ a # y # bs)" and "a \<notin> set as \<union> set bs"
    and "\<And>z. z \<in> set as \<union> set bs \<Longrightarrow> link N' m z = link N m z" and "link N' m a = link N m y"
  shows "chain N' m (as @ a # bs)"
  using assms
proof (induction as)
  case Nil
  have "chain N' m bs = chain N m bs" by (rule chain_cong) (use Nil in auto)
  then show ?case using Nil by (cases bs) auto
next
  case (Cons x as)
  then show ?case by (cases as) auto
qed

text \<open>After the merge: the parent loses the separator and the pointer to the right sibling.\<close>

lemma merged_state:
  assumes st: "pair_state h E V n c p ksL tsL A k B ksR tsR"
    and same: "same_rest h h1" and p1: "nodes h1 p = nodes h p"
    and rest: "\<And>a. a \<in> set (caddrs c) \<union> set (concat (map addrs (tsL @ tsR))) \<Longrightarrow> nodes h1 a = nodes h a"
    and r: "repr (nodes h1) (order h) p M" and root: "root_addr M = root_addr A"
    and ad: "Set.insert (root_addr B) (set (addrs M)) = set (addrs A) \<union> set (addrs B)" "distinct (addrs M)" "root_addr B \<notin> set (addrs M)"
    and ok: "heap_ok h1 (E \<union> set (caddrs c @ addrs (Nd p (ksL @ k # ksR) (tsL @ A # B # tsR)))) V"
    and sh: "tshape (order h) (min_keys_at (order h) n) n M"
    and srt: "sorted_wrt (<) ((lseq c @ lpart (map keyseq tsL) ksL) @ keyseq M @ rpart ksR (map keyseq tsR) @ rseq c)"
    and ch: "chain (nodes h1) (order h) ((lleaf c @ concat (map leaf_addrs tsL)) @ leaf_addrs M @
       concat (map leaf_addrs tsR) @ rleaf c)"
  obtains h2 where "remove_entry_from_node p k (root_addr B) h1 = Inr h2" "same_rest h h2"
    "reb_state h2 (Set.insert (root_addr B) E) V (hole_min (order h) (Suc n) c - 1) (Suc n) c
       (Nd p (ksL @ ksR) (tsL @ M # tsR))"
proof -
  let ?m = "order h" and ?y = "root_addr B" and ?u = "Nd p (ksL @ ksR) (tsL @ M # tsR)"
  note f = pair_facts [OF st]
  have m1: "order h1 = ?m" using same by (simp add: same_rest_def)
  obtain pn where pn: "nodes h p = Some pn" "p \<noteq> NULL" "node_ok ?m (hole_parent c) False (ksL @ k # ksR)
       (map root_addr tsL @ root_addr A # ?y # map root_addr tsR) pn"
    using f(3) by (rule node_atE)
  have l: "length tsL = length ksL" "length tsR = length ksR" using st by (simp_all add: pair_state_def)
  obtain pn' where pn': "remove_entry_from_node p k ?y h1 = Inr (put_node p pn' h1)"
      "node_ok ?m (hole_parent c) False (ksL @ ksR) ((map root_addr tsL @ [root_addr A]) @ map root_addr tsR) pn'"
    using remove_inner_entry [of h1 p pn "hole_parent c" ksL k ksR "map root_addr tsL @ [root_addr A]" ?y "map root_addr tsR"]
      pn p1 m1 f(7,8) l by auto
  define h2 where "h2 = put_node p pn' h1"
  have same2: "same_rest h h2" using same by (simp add: h2_def)
  have m2: "order h2 = ?m" using same2 by (simp add: same_rest_def)
  have pA: "p \<notin> set (addrs M)" using f(1) ad(1) by auto
  have rest2: "nodes h2 a = nodes h a" if "a \<in> set (caddrs c) \<union> set (concat (map addrs (tsL @ tsR)))" for a
    using rest [OF that] pair_rest_ne [OF st that] by (simp add: h2_def)
  note rc = rest_cong [OF st rest2]
  have rM: "repr (nodes h2) ?m p M = repr (nodes h1) ?m p M"
    by (rule repr_cong) (use pA in \<open>auto simp: h2_def\<close>)
  have MA: "set (addrs M) \<subseteq> set (addrs A) \<union> set (addrs B)" using ad(1) by blast
  have U: "Set.insert ?y E \<union> set (caddrs c @ addrs ?u) = E \<union> set (caddrs c @ addrs (Nd p (ksL @ k # ksR) (tsL @ A # B # tsR)))"
    using ad(1) by auto
  have chn: "chain (nodes h2) ?m (lleaf c @ leaf_addrs ?u @ rleaf c)"
  proof -
    have "chain (nodes h2) ?m (lleaf c @ leaf_addrs ?u @ rleaf c) = chain (nodes h1) ?m (lleaf c @ leaf_addrs ?u @ rleaf c)"
    proof (rule chain_cong)
      fix z assume "z \<in> set (lleaf c @ leaf_addrs ?u @ rleaf c)"
      then have "z \<in> set (lleaf c) \<union> set (rleaf c) \<union> set (leaf_addrs M) \<union> set (concat (map leaf_addrs (tsL @ tsR)))" by auto
      then have "z \<in> set (caddrs c) \<union> set (addrs M) \<union> set (concat (map addrs (tsL @ tsR)))"
        using lleaf_subset [of c] leaves_concat [of "tsL @ tsR"] leaf_addrs_subset [of M] by blast
      then have "z \<noteq> p" using f(1) pA by auto
      then show "link (nodes h2) ?m z = link (nodes h1) ?m z" by (simp add: h2_def link_def)
    qed
    then show ?thesis using ch by simp
  qed
  have "reb_state h2 (Set.insert ?y E) V (hole_min ?m (Suc n) c - 1) (Suc n) c ?u"
    unfolding reb_state_def m2 U
  proof (intro conjI)
    show "heap_ok h2 (E \<union> set (caddrs c @ addrs (Nd p (ksL @ k # ksR) (tsL @ A # B # tsR)))) V"
      unfolding h2_def by (rule heap_ok_put [OF ok]) auto
    have E: "E \<inter> set (caddrs c @ addrs (Nd p (ksL @ k # ksR) (tsL @ A # B # tsR))) = {}"
      using st by (simp add: pair_state_def)
    show "Set.insert ?y E \<inter> set (caddrs c @ addrs ?u) = {}"
      using E ad(3) MA f(1) root_in_addrs [of B] by auto
    have "(set (addrs A) \<union> set (addrs B)) \<inter>
        (set (caddrs c) \<union> set (concat (map addrs tsL)) \<union> set (concat (map addrs tsR))) = {}"
      using f(1) by auto
    then have "set (addrs M) \<inter>
        (set (caddrs c) \<union> set (concat (map addrs tsL)) \<union> set (concat (map addrs tsR))) = {}"
      using MA by blast
    then show "distinct (caddrs c @ addrs ?u)" using f(1) pA ad(2) by auto
    show "crepr (nodes h2) ?m c (root_addr ?u)" using rc(1) by simp
    have "node_at (nodes h2) p (node_ok ?m (hole_parent c) False (ksL @ ksR) (map root_addr (tsL @ M # tsR)))"
      using pn'(2) pn(2) root by (simp add: h2_def node_at_def)
    then show "repr (nodes h2) ?m (hole_parent c) ?u" using rc(2) rM r by auto
    show "cshape ?m (Suc n) c" "3 \<le> ?m" using st by (simp_all add: pair_state_def)
    show "tshape ?m (hole_min ?m (Suc n) c - 1) (Suc n) ?u" using st sh l by (auto simp: pair_state_def)
    show "sorted_wrt (<) (lseq c @ keyseq ?u @ rseq c)" using srt l by (simp add: inter_lpart inter_rpart)
  qed (rule chn)
  then show thesis using that [of h2] pn'(1) same2 by (simp add: h2_def)
qed

lemma merge_leaf_pair:
  assumes st: "pair_state h E V n c p ksL tsL (Lf a es) k (Lf y fs) ksR tsR"
    and b: "length es + length fs < order h" "min_keys_at (order h) n \<le> length es + length fs"
  obtains h1 h2 M where "merge_nodes y a k h = Inr h1" "nodes h1 y = nodes h y"
    "remove_entry_from_node p k y h1 = Inr h2" "same_rest h h2" "contents M = es @ fs"
    "reb_state h2 (Set.insert y E) V (hole_min (order h) (Suc n) c - 1) (Suc n) c (Nd p (ksL @ ksR) (tsL @ M # tsR))"
proof -
  let ?m = "order h" and ?A = "Lf a es" and ?B = "Lf y fs" and ?M = "Lf a (es @ fs)"
  note f = pair_facts [OF st]
  obtain na nb where nd: "nodes h a = Some na" "nodes h y = Some nb" "a \<noteq> NULL" "a \<noteq> y" "a \<noteq> p"
    using pair_nodes [OF st] by (metis root_addr.simps(1))
  have n: "n = 0" and m3: "3 \<le> ?m" using st by (cases n; auto simp: pair_state_def)+
  have ok: "node_ok ?m p True (map fst es) (map snd es) na" "node_ok ?m p True (map fst fs) (map snd fs) nb"
    using f(5,6) nd by (simp_all add: node_at_Some)
  have len: "length es + length fs \<le> ?m - 1" "1 \<le> ?m" using b(1) m3 by auto
  obtain na' where na': "merge_nodes y a k h = Inr (put_node a na' h)"
      "node_ok ?m p True (map fst (es @ fs)) (map snd (es @ fs)) na'"
      "pointers na' ! (?m - 1) = pointers nb ! (?m - 1)"
    by (rule merge_leaves [OF nd(1) ok(1) nd(2) ok(2) len])
  define h1 where "h1 = put_node a na' h"
  have rest: "nodes h1 z = nodes h z" if "z \<in> set (caddrs c) \<union> set (concat (map addrs (tsL @ tsR)))" for z
    using pair_rest_ne [OF st that] by (simp add: h1_def)
  have pne: "nodes h1 p = nodes h p" using nd(5) by (simp add: h1_def)
  obtain h2 where "remove_entry_from_node p k (root_addr ?B) h1 = Inr h2" "same_rest h h2"
    "reb_state h2 (Set.insert (root_addr ?B) E) V (hole_min ?m (Suc n) c - 1) (Suc n) c (Nd p (ksL @ ksR) (tsL @ ?M # tsR))"
  proof (rule merged_state [OF st _ pne rest, where M = ?M])
    show "repr (nodes h1) ?m p ?M" using na'(2) nd(3) by (simp add: h1_def node_at_def)
    show "heap_ok h1 (E \<union> set (caddrs c @ addrs (Nd p (ksL @ k # ksR) (tsL @ ?A # ?B # tsR)))) V"
      unfolding h1_def by (rule heap_ok_put [OF pair_in_use(2) [OF st]]) (use pair_in_use(1) [OF st] in auto)
    show "sorted_wrt (<) ((lseq c @ lpart (map keyseq tsL) ksL) @ keyseq ?M @ rpart ksR (map keyseq tsR) @ rseq c)"
      using f(2) by (simp add: sorted_wrt_append)
    have D: "a \<notin> set (lleaf c @ concat (map leaf_addrs tsL)) \<union> set (concat (map leaf_addrs tsR) @ rleaf c)"
      using f(1) lleaf_subset [of c] leaves_concat [of tsL] leaves_concat [of tsR] by auto
    have "chain (nodes h1) ?m ((lleaf c @ concat (map leaf_addrs tsL)) @ a # concat (map leaf_addrs tsR) @ rleaf c)"
      by (rule chain_remove [where N = "nodes h" and y = y])
        (use f(9) D nd na'(3) in \<open>auto simp: h1_def link_def\<close>)
    then show "chain (nodes h1) ?m ((lleaf c @ concat (map leaf_addrs tsL)) @ leaf_addrs ?M @ concat (map leaf_addrs tsR) @ rleaf c)"
      by simp
  qed (use nd(4) n b len in \<open>auto simp: h1_def\<close>)
  then show thesis using that [of h1 h2 ?M] na'(1) nd(4) by (simp add: h1_def)
qed

lemma merge_inner_pair:
  assumes st: "pair_state h E V n c p ksL tsL (Nd a ks ts) k (Nd y ls us) ksR tsR"
    and b: "length ks + length ls < order h - 1" "min_keys_at (order h) n \<le> Suc (length ks + length ls)"
  obtains h1 h2 M ny where "merge_nodes y a k h = Inr h1" "nodes h1 y = Some ny" "parent ny = p"
    "remove_entry_from_node p k y h1 = Inr h2" "same_rest h h2" "contents M = contents (Nd a ks ts) @ contents (Nd y ls us)"
    "reb_state h2 (Set.insert y E) V (hole_min (order h) (Suc n) c - 1) (Suc n) c (Nd p (ksL @ ksR) (tsL @ M # tsR))"
proof -
  let ?m = "order h" and ?A = "Nd a ks ts" and ?B = "Nd y ls us" and ?M = "Nd a (ks @ k # ls) (ts @ us)"
  note f = pair_facts [OF st]
  obtain na nb where nd: "nodes h a = Some na" "nodes h y = Some nb" "a \<noteq> NULL" "a \<noteq> y" "a \<noteq> p" "y \<noteq> p"
    using pair_nodes [OF st] by (metis root_addr.simps(2))
  obtain n0 where n: "n = Suc n0" using st by (cases n) (auto simp: pair_state_def)
  have sh: "tshape ?m (min_keys_at ?m n - 1) n ?A" "tshape ?m (min_keys_at ?m n - 1) n ?B"
    using st by (simp_all add: pair_state_def)
  have ok: "node_ok ?m p False ks (map root_addr ts) na" "node_ok ?m p False ls (map root_addr us) nb"
    and ch: "\<forall>x \<in> set ts. repr (nodes h) ?m a x" "\<forall>x \<in> set us. repr (nodes h) ?m y x"
    using f(5,6) nd by (simp_all add: node_at_Some)
  have l: "length ts = Suc (length ks)" "length us = Suc (length ls)" using sh n by auto
  have len: "length (map root_addr ts) = Suc (length ks)" "length (map root_addr us) = Suc (length ls)"
      "Suc (length ks + length ls) \<le> ?m - 1" using l b(1) by auto
  have D: "distinct (p # caddrs c @ concat (map addrs tsL) @ (a # concat (map addrs ts)) @
      (y # concat (map addrs us)) @ concat (map addrs tsR))"
    using f(1) by simp
  have chs: "\<forall>x \<in> set (ts @ us). \<exists>q. repr (nodes h) ?m q x" using ch by auto
  have dom: "set (map root_addr ts @ map root_addr us) \<subseteq> dom (nodes h)" using ch repr_root by fastforce
  have rts: "set (map root_addr ts @ map root_addr us) \<subseteq> set (concat (map addrs (ts @ us)))"
    using root_in_concat [of _ "ts @ us"] by auto
  obtain na' where na': "merge_nodes y a k h = Inr (set_parents a (set (map root_addr ts @ map root_addr us))
      (put_node a na' (put_node y (nb\<lparr>num_keys := 0\<rparr>) h)))"
      "node_ok ?m p False (ks @ k # ls) (map root_addr ts @ map root_addr us) na'"
    by (rule merge_inner [OF nd(1) ok(1) nd(2) ok(2) len nd(4) dom])
  define h0 where "h0 = put_node a na' (put_node y (nb\<lparr>num_keys := 0\<rparr>) h)"
  define h1 where "h1 = set_parents a (set (map root_addr ts @ map root_addr us)) h0"
  have out: "nodes h1 z = nodes h0 z" if "z \<notin> set (concat (map addrs (ts @ us)))" for z
    using that rts by (auto simp: h1_def set_parents_def)
  have "a \<notin> set (concat (map addrs (ts @ us)))" "y \<notin> set (concat (map addrs (ts @ us)))" "p \<notin> set (concat (map addrs (ts @ us)))"
    using D by auto
  note ay = this [THEN out]
  have rest: "nodes h1 z = nodes h z" if "z \<in> set (caddrs c) \<union> set (concat (map addrs (tsL @ tsR)))" for z
    using pair_rest_ne [OF st that] out [of z] by (auto simp: h0_def)
  have new: "nodes h1 z = (if z \<in> set (map root_addr (ts @ us))
      then map_option (\<lambda>nd. nd\<lparr>parent := a\<rparr>) (nodes h z) else nodes h z)" if "z \<in> set (concat (map addrs (ts @ us)))" for z
  proof -
    have "z \<noteq> a" "z \<noteq> y" using that D by auto
    then show ?thesis by (simp add: h1_def set_parents_def h0_def)
  qed
  have kids: "repr (nodes h1) ?m a x" if "x \<in> set (ts @ us)" for x
    by (rule reparent_all [OF chs _ new that]) (use D in auto)
  obtain h2 where "remove_entry_from_node p k (root_addr ?B) h1 = Inr h2" "same_rest h h2"
    "reb_state h2 (Set.insert (root_addr ?B) E) V (hole_min ?m (Suc n) c - 1) (Suc n) c (Nd p (ksL @ ksR) (tsL @ ?M # tsR))"
  proof (rule merged_state [OF st _ _ rest, where M = ?M])
    show "same_rest h h1" by (simp add: h1_def h0_def)
    show "nodes h1 p = nodes h p" using ay(3) nd by (simp add: h0_def)
    show "repr (nodes h1) ?m p ?M" using na'(2) nd(3) ay(1) kids by (auto simp: h0_def node_at_def)
    have "heap_ok h0 (E \<union> set (caddrs c @ addrs (Nd p (ksL @ k # ksR) (tsL @ ?A # ?B # tsR)))) V"
      unfolding h0_def by (intro heap_ok_put pair_in_use(2) [OF st]) (use pair_in_use(1) [OF st] in auto)
    then show "heap_ok h1 (E \<union> set (caddrs c @ addrs (Nd p (ksL @ k # ksR) (tsL @ ?A # ?B # tsR)))) V"
      unfolding h1_def by (rule heap_ok_set_parents) (use rts in auto)
    have "keyseq ?M = keyseq ?A @ sep_code k # keyseq ?B" using l by (simp add: inter_append)
    then show "sorted_wrt (<) ((lseq c @ lpart (map keyseq tsL) ksL) @ keyseq ?M @ rpart ksR (map keyseq tsR) @ rseq c)"
      using f(2) by simp
    let ?ls = "(lleaf c @ concat (map leaf_addrs tsL)) @ leaf_addrs ?M @ concat (map leaf_addrs tsR) @ rleaf c"
    have "chain (nodes h1) ?m ?ls = chain (nodes h) ?m ?ls"
    proof (rule chain_cong)
      fix z assume "z \<in> set ?ls"
      then have "z \<in> set (lleaf c) \<union> set (rleaf c) \<union> set (concat (map leaf_addrs (tsL @ tsR))) \<union> set (concat (map leaf_addrs (ts @ us)))"
        by auto
      then have "z \<in> set (caddrs c) \<union> set (concat (map addrs (tsL @ tsR))) \<or> z \<in> set (concat (map addrs (ts @ us)))"
        using lleaf_subset [of c] leaves_concat [of "tsL @ tsR"] leaves_concat [of "ts @ us"] by blast
      then have "nodes h1 z = nodes h z \<or> nodes h1 z = map_option (\<lambda>nd. nd\<lparr>parent := a\<rparr>) (nodes h z)"
        using rest [of z] new [of z] by presburger
      then show "link (nodes h1) ?m z = link (nodes h) ?m z"
        by (cases "nodes h z") (auto simp: link_def)
    qed
    then show "chain (nodes h1) ?m ?ls" using f(9) by simp
  qed (use nd(4) n b len l sh D in auto)
  moreover have "nodes h1 y = Some (nb\<lparr>num_keys := 0\<rparr>)" using ay(2) nd(4) by (simp add: h0_def)
  ultimately show thesis
    using that [of h1 "nb\<lparr>num_keys := 0\<rparr>" h2 ?M] na'(1) node_okD(2) [OF ok(2)] by (simp add: h1_def h0_def)
qed

end
