(* ===== verification/Bpt_Delete_Map.thy ===== *)
theory Bpt_Delete_Map
  imports Bpt_Delete_Up
begin

text \<open>
  The repair of a tree by induction on the context, and the theorem that \<^verbatim>\<open>delete\<close>
  removes a key from the map the tree stands for.
\<close>

section \<open>From a hole to a pair of siblings\<close>

lemma pair_with_left:
  assumes "reb_state h E V (min_keys_at (order h) n - 1) n (Fr p (ksL @ [k]) (tsL @ [x]) ksR tsR # c) u"
  shows "pair_state h E V n c p ksL tsL x k u ksR tsR"
proof -
  let ?c = "Fr p (ksL @ [k]) (tsL @ [x]) ksR tsR # c" and ?t = "Nd p (ksL @ k # ksR) (tsL @ x # u # tsR)"
  have ms: "mset (caddrs c @ addrs ?t) = mset (caddrs ?c @ addrs u)" by simp
  have "set (caddrs c @ addrs ?t) = set (caddrs ?c @ addrs u)" "distinct (caddrs c @ addrs ?t)"
    using assms mset_eq_setD [OF ms] mset_eq_imp_distinct_iff [OF ms] by (simp_all only: reb_state_def)
  moreover have l: "length tsL = length ksL" "length tsR = length ksR" using assms by (simp_all add: reb_state_def)
  moreover have "lseq c @ keyseq ?t @ rseq c = lseq ?c @ keyseq u @ rseq ?c"
  proof -
    have "lpart (map keyseq (tsL @ [x])) (ksL @ [k]) = lpart (map keyseq tsL) ksL @ keyseq x @ [sep_code k]"
      using l(1) by (induction tsL ksL rule: list_induct2) auto
    then show ?thesis using l by (simp add: inter_lpart inter_rpart)
  qed
  moreover have "lleaf c @ leaf_addrs ?t @ rleaf c = lleaf ?c @ leaf_addrs u @ rleaf ?c" by simp
  moreover have "tshape (order h) (min_keys_at (order h) n - 1) n x"
    using assms tshape_lo [of "order h" "min_keys_at (order h) n" n x "min_keys_at (order h) n - 1"]
      tshape_nkeys [of "order h" "min_keys_at (order h) n" n x] by (auto simp: reb_state_def)
  ultimately show ?thesis
    using assms unfolding pair_state_def reb_state_def by (simp only: cshape.simps crepr.simps repr.simps) auto
qed

lemma pair_with_right:
  assumes "reb_state h E V (min_keys_at (order h) n - 1) n (Fr p [] [] (k # ksR) (x # tsR) # c) u"
  shows "pair_state h E V n c p [] [] u k x ksR tsR"
proof -
  let ?c = "Fr p [] [] (k # ksR) (x # tsR) # c" and ?t = "Nd p ([] @ k # ksR) ([] @ u # x # tsR)"
  have ms: "mset (caddrs c @ addrs ?t) = mset (caddrs ?c @ addrs u)" by simp
  have "set (caddrs c @ addrs ?t) = set (caddrs ?c @ addrs u)" "distinct (caddrs c @ addrs ?t)"
    using assms mset_eq_setD [OF ms] mset_eq_imp_distinct_iff [OF ms] by (simp_all only: reb_state_def)
  moreover have l: "length tsR = length ksR" using assms by (simp add: reb_state_def)
  moreover have "lseq c @ keyseq ?t @ rseq c = lseq ?c @ keyseq u @ rseq ?c" using l by (simp add: inter_rpart)
  moreover have "lleaf c @ leaf_addrs ?t @ rleaf c = lleaf ?c @ leaf_addrs u @ rleaf ?c" by simp
  moreover have "tshape (order h) (min_keys_at (order h) n - 1) n x"
    using assms tshape_lo [of "order h" "min_keys_at (order h) n" n x "min_keys_at (order h) n - 1"]
      tshape_nkeys [of "order h" "min_keys_at (order h) n" n x] by (auto simp: reb_state_def)
  ultimately show ?thesis
    using assms unfolding pair_state_def reb_state_def by (simp only: cshape.simps crepr.simps repr.simps) auto
qed

section \<open>Merging or moving\<close>

definition capacity_at :: "nat \<Rightarrow> nat \<Rightarrow> nat" where
  "capacity_at m n = (if n = 0 then m else m - 1)"

lemma few_keys:
  assumes "3 \<le> m" and "capacity_at m n \<le> x + y" and "y < min_keys_at m n" and "min_keys_at m n \<le> Suc y"
  shows "min_keys_at m n < x" "y < m - 1"
proof -
  have "min_keys_at m n < x \<and> y < m - 1"
  proof (cases "n = 0")
    case True
    then have "m \<le> x + y" "y < cut (m - 1)" "min_keys_at m n = cut (m - 1)"
      using assms(2,3) by (simp_all add: capacity_at_def min_keys_at_def)
    then show ?thesis using cut_bounds(2,3,9) [OF assms(1)] by linarith
  next
    case False
    then have "m - 1 \<le> x + y" "y < cut m - 1" "min_keys_at m n = cut m - 1"
      using assms(2,3) by (simp_all add: capacity_at_def min_keys_at_def)
    then show ?thesis using cut_bounds(6,7,10) [OF assms(1)] by linarith
  qed
  then show "min_keys_at m n < x" "y < m - 1" by simp_all
qed

lemma pair_cases:
  assumes "pair_state h E V n c p ksL tsL A k B ksR tsR"
  obtains (leaf) a es y fs where "n = 0" "A = Lf a es" "B = Lf y fs"
  | (inner) n0 a ks ts y ls us where "n = Suc n0" "A = Nd a ks ts" "B = Nd y ls us"
  using assms by (cases n; cases A; cases B) (auto simp: pair_state_def)

lemma pair_merge:
  assumes st: "pair_state h E V n c p ksL tsL A k B ksR tsR"
    and b: "nkeys A + nkeys B < capacity_at (order h) n" "min_keys_at (order h) n \<le> Suc (nkeys A + nkeys B)"
      "n = 0 \<Longrightarrow> min_keys_at (order h) n \<le> nkeys A + nkeys B"
  obtains h1 h2 M nb where "merge_nodes (root_addr B) (root_addr A) k h = Inr h1" "nodes h1 (root_addr B) = Some nb"
    "parent nb = p" "remove_entry_from_node p k (root_addr B) h1 = Inr h2" "same_rest h h2"
    "contents M = contents A @ contents B"
    "reb_state h2 (Set.insert (root_addr B) E) V (hole_min (order h) (Suc n) c - 1) (Suc n) c
       (Nd p (ksL @ ksR) (tsL @ M # tsR))"
  using st
proof (cases rule: pair_cases)
  case (leaf a es y fs)
  obtain nb where nb: "nodes h y = Some nb" "parent nb = p"
    using pair_facts(6) [OF st] leaf by (auto elim!: node_atE dest: node_okD(2))
  from merge_leaf_pair [OF st [unfolded leaf(2,3)]] b(1,3) leaf
  obtain h1 h2 M where "merge_nodes y a k h = Inr h1" "nodes h1 y = nodes h y"
    "remove_entry_from_node p k y h1 = Inr h2" "same_rest h h2" "contents M = es @ fs"
    "reb_state h2 (Set.insert y E) V (hole_min (order h) (Suc n) c - 1) (Suc n) c (Nd p (ksL @ ksR) (tsL @ M # tsR))"
    by (auto simp: capacity_at_def)
  then show thesis using that [of h1 nb h2 M] nb leaf by simp
next
  case (inner n0 a ks ts y ls us)
  have pre: "length ks + length ls < order h - 1" "min_keys_at (order h) n \<le> Suc (length ks + length ls)"
    using b(1,2) inner by (auto simp: capacity_at_def)
  show thesis
    by (rule merge_inner_pair [OF st [unfolded inner(2,3)] pre], rule that) (simp_all add: inner)
qed

lemma pair_move_right:
  assumes st: "pair_state h E V n c p ksL tsL A k B ksR tsR"
    and b: "capacity_at (order h) n \<le> nkeys A + nkeys B" "nkeys B < min_keys_at (order h) n"
  obtains h' A' B' k' where "redistribute_left (root_addr B) (root_addr A) (length ksL) k h = Inr h'" "same_rest h h'"
    "contents A' @ contents B' = contents A @ contents B"
    "reb_state h' E V (hole_min (order h) (Suc n) c) (Suc n) c (Nd p (ksL @ k' # ksR) (tsL @ A' # B' # tsR))"
proof -
  have m: "3 \<le> order h" and sh: "tshape (order h) (min_keys_at (order h) n - 1) n B"
    using st by (simp_all add: pair_state_def)
  have nb: "min_keys_at (order h) n \<le> Suc (nkeys B)" using tshape_nkeys [OF sh] by linarith
  have lt: "min_keys_at (order h) n < nkeys A" "nkeys B < order h - 1"
    using few_keys [OF m, of n "nkeys A" "nkeys B"] b nb by simp_all
  show thesis using st
  proof (cases rule: pair_cases)
    case (leaf a es y fs)
    have pre: "min_keys_at (order h) n < length es" "length fs < order h - 1"
        "min_keys_at (order h) n \<le> Suc (length fs)"
      using leaf nb lt by simp_all
    show thesis
      by (rule move_right_leaves [OF st [unfolded leaf(2,3)] pre], rule that) (simp_all add: leaf)
  next
    case (inner n0 a ks ts y ls us)
    have pre: "min_keys_at (order h) n < length ks" "length ls < order h - 1"
        "min_keys_at (order h) n \<le> Suc (length ls)"
      using inner nb lt by simp_all
    show thesis
      by (rule move_right_inner [OF st [unfolded inner(2,3)] pre], rule that) (simp_all add: inner)
  qed
qed

lemma pair_move_left:
  assumes st: "pair_state h E V n c p ksL tsL A k B ksR tsR"
    and b: "capacity_at (order h) n \<le> nkeys A + nkeys B" "nkeys A < min_keys_at (order h) n"
  obtains h' A' B' k' where "redistribute_right (root_addr A) (root_addr B) (length ksL) k h = Inr h'" "same_rest h h'"
    "contents A' @ contents B' = contents A @ contents B"
    "reb_state h' E V (hole_min (order h) (Suc n) c) (Suc n) c (Nd p (ksL @ k' # ksR) (tsL @ A' # B' # tsR))"
proof -
  have m: "3 \<le> order h" and sh: "tshape (order h) (min_keys_at (order h) n - 1) n A"
    using st by (simp_all add: pair_state_def)
  have nb: "min_keys_at (order h) n \<le> Suc (nkeys A)" using tshape_nkeys [OF sh] by linarith
  have lt: "min_keys_at (order h) n < nkeys B" "nkeys A < order h - 1"
    using few_keys [OF m, of n "nkeys B" "nkeys A"] b nb by (simp_all add: add.commute)
  show thesis using st
  proof (cases rule: pair_cases)
    case (leaf a es y fs)
    have pre: "min_keys_at (order h) n < length fs" "length es < order h - 1"
        "min_keys_at (order h) n \<le> Suc (length es)"
      using leaf nb lt by simp_all
    show thesis
      by (rule move_left_leaves [OF st [unfolded leaf(2,3)] pre], rule that) (simp_all add: leaf)
  next
    case (inner n0 a ks ts y ls us)
    have pre: "min_keys_at (order h) n < length ls" "length ks < order h - 1"
        "min_keys_at (order h) n \<le> Suc (length ks)"
      using inner nb lt by simp_all
    show thesis
      by (rule move_left_inner [OF st [unfolded inner(2,3)] pre], rule that) (simp_all add: inner)
  qed
qed

section \<open>Finishing\<close>

declare rebalance.simps [simp del] coalesce_nodes.simps [simp del]

lemma root_in_context: "c \<noteq> [] \<Longrightarrow> root_addr (plug c u) \<in> set (caddrs c)"
proof (induction c u rule: plug.induct)
  case (2 p ksL tsL ksR tsR c u)
  show ?case using 2 by (cases "c = []") auto
qed simp

lemma shrunk_release:
  assumes "shrunk h (Set.insert y E) V cont n root h1" and "y \<notin> E"
  obtains h2 where "release_node y h1 = Inr h2" "shrunk h E V cont n root h2"
proof -
  have same: "same_rest h h1" using assms(1) by (simp add: shrunk_def)
  consider "root = NULL" "cont = []" "heap_ok h1 (Set.insert y E) V"
    | t n' where "root = root_addr t" "n' \<le> n" "tshape (order h) 1 n' t" "contents t = cont"
         "repr (nodes h1) (order h) NULL t" "sorted_wrt (<) (keyseq t)" "distinct (addrs t)"
         "chain (nodes h1) (order h) (leaf_addrs t)" "Set.insert y E \<inter> set (addrs t) = {}"
         "heap_ok h1 (Set.insert y (E \<union> set (addrs t))) V"
    using assms(1) by (auto simp: shrunk_def)
  then show thesis
  proof cases
    case 1
    obtain h2 where "release_node y h1 = Inr h2" "heap_ok h2 E V"
      using release_node_spec [OF 1(3) assms(2)] by metis
    then show ?thesis using that 1 same_rest_trans [OF same release_same] by (auto simp: shrunk_def)
  next
    case 2
    have "y \<notin> E \<union> set (addrs t)" using assms(2) 2(9) by auto
    then obtain h2 where h2: "release_node y h1 = Inr h2" "heap_ok h2 (E \<union> set (addrs t)) V"
        "keeps (E \<union> set (addrs t)) V h1 h2"
      using release_node_spec [OF 2(10)] by metis
    have N: "nodes h2 a = nodes h1 a" if "a \<in> set (addrs t)" for a using that h2(3) by (simp add: keeps_def)
    have "repr (nodes h2) (order h) NULL t = repr (nodes h1) (order h) NULL t" by (rule repr_cong) (rule N)
    moreover have "chain (nodes h2) (order h) (leaf_addrs t) = chain (nodes h1) (order h) (leaf_addrs t)"
      by (rule chain_cong) (use N leaf_addrs_subset [of t] in \<open>auto simp: link_def\<close>)
    moreover have "same_rest h h2" by (rule same_rest_trans [OF same release_same [OF h2(1)]])
    ultimately have "shrunk h E V cont n root h2"
      unfolding shrunk_def
      by (intro conjI disjI2 exI [of _ t] exI [of _ n']) (use 2 h2(2) in auto)
    then show ?thesis using that h2(1) by blast
  qed
qed

lemma shrunk_same: "same_rest h h1 \<Longrightarrow> shrunk h1 E V cont n root h2 \<Longrightarrow> shrunk h E V cont n root h2"
  unfolding shrunk_def using same_rest_order [of h h1] same_rest_trans [of h h1 h2] by simp

lemma coalesce_shrunk:
  assumes st: "pair_state h E V n c p ksL tsL A k B ksR tsR"
    and b: "nkeys A + nkeys B < capacity_at (order h) n" "min_keys_at (order h) n \<le> Suc (nkeys A + nkeys B)"
      "n = 0 \<Longrightarrow> min_keys_at (order h) n \<le> nkeys A + nkeys B"
    and root: "root = root_addr (plug c (Nd p (ksL @ k # ksR) (tsL @ A # B # tsR)))"
    and swap: "(if ni = - 1 then (nbr, u) else (u, nbr)) = (root_addr B, root_addr A)"
    and IH: "\<And>h2 M. same_rest h h2 \<Longrightarrow> reb_state h2 (Set.insert (root_addr B) E) V (hole_min (order h2) (Suc n) c - 1) (Suc n) c
         (Nd p (ksL @ ksR) (tsL @ M # tsR)) \<Longrightarrow>
       \<exists>root' h'. rebalance f root p h2 = Inr (root', h') \<and>
         shrunk h2 (Set.insert (root_addr B) E) V (lcont c @ contents (Nd p (ksL @ ksR) (tsL @ M # tsR)) @ rcont c)
           (Suc n + length c) root' h'"
  shows "\<exists>root' h'. coalesce_nodes (Suc f) root u nbr ni k h = Inr (root', h') \<and>
    shrunk h E V (lcont c @ contents (Nd p (ksL @ k # ksR) (tsL @ A # B # tsR)) @ rcont c) (Suc n + length c) root' h'"
proof -
  obtain h1 h2 M nb where m: "merge_nodes (root_addr B) (root_addr A) k h = Inr h1" "nodes h1 (root_addr B) = Some nb"
    "parent nb = p" "remove_entry_from_node p k (root_addr B) h1 = Inr h2" "same_rest h h2"
    "contents M = contents A @ contents B"
    "reb_state h2 (Set.insert (root_addr B) E) V (hole_min (order h) (Suc n) c - 1) (Suc n) c
       (Nd p (ksL @ ksR) (tsL @ M # tsR))"
    by (rule pair_merge [OF st b])
  have "order h2 = order h" using m(5) by (rule same_rest_order)
  then obtain root' h3 where r: "rebalance f root p h2 = Inr (root', h3)"
      "shrunk h2 (Set.insert (root_addr B) E) V (lcont c @ contents (Nd p (ksL @ ksR) (tsL @ M # tsR)) @ rcont c)
           (Suc n + length c) root' h3"
    using IH [OF m(5), of M] m(7) by auto
  have "root_addr B \<notin> E" using st root_in_addrs [of B] by (auto simp: pair_state_def)
  then obtain h4 where h4: "release_node (root_addr B) h3 = Inr h4"
      "shrunk h2 E V (lcont c @ contents (Nd p (ksL @ ksR) (tsL @ M # tsR)) @ rcont c) (Suc n + length c) root' h4"
    using shrunk_release [OF r(2)] by metis
  have "coalesce_nodes (Suc f) root u nbr ni k h = Inr (root', h4)"
    using m(1-4) r(1) h4(1) swap by (simp add: coalesce_nodes.simps)
  moreover have "shrunk h E V (lcont c @ contents (Nd p (ksL @ k # ksR) (tsL @ A # B # tsR)) @ rcont c) (Suc n + length c) root' h4"
    using shrunk_same [OF m(5) h4(2)] m(6) by simp
  ultimately show ?thesis by blast
qed

section \<open>The repair\<close>

lemma hole_node:
  assumes "reb_state h E V lo n c u"
  obtains nd where "nodes h (root_addr u) = Some nd" "num_keys nd = nkeys u" "is_leaf nd = (n = 0)"
    "parent nd = hole_parent c"
proof -
  have "repr (nodes h) (order h) (hole_parent c) u" "tshape (order h) lo n u" using assms by (simp_all add: reb_state_def)
  then show thesis using that
    by (cases u; cases n) (auto elim!: node_atE simp: node_ok_def)
qed

lemma sibling_node:
  assumes "repr (nodes h) m p x" and "tshape m lo n x"
  obtains nb where "nodes h (root_addr x) = Some nb" "num_keys nb = nkeys x"
  using assms by (cases x) (auto elim!: node_atE simp: node_ok_def)

lemma redistribute_shrunk:
  assumes "reb_state h' E V (hole_min (order h) (Suc n) c) (Suc n) c (Nd p (ksL @ k' # ksR) (tsL @ A' # B' # tsR))"
    and "same_rest h h'" and "contents A' @ contents B' = contents A @ contents B"
    and "root = root_addr (plug c (Nd p (ksL @ k # ksR) (tsL @ A # B # tsR)))"
  shows "shrunk h E V (lcont c @ contents (Nd p (ksL @ k # ksR) (tsL @ A # B # tsR)) @ rcont c) (Suc n + length c) root h'"
proof (rule shrunk_plug [OF assms(1,2)])
  show "lcont c @ contents (Nd p (ksL @ k # ksR) (tsL @ A # B # tsR)) @ rcont c =
      lcont c @ contents (Nd p (ksL @ k' # ksR) (tsL @ A' # B' # tsR)) @ rcont c"
    using assms(3) by (simp add: append_assoc [symmetric] del: append_assoc)
  show "root = root_addr (plug c (Nd p (ksL @ k' # ksR) (tsL @ A' # B' # tsR)))"
    unfolding assms(4) by (rule root_plug) simp
qed simp

lemma neighbor_word:
  assumes "i < 2 ^ 64 - 1"
  shows "(of_nat (Suc i) - 1 :: u64) = of_nat i" "(of_nat i :: u64) \<noteq> - 1" "unat (of_nat i :: u64) = i"
proof -
  show "(of_nat (Suc i) - 1 :: u64) = of_nat i" by simp
  show u: "unat (of_nat i :: u64) = i" using assms by (simp add: unat_of_nat)
  have "unat (- 1 :: u64) = 2 ^ 64 - 1" by (simp add: unsigned_minus_1_eq_mask mask_eq_exp_minus_1)
  then show "(of_nat i :: u64) \<noteq> - 1" using u assms by (metis less_irrefl)
qed

text \<open>The state of the repair of a node below the root that lacks a key.\<close>

lemma rebalance_with_left:
  assumes st: "reb_state h E V (min_keys_at (order h) n - 1) n (Fr p (ksL @ [k]) (tsL @ [x]) ksR tsR # c) u"
    and few: "nkeys u < min_keys_at (order h) n" and ne: "root_addr u \<noteq> root" and o: "order h < 2 ^ 64"
    and root: "root = root_addr (plug c (Nd p (ksL @ k # ksR) (tsL @ x # u # tsR)))"
    and IH: "\<And>h2 M. same_rest h h2 \<Longrightarrow> reb_state h2 (Set.insert (root_addr u) E) V (hole_min (order h2) (Suc n) c - 1) (Suc n) c
         (Nd p (ksL @ ksR) (tsL @ M # tsR)) \<Longrightarrow>
       \<exists>root' h'. rebalance f root p h2 = Inr (root', h') \<and>
         shrunk h2 (Set.insert (root_addr u) E) V (lcont c @ contents (Nd p (ksL @ ksR) (tsL @ M # tsR)) @ rcont c)
           (Suc n + length c) root' h'"
  shows "\<exists>root' h'. rebalance (Suc f) root (root_addr u) h = Inr (root', h') \<and>
    shrunk h E V (lcont c @ contents (Nd p (ksL @ k # ksR) (tsL @ x # u # tsR)) @ rcont c) (Suc n + length c) root' h'"
proof -
  let ?m = "order h" and ?i = "length ksL"
  note ps = pair_with_left [OF st]
  note f = pair_facts [OF ps]
  obtain nd where nd: "nodes h (root_addr u) = Some nd" "num_keys nd = nkeys u" "is_leaf nd = (n = 0)" "parent nd = p"
    using hole_node [OF st] by auto
  have l: "length tsL = length ksL" "length tsR = length ksR" and m: "3 \<le> ?m" and shx: "tshape ?m (min_keys_at ?m n) n x"
    and le: "Suc (length ksL + length ksR) \<le> ?m - 1"
    using ps st by (simp_all add: pair_state_def reb_state_def)
  obtain pn where pn: "nodes h p = Some pn" "node_ok ?m (hole_parent c) False (ksL @ k # ksR)
       (map root_addr tsL @ root_addr x # root_addr u # map root_addr tsR) pn"
    using f(3) by (rule node_atE)
  note d = node_okD [OF pn(2)]
  obtain nb where nb: "nodes h (root_addr x) = Some nb" "num_keys nb = nkeys x" by (rule sibling_node [OF f(5) shx])
  have i: "?i < 2 ^ 64 - 1" "?i < length (keys pn)" "?i < length (pointers pn)" using le o d(4,5) by linarith+
  have "take (length (map root_addr tsL @ root_addr x # root_addr u # map root_addr tsR)) (pointers pn)
      = (map root_addr tsL @ [root_addr x]) @ root_addr u # map root_addr tsR" using d(7) by simp
  moreover have "\<forall>a \<in> set (map root_addr tsL @ [root_addr x]). a \<noteq> root_addr u" using f(8) by metis
  ultimately have "scan (\<lambda>a. a \<noteq> root_addr u) (pointers pn) (num_keys pn + 1) 0 = Inr (length (map root_addr tsL @ [root_addr x]))"
    by (intro scan_split [where bs = "root_addr u # map root_addr tsR"]) (use d(3,5,9) l in auto)
  then have ni: "get_neighbor_index (root_addr u) h = Inr (of_nat ?i)"
    using nd(1,4) pn(1) d(3) l by (simp add: get_neighbor_index_def)
  have at: "keys pn ! ?i = k" "pointers pn ! ?i = root_addr x"
  proof -
    have "take (length (ksL @ k # ksR)) (keys pn) ! ?i = k"
        "take (length (map root_addr tsL @ root_addr x # root_addr u # map root_addr tsR)) (pointers pn) ! ?i = root_addr x"
      unfolding d(6,7) using l by (simp_all add: nth_append)
    then show "keys pn ! ?i = k" "pointers pn ! ?i = root_addr x" using l by simp_all
  qed
  have mk: "(if n = 0 then cut (?m - 1) else cut ?m - 1) = min_keys_at ?m n" "(if n = 0 then ?m else ?m - 1) = capacity_at ?m n"
    by (simp_all add: min_keys_at_def capacity_at_def)
  note w = neighbor_word [OF i(1)]
  have step: "rebalance (Suc f) root (root_addr u) h = (if nkeys x + nkeys u < capacity_at ?m n
      then coalesce_nodes (Suc f) root (root_addr u) (root_addr x) (of_nat ?i) k h
      else redistribute_nodes root (root_addr u) (root_addr x) (of_nat ?i) ?i k h)"
    using ne few
    by (subst rebalance.simps) (simp only: if_False get_node_Some [OF nd(1)] bindE.simps Let_def mk nd(2,3,4) ni
        w(2,3) get_node_Some [OF pn(1)] arr_get_in [OF i(2)] arr_get_in [OF i(3)] at get_node_Some [OF nb(1)] nb(2)
        linorder_not_less [symmetric] not_True_eq_False)
  show ?thesis
  proof (cases "nkeys x + nkeys u < capacity_at ?m n")
    case True
    have "min_keys_at ?m n \<le> nkeys x" using tshape_nkeys [OF shx] by simp
    then have sx: "min_keys_at ?m n \<le> Suc (nkeys x + nkeys u)" "n = 0 \<Longrightarrow> min_keys_at ?m n \<le> nkeys x + nkeys u" by simp_all
    have sw: "(if (of_nat ?i :: u64) = - 1 then (root_addr x, root_addr u) else (root_addr u, root_addr x)) = (root_addr u, root_addr x)"
      using w(2) by simp
    show ?thesis unfolding step using True coalesce_shrunk [OF ps True sx root sw IH] by simp
  next
    case False
    then obtain h' A' B' k' where r: "redistribute_left (root_addr u) (root_addr x) ?i k h = Inr h'" "same_rest h h'"
        "contents A' @ contents B' = contents x @ contents u"
        "reb_state h' E V (hole_min ?m (Suc n) c) (Suc n) c (Nd p (ksL @ k' # ksR) (tsL @ A' # B' # tsR))"
      using pair_move_right [OF ps _ few] by (metis not_le)
    then have "redistribute_nodes root (root_addr u) (root_addr x) (of_nat ?i) ?i k h = Inr (root, h')"
      using w(2) by (simp add: redistribute_nodes_def)
    then show ?thesis unfolding step using False redistribute_shrunk [OF r(4,2,3) root] by simp
  qed
qed

lemma rebalance_with_right:
  assumes st: "reb_state h E V (min_keys_at (order h) n - 1) n (Fr p [] [] (k # ksR) (x # tsR) # c) u"
    and few: "nkeys u < min_keys_at (order h) n" and ne: "root_addr u \<noteq> root"
    and root: "root = root_addr (plug c (Nd p ([] @ k # ksR) ([] @ u # x # tsR)))"
    and IH: "\<And>h2 M. same_rest h h2 \<Longrightarrow> reb_state h2 (Set.insert (root_addr x) E) V (hole_min (order h2) (Suc n) c - 1) (Suc n) c
         (Nd p ([] @ ksR) ([] @ M # tsR)) \<Longrightarrow>
       \<exists>root' h'. rebalance f root p h2 = Inr (root', h') \<and>
         shrunk h2 (Set.insert (root_addr x) E) V (lcont c @ contents (Nd p ([] @ ksR) ([] @ M # tsR)) @ rcont c)
           (Suc n + length c) root' h'"
  shows "\<exists>root' h'. rebalance (Suc f) root (root_addr u) h = Inr (root', h') \<and>
    shrunk h E V (lcont c @ contents (Nd p ([] @ k # ksR) ([] @ u # x # tsR)) @ rcont c) (Suc n + length c) root' h'"
proof -
  let ?m = "order h"
  note ps = pair_with_right [OF st]
  note f = pair_facts [OF ps]
  obtain nd where nd: "nodes h (root_addr u) = Some nd" "num_keys nd = nkeys u" "is_leaf nd = (n = 0)" "parent nd = p"
    using hole_node [OF st] by auto
  have l: "length tsR = length ksR" and shx: "tshape ?m (min_keys_at ?m n) n x"
    using ps st by (simp_all add: pair_state_def reb_state_def)
  obtain pn where pn: "nodes h p = Some pn" "node_ok ?m (hole_parent c) False (k # ksR)
       (root_addr u # root_addr x # map root_addr tsR) pn"
    using f(3) by (auto elim: node_atE)
  note d = node_okD [OF pn(2)]
  obtain nb where nb: "nodes h (root_addr x) = Some nb" "num_keys nb = nkeys x" by (rule sibling_node [OF f(6) shx])
  have i: "0 < length (keys pn)" "1 < length (pointers pn)" using d(4,5,8,9) by auto
  have "scan (\<lambda>a. a \<noteq> root_addr u) (pointers pn) (num_keys pn + 1) 0 = Inr (length ([] :: addr list))"
    by (rule scan_split [where bs = "root_addr u # root_addr x # map root_addr tsR"]) (use d(3,5,7,9) l in auto)
  then have ni: "get_neighbor_index (root_addr u) h = Inr (- 1)"
    using nd(1,4) pn(1) by (simp add: get_neighbor_index_def)
  have at: "keys pn ! 0 = k" "pointers pn ! 1 = root_addr x"
  proof -
    have "take (length (k # ksR)) (keys pn) ! 0 = k"
        "take (length (root_addr u # root_addr x # map root_addr tsR)) (pointers pn) ! 1 = root_addr x"
      unfolding d(6,7) by simp_all
    then show "keys pn ! 0 = k" "pointers pn ! 1 = root_addr x" by simp_all
  qed
  have mk: "(if n = 0 then cut (?m - 1) else cut ?m - 1) = min_keys_at ?m n" "(if n = 0 then ?m else ?m - 1) = capacity_at ?m n"
    by (simp_all add: min_keys_at_def capacity_at_def)
  have step: "rebalance (Suc f) root (root_addr u) h = (if nkeys x + nkeys u < capacity_at ?m n
      then coalesce_nodes (Suc f) root (root_addr u) (root_addr x) (- 1) k h
      else redistribute_nodes root (root_addr u) (root_addr x) (- 1) 0 k h)"
    using ne few
    by (subst rebalance.simps) (simp only: simp_thms if_False if_True get_node_Some [OF nd(1)] bindE.simps Let_def mk nd(2,3,4) ni
        get_node_Some [OF pn(1)] arr_get_in [OF i(1)] arr_get_in [OF i(2)] at get_node_Some [OF nb(1)] nb(2)
        linorder_not_less [symmetric] not_True_eq_False)
  show ?thesis
  proof (cases "nkeys x + nkeys u < capacity_at ?m n")
    case True
    then have T: "nkeys u + nkeys x < capacity_at ?m n" by simp
    have "min_keys_at ?m n \<le> nkeys x" using tshape_nkeys [OF shx] by simp
    then have sx: "min_keys_at ?m n \<le> Suc (nkeys u + nkeys x)" "n = 0 \<Longrightarrow> min_keys_at ?m n \<le> nkeys u + nkeys x" by simp_all
    have sw: "(if (- 1 :: u64) = - 1 then (root_addr x, root_addr u) else (root_addr u, root_addr x)) = (root_addr x, root_addr u)"
      by simp
    show ?thesis unfolding step using True coalesce_shrunk [OF ps T sx root sw IH] by simp
  next
    case False
    then have F: "capacity_at ?m n \<le> nkeys u + nkeys x" by simp
    obtain h' A' B' k' where r: "redistribute_right (root_addr u) (root_addr x) (length ([] :: u64 list)) k h = Inr h'"
        "same_rest h h'" "contents A' @ contents B' = contents u @ contents x"
        "reb_state h' E V (hole_min ?m (Suc n) c) (Suc n) c (Nd p ([] @ k' # ksR) ([] @ A' # B' # tsR))"
      by (rule pair_move_left [OF ps F few])
    then have "redistribute_nodes root (root_addr u) (root_addr x) (- 1) 0 k h = Inr (root, h')"
      by (simp add: redistribute_nodes_def)
    then show ?thesis unfolding step using False redistribute_shrunk [OF r(4,2,3) root] by simp
  qed
qed

lemma rebalance_shrunk:
  assumes "reb_state h E V (hole_min (order h) n c - 1) n c u" and "length c \<le> fuel"
    and "root = root_addr (plug c u)" and "order h < 2 ^ 64"
  shows "\<exists>root' h'. rebalance fuel root (root_addr u) h = Inr (root', h') \<and>
    shrunk h E V (lcont c @ contents u @ rcont c) (n + length c) root' h'"
  using assms
proof (induction c arbitrary: n u h E fuel)
  case Nil
  then have "rebalance fuel root (root_addr u) h = adjust_root (root_addr u) h" by (simp add: rebalance.simps)
  then show ?case using adjust_root_shrunk Nil.prems(1) by simp
next
  case (Cons fr c)
  let ?m = "order h"
  obtain p ksL tsL ksR tsR where fr: "fr = Fr p ksL tsL ksR tsR" by (cases fr)
  note st = Cons.prems(1) [unfolded fr hole_min_simps]
  have sh: "cshape ?m n (Fr p ksL tsL ksR tsR # c)" "tshape ?m (min_keys_at ?m n - 1) n u"
    and dis: "distinct (caddrs (Fr p ksL tsL ksR tsR # c) @ addrs u)"
    using st by (simp_all add: reb_state_def)
  have ne: "root_addr u \<noteq> root"
    using root_in_context [of "fr # c" u] Cons.prems(3) dis root_in_addrs [of u] by (auto simp: fr)
  obtain f where fuel: "fuel = Suc f" "length c \<le> f" using Cons.prems(2) by (cases fuel) auto
  have IH: "\<exists>root' h'. rebalance f root p h2 = Inr (root', h') \<and>
      shrunk h2 E' V (lcont c @ contents (Nd p ks ts) @ rcont c) (Suc n + length c) root' h'"
    if "same_rest h h2" "reb_state h2 E' V (hole_min (order h2) (Suc n) c - 1) (Suc n) c (Nd p ks ts)" for h2 E' ks ts
  proof -
    have "root = root_addr (plug c (Nd p ks ts))"
      using Cons.prems(3) root_plug [of "Nd p (ksL @ ksR) (tsL @ u # tsR)" "Nd p ks ts" c] by (simp add: fr)
    then show ?thesis
      using Cons.IH [OF that(2) fuel(2)] Cons.prems(4) same_rest_order [OF that(1)] by simp
  qed
  show ?case
  proof (cases "min_keys_at ?m n \<le> nkeys u")
    case True
    obtain nd where nd: "nodes h (root_addr u) = Some nd" "num_keys nd = nkeys u" "is_leaf nd = (n = 0)"
      using hole_node [OF st] by metis
    then have "rebalance fuel root (root_addr u) h = Inr (root, h)"
      using ne True by (subst rebalance.simps) (auto simp: min_keys_at_def Let_def)
    moreover have "reb_state h E V (hole_min ?m n (fr # c)) n (fr # c) u"
      using st tshape_lo [OF sh(2) True] by (simp add: reb_state_def fr)
    then have "shrunk h E V (lcont (fr # c) @ contents u @ rcont (fr # c)) (n + length (fr # c)) root h"
      by (rule shrunk_plug) (simp_all add: Cons.prems(3))
    ultimately show ?thesis by blast
  next
    case few: False
    show ?thesis
    proof (cases tsL rule: rev_cases)
      case Nil
      then have L: "tsL = []" "ksL = []" using sh(1) by simp_all
      have "1 \<le> hole_min ?m (Suc n) c" using min_keys_pos [of ?m "Suc n"] st by (simp add: hole_min_def reb_state_def)
      then obtain k ksR' where k: "ksR = k # ksR'" using sh(1) L by (cases ksR) auto
      then obtain x tsR' where x: "tsR = x # tsR'" using sh(1) L by (cases tsR) auto
      have "root = root_addr (plug c (Nd p ([] @ k # ksR') ([] @ u # x # tsR')))"
        using Cons.prems(3) by (simp add: fr L k x)
      then show ?thesis
        using rebalance_with_right [OF st [unfolded L k x] _ ne _ IH] few by (simp add: fuel(1) fr L k x)
    next
      case (snoc tsL' x)
      then obtain ksL' k where k: "ksL = ksL' @ [k]" using sh(1) by (cases ksL rule: rev_cases) auto
      have "root = root_addr (plug c (Nd p (ksL' @ k # ksR) (tsL' @ x # u # tsR)))"
        using Cons.prems(3) by (simp add: fr snoc k)
      then show ?thesis
        using rebalance_with_left [OF st [unfolded snoc k] _ ne Cons.prems(4) _ IH] few by (simp add: fuel(1) fr snoc k)
    qed
  qed
qed

section \<open>Deleting a key\<close>

lemma remove_at_leaf:
  assumes inv: "bpt h n t" and z: "leads_to (order h) k t c p (esL @ (k, r) # esR)"
  obtains h1 where "remove_entry_from_node p k r h = Inr h1" "same_rest h h1"
    "reb_state h1 {} (snd ` set (contents t)) (hole_min (order h1) 0 c - 1) 0 c (Lf p (esL @ esR))"
proof -
  let ?m = "order h" and ?V = "snd ` set (contents t)" and ?es = "esL @ (k, r) # esR"
  have t: "t = plug c (Lf p ?es)" and cs: "cshape ?m 0 c" and ts: "tshape ?m (hole_min ?m 0 c) 0 (Lf p ?es)"
    using z by (auto simp: leads_to_def)
  have rep: "repr (nodes h) ?m NULL t" and srt: "sorted_wrt (<) (keyseq t)" and m: "3 \<le> ?m"
    and dr: "distinct (map snd (contents t))" and ok: "heap_ok h (set (addrs t)) ?V"
    using inv by (simp_all add: bpt_def)
  have dis: "distinct (caddrs c @ [p])" and at: "set (addrs t) = Set.insert p (set (caddrs c))"
    and ch: "chain (nodes h) ?m (lleaf c @ p # rleaf c)"
    using inv addrs_plug_distinct [of c "Lf p ?es"] by (auto simp: t bpt_def addrs_plug_set leaf_addrs_plug)
  note es = leads_to_sorted [OF srt z]
  obtain nd where nd: "nodes h p = Some nd" "p \<noteq> NULL" "node_ok ?m (hole_parent c) True (map fst ?es) (map snd ?es) nd"
      "crepr (nodes h) ?m c p"
    by (rule leads_to_leaf [OF rep z])
  have k: "k \<notin> fst ` set esL" using es(1) by (auto simp: sorted_wrt_append)
  have r: "r \<notin> snd ` set esL" using dr by (auto simp: t contents_plug)
  obtain nd' where nd': "remove_entry_from_node p k r h = Inr (put_node p nd' h)"
      "node_ok ?m (hole_parent c) True (map fst (esL @ esR)) (map snd (esL @ esR)) nd'"
      "pointers nd' ! (?m - 1) = pointers nd ! (?m - 1)"
    by (rule remove_leaf_entry [OF nd(1,3) k r])
  let ?h = "put_node p nd' h"
  have "crepr (nodes ?h) ?m c p = crepr (nodes h) ?m c p" by (rule crepr_cong) (use dis in auto)
  moreover have "chain (nodes ?h) ?m (lleaf c @ p # rleaf c) = chain (nodes h) ?m (lleaf c @ p # rleaf c)"
    by (rule chain_cong) (use nd(1) nd'(3) in \<open>auto simp: link_def\<close>)
  moreover have "heap_ok ?h (set (addrs t)) ?V" by (rule heap_ok_put [OF ok]) (simp add: at)
  moreover have "sorted_wrt (<) (lseq c @ keyseq (Lf p (esL @ esR)) @ rseq c)"
    using es(2) by (auto simp: sorted_wrt_append)
  moreover have "tshape ?m (hole_min ?m 0 c - 1) 0 (Lf p (esL @ esR))" using ts by auto
  ultimately have "reb_state ?h {} ?V (hole_min (order ?h) 0 c - 1) 0 c (Lf p (esL @ esR))"
    using cs dis ch nd(2,4) nd'(2) m by (simp add: reb_state_def node_at_def at insert_commute)
  then show thesis using that nd'(1) by simp
qed

lemma free_record_spec:
  assumes ok: "heap_ok h U (Set.insert r V)" and r: "r \<notin> V" and room: "room h 0"
  obtains h' where "free_record r h = Inr h'" "heap_ok h' U V" "nodes h' = nodes h" "brk h' = brk h"
    "limit h' = limit h" "order h' = order h" "\<And>x. x \<noteq> r \<Longrightarrow> recs h' x = recs h x"
proof -
  obtain F where F: "flist (nodes h) (free_nodes h) F" "distinct F" "set F \<inter> U = {}"
    using ok by (auto simp: heap_ok_def)
  obtain G where G: "rlist (recs h) (free_recs h) G" "distinct G" "set G \<inter> Set.insert r V = {}"
    using ok by (auto simp: heap_ok_def)
  have dom: "\<forall>a \<in> dom (nodes h) \<union> dom (recs h). a < brk h" and b: "brk h \<le> limit h" "limit h \<le> 2 ^ 64" "0 < brk h"
    using ok room by (auto simp: heap_ok_def room_def)
  obtain rc where rc: "recs h r = Some rc" "r \<noteq> NULL" using ok by (auto simp: heap_ok_def)
  have "free_recs h = NULL \<or> free_recs h \<in> dom (recs h)" using G(1) rlist_dom [OF G(1)] by (cases G) auto
  then have "free_recs h < brk h" using dom b(3) by (metis UnI2)
  then have "free_recs h < 2 ^ 64" using b by linarith
  then have u: "unat (of_nat (free_recs h) :: u64) = free_recs h" by (simp add: unat_of_nat take_bit_eq_mod)
  let ?h = "(put_rec r (rc\<lparr>cell := of_nat (free_recs h)\<rparr>) h)\<lparr>free_recs := r\<rparr>"
  have rG: "r \<notin> set G" using G(3) by simp
  then have "rlist (recs ?h) (free_recs ?h) (r # G)" using G(1) u rc by simp
  moreover have "distinct (r # G)" "set (r # G) \<inter> V = {}" using G(2,3) r rG by auto
  ultimately have "\<exists>G. rlist (recs ?h) (free_recs ?h) G \<and> distinct G \<and> set G \<inter> V = {}" by blast
  moreover have "\<exists>F. flist (nodes ?h) (free_nodes ?h) F \<and> distinct F \<and> set F \<inter> U = {}"
    using F by auto
  ultimately have "heap_ok ?h U V" using ok rc(1) unfolding heap_ok_def by auto
  moreover have "free_record r h = Inr ?h" using rc(1) by (simp add: free_record_def)
  ultimately show thesis using that by simp
qed

lemma shrunk_freed:
  assumes sh: "shrunk h {} (Set.insert r V) cont n root h1" and rV: "r \<notin> V" and V: "V = snd ` set cont"
    and d: "distinct (map snd cont)" and m: "3 \<le> order h" and room: "room h 0"
    and M: "\<And>x. M x = (case map_of cont x of None \<Rightarrow> None | Some q \<Rightarrow> map_option cell (recs h q))"
  obtains h' n' where "free_record r h1 = Inr h'" "bpt_map h' root n' M" "n' \<le> n" "brk h' = brk h"
    "limit h' = limit h" "order h' = order h"
proof -
  have s: "recs h1 = recs h" "brk h1 = brk h" "limit h1 = limit h" "order h1 = order h"
    using sh by (simp_all add: shrunk_def same_rest_def)
  have room1: "room h1 0" using room s by (simp add: room_def)
  consider "root = NULL" "cont = []" "heap_ok h1 {} (Set.insert r V)"
    | t n' where "root = root_addr t" "n' \<le> n" "tshape (order h) 1 n' t" "contents t = cont"
         "repr (nodes h1) (order h) NULL t" "sorted_wrt (<) (keyseq t)" "distinct (addrs t)"
         "chain (nodes h1) (order h) (leaf_addrs t)" "heap_ok h1 (set (addrs t)) (Set.insert r V)"
    using sh by (auto simp: shrunk_def)
  then show thesis
  proof cases
    case 1
    obtain h' where h': "free_record r h1 = Inr h'" "heap_ok h' {} V" "brk h' = brk h1" "limit h' = limit h1"
        "order h' = order h1"
      by (rule free_record_spec [OF 1(3) rV room1])
    have "M = Map.empty" using M 1(2) by (simp add: fun_eq_iff)
    then have "bpt_map h' root 0 M" using 1 h' V m s by (simp add: bpt_map_def)
    then show ?thesis using that h' s by simp
  next
    case 2
    obtain h' where h': "free_record r h1 = Inr h'" "heap_ok h' (set (addrs t)) V" "nodes h' = nodes h1"
        "brk h' = brk h1" "limit h' = limit h1" "order h' = order h1" "\<And>x. x \<noteq> r \<Longrightarrow> recs h' x = recs h1 x"
      using free_record_spec [OF 2(9) rV room1] by metis
    have "recs h' q = recs h q" if "map_of cont x = Some q" for x q
    proof -
      have "q \<in> V" using map_of_SomeD [OF that] V by force
      then show ?thesis using h'(7) rV s(1) by metis
    qed
    then have "M = amap h' t" using M 2(4) by (auto simp: fun_eq_iff amap_def split: option.splits)
    moreover have "bpt h' n' t" using 2 h' V d m s by (simp add: bpt_def)
    ultimately have "bpt_map h' root n' M" using 2(1) by (auto simp: bpt_map_def)
    then show ?thesis using that h' s 2(2) by simp
  qed
qed

lemma map_of_remove:
  assumes "k \<notin> fst ` set (as @ bs)"
  shows "map_of (as @ bs) = (map_of (as @ (k, r) # bs))(k := None)"
proof
  fix x
  have "map_of as k = None" "map_of bs k = None" using assms by (auto simp: map_of_eq_None_iff)
  then show "map_of (as @ bs) x = ((map_of (as @ (k, r) # bs))(k := None)) x"
    by (cases "x = k") (simp_all add: map_add_def split: option.split)
qed

lemma delete_map:
  assumes inv: "bpt_map h root n M" and fuel: "n < fuel" and m: "order h < 2 ^ 64" and room: "room h 0"
  obtains root' h' n' where "delete fuel root k h = Inr (root', h')" "bpt_map h' root' n' (M(k := None))"
    "n' \<le> n" "brk h' = brk h" "limit h' = limit h" "order h' = order h"
proof -
  consider "root = NULL" "M = Map.empty" | t where "root = root_addr t" "bpt h n t" "M = amap h t"
    using inv by (auto simp: bpt_map_def)
  then show thesis
  proof cases
    case 1
    then have "delete fuel root k h = Inr (root, h)" by (simp add: delete_def find_bpt_def)
    then show ?thesis using that inv 1 by simp
  next
    case t: 2
    obtain p' where fb: "find_bpt fuel root k h = Inr (case map_of (contents t) k of None \<Rightarrow> NULL | Some r \<Rightarrow> r, p')"
        "find_leaf fuel root k h = Inr p'"
      using find_bpt_spec [OF t(2) fuel, of k] t(1) by metis
    show ?thesis
    proof (cases "map_of (contents t) k")
      case None
      then have "delete fuel root k h = Inr (root, h)" using fb by (simp add: delete_def)
      moreover have "M(k := None) = M" using None t(3) by (auto simp: amap_def fun_eq_iff)
      ultimately show ?thesis using that inv by simp
    next
      case (Some r)
      obtain c p es where z: "leads_to (order h) k t c p es" "length c = n" "find_leaf fuel root k h = Inr p"
        using find_leaf_leads [OF t(2) fuel, of k] t(1) by metis
      have "(k, r) \<in> set es" using Some leads_to_map_of [OF z(1)] by (simp add: map_of_SomeD)
      then obtain esL esR where es: "es = esL @ (k, r) # esR" by (meson split_list)
      let ?V = "snd ` set (contents t)"
      obtain h1 where h1: "remove_entry_from_node p k r h = Inr h1" "same_rest h h1"
          "reb_state h1 {} ?V (hole_min (order h1) 0 c - 1) 0 c (Lf p (esL @ esR))"
        by (rule remove_at_leaf [OF t(2) z(1) [unfolded es]])
      have tc: "contents t = lcont c @ es @ rcont c" "t = plug c (Lf p es)"
        using z(1) by (simp_all add: leads_to_def contents_plug)
      let ?cont = "(lcont c @ esL) @ (esR @ rcont c)"
      obtain f where f: "fuel = Suc f" "length c \<le> f" using fuel z(2) by (cases fuel) auto
      have o1: "order h1 = order h" by (rule same_rest_order [OF h1(2)])
      have "root = root_addr (plug c (Lf p (esL @ esR)))"
        using t(1) tc(2) root_plug [of "Lf p es" "Lf p (esL @ esR)" c] by simp
      from rebalance_shrunk [OF h1(3) f(2) this]
      obtain root' h2 where h2: "rebalance f root p h1 = Inr (root', h2)" "shrunk h1 {} ?V ?cont n root' h2"
        using m o1 z(2) by auto
      have dr: "distinct (map snd (contents t))" using t(2) by (simp add: bpt_def)
      then have rV: "r \<notin> snd ` set ?cont" and dc: "distinct (map snd ?cont)" by (auto simp: tc(1) es)
      have V: "?V = Set.insert r (snd ` set ?cont)" by (auto simp: tc(1) es)
      have srt: "sorted_wrt (<) (map fst es)" using leads_to_sorted(1) [OF _ z(1)] t(2) by (simp add: bpt_def)
      have kL: "k \<notin> fst ` set ?cont"
        using srt lcont_lseq [of "order h" 0 c] rcont_rseq [of "order h" 0 c] z(1)
        by (fastforce simp: es sorted_wrt_append leads_to_def)
      have mo: "map_of ?cont = (map_of (contents t))(k := None)"
        using map_of_remove [OF kL, of r] by (simp add: tc(1) es)
      have M: "(M(k := None)) x = (case map_of ?cont x of None \<Rightarrow> None | Some q \<Rightarrow> map_option cell (recs h1 q))" for x
        unfolding mo using h1(2) t(3) by (simp add: amap_def same_rest_def split: option.split)
      have "3 \<le> order h1" "room h1 0" using h1(2) room t(2) by (simp_all add: same_rest_def bpt_def room_def)
      then obtain h' n' where h': "free_record r h2 = Inr h'" "bpt_map h' root' n' (M(k := None))" "n' \<le> n"
          "brk h' = brk h1" "limit h' = limit h1" "order h' = order h1"
        using shrunk_freed [OF h2(2) [unfolded V] rV refl dc _ _ M] by metis
      have "p \<noteq> NULL" "r \<noteq> NULL" using h1(3) contents_rec(1) [OF t(2) Some] by (auto simp: reb_state_def elim: node_atE)
      then have "delete fuel root k h = Inr (root', h')"
        using fb z(3) Some h1(1) h2(1) h'(1) by (simp add: delete_def f(1))
      then show ?thesis using that h' h1(2) by (simp add: same_rest_def)
    qed
  qed
qed

end
