(* ===== verification/Bpt_Store.thy ===== *)
theory Bpt_Store
  imports Bpt_Delete_Map "HOL-Library.Sublist"
begin

text \<open>
  The B+ tree as a key-value store. A tree of height \<open>n\<close> has at least \<open>2 ^ n\<close>
  distinct 64-bit keys, so no tree is higher than 64 and the fuel 65 is enough for every
  descent and every repair. The interface of the store is the locale \<open>key_store\<close>; its
  interpretation on \<^verbatim>\<open>insert\<close>, \<^verbatim>\<open>find\<close> and \<^verbatim>\<open>delete\<close> carries the population
  loop of \<^verbatim>\<open>real_main\<close>.
\<close>

section \<open>The height of a tree\<close>

lemma tshape_contents:
  assumes "3 \<le> m" and "1 \<le> lo" and "tshape m lo n t"
  shows "2 ^ n \<le> length (contents t)"
  using assms(2,3)
proof (induction n arbitrary: lo t)
  case 0
  then show ?case by (cases t) auto
next
  case (Suc n)
  then obtain p ks ts where t: "t = Nd p ks ts" by (cases t) auto
  have "2 ^ n \<le> length (contents u)" if "u \<in> set ts" for u
    using Suc.IH [of "min_keys_at m n" u] min_keys_pos [OF assms(1), of n] Suc.prems that t by simp
  then have "length ts * 2 ^ n \<le> length (concat (map contents ts))"
    by (induction ts) fastforce+
  moreover have "2 \<le> length ts" using Suc.prems t by simp
  then have "2 * 2 ^ n \<le> length ts * (2 :: nat) ^ n" by (rule mult_le_mono1)
  ultimately have "2 * 2 ^ n \<le> length (concat (map contents ts))" by (rule order_trans [rotated])
  then show ?case by (simp add: t)
qed

lemma subseq_inter:
  assumes "length ts = Suc (length ks)" and "\<And>t. t \<in> set ts \<Longrightarrow> subseq (f t) (g t)"
  shows "subseq (concat (map f ts)) (inter (map g ts) ks)"
  using assms
proof (induction ks arbitrary: ts)
  case Nil
  then show ?case by (cases ts) auto
next
  case (Cons k ks)
  then obtain t us where ts: "ts = t # us" by (cases ts) auto
  have "subseq (concat (map f us)) (sep_code k # inter (map g us) ks)"
    using Cons.IH [of us] Cons.prems ts by auto
  then show ?case using Cons.prems(2) [of t] by (simp add: ts list_emb_append_mono)
qed

lemma subseq_contents:
  "tshape m lo n t \<Longrightarrow> subseq (map (\<lambda>e. key_code (fst e)) (contents t)) (keyseq t)"
proof (induction m lo n t rule: tshape.induct)
  case (2 m lo n p ks ts)
  then show ?case
    by (simp add: map_concat comp_def) (intro subseq_inter, auto)
qed auto

lemma sorted_wrt_subseq: "subseq xs ys \<Longrightarrow> sorted_wrt P ys \<Longrightarrow> sorted_wrt P xs"
  by (induction rule: list_emb.induct) (auto dest: list_emb_set)

lemma contents_sorted:
  assumes "bpt h n t"
  shows "sorted_wrt (<) (map fst (contents t))"
proof -
  have "sorted_wrt (<) (map (\<lambda>e. key_code (fst e)) (contents t))"
    by (rule sorted_wrt_subseq [OF subseq_contents [of "order h" 1 n]]) (use assms in \<open>auto simp: bpt_def\<close>)
  then show ?thesis by (simp add: sorted_wrt_map key_code_def word_less_nat_alt)
qed

lemma contents_bound:
  assumes "bpt h n t"
  shows "distinct (map fst (contents t))" "2 ^ n \<le> length (contents t)" "length (contents t) \<le> 2 ^ 64" "n \<le> 64"
proof -
  show d: "distinct (map fst (contents t))"
    using contents_sorted [OF assms] by (simp add: strict_sorted_iff)
  show l: "2 ^ n \<le> length (contents t)"
    by (rule tshape_contents [of "order h" 1]) (use assms in \<open>auto simp: bpt_def\<close>)
  have "length (map fst (contents t)) = card (set (map fst (contents t)))" using distinct_card [OF d] by simp
  also have "\<dots> \<le> card (UNIV :: u64 set)" by (rule card_mono) auto
  finally show u: "length (contents t) \<le> 2 ^ 64" by (simp add: card_word)
  then have "(2 :: nat) ^ n \<le> 2 ^ 64" using l by linarith
  then show "n \<le> 64" by (rule power_le_imp_le_exp [rotated]) simp
qed

text \<open>The iterations of a descent or of a repair never exceed this bound.\<close>

definition bpt_fuel :: nat where
  "bpt_fuel = 65"

lemma bpt_map_fuel:
  assumes "bpt_map h root n M"
  shows "n < bpt_fuel"
  using assms contents_bound(4) by (fastforce simp: bpt_map_def bpt_fuel_def)

section \<open>The interface of a key-value store\<close>

text \<open>
  A store in a state \<open>s\<close> that can take \<open>c\<close> more insertions and holds the map
  \<open>M\<close>. The laws are those of a finite map; every operation returns.
\<close>

locale key_store =
  fixes holds :: "'s \<Rightarrow> nat \<Rightarrow> ('k \<rightharpoonup> 'v) \<Rightarrow> bool"
    and put :: "'k \<Rightarrow> 'v \<Rightarrow> 's \<Rightarrow> 's result"
    and get :: "'k \<Rightarrow> 's \<Rightarrow> 'v option result"
    and del :: "'k \<Rightarrow> 's \<Rightarrow> 's result"
  assumes put_holds: "holds s (Suc c) M \<Longrightarrow> \<exists>s'. put k v s = Inr s' \<and> holds s' c (M(k \<mapsto> v))"
    and get_holds: "holds s c M \<Longrightarrow> get k s = Inr (M k)"
    and del_holds: "holds s c M \<Longrightarrow> \<exists>s'. del k s = Inr s' \<and> holds s' c (M(k := None))"
begin

lemma get_after_put:
  assumes "holds s (Suc c) M"
  shows "\<exists>s'. put k v s = Inr s' \<and> get k s' = Inr (Some v) \<and> (\<forall>j. j \<noteq> k \<longrightarrow> get j s' = get j s)"
  using put_holds [OF assms, of k v] get_holds [OF assms] get_holds by fastforce

lemma get_after_del:
  assumes "holds s c M"
  shows "\<exists>s'. del k s = Inr s' \<and> get k s' = Inr None \<and> (\<forall>j. j \<noteq> k \<longrightarrow> get j s' = get j s)"
  using del_holds [OF assms, of k] get_holds [OF assms] get_holds by fastforce

lemma put_all:
  assumes "holds s (length kvs + c) M"
  shows "\<exists>s'. foldE (\<lambda>(k, v). put k v) kvs s = Inr s' \<and> holds s' c (fold (\<lambda>(k, v) M. M(k \<mapsto> v)) kvs M)"
  using assms
proof (induction kvs arbitrary: s M)
  case Nil
  then show ?case by simp
next
  case (Cons kv kvs)
  obtain k v where kv: "kv = (k, v)" by (cases kv)
  obtain s1 where s1: "put k v s = Inr s1" "holds s1 (length kvs + c) (M(k \<mapsto> v))"
    using put_holds Cons.prems by fastforce
  then show ?case using Cons.IH [OF s1(2)] by (simp add: kv)
qed

end

section \<open>The B+ tree is one\<close>

text \<open>
  \<^verbatim>\<open>record *r = find(root, key, false, NULL); if (r) ... r->value\<close>, as the lookups of
  \<^verbatim>\<open>real_main\<close> use it.
\<close>

definition bt_get :: "u64 \<Rightarrow> addr \<times> bheap \<Rightarrow> u64 option result" where
  "bt_get key = (\<lambda>(root, h).
     bindE (find_bpt bpt_fuel root key h) (\<lambda>(r, _).
     if r \<noteq> NULL then bindE (get_rec h r) (\<lambda>rc. Inr (Some (cell rc))) else Inr None))"

text \<open>\<^verbatim>\<open>root = insert(root, key, value)\<close> and \<^verbatim>\<open>root = delete(root, key)\<close>.\<close>

definition bt_put :: "u64 \<Rightarrow> u64 \<Rightarrow> addr \<times> bheap \<Rightarrow> (addr \<times> bheap) result" where
  "bt_put key v = (\<lambda>(root, h). insert_bpt bpt_fuel root key v h)"

definition bt_del :: "u64 \<Rightarrow> addr \<times> bheap \<Rightarrow> (addr \<times> bheap) result" where
  "bt_del key = (\<lambda>(root, h). delete bpt_fuel root key h)"

text \<open>
  A sound tree with the memory for \<open>c\<close> more insertions, each of which may split every
  node of a path of maximal length and start two new slabs.
\<close>

definition put_cost :: "nat \<Rightarrow> nat" where
  "put_cost m = insert_cost m 64"

definition bt_holds :: "addr \<times> bheap \<Rightarrow> nat \<Rightarrow> (u64 \<rightharpoonup> u64) \<Rightarrow> bool" where
  "bt_holds s c M \<longleftrightarrow> (\<exists>n. bpt_map (snd s) (fst s) n M) \<and>
     room (snd s) (c * put_cost (order (snd s))) \<and> order (snd s) < 2 ^ 64"

lemma bpt_map_height: "bpt_map h root n M \<Longrightarrow> n \<le> 64"
  using bpt_map_fuel by (fastforce simp: bpt_fuel_def)

lemma bt_put_holds:
  assumes "bt_holds s (Suc c) M"
  shows "\<exists>s'. bt_put k v s = Inr s' \<and> bt_holds s' c (M(k \<mapsto> v))"
proof -
  obtain root h n where s: "s = (root, h)" "bpt_map h root n M" "room h (Suc c * put_cost (order h))" "order h < 2 ^ 64"
    using assms by (cases s) (auto simp: bt_holds_def)
  have "insert_cost (order h) n \<le> put_cost (order h)"
    using bpt_map_height [OF s(2)] by (auto simp: insert_cost_def put_cost_def intro!: mult_le_mono)
  then have "room h (c * put_cost (order h) + insert_cost (order h) n)" using s(3) by (simp add: room_def)
  from insert_map [OF s(2) bpt_map_fuel [OF s(2)] this, of k v] show ?thesis
    using s(1,4) by (fastforce simp: bt_put_def bt_holds_def)
qed

lemma bt_get_holds: "bt_holds s c M \<Longrightarrow> bt_get k s = Inr (M k)"
proof -
  assume "bt_holds s c M"
  then obtain root h n where s: "s = (root, h)" "bpt_map h root n M" by (cases s) (auto simp: bt_holds_def)
  obtain r p where "find_bpt bpt_fuel root k h = Inr (r, p)"
    "case M k of None \<Rightarrow> r = NULL | Some v \<Rightarrow> r \<noteq> NULL \<and> (\<exists>rc. recs h r = Some rc \<and> cell rc = v)"
    by (rule find_map [OF s(2) bpt_map_fuel [OF s(2)]])
  then show ?thesis by (auto simp: bt_get_def s(1) split: option.splits)
qed

lemma bt_del_holds:
  assumes "bt_holds s c M"
  shows "\<exists>s'. bt_del k s = Inr s' \<and> bt_holds s' c (M(k := None))"
proof -
  obtain root h n where s: "s = (root, h)" "bpt_map h root n M" "room h (c * put_cost (order h))" "order h < 2 ^ 64"
    using assms by (cases s) (auto simp: bt_holds_def)
  have "room h 0" using s(3) by (simp add: room_def)
  from delete_map [OF s(2) bpt_map_fuel [OF s(2)] s(4) this, of k]
  obtain root' h' n' where d: "delete bpt_fuel root k h = Inr (root', h')" "bpt_map h' root' n' (M(k := None))"
    "brk h' = brk h" "limit h' = limit h" "order h' = order h" by metis
  then have "bt_holds (root', h') c (M(k := None))" using s by (auto simp: bt_holds_def room_def)
  then show ?thesis using d(1) by (simp add: bt_del_def s(1))
qed

interpretation bt: key_store bt_holds bt_put bt_get bt_del
  by unfold_locales (fact bt_put_holds bt_get_holds bt_del_holds)+

section \<open>A tree with a gap\<close>

text \<open>Two leaves with the keys 1, 2 and 30, 40; the separator is 30.\<close>

definition gap_tree :: btree where
  "gap_tree = Nd 1 [30] [Lf 2 [(1, 101), (2, 102)], Lf 3 [(30, 103), (40, 104)]]"

definition gap_heap :: bheap where
  "gap_heap = \<lparr>nodes = [
       1 \<mapsto> \<lparr>pointers = [2, 3, 0, 0], keys = [30, 0, 0], parent = NULL, is_leaf = False, num_keys = 1, nxt = NULL\<rparr>,
       2 \<mapsto> \<lparr>pointers = [101, 102, 0, 3], keys = [1, 2, 0], parent = 1, is_leaf = True, num_keys = 2, nxt = NULL\<rparr>,
       3 \<mapsto> \<lparr>pointers = [103, 104, 0, 0], keys = [30, 40, 0], parent = 1, is_leaf = True, num_keys = 2, nxt = NULL\<rparr>],
     recs = [101 \<mapsto> \<lparr>cell = 11, flags = 0\<rparr>, 102 \<mapsto> \<lparr>cell = 12, flags = 0\<rparr>,
       103 \<mapsto> \<lparr>cell = 13, flags = 0\<rparr>, 104 \<mapsto> \<lparr>cell = 14, flags = 0\<rparr>],
     brk = 200, limit = 1000, allocator_stat = 0, free_nodes = NULL, free_recs = NULL, order = 4\<rparr>"

lemma gap_bpt: "bpt gap_heap 1 gap_tree"
proof -
  have "heap_ok gap_heap (set (addrs gap_tree)) (snd ` set (contents gap_tree))"
    unfolding heap_ok_def gap_heap_def gap_tree_def
    by (intro conjI exI [of _ "[]"]) (auto split: if_splits)
  moreover have "repr (nodes gap_heap) 4 NULL gap_tree" "chain (nodes gap_heap) 4 (leaf_addrs gap_tree)"
    by (simp_all add: gap_heap_def gap_tree_def node_at_def node_ok_def link_def)
  moreover have "tshape 4 1 1 gap_tree" by (simp add: gap_tree_def min_keys_at_def cut_def)
  moreover have "sorted_wrt (<) (keyseq gap_tree)" by (simp add: gap_tree_def key_code_def sep_code_def)
  moreover have "order gap_heap = 4" by (simp add: gap_heap_def)
  ultimately show ?thesis by (simp add: bpt_def) (simp add: gap_tree_def)
qed

lemma gap_map: "bpt_map gap_heap 1 1 (amap gap_heap gap_tree)"
  using gap_bpt unfolding bpt_map_def by (intro disjI2 exI [of _ gap_tree]) (simp add: gap_tree_def)

end
