(* ===== verification/Rand48.thy ===== *)
theory Rand48
  imports Prelude
begin

text \<open>
  The lookup key generator of the B+ tree benchmark (\<^verbatim>\<open>btree/btree1.c\<close>, the macros after
  \<open>MAIN\<close> and \<^verbatim>\<open>next\<close>, \<^verbatim>\<open>redisLrand48\<close>, \<^verbatim>\<open>redisSrand48\<close>): a 48-bit linear
  congruential generator on three 16-bit digits held in \<^verbatim>\<open>uint64_t\<close> variables.
\<close>

section \<open>The macros\<close>

definition LOW :: "u64 \<Rightarrow> u64" where
  "LOW x = x AND 0xFFFF"

text \<open>\<^verbatim>\<open>HIGH(x)\<close> of a product that \<^verbatim>\<open>MUL\<close> has cut to an \<^verbatim>\<open>int32_t\<close>.\<close>

definition MUL :: "u64 \<Rightarrow> u64 \<Rightarrow> u64 \<times> u64" where
  "MUL x y = (let l = (ucast (x * y) :: u32) in
     (LOW (scast l), LOW (scast (signed_drop_bit 16 l))))"

definition CARRY :: "u64 \<Rightarrow> u64 \<Rightarrow> u64" where
  "CARRY x y = (if 0xFFFF <s (scast (ucast x :: u32) + y) then 1 else 0)"

text \<open>\<^verbatim>\<open>ADDEQU(x, y, z)\<close>: the carry and the sum.\<close>

definition ADDEQU :: "u64 \<Rightarrow> u64 \<Rightarrow> u64 \<times> u64" where
  "ADDEQU x y = (CARRY x y, LOW (x + y))"

section \<open>The generator\<close>

record rand48 =
  rx0 :: u64
  rx1 :: u64
  rx2 :: u64
  ra0 :: u64
  ra1 :: u64
  ra2 :: u64
  rc :: u64

definition redisSrand48 :: "u32 \<Rightarrow> rand48" where
  "redisSrand48 seedval =
     \<lparr>rx0 = 0x330E, rx1 = LOW (scast seedval), rx2 = LOW (scast (signed_drop_bit 16 seedval)),
      ra0 = 0xE66D, ra1 = 0xDEEC, ra2 = 0x5, rc = 0xB\<rparr>"

definition next48 :: "rand48 \<Rightarrow> rand48" where
  "next48 s =
     (let (p0, p1) = MUL (ra0 s) (rx0 s);
          (carry0, p0) = ADDEQU p0 (rc s);
          (carry1, p1) = ADDEQU p1 carry0;
          (q0, q1) = MUL (ra0 s) (rx1 s);
          (carry0, p1) = ADDEQU p1 q0;
          (r0, r1) = MUL (ra1 s) (rx0 s);
          x2 = LOW (carry0 + carry1 + CARRY p1 r0 + q1 + r1 +
                 ra0 s * rx2 s + ra1 s * rx1 s + ra2 s * rx0 s);
          x1 = LOW (p1 + r0);
          x0 = LOW p0
      in s\<lparr>rx0 := x0, rx1 := x1, rx2 := x2\<rparr>)"

definition redisLrand48 :: "rand48 \<Rightarrow> u64 \<times> rand48" where
  "redisLrand48 s = (let s = next48 s in (push_bit 15 (rx2 s) + drop_bit 1 (rx1 s), s))"

section \<open>Digits\<close>

lemma LOW_take_bit: "LOW x = take_bit 16 x"
  by (simp add: LOW_def take_bit_eq_mask mask_eq_exp_minus_1)

lemma unat_take_bit: "unat (take_bit n w) = unat w mod 2 ^ n"
  unfolding unsigned_take_bit_eq by (rule take_bit_eq_mod)

lemma LOW_nat: "unat (LOW x) = unat x mod 2 ^ 16"
  by (simp only: LOW_take_bit unat_take_bit)

lemma HIGH_take_bit: "LOW (scast (signed_drop_bit 16 (l :: u32))) = drop_bit 16 (ucast l)"
  by (rule bit_word_eqI) (auto simp: LOW_take_bit bit_simps dest: bit_imp_le_length)

lemma LOW_scast: "LOW (scast (l :: u32)) = take_bit 16 (ucast l)"
  by (rule bit_word_eqI) (auto simp: LOW_take_bit bit_simps)

lemma MUL_nat:
  assumes "unat x < 2 ^ 16" and "unat y < 2 ^ 16"
  shows "unat (fst (MUL x y)) = unat x * unat y mod 2 ^ 16" "unat (snd (MUL x y)) = unat x * unat y div 2 ^ 16"
proof -
  have "unat x * unat y < 2 ^ 16 * 2 ^ 16" using assms by (intro mult_strict_mono) auto
  then have p: "unat x * unat y < 2 ^ 32" by simp
  then have "unat (x * y) = unat x * unat y" by (intro unat_mult_no_wrap) simp
  then have l: "unat (ucast (ucast (x * y) :: u32) :: u64) = unat x * unat y" using p by (simp add: unsigned_ucast_eq take_bit_nat_eq_self unat_take_bit)
  show "unat (fst (MUL x y)) = unat x * unat y mod 2 ^ 16"
    unfolding MUL_def Let_def fst_conv LOW_scast unat_take_bit l by simp
  show "unat (snd (MUL x y)) = unat x * unat y div 2 ^ 16"
    unfolding MUL_def Let_def snd_conv HIGH_take_bit unat_drop_bit_eq l by (simp add: drop_bit_eq_div)
qed

lemma CARRY_nat:
  assumes "unat x < 2 ^ 16" and "unat y < 2 ^ 16"
  shows "unat (CARRY x y) = (unat x + unat y) div 2 ^ 16"
proof -
  have "take_bit 16 x = x" using assms(1) by (simp add: word_unat_eq_iff unsigned_take_bit_eq take_bit_nat_eq_self)
  then have "bit x n \<Longrightarrow> n < 16" for n using bit_take_bit_iff [of 16 x n] by simp
  then have x: "scast (ucast x :: u32) = x" by (intro bit_word_eqI, simp add: bit_simps min_def) fastforce
  have u: "unat (x + y) = unat x + unat y" using assms by (intro unat_add_no_wrap) simp
  then have ui: "uint (x + y) = int (unat x + unat y)" by (metis uint_nat)
  have si: "sint (x + y) = int (unat x + unat y)"
    unfolding sint_uint ui by (rule signed_take_bit_int_eq_self) (use assms in \<open>simp_all del: of_nat_add\<close>)
  have s0: "sint (0xFFFF :: u64) = int 0xFFFF" by simp
  have "(0xFFFF <s x + y) = (0xFFFF < unat x + unat y)" unfolding word_sless_alt si s0 by (rule of_nat_less_iff)
  moreover have "(unat x + unat y) div 2 ^ 16 = (if 0xFFFF < unat x + unat y then 1 else 0)"
    using assms by (simp add: div_nat_eqI)
  ultimately show ?thesis by (simp add: CARRY_def x)
qed

section \<open>A step is the linear congruential step\<close>

text \<open>The carries of a three-digit product to base \<open>B\<close>, cut at three digits.\<close>

lemma lcg_digits:
  fixes B x0 x1 x2 a0 a1 a2 c :: nat
  assumes B: "0 < B" and p: "p0 = a0 * x0 mod B" "p1 = a0 * x0 div B" and q: "q0 = a0 * x1 mod B" "q1 = a0 * x1 div B"
    and r: "r0 = a1 * x0 mod B" "r1 = a1 * x0 div B"
    and u0: "c0 = (p0 + c) div B" "u0 = (p0 + c) mod B" and u1: "c1 = (p1 + c0) div B" "u1 = (p1 + c0) mod B"
    and u2: "c2 = (u1 + q0) div B" "u2 = (u1 + q0) mod B" and u3: "c3 = (u2 + r0) div B" "u3 = (u2 + r0) mod B"
    and t: "t = c2 + c1 + c3 + q1 + r1 + a0 * x2 + a1 * x1 + a2 * x0"
  shows "u0 + B * u3 + B ^ 2 * (t mod B) = ((a0 + B * a1 + B ^ 2 * a2) * (x0 + B * x1 + B ^ 2 * x2) + c) mod B ^ 3"
proof -
  let ?v = "u0 + B * u3 + B ^ 2 * (t mod B)" and ?K = "a1 * x2 + a2 * x1 + B * (a2 * x2)"
  define d where "d = t div B"
  have e: "a0 * x0 = p0 + B * p1" "a0 * x1 = q0 + B * q1" "a1 * x0 = r0 + B * r1" "p0 + c = u0 + B * c0"
    "p1 + c0 = u1 + B * c1" "u1 + q0 = u2 + B * c2" "u2 + r0 = u3 + B * c3"
    by (simp_all add: p q r u0 u1 u2 u3)
  have P: "a0 * x0 + c = u0 + B * (p1 + c0)" using e(1,4) by (simp add: distrib_left)
  have S: "p1 + c0 + a0 * x1 + a1 * x0 = u3 + B * (c1 + c2 + c3 + q1 + r1)"
    using e(2,3,5,6,7) by (simp add: distrib_left)
  have "(a0 + B * a1 + B ^ 2 * a2) * (x0 + B * x1 + B ^ 2 * x2) + c
      = (a0 * x0 + c) + B * (a0 * x1 + a1 * x0) + B ^ 2 * (a0 * x2 + a1 * x1 + a2 * x0) + B ^ 3 * ?K"
    by (simp add: algebra_simps power2_eq_square power3_eq_cube)
  also have "\<dots> = u0 + B * (p1 + c0 + a0 * x1 + a1 * x0) + B ^ 2 * (a0 * x2 + a1 * x1 + a2 * x0) + B ^ 3 * ?K"
    unfolding P by (simp add: algebra_simps)
  also have "\<dots> = u0 + B * u3 + B ^ 2 * t + B ^ 3 * ?K"
    unfolding S t by (simp add: algebra_simps power2_eq_square)
  also have "B ^ 2 * t = B ^ 2 * (t mod B) + B ^ 3 * d"
  proof -
    have "B ^ 2 * t = B ^ 2 * (t mod B + B * d)" by (simp add: d_def)
    then show ?thesis by (simp only: distrib_left power2_eq_square power3_eq_cube mult.assoc)
  qed
  finally have eq: "(a0 + B * a1 + B ^ 2 * a2) * (x0 + B * x1 + B ^ 2 * x2) + c = ?v + B ^ 3 * (?K + d)"
    by (simp add: distrib_left)
  have "u0 \<le> B - 1" "u3 \<le> B - 1" "t mod B \<le> B - 1" using B by (simp_all add: u0 u3 less_Suc_eq_le [symmetric])
  then have "?v \<le> (B - 1) + B * (B - 1) + B ^ 2 * (B - 1)" by (intro add_mono mult_le_mono) auto
  also have "\<dots> < B ^ 3" using B by (cases B) (simp_all add: algebra_simps power2_eq_square power3_eq_cube)
  finally show ?thesis unfolding eq by simp
qed

definition rand_val :: "rand48 \<Rightarrow> nat" where
  "rand_val s = unat (rx0 s) + 2 ^ 16 * unat (rx1 s) + 2 ^ 32 * unat (rx2 s)"

definition rand_ok :: "rand48 \<Rightarrow> bool" where
  "rand_ok s \<longleftrightarrow> unat (rx0 s) < 2 ^ 16 \<and> unat (rx1 s) < 2 ^ 16 \<and> unat (rx2 s) < 2 ^ 16 \<and>
     ra0 s = 0xE66D \<and> ra1 s = 0xDEEC \<and> ra2 s = 5 \<and> rc s = 0xB"

lemma redisSrand48_ok: "rand_ok (redisSrand48 seed)"
  by (simp add: rand_ok_def redisSrand48_def LOW_nat)

lemma next48_ok: "rand_ok s \<Longrightarrow> rand_ok (next48 s)"
  by (auto simp: rand_ok_def next48_def LOW_nat Let_def split: prod.split)

text \<open>The sum of eight small words does not wrap.\<close>

lemma next48_digits:
  assumes "rand_ok s"
  shows "\<exists>x0 x1 x2. next48 s = s\<lparr>rx0 := x0, rx1 := x1, rx2 := x2\<rparr> \<and>
    unat x0 + 2 ^ 16 * unat x1 + 2 ^ 32 * unat x2 = (0x5DEECE66D * rand_val s + 0xB) mod 2 ^ 48"
proof -
  let ?B = "2 ^ 16 :: nat"
  have x: "unat (rx0 s) < ?B" "unat (rx1 s) < ?B" "unat (rx2 s) < ?B"
    and a: "unat (ra0 s) = 0xE66D" "unat (ra1 s) = 0xDEEC" "unat (ra2 s) = 5" "unat (rc s) = 0xB"
    using assms by (simp_all add: rand_ok_def)
  obtain p0 p1 where p: "MUL (ra0 s) (rx0 s) = (p0, p1)" by fastforce
  obtain q0 q1 where q: "MUL (ra0 s) (rx1 s) = (q0, q1)" by fastforce
  obtain r0 r1 where r: "MUL (ra1 s) (rx0 s) = (r0, r1)" by fastforce
  have m: "unat p0 = 0xE66D * unat (rx0 s) mod ?B" "unat p1 = 0xE66D * unat (rx0 s) div ?B"
    "unat q0 = 0xE66D * unat (rx1 s) mod ?B" "unat q1 = 0xE66D * unat (rx1 s) div ?B"
    "unat r0 = 0xDEEC * unat (rx0 s) mod ?B" "unat r1 = 0xDEEC * unat (rx0 s) div ?B"
    using MUL_nat [of "ra0 s" "rx0 s"] MUL_nat [of "ra0 s" "rx1 s"] MUL_nat [of "ra1 s" "rx0 s"] p q r x a by simp_all
  define c0 where "c0 = CARRY p0 (rc s)"
  define u0 where "u0 = LOW (p0 + rc s)"
  define c1 where "c1 = CARRY p1 c0"
  define u1 where "u1 = LOW (p1 + c0)"
  define c2 where "c2 = CARRY u1 q0"
  define u2 where "u2 = LOW (u1 + q0)"
  define c3 where "c3 = CARRY u2 r0"
  define t where "t = c2 + c1 + c3 + q1 + r1 + ra0 s * rx2 s + ra1 s * rx1 s + ra2 s * rx0 s"
  have step: "next48 s = s\<lparr>rx0 := LOW u0, rx1 := LOW (u2 + r0), rx2 := LOW t\<rparr>"
    by (simp add: next48_def ADDEQU_def p q r c0_def u0_def c1_def u1_def c2_def u2_def c3_def t_def Let_def)
  have b: "unat p0 < ?B" "unat p1 < ?B" "unat q0 < ?B" "unat r0 < ?B" "unat (rc s) < ?B" "unat u1 < ?B" "unat u2 < ?B"
    using m x a by (simp_all add: u1_def u2_def LOW_nat div_less_iff_less_mult)
  have c0: "unat c0 = (unat p0 + 0xB) div ?B" unfolding c0_def using CARRY_nat [OF b(1,5)] a by simp
  have c0': "unat c0 < ?B" using c0 b(1) by (simp add: div_less_iff_less_mult)
  have c1: "unat c1 = (unat p1 + unat c0) div ?B" unfolding c1_def by (rule CARRY_nat [OF b(2) c0'])
  have c2: "unat c2 = (unat u1 + unat q0) div ?B" unfolding c2_def by (rule CARRY_nat [OF b(6,3)])
  have c3: "unat c3 = (unat u2 + unat r0) div ?B" unfolding c3_def by (rule CARRY_nat [OF b(7,4)])
  have u: "unat (p0 + rc s) = unat p0 + 0xB" "unat (p1 + c0) = unat p1 + unat c0"
      "unat (u1 + q0) = unat u1 + unat q0" "unat (u2 + r0) = unat u2 + unat r0"
    using b c0' a by (auto simp: unat_add_no_wrap)
  have t: "unat t = unat c2 + unat c1 + unat c3 + unat q1 + unat r1 + 0xE66D * unat (rx2 s) + 0xDEEC * unat (rx1 s)
      + 5 * unat (rx0 s)"
  proof -
    have "unat c1 < ?B" "unat c2 < ?B" "unat c3 < ?B" "unat q1 < ?B" "unat r1 < ?B"
      using m x b c0' unfolding c1 c2 c3 by (simp_all add: div_less_iff_less_mult)
    moreover have "unat (ra0 s * rx2 s) = 0xE66D * unat (rx2 s)" "unat (ra1 s * rx1 s) = 0xDEEC * unat (rx1 s)"
        "unat (ra2 s * rx0 s) = 5 * unat (rx0 s)"
      using x a by (auto simp: unat_mult_no_wrap)
    ultimately show ?thesis unfolding t_def using x by (simp add: unat_add_no_wrap)
  qed
  have B: "0 < ?B" by simp
  have d: "unat u0 = (unat p0 + 0xB) mod ?B" "unat u1 = (unat p1 + unat c0) mod ?B" "unat u2 = (unat u1 + unat q0) mod ?B"
    "unat (LOW (u2 + r0)) = (unat u2 + unat r0) mod ?B" "unat (LOW u0) = unat u0"
    using LOW_nat [of "p0 + rc s"] LOW_nat [of "p1 + c0"] LOW_nat [of "u1 + q0"] LOW_nat [of "u2 + r0"] LOW_nat [of u0]
    unfolding u u0_def [symmetric] u1_def [symmetric] u2_def [symmetric] by simp_all
  note lcg_digits [OF B m c0 d(1) c1 d(2) c2 d(3) c3 d(4) t]
  then have "unat (LOW u0) + 2 ^ 16 * unat (LOW (u2 + r0)) + 2 ^ 32 * unat (LOW t)
      = (0x5DEECE66D * rand_val s + 0xB) mod 2 ^ 48"
    by (simp add: rand_val_def LOW_nat [of t] d(5))
  then show ?thesis using step by blast
qed

lemma next48_val: "rand_ok s \<Longrightarrow> rand_val (next48 s) = (0x5DEECE66D * rand_val s + 0xB) mod 2 ^ 48"
  using next48_digits by (fastforce simp: rand_val_def)

lemma rand_val_bound: "rand_ok s \<Longrightarrow> rand_val s < 2 ^ 48"
  by (simp add: rand_ok_def rand_val_def)

section \<open>Properties\<close>

text \<open>
  C12. \<^verbatim>\<open>next\<close> is the 48-bit linear congruential step of the POSIX generators: on the
  number its three digits stand for it computes
  \<open>(0x5DEECE66D * x + 0xB) mod 2^48\<close>, with none of its signed 32-bit intermediates
  losing a carry, and the digits stay 16-bit. The same holds after any number of calls from
  any seed.
\<close>

theorem next48_is_lcg:
  assumes "rand_ok s"
  shows "rand_val ((next48 ^^ n) s) = ((\<lambda>x. (0x5DEECE66D * x + 0xB) mod 2 ^ 48) ^^ n) (rand_val s) \<and>
    rand_ok ((next48 ^^ n) s)"
proof -
  have ok: "rand_ok ((next48 ^^ n) s)" for n
    by (induction n) (simp_all add: assms next48_ok)
  have "rand_val ((next48 ^^ n) s) = ((\<lambda>x. (0x5DEECE66D * x + 0xB) mod 2 ^ 48) ^^ n) (rand_val s)"
    by (induction n) (simp_all only: funpow.simps comp_def id_def next48_val [OF ok])
  then show ?thesis using ok by blast
qed

theorem next48_is_lcg_witness:
  "rand_ok (redisSrand48 0xcafebabe) \<and>
   rand_val ((next48 ^^ 2) (redisSrand48 0xcafebabe))
     = ((\<lambda>x. (0x5DEECE66D * x + 0xB) mod 2 ^ 48) ^^ 2) (rand_val (redisSrand48 0xcafebabe))"
  using next48_is_lcg [OF redisSrand48_ok, of 2] redisSrand48_ok by blast

text \<open>
  \<^verbatim>\<open>redisLrand48\<close> returns the upper 31 bits of the 48-bit state: the result is below
  \<open>2^31\<close>, so the sum of the shifted digits does not wrap.
\<close>

lemma redisLrand48_range:
  assumes "rand_ok s"
  shows "unat (fst (redisLrand48 s)) = rand_val (snd (redisLrand48 s)) div 2 ^ 17 \<and>
    unat (fst (redisLrand48 s)) < 2 ^ 31 \<and> rand_ok (snd (redisLrand48 s))"
proof -
  let ?s = "next48 s"
  have ok: "rand_ok ?s" by (rule next48_ok [OF assms])
  have x: "unat (rx0 ?s) < 2 ^ 16" "unat (rx1 ?s) < 2 ^ 16" "unat (rx2 ?s) < 2 ^ 16"
    using ok by (simp_all add: rand_ok_def)
  have "push_bit 15 (rx2 ?s) = 2 ^ 15 * rx2 ?s" by (simp add: push_bit_eq_mult)
  then have "unat (push_bit 15 (rx2 ?s)) = 2 ^ 15 * unat (rx2 ?s)" using x by (simp add: unat_mult_no_wrap)
  moreover have "unat (drop_bit 1 (rx1 ?s)) = unat (rx1 ?s) div 2" unfolding unat_drop_bit_eq by (simp add: drop_bit_eq_div)
  ultimately have u: "unat (fst (redisLrand48 s)) = 2 ^ 15 * unat (rx2 ?s) + unat (rx1 ?s) div 2"
    unfolding redisLrand48_def Let_def fst_conv using x by (simp add: unat_add_no_wrap)
  have "unat (fst (redisLrand48 s)) = rand_val (snd (redisLrand48 s)) div 2 ^ 17"
    using x u by (simp add: redisLrand48_def Let_def rand_val_def)
  moreover have "unat (fst (redisLrand48 s)) < 2 ^ 31" using x u by simp
  moreover have "rand_ok (snd (redisLrand48 s))" using ok by (simp add: redisLrand48_def Let_def)
  ultimately show ?thesis by blast
qed

end
