(* ===== verification/Bpt_Main.thy ===== *)
theory Bpt_Main
  imports Bpt_Store Rand48
begin

text \<open>
  The benchmark itself (\<^verbatim>\<open>real_main\<close> of \<^verbatim>\<open>btree/btree1.c\<close>): two arrays of elements are
  allocated, the tree is populated with every key below \<^verbatim>\<open>NELEMENTS\<close>, and random keys are
  looked up. The properties of the B+ tree are stated here.
\<close>

section \<open>The benchmark\<close>

definition sizeof_element :: nat where
  "sizeof_element = 16"

definition populate_step :: "nat \<Rightarrow> addr \<Rightarrow> addr \<Rightarrow> nat \<Rightarrow> addr \<times> bheap \<Rightarrow> (addr \<times> bheap) result" where
  "populate_step ne elms elms2 i s =
     bindE (bt_put (of_nat i) (of_nat (elms + i div 2 * sizeof_element)) s)
       (bt_put (of_nat (ne - i - 1)) (of_nat (elms2 + i div 2 * sizeof_element)))"

text \<open>\<^verbatim>\<open>for (size_t i = 0; i < NELEMENTS; i += 2)\<close>\<close>

definition populate :: "nat \<Rightarrow> addr \<Rightarrow> addr \<Rightarrow> addr \<times> bheap \<Rightarrow> (addr \<times> bheap) result" where
  "populate ne elms elms2 s = foldE (populate_step ne elms elms2) (map ((*) 2) [0..<(ne + 1) div 2]) s"

text \<open>
  \<^verbatim>\<open>e->payload\<close>: \<^verbatim>\<open>allocate\<close> has zeroed both arrays and nothing writes to them; an
  address outside the arrays is no element.
\<close>

definition payload :: "nat \<Rightarrow> addr \<Rightarrow> addr \<Rightarrow> u64 \<Rightarrow> u64 result" where
  "payload ne elms elms2 e =
     (if elms \<le> unat e \<and> unat e < elms + ne div 2 * sizeof_element \<or>
         elms2 \<le> unat e \<and> unat e < elms2 + ne div 2 * sizeof_element
      then Inr 0 else Inl Bad_pointer)"

text \<open>One iteration of the lookup loop: the two searches and the addition of the payloads.\<close>

definition add_payload :: "(u64 \<Rightarrow> u64 result) \<Rightarrow> u64 option \<Rightarrow> u64 \<Rightarrow> u64 result" where
  "add_payload pl r matches =
     (case r of None \<Rightarrow> Inr matches
      | Some e \<Rightarrow> if e \<noteq> 0 then bindE (pl e) (\<lambda>v. Inr (matches + v)) else Inr matches)"

definition lookup_step ::
  "nat \<Rightarrow> (u64 \<Rightarrow> u64 result) \<Rightarrow> addr \<times> bheap \<Rightarrow> rand48 \<times> u64 \<Rightarrow> (rand48 \<times> u64) result" where
  "lookup_step ne pl s = (\<lambda>(g, matches).
     let (rdn, g) = redisLrand48 g in
     bindE (bt_get (rdn mod of_nat ne) s) (\<lambda>r.
     bindE (add_payload pl r matches) (\<lambda>matches.
     bindE (bt_get (push_bit 2 (rdn + 1) mod of_nat ne) s) (\<lambda>r.
     bindE (add_payload pl r matches) (\<lambda>matches. Inr (g, matches))))))"

definition real_main :: "nat \<Rightarrow> nat \<Rightarrow> bheap \<Rightarrow> ((addr \<times> bheap) \<times> u64) result" where
  "real_main ne nlookup h =
     (let h = h\<lparr>order := 16\<rparr>; g = redisSrand48 0xcafebabe in
      bindE (allocate (ne div 2 * sizeof_element) h) (\<lambda>(elms, h).
      bindE (allocate (ne div 2 * sizeof_element) h) (\<lambda>(elms2, h).
      bindE (populate ne elms elms2 (NULL, h)) (\<lambda>s.
      bindE (iterE nlookup (lookup_step ne (payload ne elms elms2) s) (g, 0)) (\<lambda>(g, matches).
      Inr (s, matches))))))"

section \<open>The populated map\<close>

definition element_pair :: "nat \<Rightarrow> addr \<Rightarrow> addr \<Rightarrow> nat \<Rightarrow> (u64 \<times> u64) list" where
  "element_pair ne elms elms2 j =
     [(of_nat (2 * j), of_nat (elms + j * sizeof_element)),
      (of_nat (ne - 2 * j - 1), of_nat (elms2 + j * sizeof_element))]"

definition element_pairs :: "nat \<Rightarrow> addr \<Rightarrow> addr \<Rightarrow> nat \<Rightarrow> (u64 \<times> u64) list" where
  "element_pairs ne elms elms2 n = concat (map (element_pair ne elms elms2) [0..<n])"

lemma foldE_fun: "foldE f [] = Inr" "foldE f (x # xs) = (\<lambda>s. bindE (f x s) (foldE f xs))"
  "foldE f (ys @ zs) = (\<lambda>s. bindE (foldE f ys s) (foldE f zs))"
  by (rule ext, simp add: foldE_append)+

lemma foldE_concat: "foldE f (concat (map g js)) = foldE (\<lambda>j. foldE f (g j)) js"
  by (induction js) (simp_all add: foldE_fun del: foldE.simps)

lemma populate_puts:
  "populate ne elms elms2 s = foldE (\<lambda>(k, v). bt_put k v) (element_pairs ne elms elms2 ((ne + 1) div 2)) s"
proof -
  have "populate_step ne elms elms2 (2 * j) = foldE (\<lambda>(k, v). bt_put k v) (element_pair ne elms elms2 j)" for j
    by (simp add: fun_eq_iff populate_step_def element_pair_def foldE_fun del: foldE.simps)
  then show ?thesis by (simp only: populate_def element_pairs_def foldE_concat foldE_map)
qed

definition put_pairs :: "(u64 \<times> u64) list \<Rightarrow> (u64 \<rightharpoonup> u64) \<Rightarrow> (u64 \<rightharpoonup> u64)" where
  "put_pairs kvs M = fold (\<lambda>(k, v) M. M(k \<mapsto> v)) kvs M"

lemma put_pairs_map_of: "put_pairs kvs M = M ++ map_of (rev kvs)"
  unfolding put_pairs_def by (induction kvs arbitrary: M) (auto simp: fun_eq_iff map_add_def split: option.splits)

lemma put_pairs_distinct:
  assumes "distinct (map fst kvs)" and "(k, v) \<in> set kvs"
  shows "put_pairs kvs M k = Some v"
  using assms by (simp add: put_pairs_map_of map_add_Some_iff map_of_is_SomeI rev_map [symmetric])

text \<open>Every key below an even \<open>ne\<close> is in the list once, with an address inside the arrays.\<close>

definition element_of :: "nat \<Rightarrow> addr \<Rightarrow> addr \<Rightarrow> nat \<Rightarrow> nat" where
  "element_of ne elms elms2 k =
     (if even k then elms + k div 2 * sizeof_element else elms2 + (ne - 1 - k) div 2 * sizeof_element)"

lemma element_pairsI: "p \<in> set (element_pair ne elms elms2 j) \<Longrightarrow> j < n \<Longrightarrow> p \<in> set (element_pairs ne elms elms2 n)"
  by (auto simp: element_pairs_def)

lemma element_pairs_mem:
  assumes "even ne" and "k < ne"
  shows "(of_nat k, of_nat (element_of ne elms elms2 k)) \<in> set (element_pairs ne elms elms2 (ne div 2))"
proof (cases "even k")
  case True
  then have j: "k div 2 < ne div 2" "2 * (k div 2) = k" using assms by auto
  show ?thesis by (rule element_pairsI [OF _ j(1)]) (unfold element_pair_def element_of_def j(2), simp add: True)
next
  case False
  obtain m q where m: "ne = 2 * m" "k = 2 * q + 1" using assms(1) False by (elim evenE oddE)
  let ?j = "(ne - 1 - k) div 2"
  have "ne - 1 - k = 2 * (m - 1 - q)" using m assms(2) by simp
  then have "?j = m - 1 - q" by simp
  then have j: "?j < ne div 2" "ne - 2 * ?j - 1 = k" using m assms(2) by auto
  show ?thesis by (rule element_pairsI [OF _ j(1)]) (unfold element_pair_def element_of_def j(2), simp add: False)
qed

definition key_pair :: "nat \<Rightarrow> nat \<Rightarrow> nat list" where
  "key_pair ne j = [2 * j, ne - 2 * j - 1]"

lemma element_pairs_keys:
  assumes "even ne" and "n \<le> ne div 2"
  shows "map fst (element_pairs ne elms elms2 n) = map of_nat (concat (map (key_pair ne) [0..<n]))"
    "distinct (concat (map (key_pair ne) [0..<n]))" "set (concat (map (key_pair ne) [0..<n])) \<subseteq> {..<ne}"
    "length (element_pairs ne elms elms2 n) = 2 * n"
proof -
  have "map fst (element_pair ne elms elms2 j) = map of_nat (key_pair ne j)" for j
    by (simp add: element_pair_def key_pair_def)
  then show "map fst (element_pairs ne elms elms2 n) = map of_nat (concat (map (key_pair ne) [0..<n]))"
    by (simp add: element_pairs_def map_concat comp_def)
  show "length (element_pairs ne elms elms2 n) = 2 * n"
    by (induction n) (simp_all add: element_pairs_def element_pair_def)
  have mem: "\<exists>j < n. x = 2 * j \<or> x = ne - 2 * j - 1" if "x \<in> set (concat (map (key_pair ne) [0..<n]))" for x n
    using that by (auto simp: key_pair_def)
  obtain m where m: "ne = 2 * m" using assms(1) by (elim evenE)
  show "set (concat (map (key_pair ne) [0..<n])) \<subseteq> {..<ne}"
  proof
    fix x assume "x \<in> set (concat (map (key_pair ne) [0..<n]))"
    then obtain j where "j < n" "x = 2 * j \<or> x = ne - 2 * j - 1" using mem by blast
    then show "x \<in> {..<ne}" using assms(2) m by auto
  qed
  show "distinct (concat (map (key_pair ne) [0..<n]))" using assms(2)
  proof (induction n)
    case (Suc n)
    have "x \<noteq> 2 * n \<and> x \<noteq> ne - 2 * n - 1" if x: "x \<in> set (concat (map (key_pair ne) [0..<n]))" for x
    proof -
      obtain j where j: "j < n" "x = 2 * j \<or> x = ne - 2 * j - 1" using mem [OF x] by blast
      define d where "d = m - n - 1"
      define e where "e = n - j - 1"
      have d: "m = n + Suc d" and e: "n = j + Suc e" using Suc.prems m j(1) by (simp_all add: d_def e_def)
      have x': "x = 2 * j \<or> x = 2 * (e + d + 1) + 1" "ne - 2 * n - 1 = 2 * d + 1" using j(2) unfolding m d e by auto
      have "2 * j \<noteq> 2 * d + 1" "2 * (e + d + 1) + 1 \<noteq> 2 * n" by presburger+
      then show ?thesis unfolding x'(2) using x'(1) j(1) by (elim disjE) simp_all
    qed
    moreover have "2 * n \<noteq> ne - 2 * n - 1"
    proof -
      have "ne - 2 * n - 1 = 2 * (m - n - 1) + 1" using Suc.prems by (simp add: m)
      then have "odd (ne - 2 * n - 1)" by simp
      then show ?thesis by (metis dvd_triv_left)
    qed
    ultimately have "distinct (concat (map (key_pair ne) [0..<n]) @ key_pair ne n)"
      using Suc by (auto simp: key_pair_def [of ne n])
    then show ?case by simp
  qed simp
qed

lemma element_pairs_map:
  assumes "even ne" and "ne < 2 ^ 64" and "k < ne"
  shows "put_pairs (element_pairs ne elms elms2 (ne div 2)) M (of_nat k) = Some (of_nat (element_of ne elms elms2 k))"
proof (rule put_pairs_distinct)
  have "inj_on (of_nat :: nat \<Rightarrow> u64) {..<ne}"
  proof (rule inj_onI)
    fix x y assume "x \<in> {..<ne}" "y \<in> {..<ne}" "(of_nat x :: u64) = of_nat y"
    then have "unat (of_nat x :: u64) = unat (of_nat y :: u64)" by simp
    then show "x = y" using \<open>x \<in> {..<ne}\<close> \<open>y \<in> {..<ne}\<close> assms(2) by (simp add: unat_of_nat take_bit_eq_mod)
  qed
  then show "distinct (map fst (element_pairs ne elms elms2 (ne div 2)))"
    using element_pairs_keys [OF assms(1) le_refl] by (simp add: distinct_map inj_on_subset)
  show "(of_nat k, of_nat (element_of ne elms elms2 k)) \<in> set (element_pairs ne elms elms2 (ne div 2))"
    by (rule element_pairs_mem [OF assms(1,3)])
qed

lemma element_of_bound:
  assumes "even ne" and "k < ne"
  shows "\<exists>a \<in> {elms, elms2}. a \<le> element_of ne elms elms2 k \<and> element_of ne elms elms2 k < a + ne div 2 * sizeof_element"
proof (cases "even k")
  case True
  then have "k div 2 < ne div 2" using assms by auto
  then show ?thesis using True by (simp add: element_of_def sizeof_element_def)
next
  case False
  have "(ne - 1 - k) div 2 < ne div 2" using assms by auto
  then show ?thesis using False by (simp add: element_of_def sizeof_element_def)
qed

section \<open>A run of the benchmark\<close>

lemma lookup_step_ok:
  assumes inv: "bt_holds s c M" and M: "\<And>k. k < ne \<Longrightarrow> M (of_nat k) = Some (of_nat (element_of ne elms elms2 k))"
    and ne: "even ne" "0 < ne" "ne < 2 ^ 64"
    and bd: "0 < elms" "0 < elms2" "elms + ne div 2 * sizeof_element \<le> 2 ^ 64" "elms2 + ne div 2 * sizeof_element \<le> 2 ^ 64"
  shows "\<exists>g'. lookup_step ne (payload ne elms elms2) s (g, n) = Inr (g', n)"
proof -
  have key: "\<exists>e. bt_get (w mod of_nat ne) s = Inr (Some e) \<and> add_payload (payload ne elms elms2) (Some e) n = Inr n" for w
  proof -
    define k where "k = unat w mod ne"
    have k: "k < ne" using ne(2) by (simp add: k_def)
    have "w mod of_nat ne = of_nat k"
      using k ne(3) by (simp add: k_def word_unat_eq_iff unat_mod_distrib unat_of_nat take_bit_eq_mod)
    then have get: "bt_get (w mod of_nat ne) s = Inr (Some (of_nat (element_of ne elms elms2 k)))"
      using bt.get_holds [OF inv] M [OF k] by simp
    let ?e = "element_of ne elms elms2 k"
    obtain a where a: "a \<in> {elms, elms2}" "a \<le> ?e" "?e < a + ne div 2 * sizeof_element"
      using element_of_bound [OF ne(1) k] by blast
    then have "?e < 2 ^ 64" "0 < ?e" using bd by auto
    then have u: "unat (of_nat ?e :: u64) = ?e" by (simp add: unat_of_nat take_bit_eq_mod)
    then have "(of_nat ?e :: u64) \<noteq> 0" using \<open>0 < ?e\<close> by (metis less_irrefl unat_0)
    moreover have "payload ne elms elms2 (of_nat ?e) = Inr 0" using a by (auto simp: payload_def u)
    ultimately show ?thesis using get by (simp add: add_payload_def)
  qed
  obtain rdn g' where r: "redisLrand48 g = (rdn, g')" by fastforce
  show ?thesis
    using key [of rdn] key [of "push_bit 2 (rdn + 1)"] by (auto simp: lookup_step_def r Let_def)
qed

lemma lookups_ok:
  assumes "\<And>g. \<exists>g'. f (g, n) = Inr (g', n)"
  shows "\<exists>g'. iterE m f (g, n) = Inr (g', n)"
proof (induction m arbitrary: g)
  case (Suc m)
  obtain g' where "f (g, n) = Inr (g', n)" using assms by blast
  then show ?case using Suc by simp
qed simp

lemma populate_holds:
  assumes "bt_holds s (ne + c) M" and ne: "even ne" "ne < 2 ^ 64"
  obtains s' M' where "populate ne elms elms2 s = Inr s'" "bt_holds s' c M'"
    "\<And>k. k < ne \<Longrightarrow> M' (of_nat k) = Some (of_nat (element_of ne elms elms2 k))"
proof -
  let ?kvs = "element_pairs ne elms elms2 (ne div 2)"
  have e: "(ne + 1) div 2 = ne div 2" "2 * (ne div 2) = ne" using ne(1) by auto
  have l: "length ?kvs = ne" using element_pairs_keys(4) [OF ne(1) le_refl] e(2) by simp
  from assms(1) have "bt_holds s (length ?kvs + c) M" by (simp add: l)
  from bt.put_all [OF this] obtain s' where "populate ne elms elms2 s = Inr s'" "bt_holds s' c (put_pairs ?kvs M)"
    unfolding populate_puts e put_pairs_def by blast
  then show thesis using that element_pairs_map [OF ne] by blast
qed

lemma allocate_spec:
  assumes ok: "heap_ok h {} {}" and room: "room h (b + (2 ^ 21 + sz))"
  obtains p h' where "allocate sz h = Inr (p, h')" "0 < p" "p + sz \<le> 2 ^ 64" "heap_ok h' {} {}" "room h' b" "order h' = order h"
proof -
  obtain p st where a: "allocate_aligned (2 ^ 21) sz h = Inr (p, h\<lparr>brk := p + sz, allocator_stat := st\<rparr>)"
    "brk h \<le> p" "room (h\<lparr>brk := p + sz, allocator_stat := st\<rparr>) b"
    by (rule allocate_aligned_room [OF _ room]) simp
  have "0 < p" using a(2) ok by (auto simp: heap_ok_def)
  moreover have "p + sz \<le> 2 ^ 64" using a(3) ok by (auto simp: heap_ok_def room_def)
  moreover have "heap_ok (h\<lparr>brk := p + sz, allocator_stat := st\<rparr>) {} {}" using a(2) by (intro heap_ok_brk [OF ok]) simp
  ultimately show thesis using that [of p] a(1,3) by (simp add: allocate_def)
qed

lemma real_main_run:
  assumes ok: "heap_ok h {} {}" and ne: "even ne" "0 < ne" "ne < 2 ^ 64"
    and room: "room h (ne * put_cost 16 + 2 * (2 ^ 21 + ne div 2 * sizeof_element))"
  shows "\<exists>s elms elms2. real_main ne nlookup h = Inr (s, 0) \<and>
    (\<forall>k < ne. bt_get (of_nat k) s = Inr (Some (of_nat (element_of ne elms elms2 k))))"
proof -
  let ?sz = "ne div 2 * sizeof_element" and ?h = "h\<lparr>order := 16\<rparr>"
  have sel: "brk ?h = brk h" "limit ?h = limit h" by simp_all
  have ok0: "heap_ok ?h {} {}" using ok by (simp add: heap_ok_def)
  have "room ?h ((ne * put_cost 16 + (2 ^ 21 + ?sz)) + (2 ^ 21 + ?sz))"
    unfolding room_def sel using room unfolding room_def by (simp only: mult_2 add.assoc)
  from allocate_spec [OF ok0 this] obtain e1 h1 where 1: "allocate ?sz ?h = Inr (e1, h1)" "0 < e1" "e1 + ?sz \<le> 2 ^ 64"
    "heap_ok h1 {} {}" "room h1 (ne * put_cost 16 + (2 ^ 21 + ?sz))" "order h1 = 16" by auto
  from allocate_spec [OF 1(4,5)] obtain e2 h2 where 2: "allocate ?sz h1 = Inr (e2, h2)" "0 < e2" "e2 + ?sz \<le> 2 ^ 64"
    "heap_ok h2 {} {}" "room h2 (ne * put_cost 16)" "order h2 = 16" using 1(6) by auto
  have "bpt_map h2 NULL 0 Map.empty" using 2(4,6) by (simp add: bpt_map_def)
  then have "bt_holds (NULL, h2) (ne + 0) Map.empty" using 2(5,6) by (auto simp: bt_holds_def)
  then obtain s M where s: "populate ne e1 e2 (NULL, h2) = Inr s" "bt_holds s 0 M"
      "\<And>k. k < ne \<Longrightarrow> M (of_nat k) = Some (of_nat (element_of ne e1 e2 k))"
    using populate_holds [OF _ ne(1,3)] by metis
  have "\<exists>g'. lookup_step ne (payload ne e1 e2) s (g, 0) = Inr (g', 0)" for g
    by (rule lookup_step_ok [OF s(2,3) ne 1(2) 2(2) 1(3) 2(3)])
  then obtain g' where "iterE nlookup (lookup_step ne (payload ne e1 e2) s) (redisSrand48 0xcafebabe, 0) = Inr (g', 0)"
    using lookups_ok by metis
  then have "real_main ne nlookup h = Inr (s, 0)" using 1(1) 2(1) s(1) by (simp add: real_main_def Let_def)
  moreover have "bt_get (of_nat k) s = Inr (Some (of_nat (element_of ne e1 e2 k)))" if "k < ne" for k
    using bt.get_holds [OF s(2)] s(3) that by simp
  ultimately show ?thesis by blast
qed

section \<open>Properties\<close>

text \<open>A fresh process: nothing allocated, and memory up to \<open>lim\<close>.\<close>

definition boot_heap :: "nat \<Rightarrow> nat \<Rightarrow> bheap" where
  "boot_heap m lim = \<lparr>nodes = Map.empty, recs = Map.empty, brk = 4096, limit = lim, allocator_stat = 0,
     free_nodes = NULL, free_recs = NULL, order = m\<rparr>"

lemma boot_heap_ok: "lim \<le> 2 ^ 64 \<Longrightarrow> heap_ok (boot_heap m lim) {} {}"
  by (auto simp: boot_heap_def heap_ok_def intro!: exI [of _ "[] :: addr list"])

lemma boot_map: "3 \<le> m \<Longrightarrow> lim \<le> 2 ^ 64 \<Longrightarrow> bpt_map (boot_heap m lim) NULL 0 Map.empty"
  using boot_heap_ok [of lim m] by (simp add: bpt_map_def) (simp add: boot_heap_def)

lemma boot_holds:
  "3 \<le> m \<Longrightarrow> m < 2 ^ 64 \<Longrightarrow> lim \<le> 2 ^ 64 \<Longrightarrow> 4096 + c * put_cost m \<le> lim \<Longrightarrow>
   bt_holds (NULL, boot_heap m lim) c Map.empty"
  using boot_map [of m lim] by (auto simp: bt_holds_def) (simp_all add: boot_heap_def room_def)

lemma boot_small: "bt_holds (NULL, boot_heap 4 (2 ^ 63)) (Suc (Suc 0)) Map.empty"
  by (rule boot_holds) (simp_all add: put_cost_def insert_cost_def split_cost_def node_cost_def)

text \<open>
  C5. \<^verbatim>\<open>insert\<close> refines the update of a finite map: on a tree that satisfies the
  invariant (sorted and separated keys, every node between its least and greatest number of
  keys, all leaves at one depth and linked in order, live nodes disjoint from the free lists)
  and stands for the map \<open>M\<close>, with memory for one more insertion, it returns, the tree
  it returns satisfies the invariant and stands for \<open>M(k \<mapsto> v)\<close>, and memory for one
  insertion less is left.
\<close>

theorem insert_refines_update:
  assumes "bt_holds (root, h) (Suc c) M"
  shows "\<exists>root' h'. insert_bpt bpt_fuel root k v h = Inr (root', h') \<and> bt_holds (root', h') c (M(k \<mapsto> v))"
  using bt.put_holds [OF assms, of k v] by (simp add: bt_put_def)

theorem insert_refines_update_witness:
  "bt_holds (NULL, boot_heap 4 (2 ^ 63)) (Suc (Suc 0)) Map.empty \<and>
   (\<exists>root' h'. insert_bpt bpt_fuel NULL 5 7 (boot_heap 4 (2 ^ 63)) = Inr (root', h') \<and>
      bt_holds (root', h') (Suc 0) [5 \<mapsto> 7])"
  using insert_refines_update [OF boot_small, of 5 7] boot_small by simp

text \<open>
  C6. \<^verbatim>\<open>delete\<close> refines the removal of a key from a finite map: whatever sequence of
  borrowing from a neighbor, merging and shrinking of the root it takes, it returns, the tree
  it returns satisfies the invariant and stands for \<open>M(k := None)\<close>, and the nodes and the
  record it gives back are on the free lists.
\<close>

theorem delete_refines_removal:
  assumes "bt_holds (root, h) c M"
  shows "\<exists>root' h'. delete bpt_fuel root k h = Inr (root', h') \<and> bt_holds (root', h') c (M(k := None))"
  using bt.del_holds [OF assms, of k] by (simp add: bt_del_def)

theorem delete_refines_removal_witness:
  "\<exists>root h root' h'. insert_bpt bpt_fuel NULL 5 7 (boot_heap 4 (2 ^ 63)) = Inr (root, h) \<and>
     bt_holds (root, h) (Suc 0) [5 \<mapsto> 7] \<and>
     delete bpt_fuel root 5 h = Inr (root', h') \<and> bt_holds (root', h') (Suc 0) Map.empty"
proof -
  obtain root h where i: "insert_bpt bpt_fuel NULL 5 7 (boot_heap 4 (2 ^ 63)) = Inr (root, h)"
    "bt_holds (root, h) (Suc 0) [5 \<mapsto> 7]"
    using bt.put_holds [OF boot_small, of 5 7] by (auto simp: bt_put_def)
  have e: "[5 \<mapsto> 7](5 := None) = (Map.empty :: u64 \<rightharpoonup> u64)" by simp
  obtain root' h' where d: "delete bpt_fuel root 5 h = Inr (root', h')" "bt_holds (root', h') (Suc 0) Map.empty"
    using delete_refines_removal [OF i(2), of 5] unfolding e by (elim exE conjE)
  show ?thesis by (intro exI conjI) (rule i d)+
qed

text \<open>
  C7. \<^verbatim>\<open>find\<close> decides membership: on a tree that stands for \<open>M\<close> it returns the
  null pointer exactly for the keys outside \<open>M\<close> and otherwise a record that holds the
  value of the key. 65 levels are enough for every tree of 64-bit keys.
\<close>

theorem find_correct:
  assumes "bpt_map h root n M"
  shows "\<exists>r leaf. find_bpt bpt_fuel root k h = Inr (r, leaf) \<and>
    (case M k of None \<Rightarrow> r = NULL | Some v \<Rightarrow> r \<noteq> NULL \<and> (\<exists>rc. recs h r = Some rc \<and> cell rc = v))"
  by (rule find_map [OF assms bpt_map_fuel [OF assms], of k]) blast

theorem find_correct_witness:
  "bpt_map (boot_heap 4 (2 ^ 63)) NULL 0 Map.empty \<and>
   (\<exists>leaf. find_bpt bpt_fuel NULL 5 (boot_heap 4 (2 ^ 63)) = Inr (NULL, leaf))"
  using find_correct [OF boot_map, of 4 "2 ^ 63" 5] boot_map [of 4 "2 ^ 63"] by simp

text \<open>
  C9. A lookup after an insertion returns the inserted value, and the lookup of every other
  key is what it was before.
\<close>

theorem lookup_after_insert:
  assumes "bt_holds s (Suc c) M"
  shows "\<exists>s'. bt_put k v s = Inr s' \<and> bt_get k s' = Inr (Some v) \<and> (\<forall>j. j \<noteq> k \<longrightarrow> bt_get j s' = bt_get j s)"
  by (rule bt.get_after_put [OF assms])

theorem lookup_after_insert_witness:
  "\<exists>s'. bt_put 5 7 (NULL, boot_heap 4 (2 ^ 63)) = Inr s' \<and> bt_get 5 s' = Inr (Some 7)"
  using lookup_after_insert [OF boot_small, of 5 7] by blast

text \<open>
  C10. A tree of height \<open>n\<close> has at least \<open>2 ^ n\<close> entries and, the keys being
  distinct 64-bit numbers, is never higher than 64: every descent to a leaf and every repair
  towards the root ends within 65 iterations.
\<close>

theorem descent_terminates:
  assumes "bpt h n t"
  shows "2 ^ n \<le> length (contents t) \<and> n \<le> 64 \<and> (\<exists>leaf. find_leaf bpt_fuel (root_addr t) k h = Inr leaf)"
proof -
  have "n < bpt_fuel" using contents_bound(4) [OF assms] by (simp add: bpt_fuel_def)
  then obtain leaf where "find_leaf bpt_fuel (root_addr t) k h = Inr leaf"
    using find_leaf_leads [OF assms, of bpt_fuel k] by metis
  then show ?thesis using contents_bound(2,4) [OF assms] by blast
qed

theorem descent_terminates_witness:
  "\<exists>h n t. bpt h n t \<and> n \<le> 64 \<and> (\<exists>leaf. find_leaf bpt_fuel (root_addr t) 9 h = Inr leaf)"
proof -
  obtain root h where "bt_holds (root, h) (Suc 0) [5 \<mapsto> 7]"
    using bt.put_holds [OF boot_small, of 5 7] by auto
  then obtain n t where "bpt h n t" by (auto simp: bt_holds_def bpt_map_def)
  then show ?thesis using descent_terminates by blast
qed

text \<open>
  C11. When no record is free and the slab of a new one does not fit into memory, inserting a
  key that is not in the tree ends the program with status 1, while a key that is in the tree
  is updated in place: the tree stands for the map with the new value, with the same root and
  nodes, and no memory is used.
\<close>

theorem insert_out_of_memory:
  assumes inv: "bpt_map h root n M" and full: "free_recs h = NULL" "limit h < align_up (2 ^ 21) (brk h) + 2 ^ 18"
  shows "case M k of None \<Rightarrow> insert_bpt bpt_fuel root k v h = Inl (Exit 1)
    | Some _ \<Rightarrow> \<exists>h'. insert_bpt bpt_fuel root k v h = Inr (root, h') \<and> bpt_map h' root n (M(k \<mapsto> v)) \<and>
        nodes h' = nodes h \<and> brk h' = brk h"
proof (cases "M k")
  case None
  obtain p where f: "find_bpt bpt_fuel root k h = Inr (NULL, p)"
    by (rule find_map [OF inv bpt_map_fuel [OF inv], of k]) (simp add: None)
  have "make_record v h = Inl (Exit 1)"
    using full by (simp add: make_record_def alloc_record_def allocate_def allocate_aligned_def posix_memalign_def
        RECORD_SLAB_GROW_def)
  then show ?thesis using f None by (simp add: insert_bpt_def)
next
  case (Some w)
  from update_map [OF inv bpt_map_fuel [OF inv] Some, of v] show ?thesis using Some by fastforce
qed

theorem insert_out_of_memory_witness:
  "free_recs gap_heap = NULL \<and> limit gap_heap < align_up (2 ^ 21) (brk gap_heap) + 2 ^ 18 \<and>
   insert_bpt bpt_fuel 1 10 7 gap_heap = Inl (Exit 1) \<and>
   (\<exists>h'. insert_bpt bpt_fuel 1 30 7 gap_heap = Inr (1, h') \<and> bpt_map h' 1 1 ((amap gap_heap gap_tree)(30 \<mapsto> 7)) \<and>
      nodes h' = nodes gap_heap)"
proof -
  have b: "free_recs gap_heap = NULL" "limit gap_heap < align_up (2 ^ 21) (brk gap_heap) + 2 ^ 18"
    by (simp_all add: gap_heap_def align_up_def)
  have m: "amap gap_heap gap_tree 10 = None" "amap gap_heap gap_tree 30 = Some 13"
    by (simp_all add: amap_def gap_tree_def gap_heap_def)
  show ?thesis using insert_out_of_memory [OF gap_map b, of 10 7] insert_out_of_memory [OF gap_map b, of 30 7] m b by auto
qed

text \<open>
  C8. The benchmark runs to completion: with enough memory and an even number of elements
  below \<open>2 ^ 64\<close> (\<^verbatim>\<open>NELEMENTS\<close> is \<open>350 << 20\<close>), the population and any
  number of random lookups return, every lookup finds its key and dereferences only elements
  of the two arrays, afterwards every key below the number of elements is mapped to its
  element, and the printed number of matches is 0, since it is the sum of payloads that
  nothing ever writes.
\<close>

theorem real_main_completes:
  assumes "heap_ok h {} {}" and "even ne" "0 < ne" "ne < 2 ^ 64"
    and "room h (ne * put_cost 16 + 2 * (2 ^ 21 + ne div 2 * sizeof_element))"
  shows "\<exists>s elms elms2. real_main ne nlookup h = Inr (s, 0) \<and>
    (\<forall>k < ne. bt_get (of_nat k) s = Inr (Some (of_nat (element_of ne elms elms2 k))))"
  by (rule real_main_run [OF assms])

theorem real_main_completes_witness:
  "\<exists>s elms elms2. real_main (350 * 2 ^ 20) 50000000 (boot_heap 4 (2 ^ 63)) = Inr (s, 0) \<and>
     bt_get 12345 s = Inr (Some (of_nat (element_of (350 * 2 ^ 20) elms elms2 12345)))"
proof -
  have "\<exists>s elms elms2. real_main (350 * 2 ^ 20) 50000000 (boot_heap 4 (2 ^ 63)) = Inr (s, 0) \<and>
     (\<forall>k < 350 * 2 ^ 20. bt_get (of_nat k) s = Inr (Some (of_nat (element_of (350 * 2 ^ 20) elms elms2 k))))"
    by (rule real_main_completes [OF boot_heap_ok])
      (simp_all add: room_def boot_heap_def put_cost_def insert_cost_def split_cost_def node_cost_def sizeof_element_def)
  then obtain s elms elms2 where "real_main (350 * 2 ^ 20) 50000000 (boot_heap 4 (2 ^ 63)) = Inr (s, 0)"
    "\<forall>k < 350 * 2 ^ 20. bt_get (of_nat k) s = Inr (Some (of_nat (element_of (350 * 2 ^ 20) elms elms2 k)))"
    by blast
  moreover from this(2) have "bt_get (of_nat 12345) s = Inr (Some (of_nat (element_of (350 * 2 ^ 20) elms elms2 12345)))"
    by (elim allE [of _ 12345]) simp
  ultimately show ?thesis by auto
qed

end
