(* ===== verification/Bpt_Range.thy ===== *)
theory Bpt_Range
  imports Bpt_Store
begin

text \<open>
  Range search and output of the B+ tree benchmark (\<^verbatim>\<open>btree/btree1.c\<close>): the height of the
  tree, the distance of a node from the root, the keys and records between two bounds, and the
  printing of the leaves. What \<^verbatim>\<open>printf\<close> is called with is a list of printed items: numbers
  (\<^verbatim>\<open>%ld\<close>), pointers (\<^verbatim>\<open>%p\<close>) and literal text.
\<close>

section \<open>The code\<close>

datatype printed = Num u64 | Ptr addr | Txt string

text \<open>\<^verbatim>\<open>while (!c->is_leaf) c = c->pointers[0]\<close>, with the count of the steps.\<close>

fun leftmost :: "nat \<Rightarrow> addr \<Rightarrow> nat \<Rightarrow> bheap \<Rightarrow> (addr \<times> nat) result" where
  "leftmost 0 c k h = Inl Out_of_fuel"
| "leftmost (Suc fuel) c k h =
     bindE (get_node h c) (\<lambda>nd.
     if \<not> is_leaf nd then bindE (arr_get (pointers nd) 0) (\<lambda>c. leftmost fuel c (Suc k) h)
     else Inr (c, k))"

definition height :: "nat \<Rightarrow> addr \<Rightarrow> bheap \<Rightarrow> nat result" where
  "height fuel root h = bindE (leftmost fuel root 0 h) (\<lambda>(c, k). Inr k)"

fun path_to_root :: "nat \<Rightarrow> addr \<Rightarrow> addr \<Rightarrow> nat \<Rightarrow> bheap \<Rightarrow> nat result" where
  "path_to_root 0 root c len h = Inl Out_of_fuel"
| "path_to_root (Suc fuel) root c len h =
     (if c \<noteq> root then bindE (get_node h c) (\<lambda>nd. path_to_root fuel root (parent nd) (Suc len) h)
      else Inr len)"

text \<open>
  The inner loop of \<^verbatim>\<open>find_range\<close> copies the keys and pointers of one leaf into the two
  result arrays; the state is \<^verbatim>\<open>num_found\<close> with the arrays.
\<close>

type_synonym found = "nat \<times> u64 list \<times> addr list"

function range_keys :: "bnode \<Rightarrow> u64 \<Rightarrow> nat \<Rightarrow> found \<Rightarrow> found result" where
  "range_keys n key_end i (num_found, rk, rp) =
     (if i < num_keys n then
        bindE (arr_get (keys n) i) (\<lambda>k.
        if k \<le> key_end then
          bindE (arr_set rk num_found k) (\<lambda>rk.
          bindE (arr_get (pointers n) i) (\<lambda>p.
          bindE (arr_set rp num_found p) (\<lambda>rp.
          range_keys n key_end (Suc i) (Suc num_found, rk, rp))))
        else Inr (num_found, rk, rp))
      else Inr (num_found, rk, rp))"
  by pat_completeness auto
termination
  by (relation "measure (\<lambda>(n, key_end, i, st). num_keys n - i)") auto

declare range_keys.simps [simp del]

fun range_leaves :: "nat \<Rightarrow> addr \<Rightarrow> u64 \<Rightarrow> nat \<Rightarrow> bheap \<Rightarrow> found \<Rightarrow> found result" where
  "range_leaves 0 n key_end i h st = Inl Out_of_fuel"
| "range_leaves (Suc fuel) n key_end i h st =
     (if n \<noteq> NULL then
        bindE (get_node h n) (\<lambda>nd.
        bindE (range_keys nd key_end i st) (\<lambda>st.
        bindE (arr_get (pointers nd) (order h - 1)) (\<lambda>n.
        range_leaves fuel n key_end 0 h st)))
      else Inr st)"

definition find_range :: "nat \<Rightarrow> addr \<Rightarrow> u64 \<Rightarrow> u64 \<Rightarrow> u64 list \<Rightarrow> addr list \<Rightarrow> bheap \<Rightarrow> found result" where
  "find_range fuel root key_start key_end rk rp h =
     bindE (find_leaf fuel root key_start h) (\<lambda>n.
     if n = NULL then Inr (0, rk, rp)
     else bindE (get_node h n) (\<lambda>nd.
     bindE (scan (\<lambda>k. k < key_start) (keys nd) (num_keys nd) 0) (\<lambda>i.
     if i = num_keys nd then Inr (0, rk, rp)
     else range_leaves fuel n key_end i h (0, rk, rp))))"

definition find_and_print :: "nat \<Rightarrow> addr \<Rightarrow> u64 \<Rightarrow> bheap \<Rightarrow> printed list result" where
  "find_and_print fuel root key h =
     bindE (find_bpt fuel root key h) (\<lambda>(r, _).
     if r = NULL then Inr [Txt ''Record not found under key '', Num key, Txt ''.'']
     else bindE (get_rec h r) (\<lambda>rc.
     Inr [Txt ''Record at '', Ptr r, Txt '' -- key '', Num key, Txt '', value '', Num (cell rc), Txt ''.'']))"

text \<open>
  The result arrays have variable length, on the stack: length 0 is undefined behaviour, and so are
  arrays that do not fit into the \<open>stack\<close> bytes that are left. Their first
  contents are indeterminate, and the 0 of the model is never read.
\<close>

definition find_and_print_range :: "nat \<Rightarrow> nat \<Rightarrow> addr \<Rightarrow> u64 \<Rightarrow> u64 \<Rightarrow> bheap \<Rightarrow> printed list result" where
  "find_and_print_range stack fuel root key_start key_end h =
     (let array_size = unat (key_end - key_start + 1) in
      if array_size = 0 \<or> stack < array_size * 8 + array_size * 8 then Inl Undefined
      else bindE (find_range fuel root key_start key_end (replicate array_size 0) (replicate array_size NULL) h)
        (\<lambda>(num_found, rk, rp).
        if num_found = 0 then Inr [Txt ''None found.'']
        else foldE (\<lambda>i out.
          bindE (arr_get rk i) (\<lambda>k.
          bindE (arr_get rp i) (\<lambda>p.
          bindE (get_rec h p) (\<lambda>rc.
          Inr (out @ [Txt ''Key: '', Num k, Txt ''   Location: '', Ptr p, Txt ''  Value: '', Num (cell rc)])))))
          [0..<num_found] []))"

definition print_keys :: "bool \<Rightarrow> bnode \<Rightarrow> printed list \<Rightarrow> printed list result" where
  "print_keys verbose nd out = foldE (\<lambda>i out.
     bindE (if verbose then bindE (arr_get (pointers nd) i) (\<lambda>p. Inr (out @ [Ptr p])) else Inr out) (\<lambda>out.
     bindE (arr_get (keys nd) i) (\<lambda>k. Inr (out @ [Num k])))) [0..<num_keys nd] out"

fun print_leaves_loop :: "nat \<Rightarrow> bool \<Rightarrow> addr \<Rightarrow> bheap \<Rightarrow> printed list \<Rightarrow> printed list result" where
  "print_leaves_loop 0 verbose c h out = Inl Out_of_fuel"
| "print_leaves_loop (Suc fuel) verbose c h out =
     bindE (get_node h c) (\<lambda>nd.
     bindE (print_keys verbose nd out) (\<lambda>out.
     bindE (arr_get (pointers nd) (order h - 1)) (\<lambda>p.
     let out = (if verbose then out @ [Ptr p] else out) in
     if p \<noteq> NULL then print_leaves_loop fuel verbose p h (out @ [Txt '' | ''])
     else Inr out)))"

definition print_leaves :: "nat \<Rightarrow> bool \<Rightarrow> addr \<Rightarrow> bheap \<Rightarrow> printed list result" where
  "print_leaves fuel verbose root h =
     (if root = NULL then Inr [Txt ''Empty tree.'']
      else bindE (leftmost fuel root 0 h) (\<lambda>(c, _).
      bindE (print_leaves_loop fuel verbose c h []) (\<lambda>out. Inr (out @ [Txt [CHR 0x0A]]))))"

section \<open>The leaves of a tree\<close>

fun leaves :: "btree \<Rightarrow> (addr \<times> (u64 \<times> addr) list) list" where
  "leaves (Lf p es) = [(p, es)]"
| "leaves (Nd p ks ts) = concat (map leaves ts)"

lemma map_fst_leaves: "map fst (leaves t) = leaf_addrs t"
  by (induction t) (simp_all add: map_concat comp_def cong: map_cong)

lemma contents_leaves: "contents t = concat (map snd (leaves t))"
proof (induction t)
  case (Nd p ks ts)
  then show ?case by (induction ts) simp_all
qed simp

lemma leaves_plug:
  "\<exists>L R. leaves (plug c t) = L @ leaves t @ R \<and> concat (map snd L) = lcont c \<and> concat (map snd R) = rcont c"
proof (induction c t rule: plug.induct)
  case (1 t)
  show ?case by (intro exI [of _ "[]"]) simp
next
  case (2 p ksL tsL ksR tsR c t)
  have cc: "concat (map snd (concat (map leaves ts))) = concat (map contents ts)" for ts
    by (induction ts) (simp_all add: contents_leaves)
  from 2 obtain L R where "leaves (plug c (Nd p (ksL @ ksR) (tsL @ t # tsR)))
      = L @ leaves (Nd p (ksL @ ksR) (tsL @ t # tsR)) @ R" "concat (map snd L) = lcont c" "concat (map snd R) = rcont c"
    by metis
  then show ?case
    by (intro exI [of _ "L @ concat (map leaves tsL)"] exI [of _ "concat (map leaves tsR) @ R"]) (simp add: cc)
qed

definition leaf_at :: "bheap \<Rightarrow> addr \<times> (u64 \<times> addr) list \<Rightarrow> bool" where
  "leaf_at h = (\<lambda>(p, es). \<exists>par nd. nodes h p = Some nd \<and> p \<noteq> NULL \<and>
     node_ok (order h) par True (map fst es) (map snd es) nd)"

lemma repr_leaves: "repr (nodes h) (order h) par t \<Longrightarrow> l \<in> set (leaves t) \<Longrightarrow> leaf_at h l"
proof (induction t arbitrary: par)
  case (Lf p es)
  then show ?case by (auto simp: leaf_at_def elim!: node_atE)
next
  case (Nd p ks ts)
  then show ?case by auto
qed

lemma chain_suffix: "chain N m (as @ bs) \<Longrightarrow> chain N m bs"
proof (induction as)
  case (Cons a as)
  then show ?case by (cases "as @ bs") auto
qed simp

lemma chain_Cons:
  assumes "chain N m (a # as)"
  shows "link N m a = Some (if as = [] then NULL else hd as)" "chain N m as"
  using assms by (cases as; simp)+

section \<open>Range search\<close>

definition filled :: "nat \<Rightarrow> (u64 \<times> addr) list \<Rightarrow> found \<Rightarrow> bool" where
  "filled sz es = (\<lambda>(num, rk, rp). num = length es \<and> length rk = sz \<and> length rp = sz \<and>
     take num rk = map fst es \<and> take num rp = map snd es)"

lemma filled_snoc:
  assumes "filled sz es (num, rk, rp)" and "length es < sz"
  shows "filled sz (es @ [(k, p)]) (Suc num, rk[num := k], rp[num := p])"
  using assms by (auto simp: filled_def take_Suc_conv_app_nth)

lemma leaf_nth:
  assumes "node_ok m par True (map fst es) (map snd es) nd" and "i < length es"
  shows "keys nd ! i = fst (es ! i)" "pointers nd ! i = snd (es ! i)" "i < length (keys nd)" "i < length (pointers nd)"
proof -
  note d = node_okD [OF assms(1)]
  show "keys nd ! i = fst (es ! i)" using arg_cong [OF d(6), of "\<lambda>xs. xs ! i"] assms(2) by simp
  show "pointers nd ! i = snd (es ! i)" using arg_cong [OF d(7), of "\<lambda>xs. xs ! i"] assms(2) by simp
  show "i < length (keys nd)" "i < length (pointers nd)" using d assms(2) by simp_all
qed

lemma range_keys_spec:
  assumes "node_ok m par True (map fst es) (map snd es) nd" and "filled sz acc st" and "i \<le> length es"
    and "length acc + length (takeWhile (\<lambda>e. fst e \<le> b) (drop i es)) \<le> sz"
  shows "\<exists>st'. range_keys nd b i st = Inr st' \<and> filled sz (acc @ takeWhile (\<lambda>e. fst e \<le> b) (drop i es)) st'"
  using assms(2-)
proof (induction "length es - i" arbitrary: i acc st)
  case 0
  then show ?case using node_okD(3) [OF assms(1)] by (cases st) (auto simp: range_keys.simps)
next
  case (Suc x)
  obtain num rk rp where st: "st = (num, rk, rp)" by (cases st)
  have i: "i < length es" and n: "num_keys nd = length es" using Suc.hyps(2) node_okD(3) [OF assms(1)] by simp_all
  note l = leaf_nth [OF assms(1) i]
  have dr: "drop i es = es ! i # drop (Suc i) es" using i by (simp add: Cons_nth_drop_Suc)
  show ?case
  proof (cases "fst (es ! i) \<le> b")
    case True
    have num: "num = length acc" "length rk = sz" "length rp = sz" "num < sz"
      using Suc.prems True by (auto simp: st filled_def dr)
    have "filled sz (acc @ [es ! i]) (Suc num, rk[num := fst (es ! i)], rp[num := snd (es ! i)])"
      using filled_snoc [of sz acc num rk rp "fst (es ! i)" "snd (es ! i)"] Suc.prems num by (simp add: st)
    moreover have "x = length es - Suc i" "Suc i \<le> length es" using Suc.hyps(2) by simp_all
    moreover have "length (acc @ [es ! i]) + length (takeWhile (\<lambda>e. fst e \<le> b) (drop (Suc i) es)) \<le> sz"
      using Suc.prems(3) True by (simp add: dr)
    ultimately obtain st' where
      "range_keys nd b (Suc i) (Suc num, rk[num := fst (es ! i)], rp[num := snd (es ! i)]) = Inr st'"
      "filled sz ((acc @ [es ! i]) @ takeWhile (\<lambda>e. fst e \<le> b) (drop (Suc i) es)) st'"
      using Suc.hyps(1) by blast
    then show ?thesis using True i n l num by (simp add: st range_keys.simps [of nd b i] dr)
  next
    case False
    then show ?thesis using i n l Suc.prems by (simp add: st range_keys.simps [of nd b i] dr)
  qed
qed

lemma range_leaves_spec:
  assumes "\<forall>l \<in> set ls. leaf_at h l" and "chain (nodes h) (order h) (map fst ls)" and "3 \<le> order h"
    and "ls \<noteq> [] \<Longrightarrow> i \<le> length (snd (hd ls))"
    and "filled sz acc st" and "length ls < fuel"
    and "out = (case ls of [] \<Rightarrow> [] | l # ls \<Rightarrow>
      takeWhile (\<lambda>e. fst e \<le> b) (drop i (snd l)) @ concat (map (\<lambda>l. takeWhile (\<lambda>e. fst e \<le> b) (snd l)) ls))"
    and "length acc + length out \<le> sz"
  shows "\<exists>st'. range_leaves fuel (if ls = [] then NULL else fst (hd ls)) b i h st = Inr st' \<and> filled sz (acc @ out) st'"
  using assms(1,2,4-)
proof (induction ls arbitrary: i fuel acc st out)
  case Nil
  then obtain f where "fuel = Suc f" by (cases fuel) auto
  then show ?case using Nil by simp
next
  case (Cons l ls)
  obtain p es where l: "l = (p, es)" by (cases l)
  obtain f where f: "fuel = Suc f" using Cons.prems(5) by (cases fuel) auto
  obtain par nd where nd: "nodes h p = Some nd" "p \<noteq> NULL" "node_ok (order h) par True (map fst es) (map snd es) nd"
    using Cons.prems(1) by (auto simp: l leaf_at_def)
  let ?o = "takeWhile (\<lambda>e. fst e \<le> b) (drop i es)" and ?r = "concat (map (\<lambda>l. takeWhile (\<lambda>e. fst e \<le> b) (snd l)) ls)"
  have out: "out = ?o @ ?r" using Cons.prems(6) by (simp add: l)
  obtain st1 where st1: "range_keys nd b i st = Inr st1" "filled sz (acc @ ?o) st1"
    using range_keys_spec [OF nd(3) Cons.prems(4), of i b] Cons.prems(3,7) by (auto simp: l out)
  note ch = chain_Cons [OF Cons.prems(2) [simplified]]
  have "?r = (case ls of [] \<Rightarrow> [] | l # ls \<Rightarrow>
      takeWhile (\<lambda>e. fst e \<le> b) (drop 0 (snd l)) @ concat (map (\<lambda>l. takeWhile (\<lambda>e. fst e \<le> b) (snd l)) ls))"
    by (cases ls) simp_all
  from Cons.IH [OF _ ch(2) _ st1(2) _ this, of f] obtain st' where
    "range_leaves f (if ls = [] then NULL else fst (hd ls)) b 0 h st1 = Inr st'" "filled sz ((acc @ ?o) @ ?r) st'"
    using Cons.prems f out by auto
  moreover have "pointers nd ! (order h - 1) = (if ls = [] then NULL else fst (hd ls))" "order h - 1 < length (pointers nd)"
    using ch(1) nd(1) node_okD(5) [OF nd(3)] assms(3) by (auto simp: link_def l hd_map)
  ultimately show ?case using st1(1) nd by (simp add: f l out)
qed

lemma takeWhile_le_filter:
  "sorted_wrt (<) (map fst es) \<Longrightarrow> takeWhile (\<lambda>e. fst e \<le> (b :: u64)) es = filter (\<lambda>e. fst e \<le> b) es"
proof (induction es)
  case (Cons e es)
  show ?case
  proof (cases "fst e \<le> b")
    case False
    then have "filter (\<lambda>e. fst e \<le> b) es = []" using Cons.prems by (fastforce simp: filter_empty_conv)
    then show ?thesis using False by simp
  qed (use Cons in simp)
qed simp

lemma dropWhile_less_filter:
  "sorted_wrt (<) (map fst es) \<Longrightarrow> dropWhile (\<lambda>e. fst e < (a :: u64)) es = filter (\<lambda>e. a \<le> fst e) es"
proof (induction es)
  case (Cons e es)
  show ?case
  proof (cases "fst e < a")
    case False
    then have "filter (\<lambda>e. a \<le> fst e) es = es" using Cons.prems by (fastforce simp: filter_id_conv)
    then show ?thesis using False by (simp add: not_less)
  qed (use Cons in \<open>simp add: not_le\<close>)
qed simp

abbreviation in_range :: "u64 \<Rightarrow> u64 \<Rightarrow> u64 \<times> addr \<Rightarrow> bool" where
  "in_range a b e \<equiv> a \<le> fst e \<and> fst e \<le> b"

text \<open>Scanning the leaves from the leaf of the first bound on meets exactly the entries in range.\<close>

lemma range_split:
  assumes "bpt h n t" and "leads_to (order h) a t c p es" and "i = length (takeWhile (\<lambda>e. fst e < a) es)"
  obtains L R where "leaves t = L @ (p, es) # R"
    "filter (in_range a b) (contents t) =
       takeWhile (\<lambda>e. fst e \<le> b) (drop i es) @ concat (map (\<lambda>l. takeWhile (\<lambda>e. fst e \<le> b) (snd l)) R)"
proof -
  have t: "t = plug c (Lf p es)" and lt: "\<forall>x \<in> set (lseq c). x < key_code a" and gt: "\<forall>x \<in> set (rseq c). key_code a < x"
    and cs: "cshape (order h) 0 c" using assms(2) by (auto simp: leads_to_def)
  obtain L R where LR: "leaves t = L @ (p, es) # R" "concat (map snd L) = lcont c" "concat (map snd R) = rcont c"
    using leaves_plug [of c "Lf p es"] t by auto
  have srt: "sorted_wrt (<) (map fst (concat (map snd (leaves t))))"
    using contents_sorted [OF assms(1)] by (simp add: contents_leaves)
  have es: "sorted_wrt (<) (map fst es)" using srt by (simp add: LR(1) sorted_wrt_append)
  have R: "sorted_wrt (<) (map fst (snd l))" if "l \<in> set R" for l
    using srt split_list [OF that] by (auto simp: LR(1) sorted_wrt_append)
  have l: "filter (in_range a b) (lcont c) = []" using lt lcont_lseq [OF cs] by (fastforce simp: filter_empty_conv)
  have "a \<le> fst e" if "e \<in> set (rcont c)" for e using gt rcont_rseq [OF cs that] by (metis code_less(1) less_imp_le)
  then have "filter (in_range a b) (rcont c) = filter (\<lambda>e. fst e \<le> b) (concat (map snd R))"
    unfolding LR(3) by (intro filter_cong) auto
  also have "\<dots> = concat (map (\<lambda>l. takeWhile (\<lambda>e. fst e \<le> b) (snd l)) R)"
    using R by (simp add: filter_concat comp_def takeWhile_le_filter cong: map_cong)
  finally have r: "filter (in_range a b) (rcont c) = concat (map (\<lambda>l. takeWhile (\<lambda>e. fst e \<le> b) (snd l)) R)" .
  have "drop i es = filter (\<lambda>e. a \<le> fst e) es"
    using dropWhile_less_filter [OF es] by (simp add: assms(3) dropWhile_eq_drop)
  moreover have "sorted_wrt (<) (map fst (filter (\<lambda>e. a \<le> fst e) es))"
    using es by (simp add: sorted_wrt_map sorted_wrt_filter)
  ultimately have "takeWhile (\<lambda>e. fst e \<le> b) (drop i es) = filter (in_range a b) es"
    by (simp add: takeWhile_le_filter conj_commute)
  then show thesis using that [OF LR(1)] l r by (simp add: t contents_plug)
qed

lemma find_range_spec:
  assumes "bpt h n t" and "n < fuel" and "length (leaf_addrs t) < fuel" and "length rk = sz" "length rp = sz"
    and "length (filter (in_range a b) (contents t)) \<le> sz"
  shows "\<exists>st c p es nd. leads_to (order h) a t c p es \<and> find_leaf fuel (root_addr t) a h = Inr p \<and>
    nodes h p = Some nd \<and> ((\<exists>i < num_keys nd. a \<le> keys nd ! i) \<longleftrightarrow> (\<exists>e \<in> set es. a \<le> fst e)) \<and>
    find_range fuel (root_addr t) a b rk rp h = Inr st \<and>
    filled sz (if \<exists>e \<in> set es. a \<le> fst e then filter (in_range a b) (contents t) else []) st"
proof -
  obtain c p es where z: "leads_to (order h) a t c p es" "find_leaf fuel (root_addr t) a h = Inr p"
    using find_leaf_leads [OF assms(1,2)] by metis
  have r: "repr (nodes h) (order h) NULL t" "sorted_wrt (<) (keyseq t)" "3 \<le> order h"
    and ch: "chain (nodes h) (order h) (map fst (leaves t))"
    using assms(1) by (auto simp: bpt_def map_fst_leaves)
  obtain nd where nd: "nodes h p = Some nd" "p \<noteq> NULL"
      "node_ok (order h) (hole_parent c) True (map fst es) (map snd es) nd" using leads_to_leaf [OF r(1) z(1)] by metis
  note d = node_okD [OF nd(3)]
  have "keys nd ! j = fst (es ! j)" if "j < length es" for j
    using arg_cong [OF d(6), of "\<lambda>xs. xs ! j"] that by simp
  then have leaf: "(\<exists>i < num_keys nd. a \<le> keys nd ! i) \<longleftrightarrow> (\<exists>e \<in> set es. a \<le> fst e)"
    unfolding d(3) length_map by (metis in_set_conv_nth)
  define i where "i = length (takeWhile (\<lambda>e. fst e < a) es)"
  have sc: "scan (\<lambda>k. k < a) (keys nd) (num_keys nd) 0 = Inr i"
    using d by (simp add: scan_eq i_def takeWhile_map comp_def)
  have "i = length es \<longleftrightarrow> takeWhile (\<lambda>e. fst e < a) es = es"
    unfolding i_def by (metis takeWhile_eq_take take_all_iff le_refl)
  then have "i = length es \<longleftrightarrow> \<not> (\<exists>e \<in> set es. a \<le> fst e)" by (auto simp: takeWhile_eq_all_conv not_le)
  then have i: "i = num_keys nd \<longleftrightarrow> \<not> (\<exists>e \<in> set es. a \<le> fst e)" using d(3) by simp
  show ?thesis
  proof (cases "\<exists>e \<in> set es. a \<le> fst e")
    case True
    obtain L R where LR: "leaves t = L @ (p, es) # R" and out: "filter (in_range a b) (contents t) =
       takeWhile (\<lambda>e. fst e \<le> b) (drop i es) @ concat (map (\<lambda>l. takeWhile (\<lambda>e. fst e \<le> b) (snd l)) R)"
      by (rule range_split [OF assms(1) z(1) i_def, of b])
    have "length (leaf_addrs t) = length (leaves t)" using map_fst_leaves [of t] by (metis length_map)
    then have "length ((p, es) # R) < fuel" using assms(3) by (simp add: LR)
    moreover have "chain (nodes h) (order h) (map fst ((p, es) # R))"
      using ch chain_suffix [of _ _ "map fst L"] by (simp add: LR)
    moreover have "\<forall>l \<in> set ((p, es) # R). leaf_at h l" using repr_leaves [OF r(1)] by (simp add: LR)
    moreover have "filled sz [] (0, rk, rp)" using assms(4,5) by (simp add: filled_def)
    moreover have "i \<le> length (snd (hd ((p, es) # R)))" by (simp add: i_def length_takeWhile_le)
    ultimately have "\<exists>st. range_leaves fuel (if (p, es) # R = [] then NULL else fst (hd ((p, es) # R))) b i h (0, rk, rp) = Inr st \<and>
        filled sz ([] @ filter (in_range a b) (contents t)) st"
      by (intro range_leaves_spec) (use r(3) assms(6) out in simp_all)
    then obtain st where "range_leaves fuel p b i h (0, rk, rp) = Inr st" "filled sz (filter (in_range a b) (contents t)) st" by auto
    then show ?thesis using True z nd leaf sc i
      by (intro exI [of _ st] exI [of _ c] exI [of _ p] exI [of _ es] exI [of _ nd]) (simp add: find_range_def)
  next
    case False
    then show ?thesis using z nd leaf sc i assms(4,5)
      by (intro exI [of _ "(0, rk, rp)"] exI [of _ c] exI [of _ p] exI [of _ es] exI [of _ nd]) (simp add: find_range_def filled_def)
  qed
qed

section \<open>Ranges of the map\<close>

lemma leaves_le_contents:
  assumes "3 \<le> m" and "1 \<le> lo" and "tshape m lo n t"
  shows "length (leaf_addrs t) \<le> length (contents t)"
  using assms(2,3)
proof (induction n arbitrary: lo t)
  case 0
  then show ?case by (cases t) auto
next
  case (Suc n)
  then obtain p ks ts where t: "t = Nd p ks ts" by (cases t) auto
  have "length (leaf_addrs u) \<le> length (contents u)" if "u \<in> set ts" for u
    using Suc.IH [of "min_keys_at m n" u] min_keys_pos [OF assms(1), of n] Suc.prems that t by simp
  then have "length (concat (map leaf_addrs ts)) \<le> length (concat (map contents ts))"
    by (induction ts) (auto intro: add_mono)
  then show ?case by (simp add: t)
qed

lemma amap_entry:
  assumes "bpt h n t" and "(k, r) \<in> set (contents t)"
  obtains rc where "recs h r = Some rc" "amap h t k = Some (cell rc)"
proof -
  have m: "map_of (contents t) k = Some r" using assms(2) contents_bound(1) [OF assms(1)] by (simp add: map_of_is_SomeI)
  obtain rc where "recs h r = Some rc" using contents_rec(2) [OF assms(1) m] by blast
  then show thesis using that m by (simp add: amap_def)
qed

lemma dom_amap: "bpt h n t \<Longrightarrow> dom (amap h t) = fst ` set (contents t)"
proof
  show "dom (amap h t) \<subseteq> fst ` set (contents t)"
    by (force simp: amap_def split: option.splits dest: map_of_SomeD)
qed (auto elim: amap_entry)

lemma sorted_keys_eq:
  assumes "bpt h n t"
  shows "map fst (filter (\<lambda>e. P (fst e)) (contents t)) = sorted_list_of_set {k \<in> dom (amap h t). P k}"
proof (rule strict_sorted_equal)
  show "sorted_wrt (<) (map fst (filter (\<lambda>e. P (fst e)) (contents t)))"
    using contents_sorted [OF assms] by (simp add: sorted_wrt_map sorted_wrt_filter)
  show "set (map fst (filter (\<lambda>e. P (fst e)) (contents t))) = set (sorted_list_of_set {k \<in> dom (amap h t). P k})"
    using dom_amap [OF assms] by (auto simp: finite_subset [OF _ finite])
qed simp

lemma find_range_map:
  assumes "bpt_map h root n M" and "card (dom M) + bpt_fuel \<le> fuel" and "length rp = length rk"
    and "card {k \<in> dom M. a \<le> k \<and> k \<le> b} \<le> length rk"
  obtains num rk' rp' where "find_range fuel root a b rk rp h = Inr (num, rk', rp')" "num \<le> length rk'" "length rp' = length rk'"
    "num = 0 \<or> take num rk' = sorted_list_of_set {k \<in> dom M. a \<le> k \<and> k \<le> b}"
    "\<forall>i < num. \<exists>rc. recs h (rp' ! i) = Some rc \<and> M (rk' ! i) = Some (cell rc)"
    "a \<in> dom M \<and> a \<le> b \<longrightarrow> num \<noteq> 0"
    "root \<noteq> NULL \<Longrightarrow> \<exists>leaf nd. find_leaf fuel root a h = Inr leaf \<and> nodes h leaf = Some nd \<and>
       num = (if \<exists>i < num_keys nd. a \<le> keys nd ! i then card {k \<in> dom M. a \<le> k \<and> k \<le> b} else 0)"
proof -
  consider "root = NULL" "M = Map.empty" | t where "root = root_addr t" "bpt h n t" "M = amap h t"
    using assms(1) by (auto simp: bpt_map_def)
  then show thesis
  proof cases
    case 1
    then show ?thesis using that [of 0 rk rp] assms(3) by (simp add: find_range_def find_leaf_def)
  next
    case 2
    let ?F = "filter (in_range a b) (contents t)"
    have keys: "map fst ?F = sorted_list_of_set {k \<in> dom M. a \<le> k \<and> k \<le> b}"
      using sorted_keys_eq [OF 2(2), of "\<lambda>k. a \<le> k \<and> k \<le> b"] 2(3) by simp
    have "length (contents t) = card (dom M)"
      using contents_bound(1) [OF 2(2)] dom_amap [OF 2(2)] 2(3) by (metis distinct_card length_map set_map)
    moreover have "length (leaf_addrs t) \<le> length (contents t)"
      by (rule leaves_le_contents [of "order h" 1 n]) (use 2(2) in \<open>auto simp: bpt_def\<close>)
    ultimately have "length (leaf_addrs t) < fuel" "n < fuel"
      using assms(2) bpt_map_fuel [OF assms(1)] by (simp_all add: bpt_fuel_def)
    moreover have "length ?F \<le> length rk" using assms(4) arg_cong [OF keys, of length] by simp
    ultimately obtain st c p es nd where st: "leads_to (order h) a t c p es" "find_range fuel root a b rk rp h = Inr st"
        "filled (length rk) (if \<exists>e \<in> set es. a \<le> fst e then ?F else []) st"
      and leaf: "find_leaf fuel root a h = Inr p" "nodes h p = Some nd"
        "(\<exists>i < num_keys nd. a \<le> keys nd ! i) \<longleftrightarrow> (\<exists>e \<in> set es. a \<le> fst e)"
      using find_range_spec [OF 2(2), of fuel rk "length rk" rp a b] assms(3) unfolding 2(1) by blast
    obtain num rk' rp' where s: "st = (num, rk', rp')" by (cases st)
    let ?E = "if \<exists>e \<in> set es. a \<le> fst e then ?F else []"
    have f: "num = length ?E" "length rk' = length rk" "length rp' = length rk" "take num rk' = map fst ?E" "take num rp' = map snd ?E"
      using st(3) unfolding s filled_def prod.case by blast+
    have "length ?F = card {k \<in> dom M. a \<le> k \<and> k \<le> b}" using arg_cong [OF keys, of length] by simp
    then have "num = (if \<exists>i < num_keys nd. a \<le> keys nd ! i then card {k \<in> dom M. a \<le> k \<and> k \<le> b} else 0)"
      using f(1) unfolding leaf(3) by simp
    then have at_leaf: "\<exists>leaf nd. find_leaf fuel root a h = Inr leaf \<and> nodes h leaf = Some nd \<and>
       num = (if \<exists>i < num_keys nd. a \<le> keys nd ! i then card {k \<in> dom M. a \<le> k \<and> k \<le> b} else 0)"
      using leaf(1,2) by blast
    show ?thesis
    proof (rule that [of num rk' rp'])
      show "num \<le> length rk'" using f(1,2) \<open>length ?F \<le> length rk\<close> by simp
      show "num = 0 \<or> take num rk' = sorted_list_of_set {k \<in> dom M. a \<le> k \<and> k \<le> b}" using f(1,4) keys by auto
      show "\<forall>i < num. \<exists>rc. recs h (rp' ! i) = Some rc \<and> M (rk' ! i) = Some (cell rc)"
      proof (intro allI impI)
        fix i assume i: "i < num"
        have "rk' ! i = fst (?E ! i)" "rp' ! i = snd (?E ! i)"
          using arg_cong [OF f(4), of "\<lambda>xs. xs ! i"] arg_cong [OF f(5), of "\<lambda>xs. xs ! i"] i f(1) by simp_all
        moreover have "?E ! i \<in> set (contents t)" using nth_mem [of i ?E] i f(1) by (auto split: if_splits)
        ultimately have "(rk' ! i, rp' ! i) \<in> set (contents t)" by simp
        from amap_entry [OF 2(2) this] show "\<exists>rc. recs h (rp' ! i) = Some rc \<and> M (rk' ! i) = Some (cell rc)"
          unfolding 2(3) by metis
      qed
      show "a \<in> dom M \<and> a \<le> b \<longrightarrow> num \<noteq> 0"
      proof
        assume a: "a \<in> dom M \<and> a \<le> b"
        then obtain r where r: "(a, r) \<in> set (contents t)" using dom_amap [OF 2(2)] 2(3) by auto
        then have "map_of es a = Some r"
          using leads_to_map_of [OF st(1)] contents_bound(1) [OF 2(2)] by (simp add: map_of_is_SomeI)
        then have "(a, r) \<in> set es" by (rule map_of_SomeD)
        then have "\<exists>e \<in> set es. a \<le> fst e" by force
        moreover have "(a, r) \<in> set ?F" using r a by simp
        ultimately have "num = length ?F" "?F \<noteq> []" using f(1) by (simp_all only: if_True) (metis empty_iff list.set(1))
        then show "num \<noteq> 0" by simp
      qed
    qed (use st(2) s f at_leaf in auto)
  qed
qed

text \<open>The number of 64-bit words between two bounds, as the code computes it.\<close>

lemma array_size:
  fixes a b :: u64
  assumes "a \<le> b" and "\<not> (a = 0 \<and> b = -1)"
  shows "unat (b - a + 1) = Suc (unat b - unat a)"
proof -
  have ab: "unat (b - a) = unat b - unat a" using assms(1) by (simp add: unat_sub)
  have lt: "unat b < 2 ^ 64" using unsigned_less [of b] by simp
  have "Suc (unat b - unat a) < 2 ^ 64"
  proof (rule ccontr)
    assume "\<not> Suc (unat b - unat a) < 2 ^ 64"
    then have z: "unat a = 0" "unat b = 2 ^ 64 - 1" using lt by (simp_all add: not_less)
    have "b = of_nat (unat b)" by simp
    then have "b = -1" unfolding z(2) by simp
    then show False using z(1) assms(2) by (simp add: unat_eq_zero)
  qed
  then show ?thesis by (simp add: unat_word_ariths ab)
qed

lemma card_range: "card {k \<in> A. (a :: u64) \<le> k \<and> k \<le> b} \<le> Suc (unat b - unat a)"
proof -
  have "unat ` {k \<in> A. a \<le> k \<and> k \<le> b} \<subseteq> {unat a..unat b}" by (auto simp: word_le_nat_alt)
  then have "card (unat ` {k \<in> A. a \<le> k \<and> k \<le> b}) \<le> card {unat a..unat b}" by (rule card_mono [rotated]) simp
  moreover have "card (unat ` {k \<in> A. a \<le> k \<and> k \<le> b}) = card {k \<in> A. a \<le> k \<and> k \<le> b}"
    by (rule card_image) (auto intro: inj_onI simp: word_unat_eq_iff)
  moreover have "\<not> unat a \<le> unat b \<Longrightarrow> {k \<in> A. a \<le> k \<and> k \<le> b} = {}" by (auto simp: word_le_nat_alt)
  ultimately show ?thesis by (cases "unat a \<le> unat b") (simp_all del: Collect_empty_eq)
qed

text \<open>The numbers that are printed.\<close>

fun nums :: "printed list \<Rightarrow> u64 list" where
  "nums [] = []"
| "nums (Num x # out) = x # nums out"
| "nums (p # out) = nums out"

lemma nums_append [simp]: "nums (xs @ ys) = nums xs @ nums ys"
  by (induction xs rule: nums.induct) simp_all

section \<open>Height, depth and leaves\<close>

lemma leftmost_spec:
  assumes "repr (nodes h) m par t" and "tshape m lo n t" and "n < fuel"
  shows "leftmost fuel (root_addr t) k h = Inr (hd (leaf_addrs t), k + n) \<and> leaf_addrs t \<noteq> []"
  using assms
proof (induction n arbitrary: t par lo fuel k)
  case 0
  then obtain f where "fuel = Suc f" by (cases fuel) auto
  then show ?case using 0 by (cases t) (auto elim!: node_atE dest: node_okD simp: get_node_def)
next
  case (Suc n)
  obtain p ks ts where t: "t = Nd p ks ts" using Suc.prems(2) by (cases t) auto
  obtain f where f: "fuel = Suc f" "n < f" using Suc.prems(3) by (cases fuel) auto
  obtain u us where ts: "ts = u # us" using Suc.prems(2) t by (cases ts) auto
  obtain nd where nd: "nodes h p = Some nd" "node_ok m par False ks (map root_addr ts) nd"
    using Suc.prems(1) t by (auto elim: node_atE)
  note d = node_okD [OF nd(2)]
  have "pointers nd ! 0 = root_addr u" using arg_cong [OF d(7), of "\<lambda>xs. xs ! 0"] ts by simp
  moreover have "0 < length (pointers nd)" using d(5,9) ts by simp
  moreover have "leftmost f (root_addr u) (Suc k) h = Inr (hd (leaf_addrs u), Suc k + n) \<and> leaf_addrs u \<noteq> []"
    by (rule Suc.IH [of p _ "min_keys_at m n"]) (use Suc.prems t ts f in auto)
  ultimately show ?case using nd(1) d(1) by (simp add: f(1) t ts get_node_def)
qed

lemma height_of_tree:
  assumes "bpt h n t"
  shows "height bpt_fuel (root_addr t) h = Inr n"
proof -
  have "n < bpt_fuel" using contents_bound(4) [OF assms] by (simp add: bpt_fuel_def)
  then show ?thesis using leftmost_spec [of h "order h" NULL t 1 n bpt_fuel 0] assms by (simp add: height_def bpt_def)
qed

lemma path_plug:
  assumes "crepr (nodes h) m c (root_addr u)" and "repr (nodes h) m (hole_parent c) u"
    and "root_addr (plug c u) \<notin> set (butlast (root_addr u # map (\<lambda>f. case f of Fr p _ _ _ _ \<Rightarrow> p) c))" and "length c < fuel"
  shows "path_to_root fuel (root_addr (plug c u)) (root_addr u) k h = Inr (k + length c)"
  using assms
proof (induction c arbitrary: u fuel k)
  case Nil
  then obtain f where "fuel = Suc f" by (cases fuel) auto
  then show ?case by simp
next
  case (Cons fr c)
  obtain p ksL tsL ksR tsR where fr: "fr = Fr p ksL tsL ksR tsR" by (cases fr)
  obtain f where f: "fuel = Suc f" using Cons.prems(4) by (cases fuel) auto
  let ?u = "Nd p (ksL @ ksR) (tsL @ u # tsR)"
  obtain nd where nd: "nodes h (root_addr u) = Some nd" "parent nd = p"
    using Cons.prems(2) by (cases u) (auto simp: fr elim!: node_atE dest: node_okD)
  have "path_to_root f (root_addr (plug c ?u)) (root_addr ?u) (Suc k) h = Inr (Suc k + length c)"
    by (rule Cons.IH) (use Cons.prems fr f in \<open>auto split: if_splits\<close>)
  moreover have "root_addr u \<noteq> root_addr (plug c ?u)" using Cons.prems(3) by (auto simp: fr)
  ultimately show ?case using nd by (simp add: fr f get_node_def)
qed

lemma print_keys_spec:
  assumes "node_ok m par True (map fst es) (map snd es) nd"
  shows "\<exists>out'. print_keys v nd out = Inr out' \<and> nums out' = nums out @ map fst es"
proof -
  have "\<exists>out'. print_keys v nd out = Inr out' \<and> nums out' = nums out @ map fst (take (length es) es)"
    unfolding print_keys_def node_okD(3) [OF assms] length_map
  proof (rule foldE_upt_inv)
    fix i o1 assume "i < length es" "nums o1 = nums out @ map fst (take i es)"
    then show "\<exists>o2. bindE (if v then bindE (arr_get (pointers nd) i) (\<lambda>p. Inr (o1 @ [Ptr p])) else Inr o1)
        (\<lambda>out. bindE (arr_get (keys nd) i) (\<lambda>k. Inr (out @ [Num k]))) = Inr o2 \<and>
        nums o2 = nums out @ map fst (take (Suc i) es)"
      using leaf_nth [OF assms] by (cases v) (simp_all add: take_Suc_conv_app_nth)
  qed simp_all
  then show ?thesis by simp
qed

lemma print_leaves_loop_spec:
  assumes "\<forall>l \<in> set (l0 # ls). leaf_at h l" and "chain (nodes h) (order h) (map fst (l0 # ls))" and "3 \<le> order h"
    and "length ls < fuel"
  shows "\<exists>out'. print_leaves_loop fuel v (fst l0) h out = Inr out' \<and>
    nums out' = nums out @ map fst (concat (map snd (l0 # ls)))"
  using assms(1,2,4)
proof (induction ls arbitrary: l0 fuel out)
  case Nil
  obtain p es where l: "l0 = (p, es)" by (cases l0)
  obtain f where f: "fuel = Suc f" using Nil.prems(3) by (cases fuel) auto
  obtain par nd where nd: "nodes h p = Some nd" "node_ok (order h) par True (map fst es) (map snd es) nd"
    using Nil.prems(1) by (auto simp: l leaf_at_def)
  obtain o1 where "print_keys v nd out = Inr o1" "nums o1 = nums out @ map fst es"
    using print_keys_spec [OF nd(2)] by blast
  moreover have "pointers nd ! (order h - 1) = NULL" "order h - 1 < length (pointers nd)"
    using Nil.prems(2) nd(1) node_okD(5) [OF nd(2)] assms(3) by (auto simp: link_def l)
  ultimately show ?case using nd(1) by (simp add: f l get_node_def Let_def)
next
  case (Cons l1 ls)
  obtain p es where l: "l0 = (p, es)" by (cases l0)
  obtain f where f: "fuel = Suc f" using Cons.prems(3) by (cases fuel) auto
  obtain par nd where nd: "nodes h p = Some nd" "node_ok (order h) par True (map fst es) (map snd es) nd"
    using Cons.prems(1) by (auto simp: l leaf_at_def)
  obtain o1 where o1: "print_keys v nd out = Inr o1" "nums o1 = nums out @ map fst es"
    using print_keys_spec [OF nd(2)] by blast
  have p1: "pointers nd ! (order h - 1) = fst l1" "order h - 1 < length (pointers nd)" "fst l1 \<noteq> NULL"
    using Cons.prems(1,2) nd(1) node_okD(5) [OF nd(2)] assms(3) by (auto simp: link_def l leaf_at_def split: prod.splits)
  define o2 where "o2 = (if v then o1 @ [Ptr (fst l1)] else o1) @ [Txt '' | '']"
  have "\<exists>out'. print_leaves_loop f v (fst l1) h o2 = Inr out' \<and> nums out' = nums o2 @ map fst (concat (map snd (l1 # ls)))"
    by (rule Cons.IH) (use Cons.prems f in auto)
  moreover have "nums o2 = nums out @ map fst es" using o1(2) by (simp add: o2_def)
  ultimately show ?case using nd(1) o1(1) p1 by (auto simp: f l get_node_def Let_def o2_def)
qed

lemma root_addr_plug: "root_addr (plug c u) = last (root_addr u # map (\<lambda>f. case f of Fr p _ _ _ _ \<Rightarrow> p) c)"
  by (induction c u rule: plug.induct) simp_all

lemma frame_addrs: "distinct (caddrs c) \<Longrightarrow> distinct (map (\<lambda>f. case f of Fr p _ _ _ _ \<Rightarrow> p) c) \<and>
    set (map (\<lambda>f. case f of Fr p _ _ _ _ \<Rightarrow> p) c) \<subseteq> set (caddrs c)"
  by (induction c rule: caddrs.induct) auto

lemma last_notin_butlast: "distinct xs \<Longrightarrow> xs \<noteq> [] \<Longrightarrow> last xs \<notin> set (butlast xs)"
  by (induction xs) auto

lemma leaf_depth:
  assumes "bpt h n t"
  shows "\<exists>p. find_leaf bpt_fuel (root_addr t) k h = Inr p \<and> path_to_root bpt_fuel (root_addr t) p 0 h = Inr n"
proof -
  have n: "n < bpt_fuel" using contents_bound(4) [OF assms] by (simp add: bpt_fuel_def)
  obtain c p es where z: "leads_to (order h) k t c p es" "length c = n" "find_leaf bpt_fuel (root_addr t) k h = Inr p"
    by (rule find_leaf_leads [OF assms n, of k])
  have t: "t = plug c (Lf p es)" using z(1) by (simp add: leads_to_def)
  have r: "crepr (nodes h) (order h) c p" "repr (nodes h) (order h) (hole_parent c) (Lf p es)"
    and d: "distinct (caddrs c @ [p])"
    using assms unfolding bpt_def t repr_plug addrs_plug_distinct by simp_all
  have "distinct (p # map (\<lambda>f. case f of Fr p _ _ _ _ \<Rightarrow> p) c)" using d frame_addrs [of c] by auto
  from last_notin_butlast [OF this] have "root_addr t \<notin> set (butlast (p # map (\<lambda>f. case f of Fr p _ _ _ _ \<Rightarrow> p) c))"
    unfolding t root_addr_plug root_addr.simps by blast
  then have "path_to_root bpt_fuel (root_addr t) p 0 h = Inr (0 + length c)"
    using path_plug [of h "order h" c "Lf p es" bpt_fuel 0] r n z(2) by (simp add: t)
  then show ?thesis using z(2,3) by simp
qed

lemma dom_gap: "dom (amap gap_heap gap_tree) = {1, 2, 30, 40}"
  by (simp add: dom_amap [OF gap_bpt]) (auto simp: gap_tree_def)

section \<open>Properties\<close>

text \<open>
  C30. Printing a range, from a bound that is not above the other and when the stack has room for
  its two result arrays of \<open>b - a + 1\<close> words each: the result arrays never overflow,
  and what is printed is all keys of the store in the range in order, each with its value, or
  that none was found; if the lower bound is a key of the store, it is the former.
\<close>

theorem print_range_correct:
  assumes "bpt_map h root n M" and "card (dom M) + bpt_fuel \<le> fuel" and "a \<le> b"
    and "16 * Suc (unat b - unat a) \<le> stack" and "stack < 2 ^ 63"
  shows "\<exists>out. find_and_print_range stack fuel root a b h = Inr out \<and>
    (out = [Txt ''None found.''] \<or>
     nums out = concat (map (\<lambda>k. [k, the (M k)]) (sorted_list_of_set {k \<in> dom M. a \<le> k \<and> k \<le> b}))) \<and>
    (a \<in> dom M \<longrightarrow> out \<noteq> [Txt ''None found.''])"
proof -
  let ?sz = "unat (b - a + 1)"
  have "\<not> (a = 0 \<and> b = -1)" 
  proof
    assume ab: "a = 0 \<and> b = -1"
    have "unat (-1 :: u64) = 2 ^ 64 - 1" by (simp add: unsigned_minus_1_eq_mask mask_eq_exp_minus_1)
    then show False using ab assms(4,5) by simp
  qed
  then have sz: "?sz = Suc (unat b - unat a)" by (rule array_size [OF assms(3)])
  then have room: "\<not> (?sz = 0 \<or> stack < ?sz * 8 + ?sz * 8)" using assms(4) by simp
  obtain num rk rp where r: "find_range fuel root a b (replicate ?sz 0) (replicate ?sz NULL) h = Inr (num, rk, rp)"
      "num \<le> length rk" "length rp = length rk" "num = 0 \<or> take num rk = sorted_list_of_set {k \<in> dom M. a \<le> k \<and> k \<le> b}"
      "\<forall>i < num. \<exists>rc. recs h (rp ! i) = Some rc \<and> M (rk ! i) = Some (cell rc)" "a \<in> dom M \<and> a \<le> b \<longrightarrow> num \<noteq> 0"
    by (rule find_range_map [OF assms(1,2), of "replicate ?sz NULL" "replicate ?sz 0" a b]) (use card_range sz in simp_all)
  show ?thesis
  proof (cases "num = 0")
    case True
    then show ?thesis using r(1,6) room assms(3) by (simp add: find_and_print_range_def Let_def)
  next
    case False
    define body where "body = (\<lambda>i out.
          bindE (arr_get rk i) (\<lambda>k. bindE (arr_get rp i) (\<lambda>p. bindE (get_rec h p) (\<lambda>rc.
          Inr (out @ [Txt ''Key: '', Num k, Txt ''   Location: '', Ptr p, Txt ''  Value: '', Num (cell rc)])))))"
    have "\<exists>out. foldE body [0..<num] [] = Inr out \<and>
        (nums out = concat (map (\<lambda>k. [k, the (M k)]) (take num rk)) \<and> (0 < num \<longrightarrow> 1 < length out))"
    proof (rule foldE_upt_inv)
      fix i out assume i: "i < num" and I: "nums out = concat (map (\<lambda>k. [k, the (M k)]) (take i rk)) \<and> (0 < i \<longrightarrow> 1 < length out)"
      obtain rc where "recs h (rp ! i) = Some rc" "M (rk ! i) = Some (cell rc)" using r(5) i by blast
      then show "\<exists>out'. body i out = Inr out' \<and>
          (nums out' = concat (map (\<lambda>k. [k, the (M k)]) (take (Suc i) rk)) \<and> (0 < Suc i \<longrightarrow> 1 < length out'))"
        using i r(2,3) I by (simp add: body_def get_rec_def take_Suc_conv_app_nth)
    qed simp_all
    then obtain out where out: "foldE body [0..<num] [] = Inr out"
        "nums out = concat (map (\<lambda>k. [k, the (M k)]) (take num rk))" "1 < length out" using False by auto
    have "find_and_print_range stack fuel root a b h = Inr out"
      using r(1) room False out(1) by (simp add: find_and_print_range_def body_def)
    then show ?thesis using out r(4) False by auto
  qed
qed

theorem print_range_correct_witness:
  "\<exists>out. find_and_print_range (2 ^ 23) 100 1 2 35 gap_heap = Inr out \<and> nums out = [2, 12, 30, 13]"
proof -
  let ?M = "amap gap_heap gap_tree"
  have c: "card (dom ?M) + bpt_fuel \<le> 100" by (simp add: dom_gap bpt_fuel_def)
  have "{k \<in> dom ?M. 2 \<le> k \<and> k \<le> 35} = {2, 30}" unfolding dom_gap by (auto simp: word_le_nat_alt)
  moreover have "the (?M 2) = 12" "the (?M 30) = 13" by (simp_all add: amap_def gap_tree_def gap_heap_def)
  moreover have "2 \<in> dom ?M" unfolding dom_gap by simp
  ultimately show ?thesis using print_range_correct [OF gap_map c, of 2 35 "2 ^ 23"] by auto
qed

text \<open>
  C31. The leaves are printed from left to right without loss: the numbers that
  \<^verbatim>\<open>print_leaves\<close> prints, verbose or not, are the keys of the store in increasing order.
\<close>

theorem print_leaves_sorted:
  assumes "bpt_map h root n M" and "card (dom M) + bpt_fuel \<le> fuel"
  shows "\<exists>out. print_leaves fuel verbose root h = Inr out \<and> nums out = sorted_list_of_set (dom M)"
proof -
  consider "root = NULL" "M = Map.empty" | t where "root = root_addr t" "bpt h n t" "M = amap h t"
    using assms(1) by (auto simp: bpt_map_def)
  then show ?thesis
  proof cases
    case 1
    then show ?thesis by (simp add: print_leaves_def)
  next
    case 2
    have b: "repr (nodes h) (order h) NULL t" "tshape (order h) 1 n t" "3 \<le> order h"
      "chain (nodes h) (order h) (map fst (leaves t))" using 2(2) by (auto simp: bpt_def map_fst_leaves)
    have "length (contents t) = card (dom M)"
      using contents_bound(1) [OF 2(2)] dom_amap [OF 2(2)] 2(3) by (metis distinct_card length_map set_map)
    then have f: "length (leaves t) < fuel" "n < fuel"
      using leaves_le_contents [OF b(3) _ b(2)] map_fst_leaves [of t, THEN arg_cong, of length] assms(2) bpt_map_fuel [OF assms(1)]
      by (simp_all add: bpt_fuel_def)
    obtain l ls where ls: "leaves t = l # ls"
      using leftmost_spec [OF b(1,2) f(2), of 0] map_fst_leaves [of t] by (cases "leaves t") auto
    have "leftmost fuel root 0 h = Inr (fst l, n)"
      using leftmost_spec [OF b(1,2) f(2), of 0] map_fst_leaves [of t] by (simp add: ls 2(1) flip: map_fst_leaves)
    moreover have "\<forall>x \<in> set (l # ls). leaf_at h x" using repr_leaves [OF b(1)] by (simp add: ls)
    then obtain out where "print_leaves_loop fuel verbose (fst l) h [] = Inr out" "nums out = map fst (contents t)"
      using print_leaves_loop_spec [of l ls h fuel verbose "[]"] b(3,4) f(1) by (auto simp: ls contents_leaves)
    moreover have "map fst (contents t) = sorted_list_of_set (dom M)"
      using sorted_keys_eq [OF 2(2), of "\<lambda>_. True"] 2(3) by simp
    moreover have "root \<noteq> NULL" using repr_root [OF b(1)] 2(1) by simp
    ultimately show ?thesis by (simp add: print_leaves_def)
  qed
qed

theorem print_leaves_sorted_witness:
  "\<exists>out. print_leaves 100 True 1 gap_heap = Inr out \<and> nums out = [1, 2, 30, 40]"
proof -
  have "card (dom (amap gap_heap gap_tree)) + bpt_fuel \<le> 100" by (simp add: dom_gap bpt_fuel_def)
  from print_leaves_sorted [OF gap_map this, of True] show ?thesis unfolding dom_gap by simp
qed

text \<open>
  The tree is balanced as the code measures it: \<^verbatim>\<open>height\<close> returns the height, and from
  the leaf that a search for any key ends in, \<^verbatim>\<open>path_to_root\<close> counts the same number of
  parent pointers up to the root.
\<close>

lemma depth_is_height:
  assumes "bpt_map h root n M" and "M \<noteq> Map.empty"
  shows "height bpt_fuel root h = Inr n \<and>
    (\<exists>p. find_leaf bpt_fuel root k h = Inr p \<and> path_to_root bpt_fuel root p 0 h = Inr n)"
proof -
  obtain t where "root = root_addr t" "bpt h n t" using assms by (auto simp: bpt_map_def)
  then show ?thesis using height_of_tree leaf_depth by simp
qed

text \<open>
  C32. What a search for a range finds depends on the leaf of its lower bound: if that leaf holds a
  key at or above the bound, the search finds every key of the store in the range, and otherwise
  it finds none, although the leaves behind may hold many. So it misses keys exactly when the leaf
  ends below the bound and the range holds a key.
\<close>

theorem find_range_misses:
  assumes "bpt_map h root n M" and "root \<noteq> NULL" and "card (dom M) + bpt_fuel \<le> fuel"
    and "length rp = length rk" and "card {k \<in> dom M. a \<le> k \<and> k \<le> b} \<le> length rk"
  shows "\<exists>leaf nd num rk' rp'. find_leaf fuel root a h = Inr leaf \<and> nodes h leaf = Some nd \<and>
    find_range fuel root a b rk rp h = Inr (num, rk', rp') \<and>
    (if \<forall>i < num_keys nd. keys nd ! i < a then num = 0
     else num = card {k \<in> dom M. a \<le> k \<and> k \<le> b} \<and> take num rk' = sorted_list_of_set {k \<in> dom M. a \<le> k \<and> k \<le> b}) \<and>
    (num < card {k \<in> dom M. a \<le> k \<and> k \<le> b} \<longleftrightarrow>
       (\<forall>i < num_keys nd. keys nd ! i < a) \<and> (\<exists>k \<in> dom M. a \<le> k \<and> k \<le> b))"
proof -
  let ?K = "{k \<in> dom M. a \<le> k \<and> k \<le> b}"
  obtain num rk' rp' where r: "find_range fuel root a b rk rp h = Inr (num, rk', rp')"
    "num = 0 \<or> take num rk' = sorted_list_of_set ?K"
    "\<exists>leaf nd. find_leaf fuel root a h = Inr leaf \<and> nodes h leaf = Some nd \<and>
       num = (if \<exists>i < num_keys nd. a \<le> keys nd ! i then card ?K else 0)"
    by (rule find_range_map [OF assms(1,3,4,5)]) (use assms(2) in blast)
  obtain leaf nd where leaf: "find_leaf fuel root a h = Inr leaf" "nodes h leaf = Some nd"
    "num = (if \<exists>i < num_keys nd. a \<le> keys nd ! i then card ?K else 0)" using r(3) by blast
  have K: "card ?K = 0 \<longleftrightarrow> \<not> (\<exists>k \<in> dom M. a \<le> k \<and> k \<le> b)" by (auto simp: card_eq_0_iff)
  have ends: "(\<forall>i < num_keys nd. keys nd ! i < a) \<longleftrightarrow> \<not> (\<exists>i < num_keys nd. a \<le> keys nd ! i)" by (auto simp: not_le)
  have "take num rk' = sorted_list_of_set ?K" if "num = card ?K"
  proof (cases "num = 0")
    case True
    then have "?K = {}" using that by (simp add: card_eq_0_iff)
    then show ?thesis using True by (simp only: sorted_list_of_set_empty take_0)
  qed (use r(2) in blast)
  note full = this
  have outcome: "(if \<not> P then num = 0 else num = c \<and> T) \<and> (num < c \<longleftrightarrow> \<not> P \<and> E)"
    if "num = (if P then c else 0)" "c = 0 \<longleftrightarrow> \<not> E" "num = c \<Longrightarrow> T" for P E T c
    using that by auto
  show ?thesis
    by (intro exI [of _ leaf] exI [of _ nd] exI [of _ num] exI [of _ rk'] exI [of _ rp'], unfold ends)
      (intro conjI leaf(1,2) r(1) outcome [OF leaf(3) K full, THEN conjunct1] outcome [OF leaf(3) K full, THEN conjunct2])
qed

text \<open>In the range from 10 to 50 the tree holds the keys 30 and 40, and the search finds none.\<close>

theorem find_range_misses_witness:
  "\<exists>rk rp. find_range 100 1 10 50 (replicate 41 0) (replicate 41 NULL) gap_heap = Inr (0, rk, rp) \<and>
     {k \<in> dom (amap gap_heap gap_tree). 10 \<le> k \<and> k \<le> 50} = {30, 40}"
proof -
  have c: "card (dom (amap gap_heap gap_tree)) + bpt_fuel \<le> 100" by (simp add: dom_gap bpt_fuel_def)
  have k: "{k \<in> dom (amap gap_heap gap_tree). 10 \<le> k \<and> k \<le> 50} = {30, 40}" unfolding dom_gap by (auto simp: word_le_nat_alt)
  have "find_leaf (Suc (Suc f)) 1 10 gap_heap = Inr 2" for f
    by (simp add: find_leaf_def gap_heap_def get_node_def scan.simps)
  from this [of 98] have l: "find_leaf 100 1 10 gap_heap = Inr 2" by simp
  have nd: "nodes gap_heap 2 = Some \<lparr>pointers = [101, 102, 0, 3], keys = [1, 2, 0], parent = 1, is_leaf = True, num_keys = 2, nxt = NULL\<rparr>"
    by (simp add: gap_heap_def)
  have "\<forall>i < 2. [1, 2, 0 :: u64] ! i < 10" by (auto simp: less_2_cases_iff)
  then show ?thesis
    using find_range_misses [OF gap_map _ c, of "replicate 41 NULL" "replicate 41 0" 10 50] k l nd by auto
qed

end
