(* ===== verification/Bpt_Print.thy ===== *)
theory Bpt_Print
  imports Bpt_Range
begin

text \<open>
  Printing the whole B+ tree level by level (\<^verbatim>\<open>print_tree\<close> of \<^verbatim>\<open>btree/btree1.c\<close>) with its
  queue of nodes, which is threaded through the \<^verbatim>\<open>next\<close> field of the nodes. The queue is a FIFO
  queue: enqueueing appends to the list of its nodes, dequeueing removes the first one, and
  neither touches anything else of the tree.
\<close>

section \<open>The code\<close>

text \<open>\<^verbatim>\<open>while (c->next != NULL) c = c->next\<close>.\<close>

fun queue_end :: "nat \<Rightarrow> addr \<Rightarrow> bheap \<Rightarrow> addr result" where
  "queue_end 0 c h = Inl Out_of_fuel"
| "queue_end (Suc fuel) c h = bindE (get_node h c) (\<lambda>nd. if nxt nd \<noteq> NULL then queue_end fuel (nxt nd) h else Inr c)"

text \<open>The global \<^verbatim>\<open>queue\<close> is passed along with the heap.\<close>

definition enqueue :: "nat \<Rightarrow> addr \<Rightarrow> addr \<times> bheap \<Rightarrow> (addr \<times> bheap) result" where
  "enqueue fuel new_node = (\<lambda>(queue, h).
     if queue = NULL then bindE (upd_node new_node (\<lambda>nd. nd\<lparr>nxt := NULL\<rparr>) h) (\<lambda>h. Inr (new_node, h))
     else bindE (queue_end fuel queue h) (\<lambda>c.
       bindE (upd_node c (\<lambda>nd. nd\<lparr>nxt := new_node\<rparr>) h) (\<lambda>h.
       bindE (upd_node new_node (\<lambda>nd. nd\<lparr>nxt := NULL\<rparr>) h) (\<lambda>h. Inr (queue, h)))))"

definition dequeue :: "addr \<times> bheap \<Rightarrow> (addr \<times> addr \<times> bheap) result" where
  "dequeue = (\<lambda>(queue, h).
     bindE (get_node h queue) (\<lambda>nd.
     bindE (upd_node queue (\<lambda>nd. nd\<lparr>nxt := NULL\<rparr>) h) (\<lambda>h. Inr (queue, nxt nd, h))))"

text \<open>A node that is the first child of its parent starts a new line if its rank is new.\<close>

definition print_rank :: "nat \<Rightarrow> addr \<Rightarrow> addr \<Rightarrow> bheap \<Rightarrow> nat \<times> printed list \<Rightarrow> (nat \<times> printed list) result" where
  "print_rank fuel root n h = (\<lambda>(rank, out).
     bindE (get_node h n) (\<lambda>nd.
     if parent nd = NULL then Inr (rank, out)
     else bindE (get_node h (parent nd)) (\<lambda>par.
     bindE (arr_get (pointers par) 0) (\<lambda>first.
     if n \<noteq> first then Inr (rank, out)
     else bindE (path_to_root fuel root n 0 h) (\<lambda>new_rank.
     if new_rank \<noteq> rank then Inr (new_rank, out @ [Txt [CHR 0x0A]]) else Inr (rank, out))))))"

fun print_tree_loop :: "nat \<Rightarrow> bool \<Rightarrow> addr \<Rightarrow> addr \<times> bheap \<Rightarrow> nat \<times> printed list \<Rightarrow> (printed list \<times> bheap) result" where
  "print_tree_loop 0 verbose root q st = Inl Out_of_fuel"
| "print_tree_loop (Suc fuel) verbose root q st =
     (if fst q = NULL then Inr (snd st, snd q)
      else bindE (dequeue q) (\<lambda>(n, queue, h).
      bindE (print_rank fuel root n h st) (\<lambda>(rank, out).
      bindE (get_node h n) (\<lambda>nd.
      bindE (print_keys verbose nd (if verbose then out @ [Txt ''('', Ptr n, Txt '')''] else out)) (\<lambda>out.
      bindE (if \<not> is_leaf nd then
               foldE (\<lambda>i q. bindE (arr_get (pointers nd) i) (\<lambda>p. enqueue fuel p q)) [0..<num_keys nd + 1] (queue, h)
             else Inr (queue, h)) (\<lambda>q.
      bindE (if verbose then
               bindE (arr_get (pointers nd) (if is_leaf nd then order h - 1 else num_keys nd)) (\<lambda>p. Inr (out @ [Ptr p]))
             else Inr out) (\<lambda>out.
      print_tree_loop fuel verbose root q (rank, out @ [Txt ''| '']))))))))"

definition print_tree :: "nat \<Rightarrow> bool \<Rightarrow> addr \<Rightarrow> bheap \<Rightarrow> (printed list \<times> bheap) result" where
  "print_tree fuel verbose root h =
     (if root = NULL then Inr ([Txt ''Empty tree.''], h)
      else bindE (enqueue fuel root (NULL, h)) (\<lambda>q.
      bindE (print_tree_loop fuel verbose root q (0, [])) (\<lambda>(out, h). Inr (out @ [Txt [CHR 0x0A]], h))))"

section \<open>The queue\<close>

text \<open>Two heaps that differ in the links of the queue only.\<close>

definition same_but_links :: "bheap \<Rightarrow> bheap \<Rightarrow> bool" where
  "same_but_links h h' \<longleftrightarrow> (\<exists>N. h' = h\<lparr>nodes := N\<rparr> \<and>
     (\<forall>a. map_option (\<lambda>nd. nd\<lparr>nxt := NULL\<rparr>) (N a) = map_option (\<lambda>nd. nd\<lparr>nxt := NULL\<rparr>) (nodes h a)))"

lemma same_but_links_upd:
  assumes "nodes h p = Some nd"
  shows "same_but_links h (put_node p (nd\<lparr>nxt := q\<rparr>) h)"
  using assms by (auto simp: same_but_links_def put_node_def)

lemma same_but_links_trans: "same_but_links h h' \<Longrightarrow> same_but_links h' h'' \<Longrightarrow> same_but_links h h''"
  by (auto simp: same_but_links_def)

lemma queue_end_spec:
  assumes "flist (nodes h) q (qs @ [c])" and "length qs < fuel"
  shows "queue_end fuel q h = Inr c \<and> (\<exists>nd. nodes h c = Some nd \<and> nxt nd = NULL)"
  using assms
proof (induction qs arbitrary: q fuel)
  case Nil
  then obtain f where "fuel = Suc f" by (cases fuel) auto
  then show ?case using Nil by (auto simp: get_node_def split: option.splits)
next
  case (Cons x qs)
  obtain f where f: "fuel = Suc f" using Cons.prems(2) by (cases fuel) auto
  obtain nd where nd: "q = x" "x \<noteq> NULL" "nodes h x = Some nd" "flist (nodes h) (nxt nd) (qs @ [c])"
    using Cons.prems(1) by (auto split: option.splits)
  have "nxt nd \<noteq> NULL" using nd(4) by (cases qs) auto
  then show ?case using Cons.IH [OF nd(4), of f] Cons.prems(2) nd f by (simp add: get_node_def)
qed

lemma flist_link:
  assumes "flist N q (qs @ [c])" and "distinct (qs @ [c, n])" and "N c = Some nd" and "N n = Some nd'" and "n \<noteq> NULL"
  shows "flist (N(c \<mapsto> nd\<lparr>nxt := n\<rparr>, n \<mapsto> nd'\<lparr>nxt := NULL\<rparr>)) q (qs @ [c, n])"
  using assms
proof (induction qs arbitrary: q)
  case Nil
  then show ?case by auto
next
  case (Cons x qs)
  then show ?case by (auto split: option.splits)
qed

text \<open>Enqueueing appends, dequeueing takes the first node.\<close>

lemma enqueue_spec:
  assumes "flist (nodes h) q qs" and "distinct qs" and "n \<notin> set qs" and "n \<noteq> NULL" and "nodes h n = Some nd'" and "length qs < fuel"
  shows "\<exists>q' h'. enqueue fuel n (q, h) = Inr (q', h') \<and> flist (nodes h') q' (qs @ [n]) \<and> same_but_links h h'"
proof (cases qs rule: rev_cases)
  case Nil
  then show ?thesis using assms same_but_links_upd [OF assms(5), of NULL]
    by (simp add: enqueue_def upd_node_def get_node_def)
next
  case (snoc xs c)
  obtain nd where nd: "queue_end fuel q h = Inr c" "nodes h c = Some nd"
    using queue_end_spec [of h q xs c fuel] assms(1,6) snoc by auto
  let ?h1 = "put_node c (nd\<lparr>nxt := n\<rparr>) h" let ?h2 = "put_node n (nd'\<lparr>nxt := NULL\<rparr>) ?h1"
  have cn: "c \<noteq> n" using assms(3) snoc by auto
  have "q \<noteq> NULL" using assms(1) snoc by (cases xs) auto
  then have "enqueue fuel n (q, h) = Inr (q, ?h2)"
    using nd assms(5) cn by (simp add: enqueue_def upd_node_def get_node_def)
  moreover have "flist (nodes ?h2) q (qs @ [n])"
    using flist_link [of "nodes h" q xs c n nd nd'] assms(1-5) nd(2) snoc by simp
  moreover have "same_but_links h ?h2"
    by (rule same_but_links_trans [OF same_but_links_upd [OF nd(2)] same_but_links_upd]) (use assms(5) cn in simp)
  ultimately show ?thesis by blast
qed

lemma dequeue_spec:
  assumes "flist (nodes h) q (n # qs)" and "distinct (n # qs)"
  shows "\<exists>q' h'. dequeue (q, h) = Inr (n, q', h') \<and> flist (nodes h') q' qs \<and> same_but_links h h'"
proof -
  obtain nd where nd: "q = n" "nodes h n = Some nd" "flist (nodes h) (nxt nd) qs"
    using assms(1) by (auto split: option.splits)
  have "flist ((nodes h)(n \<mapsto> nd\<lparr>nxt := NULL\<rparr>)) (nxt nd) qs" using nd(3) assms(2) by simp
  then show ?thesis using nd same_but_links_upd [OF nd(2), of NULL] by (simp add: dequeue_def upd_node_def get_node_def)
qed

end
