(* ===== verification/Murmur.thy ===== *)
theory Murmur
  imports Prelude
begin

text \<open>
  MurmurHash3 (\<^verbatim>\<open>hashjoin/murmurhash.c\<close>): the three variants on a buffer of bytes, with
  every read of the buffer checked, and the inverses that show what the mixing steps keep.
\<close>

section \<open>Helpers\<close>

definition rotl32 :: "u32 \<Rightarrow> nat \<Rightarrow> u32" where
  "rotl32 x r = push_bit r x OR drop_bit (32 - r) x"

definition rotl64 :: "u64 \<Rightarrow> nat \<Rightarrow> u64" where
  "rotl64 x r = push_bit r x OR drop_bit (64 - r) x"

definition fmix32 :: "u32 \<Rightarrow> u32" where
  "fmix32 h =
     (let h = h XOR drop_bit 16 h;
          h = h * 0x85ebca6b;
          h = h XOR drop_bit 13 h;
          h = h * 0xc2b2ae35
      in h XOR drop_bit 16 h)"

definition fmix64 :: "u64 \<Rightarrow> u64" where
  "fmix64 k =
     (let k = k XOR drop_bit 33 k;
          k = k * 0xff51afd7ed558ccd;
          k = k XOR drop_bit 33 k;
          k = k * 0xc4ceb9fe1a85ec53
      in k XOR drop_bit 33 k)"

text \<open>
  The little-endian number of the bytes \<open>lo \<le> j < hi\<close> after position \<open>base\<close>: a block, or
  the \<^verbatim>\<open>k ^= tail[j] << ...\<close> statements of the fall-through switch, from the last byte to
  the first.
\<close>

definition gather :: "u8 list \<Rightarrow> nat \<Rightarrow> nat \<Rightarrow> nat \<Rightarrow> 'a::len word result" where
  "gather data base lo hi =
     foldE (\<lambda>j k. bindE (arr_get data (base + j)) (\<lambda>b. Inr (k XOR push_bit (8 * (j - lo)) (ucast b))))
       (rev [lo..<hi]) 0"

definition getblock32 :: "u8 list \<Rightarrow> nat \<Rightarrow> u32 result" where
  "getblock32 data i = gather data (4 * i) 0 4"

definition getblock64 :: "u8 list \<Rightarrow> nat \<Rightarrow> u64 result" where
  "getblock64 data i = gather data (8 * i) 0 8"

definition mix32 :: "u32 \<Rightarrow> u32 \<Rightarrow> nat \<Rightarrow> u32 \<Rightarrow> u32" where
  "mix32 k c r c' = rotl32 (k * c) r * c'"

definition mix64 :: "u64 \<Rightarrow> u64 \<Rightarrow> nat \<Rightarrow> u64 \<Rightarrow> u64" where
  "mix64 k c r c' = rotl64 (k * c) r * c'"

text \<open>
  One group of cases of the switch on the number \<open>n\<close> of tail bytes: when \<open>n\<close> is
  beyond \<open>lo\<close>, the bytes from \<open>lo\<close> on are gathered and mixed into \<open>h\<close>.
\<close>

definition absorb_tail ::
  "u8 list \<Rightarrow> nat \<Rightarrow> nat \<Rightarrow> nat \<Rightarrow> nat \<Rightarrow> ('a::len word \<Rightarrow> 'a word) \<Rightarrow> 'a word \<Rightarrow> 'a word result" where
  "absorb_tail data tail n lo hi mix h =
     (if lo < n then bindE (gather data tail lo (min n hi)) (\<lambda>k. Inr (h XOR mix k)) else Inr h)"

section \<open>The x86 32-bit variant\<close>

definition x86_32_block :: "u8 list \<Rightarrow> nat \<Rightarrow> u32 \<Rightarrow> u32 result" where
  "x86_32_block data i h1 =
     bindE (getblock32 data i) (\<lambda>k1.
     let h1 = h1 XOR mix32 k1 0xcc9e2d51 15 0x1b873593 in
     Inr (rotl32 h1 13 * 5 + 0xe6546b64))"

definition x86_32_tail :: "u8 list \<Rightarrow> nat \<Rightarrow> nat \<Rightarrow> u32 \<Rightarrow> u32 result" where
  "x86_32_tail data tail n h1 = absorb_tail data tail n 0 4 (\<lambda>k1. mix32 k1 0xcc9e2d51 15 0x1b873593) h1"

definition MurmurHash3_x86_32 :: "u8 list \<Rightarrow> nat \<Rightarrow> u32 \<Rightarrow> u32 result" where
  "MurmurHash3_x86_32 data len seed =
     (let nblocks = len div 4 in
      bindE (foldE (x86_32_block data) [0..<nblocks] seed) (\<lambda>h1.
      bindE (x86_32_tail data (nblocks * 4) (len mod 4) h1) (\<lambda>h1.
      Inr (fmix32 (h1 XOR of_nat len)))))"

section \<open>The x86 128-bit variant\<close>

type_synonym quad = "u32 \<times> u32 \<times> u32 \<times> u32"

definition x86_128_block :: "u8 list \<Rightarrow> nat \<Rightarrow> quad \<Rightarrow> quad result" where
  "x86_128_block data i = (\<lambda>(h1, h2, h3, h4).
     bindE (getblock32 data (i * 4 + 0)) (\<lambda>k1.
     bindE (getblock32 data (i * 4 + 1)) (\<lambda>k2.
     bindE (getblock32 data (i * 4 + 2)) (\<lambda>k3.
     bindE (getblock32 data (i * 4 + 3)) (\<lambda>k4.
     let h1 = h1 XOR mix32 k1 0x239b961b 15 0xab0e9789;
         h1 = (rotl32 h1 19 + h2) * 5 + 0x561ccd1b;
         h2 = h2 XOR mix32 k2 0xab0e9789 16 0x38b34ae5;
         h2 = (rotl32 h2 17 + h3) * 5 + 0x0bcaa747;
         h3 = h3 XOR mix32 k3 0x38b34ae5 17 0xa1e38b93;
         h3 = (rotl32 h3 15 + h4) * 5 + 0x96cd1c35;
         h4 = h4 XOR mix32 k4 0xa1e38b93 18 0x239b961b;
         h4 = (rotl32 h4 13 + h1) * 5 + 0x32ac3b17
     in Inr (h1, h2, h3, h4))))))"

definition x86_128_tail :: "u8 list \<Rightarrow> nat \<Rightarrow> nat \<Rightarrow> quad \<Rightarrow> quad result" where
  "x86_128_tail data tail n = (\<lambda>(h1, h2, h3, h4).
     bindE (absorb_tail data tail n 12 16 (\<lambda>k4. mix32 k4 0xa1e38b93 18 0x239b961b) h4) (\<lambda>h4.
     bindE (absorb_tail data tail n 8 12 (\<lambda>k3. mix32 k3 0x38b34ae5 17 0xa1e38b93) h3) (\<lambda>h3.
     bindE (absorb_tail data tail n 4 8 (\<lambda>k2. mix32 k2 0xab0e9789 16 0x38b34ae5) h2) (\<lambda>h2.
     bindE (absorb_tail data tail n 0 4 (\<lambda>k1. mix32 k1 0x239b961b 15 0xab0e9789) h1) (\<lambda>h1.
     Inr (h1, h2, h3, h4))))))"

definition x86_128_final :: "nat \<Rightarrow> quad \<Rightarrow> quad" where
  "x86_128_final len = (\<lambda>(h1, h2, h3, h4).
     let h1 = h1 XOR of_nat len; h2 = h2 XOR of_nat len; h3 = h3 XOR of_nat len; h4 = h4 XOR of_nat len;
         h1 = h1 + h2; h1 = h1 + h3; h1 = h1 + h4;
         h2 = h2 + h1; h3 = h3 + h1; h4 = h4 + h1;
         h1 = fmix32 h1; h2 = fmix32 h2; h3 = fmix32 h3; h4 = fmix32 h4;
         h1 = h1 + h2; h1 = h1 + h3; h1 = h1 + h4;
         h2 = h2 + h1; h3 = h3 + h1; h4 = h4 + h1
     in (h1, h2, h3, h4))"

definition MurmurHash3_x86_128 :: "u8 list \<Rightarrow> nat \<Rightarrow> u32 \<Rightarrow> quad result" where
  "MurmurHash3_x86_128 data len seed =
     (let nblocks = len div 16 in
      bindE (foldE (x86_128_block data) [0..<nblocks] (seed, seed, seed, seed)) (\<lambda>h.
      bindE (x86_128_tail data (nblocks * 16) (len mod 16) h) (\<lambda>h.
      Inr (x86_128_final len h))))"

section \<open>The x64 128-bit variant\<close>

type_synonym pair64 = "u64 \<times> u64"

definition x64_128_block :: "u8 list \<Rightarrow> nat \<Rightarrow> pair64 \<Rightarrow> pair64 result" where
  "x64_128_block data i = (\<lambda>(h1, h2).
     bindE (getblock64 data (i * 2 + 0)) (\<lambda>k1.
     bindE (getblock64 data (i * 2 + 1)) (\<lambda>k2.
     let h1 = h1 XOR mix64 k1 0x87c37b91114253d5 31 0x4cf5ad432745937f;
         h1 = (rotl64 h1 27 + h2) * 5 + 0x52dce729;
         h2 = h2 XOR mix64 k2 0x4cf5ad432745937f 33 0x87c37b91114253d5;
         h2 = (rotl64 h2 31 + h1) * 5 + 0x38495ab5
     in Inr (h1, h2))))"

definition x64_128_tail :: "u8 list \<Rightarrow> nat \<Rightarrow> nat \<Rightarrow> pair64 \<Rightarrow> pair64 result" where
  "x64_128_tail data tail n = (\<lambda>(h1, h2).
     bindE (absorb_tail data tail n 8 16 (\<lambda>k2. mix64 k2 0x4cf5ad432745937f 33 0x87c37b91114253d5) h2) (\<lambda>h2.
     bindE (absorb_tail data tail n 0 8 (\<lambda>k1. mix64 k1 0x87c37b91114253d5 31 0x4cf5ad432745937f) h1) (\<lambda>h1.
     Inr (h1, h2))))"

definition x64_128_final :: "nat \<Rightarrow> pair64 \<Rightarrow> pair64" where
  "x64_128_final len = (\<lambda>(h1, h2).
     let h1 = h1 XOR of_nat len; h2 = h2 XOR of_nat len;
         h1 = h1 + h2;
         h2 = h2 + h1;
         h1 = fmix64 h1; h2 = fmix64 h2;
         h1 = h1 + h2;
         h2 = h2 + h1
     in (h1, h2))"

definition MurmurHash3_x64_128 :: "u8 list \<Rightarrow> nat \<Rightarrow> u32 \<Rightarrow> pair64 result" where
  "MurmurHash3_x64_128 data len seed =
     (let nblocks = len div 16 in
      bindE (foldE (x64_128_block data) [0..<nblocks] (ucast seed, ucast seed)) (\<lambda>h.
      bindE (x64_128_tail data (nblocks * 16) (len mod 16) h) (\<lambda>h.
      Inr (x64_128_final len h))))"

section \<open>Every read is inside the buffer\<close>

lemma gather_ok:
  assumes "hi \<le> lo \<or> base + hi \<le> length data"
  shows "\<exists>k. gather data base lo hi = Inr (k :: 'a::len word)"
proof -
  have "\<exists>k. foldE (\<lambda>j k. bindE (arr_get data (base + j)) (\<lambda>b. Inr (k XOR push_bit (8 * (j - lo)) (ucast b)))) js k0
      = Inr (k :: 'a word)" if "\<forall>j \<in> set js. base + j < length data" for js k0
    using that by (induction js arbitrary: k0) auto
  moreover have "\<forall>j \<in> set (rev [lo..<hi]). base + j < length data" using assms by auto
  ultimately show ?thesis unfolding gather_def by blast
qed

lemma foldE_total: "(\<And>i s. i \<in> set xs \<Longrightarrow> \<exists>s'. f i s = Inr s') \<Longrightarrow> \<exists>s'. foldE f xs s = Inr s'"
proof (induction xs arbitrary: s)
  case (Cons x xs)
  then obtain s1 where "f x s = Inr s1" by (meson list.set_intros(1))
  then show ?case using Cons by simp
qed simp

lemma getblock_ok:
  "4 * Suc i \<le> length data \<Longrightarrow> \<exists>k. getblock32 data i = Inr k"
  "8 * Suc i \<le> length data \<Longrightarrow> \<exists>k. getblock64 data i = Inr k"
  unfolding getblock32_def getblock64_def by (rule gather_ok; simp)+

lemma div_block: "len \<le> n \<Longrightarrow> i < len div b \<Longrightarrow> b * Suc i \<le> (n :: nat)"
  by (metis Suc_leI div_times_less_eq_dividend le_trans mult.commute mult_le_mono1)

lemma absorb_tail_ok:
  assumes "tail + n \<le> length data"
  shows "\<exists>r. absorb_tail data tail n lo hi mix h = Inr (r :: 'a::len word)"
proof -
  have "min n hi \<le> lo \<or> tail + min n hi \<le> length data" using assms by (simp add: min_def)
  from gather_ok [OF this, where 'a = 'a] show ?thesis by (auto simp: absorb_tail_def)
qed

lemma x86_32_total: "len \<le> length data \<Longrightarrow> \<exists>h. MurmurHash3_x86_32 data len seed = Inr h"
proof -
  assume l: "len \<le> length data"
  have "\<exists>h'. x86_32_block data i h = Inr h'" if "i \<in> set [0..<len div 4]" for i h
    using getblock_ok(1) [OF div_block [OF l]] that by (fastforce simp: x86_32_block_def Let_def)
  then obtain h1 where h1: "foldE (x86_32_block data) [0..<len div 4] seed = Inr h1" using foldE_total by metis
  have "len div 4 * 4 + len mod 4 \<le> length data" using l by simp
  then have "\<exists>h. x86_32_tail data (len div 4 * 4) (len mod 4) h1 = Inr h"
    unfolding x86_32_tail_def by (rule absorb_tail_ok)
  then show ?thesis using h1 by (auto simp: MurmurHash3_x86_32_def Let_def)
qed

lemma x86_128_total: "len \<le> length data \<Longrightarrow> \<exists>h. MurmurHash3_x86_128 data len seed = Inr h"
proof -
  assume l: "len \<le> length data"
  have "\<exists>h'. x86_128_block data i h = Inr h'" if "i \<in> set [0..<len div 16]" for i h
  proof -
    have b: "16 * Suc i \<le> length data" using div_block [OF l] that by simp
    then have "\<exists>k. getblock32 data (i * 4 + j) = Inr k" if "j < 4" for j
      by (intro getblock_ok(1)) (use that in simp)
    from this [of 0] this [of 1] this [of 2] this [of 3] show ?thesis
      by (cases h) (auto simp: x86_128_block_def Let_def)
  qed
  then obtain h where h: "foldE (x86_128_block data) [0..<len div 16] (seed, seed, seed, seed) = Inr h"
    using foldE_total by metis
  have t: "len div 16 * 16 + len mod 16 \<le> length data" using l by simp
  obtain h1 h2 h3 h4 where q: "h = (h1, h2, h3, h4)" by (cases h)
  have "\<exists>h'. x86_128_tail data (len div 16 * 16) (len mod 16) h = Inr h'"
    unfolding q x86_128_tail_def prod.case
    using absorb_tail_ok [OF t, of 12 16 _ h4] absorb_tail_ok [OF t, of 8 12 _ h3] absorb_tail_ok [OF t, of 4 8 _ h2]
      absorb_tail_ok [OF t, of 0 4 _ h1] by (fastforce simp: bindE_eq_Inr_iff)
  then obtain h' where "x86_128_tail data (len div 16 * 16) (len mod 16) h = Inr h'" by blast
  then have "MurmurHash3_x86_128 data len seed = Inr (x86_128_final len h')" using h by (simp add: MurmurHash3_x86_128_def Let_def)
  then show ?thesis by blast
qed

lemma x64_128_total: "len \<le> length data \<Longrightarrow> \<exists>h. MurmurHash3_x64_128 data len seed = Inr h"
proof -
  assume l: "len \<le> length data"
  have "\<exists>h'. x64_128_block data i h = Inr h'" if "i \<in> set [0..<len div 16]" for i h
  proof -
    have b: "16 * Suc i \<le> length data" using div_block [OF l] that by simp
    then have "\<exists>k. getblock64 data (i * 2 + j) = Inr k" if "j < 2" for j
      by (intro getblock_ok(2)) (use that in simp)
    from this [of 0] this [of 1] show ?thesis
      by (cases h) (auto simp: x64_128_block_def Let_def)
  qed
  then obtain h where h: "foldE (x64_128_block data) [0..<len div 16] (ucast seed, ucast seed) = Inr h"
    using foldE_total by metis
  have t: "len div 16 * 16 + len mod 16 \<le> length data" using l by simp
  obtain h1 h2 where q: "h = (h1, h2)" by (cases h)
  have "\<exists>h'. x64_128_tail data (len div 16 * 16) (len mod 16) h = Inr h'"
    unfolding q x64_128_tail_def prod.case
    using absorb_tail_ok [OF t, of 8 16 _ h2] absorb_tail_ok [OF t, of 0 8 _ h1] by (fastforce simp: bindE_eq_Inr_iff)
  then obtain h' where "x64_128_tail data (len div 16 * 16) (len mod 16) h = Inr h'" by blast
  then have "MurmurHash3_x64_128 data len seed = Inr (x64_128_final len h')" using h by (simp add: MurmurHash3_x64_128_def Let_def)
  then show ?thesis by blast
qed

section \<open>What the mixing steps keep\<close>

lemma xorshift_undo:
  fixes x :: "'a::len word"
  assumes "LENGTH('a) \<le> 2 * n"
  shows "(x XOR drop_bit n x) XOR drop_bit n (x XOR drop_bit n x) = x"
proof -
  have "drop_bit n (drop_bit n x) = 0"
    using assms by (intro bit_word_eqI) (auto simp: bit_simps dest: bit_imp_le_length)
  then show ?thesis by (simp add: drop_bit_xor xor.assoc)
qed

text \<open>A shift by 13 in 32 bits takes two steps to undo.\<close>

lemma xorshift13_undo:
  fixes x :: u32
  shows "(x XOR drop_bit 13 x) XOR drop_bit 13 (x XOR drop_bit 13 x) XOR drop_bit 26 (x XOR drop_bit 13 x) = x"
proof -
  have "drop_bit 26 (drop_bit 13 x) = 0" by (intro bit_word_eqI) (auto simp: bit_simps dest: bit_imp_le_length)
  then show ?thesis by (simp add: drop_bit_xor xor.assoc xor.left_commute)
qed

lemma rotl64_undo: "0 < r \<Longrightarrow> r < 64 \<Longrightarrow> rotl64 (rotl64 x r) (64 - r) = x"
  unfolding rotl64_def by (rule bit_word_eqI) (auto simp: bit_simps dest: bit_imp_le_length)

definition unfmix32 :: "u32 \<Rightarrow> u32" where
  "unfmix32 h =
     (let h = h XOR drop_bit 16 h;
          h = h * 0x7ed1b41d;
          h = h XOR drop_bit 13 h XOR drop_bit 26 h;
          h = h * 0xa5cb9243
      in h XOR drop_bit 16 h)"

definition unfmix64 :: "u64 \<Rightarrow> u64" where
  "unfmix64 k =
     (let k = k XOR drop_bit 33 k;
          k = k * 0x9cb4b2f8129337db;
          k = k XOR drop_bit 33 k;
          k = k * 0x4f74430c22a54005
      in k XOR drop_bit 33 k)"

lemma mult_undo: "c * d = 1 \<Longrightarrow> x * c * d = (x :: 'a::comm_monoid_mult)"
  by (simp add: mult.assoc)

lemma mult64_undo:
  fixes x :: u64
  shows "x * 0xc4ceb9fe1a85ec53 * 0x9cb4b2f8129337db = x" "x * 0xff51afd7ed558ccd * 0x4f74430c22a54005 = x"
    "x * 0x9cb4b2f8129337db * 0xc4ceb9fe1a85ec53 = x" "x * 0x4f74430c22a54005 * 0xff51afd7ed558ccd = x"
    "x * 0x87c37b91114253d5 * 0xa98409e882ce4d7d = x" "x * 0x4cf5ad432745937f * 0xa81e14edd9de2c7f = x"
  by (rule mult_undo; simp)+

lemma mult32_undo:
  fixes x :: u32
  shows "x * 0xc2b2ae35 * 0x7ed1b41d = x" "x * 0x85ebca6b * 0xa5cb9243 = x"
    "x * 0x7ed1b41d * 0xc2b2ae35 = x" "x * 0xa5cb9243 * 0x85ebca6b = x"
  by (rule mult_undo; simp)+

lemma xorshift33_undo: "(x XOR drop_bit 33 x) XOR drop_bit 33 (x XOR drop_bit 33 x) = (x :: u64)"
  by (rule xorshift_undo) simp

lemma xorshift16_undo: "(x XOR drop_bit 16 x) XOR drop_bit 16 (x XOR drop_bit 16 x) = (x :: u32)"
  by (rule xorshift_undo) simp

lemma fmix64_undo: "unfmix64 (fmix64 k) = k" "fmix64 (unfmix64 k) = k"
  unfolding unfmix64_def fmix64_def Let_def by (simp_all only: xorshift33_undo mult64_undo)

lemma xorshift13_redo:
  fixes x :: u32
  shows "(x XOR drop_bit 13 x XOR drop_bit 26 x) XOR drop_bit 13 (x XOR drop_bit 13 x XOR drop_bit 26 x) = x"
proof -
  have "drop_bit 13 (drop_bit 26 x) = 0" by (intro bit_word_eqI) (auto simp: bit_simps dest: bit_imp_le_length)
  then show ?thesis by (simp add: drop_bit_xor xor.assoc xor.left_commute)
qed

lemma fmix32_undo: "unfmix32 (fmix32 k) = k" "fmix32 (unfmix32 k) = k"
  unfolding unfmix32_def fmix32_def Let_def
  by (simp_all only: xorshift16_undo mult32_undo xorshift13_undo xorshift13_redo)

lemma mix64_undo:
  "rotl64 (mix64 k 0x87c37b91114253d5 31 0x4cf5ad432745937f * 0xa81e14edd9de2c7f) 33 * 0xa98409e882ce4d7d = k"
  using rotl64_undo [of 31 "k * 0x87c37b91114253d5"] unfolding mix64_def by (simp only: mult64_undo) (simp add: mult64_undo)

section \<open>Hashing a 64-bit key\<close>

definition bytes8 :: "u64 \<Rightarrow> u8 list" where
  "bytes8 k = map (\<lambda>i. ucast (drop_bit (8 * i) k)) [0..<8]"

lemma gather_step:
  "push_bit (8 * Suc m) (drop_bit (8 * Suc m) k) XOR push_bit (8 * m) (ucast (ucast (drop_bit (8 * m) k) :: u8))
     = push_bit (8 * m) (drop_bit (8 * m) (k :: u64))"
  by (rule bit_word_eqI) (auto simp: bit_simps dest: bit_imp_le_length)

lemma gather_bytes8: "gather (bytes8 k) 0 0 8 = Inr k"
proof -
  have "foldE (\<lambda>j w. bindE (arr_get (bytes8 k) j) (\<lambda>b. Inr (w XOR push_bit (8 * j) (ucast b)))) (rev [m..<8]) 0
      = Inr (push_bit (8 * m) (drop_bit (8 * m) k))" if "m \<le> 8" for m
    using that
  proof (induction "8 - m" arbitrary: m)
    case 0
    then have "m = 8" by simp
    moreover have "push_bit 64 (drop_bit 64 k) = 0" by (intro bit_word_eqI) (simp add: bit_simps)
    ultimately show ?case by simp
  next
    case (Suc d)
    then have m: "m < 8" "d = 8 - Suc m" "Suc m \<le> 8" by simp_all
    have "rev [m..<8] = rev [Suc m..<8] @ [m]" using m(1) by (simp add: upt_rec [of m])
    moreover have "bytes8 k ! m = ucast (drop_bit (8 * m) k)" "m < length (bytes8 k)" using m by (simp_all add: bytes8_def)
    ultimately show ?case
      using Suc.hyps(1) [OF m(2,3)] gather_step [of m k] by (simp add: foldE_append del: mult_Suc_right)
  qed
  from this [of 0] show ?thesis by (simp add: gather_def)
qed

lemma x64_128_key: "MurmurHash3_x64_128 (bytes8 k) 8 seed
  = Inr (x64_128_final 8 (ucast seed XOR mix64 k 0x87c37b91114253d5 31 0x4cf5ad432745937f, ucast seed))"
  by (simp add: MurmurHash3_x64_128_def x64_128_tail_def absorb_tail_def gather_bytes8)

lemma xor_cancel: "c XOR x = c XOR y \<Longrightarrow> x = (y :: 'a::len word)"
  by (metis xor.assoc xor.left_neutral xor_self_eq)

lemma fmix64_eq: "fmix64 x = fmix64 y \<longleftrightarrow> x = y"
  by (metis fmix64_undo(1))

lemma x64_128_final_inj: "inj (x64_128_final len)"
proof (rule injI)
  fix p q assume eq: "x64_128_final len p = x64_128_final len q"
  obtain a b c d where pq: "p = (a, b)" "q = (c, d)" by (cases p; cases q)
  let ?n = "of_nat len :: u64"
  define f where "f h1 h2 = (h1 XOR ?n) + (h2 XOR ?n)" for h1 h2
  define g where "g h1 h2 = (h2 XOR ?n) + f h1 h2" for h1 h2
  have fin: "x64_128_final len (h1, h2) = (fmix64 (f h1 h2) + fmix64 (g h1 h2),
      fmix64 (g h1 h2) + (fmix64 (f h1 h2) + fmix64 (g h1 h2)))" for h1 h2
    by (simp add: x64_128_final_def Let_def f_def g_def)
  have e: "fmix64 (f a b) + fmix64 (g a b) = fmix64 (f c d) + fmix64 (g c d)" "fmix64 (g a b) = fmix64 (g c d)"
  proof -
    show s: "fmix64 (f a b) + fmix64 (g a b) = fmix64 (f c d) + fmix64 (g c d)"
      using eq unfolding pq fin prod.inject by (rule conjunct1)
    show "fmix64 (g a b) = fmix64 (g c d)" using eq unfolding pq fin prod.inject s by (elim conjE) (rule add_right_imp_eq)
  qed
  then have "fmix64 (f a b) = fmix64 (f c d)" by simp
  then have fg: "f a b = f c d" "g a b = g c d" using e(2) by (simp_all add: fmix64_eq)
  then have "b XOR ?n = d XOR ?n" by (simp add: g_def)
  moreover from this have "a XOR ?n = c XOR ?n" using fg(1) by (simp add: f_def)
  ultimately show "p = q" unfolding pq xor.commute [of _ ?n] by (auto dest: xor_cancel)
qed

section \<open>Properties\<close>

text \<open>
  C13. The three hash functions read only inside the buffer: with a length that does not exceed
  the buffer every one of them returns, whatever the seed, the number of whole blocks and the
  number of tail bytes.
\<close>

theorem murmur_reads_in_bounds:
  assumes "len \<le> length data"
  shows "(\<exists>h. MurmurHash3_x86_32 data len seed = Inr h) \<and> (\<exists>h. MurmurHash3_x86_128 data len seed = Inr h) \<and>
    (\<exists>h. MurmurHash3_x64_128 data len seed = Inr h)"
  using x86_32_total [OF assms] x86_128_total [OF assms] x64_128_total [OF assms] by blast

theorem murmur_reads_in_bounds_witness:
  "19 \<le> length (replicate 19 (7 :: u8)) \<and> (\<exists>h. MurmurHash3_x86_128 (replicate 19 7) 19 42 = Inr h)"
  using murmur_reads_in_bounds [of 19 "replicate 19 (7 :: u8)" 42] by simp

text \<open>
  The finalizers \<^verbatim>\<open>fmix32\<close> and \<^verbatim>\<open>fmix64\<close> lose nothing: \<open>unfmix32\<close>
  and \<open>unfmix64\<close> are their inverses on both sides.
\<close>

lemma fmix_bijective:
  "unfmix32 (fmix32 x) = x \<and> fmix32 (unfmix32 x) = x \<and> unfmix64 (fmix64 y) = y \<and> fmix64 (unfmix64 y) = y"
  using fmix32_undo fmix64_undo by blast

text \<open>
  C14. On the 8-byte keys the hash join uses, \<^verbatim>\<open>MurmurHash3_x64_128\<close> has no collisions:
  for every seed, different 64-bit keys have different 128-bit hashes.
\<close>

theorem murmur_keys_collision_free:
  "MurmurHash3_x64_128 (bytes8 k) 8 seed = MurmurHash3_x64_128 (bytes8 k') 8 seed \<longleftrightarrow> k = k'"
proof
  assume "MurmurHash3_x64_128 (bytes8 k) 8 seed = MurmurHash3_x64_128 (bytes8 k') 8 seed"
  then have "mix64 k 0x87c37b91114253d5 31 0x4cf5ad432745937f = mix64 k' 0x87c37b91114253d5 31 0x4cf5ad432745937f"
    unfolding x64_128_key sum.inject by (drule_tac injD [OF x64_128_final_inj]) (auto dest: xor_cancel)
  then show "k = k'" using mix64_undo by metis
qed simp

end
