(* ===== verification/HashJoin.thy ===== *)
theory HashJoin
  imports Murmur
begin

text \<open>
  The two hash join benchmarks (\<^verbatim>\<open>hashjoin/hashjoin.c\<close>, \<^verbatim>\<open>hashjoin/hashjoin_2.c\<close>):
  the construction of the hash tables and the probe loops, on top of MurmurHash3.
\<close>

section \<open>hashjoin.c\<close>

text \<open>
  A \<^verbatim>\<open>struct htelm\<close> has 64 bytes, of which the program touches the key in the first 8. A
  region of \<open>bytes\<close> bytes is the list of the keys that lie inside it.
\<close>

definition sizeof_htelm :: nat where
  "sizeof_htelm = 64"

definition NUM_REGIONS :: nat where
  "NUM_REGIONS = 4"

text \<open>
  \<^verbatim>\<open>allocate\<close> exits when there is no memory: \<open>granted k bytes\<close> says whether the
  \<open>k\<close>-th request of a run, for that many bytes, is granted. The sizes are \<^verbatim>\<open>size_t\<close>
  and wrap.
\<close>

definition hj_allocate :: "(nat \<Rightarrow> nat \<Rightarrow> bool) \<Rightarrow> nat \<Rightarrow> nat \<Rightarrow> nat result" where
  "hj_allocate granted k bytes = (if granted k bytes then Inr bytes else Inl (Exit 1))"

definition region :: "nat \<Rightarrow> u64 list" where
  "region bytes = replicate ((bytes + sizeof_htelm - 8) div sizeof_htelm) 0"

text \<open>The hash table holds pointers: the number of a region and an index into it.\<close>

record hj_state =
  hashtable :: "(nat \<times> nat) option list"
  htelms :: "u64 list list"

definition build_step :: "nat \<Rightarrow> hj_state \<Rightarrow> hj_state result" where
  "build_step i s =
     bindE (arr_get (htelms s) (i mod NUM_REGIONS)) (\<lambda>hte.
     bindE (arr_set (hashtable s) i (Some (i mod NUM_REGIONS, i div NUM_REGIONS))) (\<lambda>ht.
     bindE (arr_set hte (i div NUM_REGIONS) (of_nat (i + 1))) (\<lambda>hte.
     bindE (arr_set (htelms s) (i mod NUM_REGIONS) hte) (\<lambda>hs.
     Inr (s\<lparr>hashtable := ht, htelms := hs\<rparr>)))))"

definition build_hashtable :: "(nat \<Rightarrow> nat \<Rightarrow> bool) \<Rightarrow> u64 \<Rightarrow> hj_state result" where
  "build_hashtable granted hashsize =
     bindE (hj_allocate granted 0 (unat (hashsize * 8))) (\<lambda>bytes.
     bindE (mapE (\<lambda>i. bindE (hj_allocate granted (1 + i) (unat (hashsize * of_nat sizeof_htelm div of_nat NUM_REGIONS))) (\<lambda>bytes.
       Inr (region bytes))) [0..<NUM_REGIONS]) (\<lambda>htelms.
     foldE build_step [0..<unat hashsize] \<lparr>hashtable = replicate (bytes div 8) None, htelms = htelms\<rparr>))"

text \<open>\<^verbatim>\<open>e = hashtable[i]; if (e && e->key) matches++;\<close>\<close>

definition probe :: "hj_state \<Rightarrow> nat \<Rightarrow> u64 \<Rightarrow> u64 result" where
  "probe s i matches =
     bindE (arr_get (hashtable s) i) (\<lambda>e.
     case e of None \<Rightarrow> Inr matches
     | Some (r, j) \<Rightarrow>
         bindE (arr_get (htelms s) r) (\<lambda>hte.
         bindE (arr_get hte j) (\<lambda>key.
         Inr (if key \<noteq> 0 then matches + 1 else matches))))"

text \<open>
  The keys of \<^verbatim>\<open>table\<close>, whose elements have 128 bytes. The remainder by an empty hash table is undefined.
\<close>

definition sizeof_hj_element :: nat where
  "sizeof_hj_element = 128"

definition probe_step :: "u64 \<Rightarrow> nat \<Rightarrow> u64 list \<Rightarrow> hj_state \<Rightarrow> nat \<Rightarrow> u64 \<Rightarrow> u64 result" where
  "probe_step hashsize nkeys table s i matches =
     (let idx = i mod nkeys in
      bindE (arr_get table idx) (\<lambda>key.
      bindE (MurmurHash3_x64_128 (bytes8 key) 8 42) (\<lambda>(hash0, hash1).
      if hashsize = 0 then Inl Undefined
      else
        bindE (probe s (unat (hash0 mod hashsize)) matches) (\<lambda>matches.
        bindE (probe s (unat (hash1 mod hashsize)) matches) (\<lambda>matches.
        bindE (probe s (unat (push_bit 2 hash0 mod hashsize)) matches) (\<lambda>matches.
        probe s (unat (push_bit 2 hash1 mod hashsize)) matches))))))"

definition hashjoin :: "(nat \<Rightarrow> nat \<Rightarrow> bool) \<Rightarrow> u64 \<Rightarrow> nat \<Rightarrow> nat \<Rightarrow> u64 result" where
  "hashjoin granted hashsize nkeys nlookups =
     bindE (build_hashtable granted hashsize) (\<lambda>s.
     bindE (hj_allocate granted (1 + NUM_REGIONS) (nkeys * sizeof_hj_element)) (\<lambda>bytes.
     bindE (foldE (\<lambda>i table. arr_set table i (of_nat i)) [0..<nkeys] (replicate (bytes div sizeof_hj_element) 0)) (\<lambda>table.
     foldE (probe_step hashsize nkeys table s) [0..<nlookups] 0)))"

section \<open>hashjoin_2.c\<close>

definition L1_HASH_TABLE_SIZE :: nat where
  "L1_HASH_TABLE_SIZE = 4096"

definition L2_HASH_TABLE_SIZE :: nat where
  "L2_HASH_TABLE_SIZE = 512"

text \<open>
  Every second-level table points to the same elements: both branches of the source take
  \<^verbatim>\<open>&htelms[j]\<close>.
\<close>

definition build_l2 :: "nat \<Rightarrow> nat \<Rightarrow> u64 list \<Rightarrow> (nat option list \<times> u64 list) result" where
  "build_l2 bytes l2 elms =
     foldE (\<lambda>j (ht, elms).
       bindE (arr_set ht j (Some j)) (\<lambda>ht.
       bindE (arr_set elms j (of_nat j)) (\<lambda>elms. Inr (ht, elms))))
     [0..<l2] (replicate (bytes div 8) None, elms)"

text \<open>Elements have 129 words; both regions of elements, the table and each second-level table are allocated.\<close>

definition sizeof_htelm_2 :: nat where
  "sizeof_htelm_2 = 1032"

definition build_l1 :: "(nat \<Rightarrow> nat \<Rightarrow> bool) \<Rightarrow> nat \<Rightarrow> nat \<Rightarrow> (nat option list list \<times> u64 list) result" where
  "build_l1 granted l1 l2 =
     bindE (hj_allocate granted 0 (l1 * l2 * sizeof_htelm_2)) (\<lambda>bytes.
     bindE (hj_allocate granted 1 (l1 * l2 * sizeof_htelm_2)) (\<lambda>_.
     bindE (hj_allocate granted 2 (l1 * 8)) (\<lambda>bytes1.
     foldE (\<lambda>i (tables, elms).
       bindE (hj_allocate granted (3 + i) (l2 * 8)) (\<lambda>bytes2.
       bindE (build_l2 bytes2 l2 elms) (\<lambda>(ht, elms).
       bindE (arr_set tables i ht) (\<lambda>tables. Inr (tables, elms)))))
     [0..<l1] (replicate (bytes1 div 8) [], replicate (bytes div sizeof_htelm_2) 0))))"

definition probe2_step ::
  "nat \<Rightarrow> nat \<Rightarrow> nat \<Rightarrow> nat option list list \<Rightarrow> u64 list \<Rightarrow> nat \<Rightarrow> u64 \<Rightarrow> u64 result" where
  "probe2_step l1 l2 nkeys tables elms i matches =
     (let idx = i mod nkeys; key = of_nat (idx mod (l1 * l2)) in
      bindE (MurmurHash3_x64_128 (bytes8 key) 8 42) (\<lambda>(hash0, hash1).
      bindE (arr_get tables (unat (hash0 mod of_nat l1))) (\<lambda>ht.
      bindE (arr_get ht (unat (hash1 mod of_nat l2))) (\<lambda>e.
      case e of None \<Rightarrow> Inl Bad_pointer
      | Some j \<Rightarrow> bindE (arr_get elms j) (\<lambda>key. Inr (if key \<noteq> 0 then matches + 1 else matches))))))"

text \<open>The elements of the data table have 40 bytes.\<close>

definition hashjoin_2 :: "(nat \<Rightarrow> nat \<Rightarrow> bool) \<Rightarrow> nat \<Rightarrow> nat \<Rightarrow> nat \<Rightarrow> nat \<Rightarrow> u64 result" where
  "hashjoin_2 granted l1 l2 nkeys nlookups =
     bindE (build_l1 granted l1 l2) (\<lambda>(tables, elms).
     bindE (hj_allocate granted (3 + l1) (nkeys * 40)) (\<lambda>_.
     foldE (probe2_step l1 l2 nkeys tables elms) [0..<nlookups] 0))"

section \<open>The table of hashjoin.c\<close>

definition built :: "nat \<Rightarrow> nat \<Rightarrow> hj_state \<Rightarrow> bool" where
  "built hashsize n s \<longleftrightarrow> length (hashtable s) = hashsize \<and> length (htelms s) = 4 \<and>
     (\<forall>r < 4. length (htelms s ! r) = (hashsize * 16 + 56) div 64) \<and>
     (\<forall>i < n. hashtable s ! i = Some (i mod 4, i div 4) \<and> htelms s ! (i mod 4) ! (i div 4) = of_nat (i + 1))"

lemma region_index: "i < n \<Longrightarrow> i div 4 < (n * 16 + 56) div (64 :: nat)"
proof -
  assume "i < n"
  then have "64 * Suc (i div 4) \<le> n * 16 + 56" using div_times_less_eq_dividend [of i 4] by simp
  then show ?thesis by (simp add: less_eq_div_iff_mult_less_eq Suc_le_eq [symmetric] mult.commute)
qed

lemma build_step_built:
  assumes "built n i s" and i: "i < n"
  shows "\<exists>s'. build_step i s = Inr s' \<and> built n (Suc i) s'"
proof -
  let ?r = "i mod 4" and ?j = "i div 4"
  let ?s = "s\<lparr>hashtable := (hashtable s)[i := Some (?r, ?j)],
    htelms := (htelms s)[?r := (htelms s ! ?r)[?j := of_nat (i + 1)]]\<rparr>"
  have l: "length (hashtable s) = n" "length (htelms s) = 4" "?r < 4" "?j < length (htelms s ! ?r)"
    using assms region_index by (simp_all add: built_def)
  then have "build_step i s = Inr ?s" using i by (simp add: build_step_def NUM_REGIONS_def)
  moreover have "built n (Suc i) ?s" unfolding built_def
  proof (intro conjI allI impI)
    fix k assume k: "k < Suc i"
    have "k \<noteq> i \<Longrightarrow> k mod 4 = i mod 4 \<Longrightarrow> k div 4 \<noteq> i div 4" by (metis div_mult_mod_eq)
    then show "htelms ?s ! (k mod 4) ! (k div 4) = of_nat (k + 1)" "hashtable ?s ! k = Some (k mod 4, k div 4)"
      using k assms l by (auto simp: built_def nth_list_update less_Suc_eq)
  qed (use assms l in \<open>auto simp: built_def nth_list_update\<close>)
  ultimately show ?thesis by blast
qed

text \<open>The requests for memory of a run, in order.\<close>

definition hj_request :: "u64 \<Rightarrow> nat \<Rightarrow> nat \<Rightarrow> nat" where
  "hj_request hashsize nkeys k =
     (if k = 0 then unat (hashsize * 8) else if k < 5 then unat (hashsize * 64 div 4) else nkeys * 128)"

lemma all_5: "(\<forall>k < 5. P k) \<longleftrightarrow> P 0 \<and> P 1 \<and> P 2 \<and> P 3 \<and> P (4 :: nat)"
  by (auto simp: less_Suc_eq numeral_eq_Suc)

definition hj_start :: "u64 \<Rightarrow> hj_state" where
  "hj_start hashsize = \<lparr>hashtable = replicate (unat (hashsize * 8) div 8) None,
     htelms = replicate 4 (region (unat (hashsize * 64 div 4)))\<rparr>"

lemma build_hashtable_eq: "build_hashtable granted h =
  (if \<forall>k < 5. granted k (hj_request h nkeys k) then foldE build_step [0..<unat h] (hj_start h) else Inl (Exit 1))"
proof -
  have u: "[0..<4] = [0, 1, 2, 3 :: nat]" by (simp add: upt_rec)
  have r: "replicate 4 x = [x, x, x, x]" for x :: "u64 list" by (simp add: numeral_eq_Suc)
  show ?thesis
    unfolding all_5 build_hashtable_def hj_start_def NUM_REGIONS_def sizeof_htelm_def r u
    by (simp add: hj_allocate_def hj_request_def flip: numeral_2_eq_2)
qed

lemma build_hashtable_built:
  assumes "unat h < 2 ^ 58"
  shows "\<exists>s. foldE build_step [0..<unat h] (hj_start h) = Inr s \<and> built (unat h) (unat h) s"
proof (rule foldE_upt_inv [where I = "built (unat h)"])
  have "unat (h * 8) = unat h * 8" "unat (h * 64) = unat h * 64" using assms by (simp_all add: unat_word_ariths)
  moreover from this(2) have "unat (h * 64 div 4) = unat h * 16" by (simp add: unat_div)
  ultimately show "built (unat h) 0 (hj_start h)"
    by (simp add: built_def hj_start_def region_def sizeof_htelm_def ac_simps)
qed (use build_step_built in auto)

text \<open>
  With \<open>2 ^ 58\<close> or more entries the size of the regions wraps, and the last entry lies
  behind its region.
\<close>

definition sized :: "nat \<Rightarrow> nat \<Rightarrow> hj_state \<Rightarrow> bool" where
  "sized L R s \<longleftrightarrow> length (hashtable s) = L \<and> length (htelms s) = 4 \<and> (\<forall>r < 4. length (htelms s ! r) = R)"

lemma build_step_sized:
  assumes "sized L R s"
  shows "build_step i s = Inl Out_of_bounds \<or> (\<exists>s'. build_step i s = Inr s' \<and> sized L R s')"
    "R \<le> i div 4 \<Longrightarrow> build_step i s = Inl Out_of_bounds"
  using assms by (auto simp: build_step_def sized_def NUM_REGIONS_def arr_get_def arr_set_def nth_list_update)

lemma foldE_out_of_bounds:
  assumes "\<And>x s. P s \<Longrightarrow> f x s = Inl Out_of_bounds \<or> (\<exists>s'. f x s = Inr s' \<and> P s')"
    and "x \<in> set xs" "\<And>s. P s \<Longrightarrow> f x s = Inl Out_of_bounds" and "P s"
  shows "foldE f xs s = Inl Out_of_bounds"
  using assms(2,4)
proof (induction xs arbitrary: s)
  case (Cons y ys)
  show ?case
  proof (cases "f y s = Inl Out_of_bounds")
    case False
    then obtain s' where "f y s = Inr s'" "P s'" using assms(1) [OF Cons.prems(2), of y] by blast
    moreover have "x \<noteq> y" using False assms(3) Cons.prems(2) by blast
    ultimately show ?thesis using Cons by simp
  qed simp
qed simp

lemma build_hashtable_wraps:
  assumes "2 ^ 58 \<le> unat h"
  shows "foldE build_step [0..<unat h] (hj_start h) = Inl Out_of_bounds"
proof -
  define n where "n = unat h"
  define R where "R = (unat (h * 64 div 4) + 56) div 64"
  have n: "2 ^ 58 \<le> n" using assms by (simp add: n_def)
  have "unat (h * 64) = n * 64 mod 2 ^ 64" by (simp add: unat_word_ariths n_def)
  also have "\<dots> \<le> n * 64 - 2 ^ 64"
  proof -
    have "n * 64 = (n * 64 - 2 ^ 64) + 2 ^ 64" using n by simp
    then have "n * 64 mod 2 ^ 64 = (n * 64 - 2 ^ 64) mod 2 ^ 64" by (metis mod_add_self2)
    then show ?thesis by simp
  qed
  finally have "unat (h * 64) div 4 \<le> (n * 64 - 2 ^ 64) div 4" by (rule div_le_mono)
  then have "unat (h * 64 div 4) + 56 \<le> n * 16 - 2 ^ 62 + 56" by (simp add: unat_div)
  then have "R \<le> (n * 16 - 2 ^ 62 + 56) div 64" unfolding R_def by (rule div_le_mono)
  also have "\<dots> \<le> (n - 1) div 4" using n by simp
  finally have R: "R \<le> (n - 1) div 4" .
  have "sized (unat (h * 8) div 8) R (hj_start h)"
    by (simp add: sized_def hj_start_def R_def region_def sizeof_htelm_def add.commute)
  moreover have "n - 1 \<in> set [0..<n]" using n by auto
  ultimately show ?thesis unfolding n_def [symmetric]
    using foldE_out_of_bounds [of "sized (unat (h * 8) div 8) R" build_step "n - 1"] build_step_sized R by blast
qed

section \<open>The probes of hashjoin.c\<close>

lemma probe_hit:
  assumes "built n n s" and "k < n" and "n < 2 ^ 64"
  shows "probe s k matches = Inr (matches + 1)"
proof -
  have k: "hashtable s ! k = Some (k mod 4, k div 4)" "htelms s ! (k mod 4) ! (k div 4) = of_nat (k + 1)"
      "length (hashtable s) = n" "length (htelms s) = 4" "length (htelms s ! (k mod 4)) = (n * 16 + 56) div 64"
    using assms by (simp_all add: built_def)
  have "unat (of_nat (k + 1) :: u64) = k + 1" using assms by (simp only: unat_of_nat take_bit_eq_mod) simp
  then have "(of_nat (k + 1) :: u64) \<noteq> 0" by (metis Suc_eq_plus1 nat.simps(3) unat_0)
  then show ?thesis using k assms(2) region_index [OF assms(2)] by (simp add: probe_def)
qed

lemma mod_index: "0 < n \<Longrightarrow> n < 2 ^ 64 \<Longrightarrow> unat (w mod (of_nat n :: u64)) < n"
  by (simp add: unat_mod_distrib unat_of_nat take_bit_eq_mod)

lemma probe_step_hits:
  assumes "built (unat h) (unat h) s" and h: "h \<noteq> 0" and "0 < nkeys" "length table = nkeys"
  shows "probe_step h nkeys table s i matches = Inr (matches + 4)"
proof -
  have n: "0 < unat h" "unat h < 2 ^ 64" using h unsigned_less [of h] by (simp_all add: unat_gt_0)
  have "unat (w mod h) < unat h" for w using mod_index [OF n, of w] by simp
  note hit = probe_hit [OF assms(1) this n(2)]
  have "i mod nkeys < length table" using assms(3,4) by simp
  then show ?thesis using h by (simp add: probe_step_def x64_128_key hit Let_def split: prod.split)
qed

lemma hashjoin_outcome:
  assumes "hashsize \<noteq> 0" and "0 < nkeys"
  shows "hashjoin granted hashsize nkeys nlookups =
    (if \<exists>k < 5. \<not> granted k (hj_request hashsize nkeys k) then Inl (Exit 1)
     else if 2 ^ 58 \<le> unat hashsize then Inl Out_of_bounds
     else if \<not> granted 5 (hj_request hashsize nkeys 5) then Inl (Exit 1)
     else Inr (4 * of_nat nlookups))"
proof -
  note b = build_hashtable_eq [of granted hashsize nkeys]
  have r5: "hj_request hashsize nkeys 5 = nkeys * 128" by (simp add: hj_request_def)
  consider "\<exists>k < 5. \<not> granted k (hj_request hashsize nkeys k)"
    | "\<forall>k < 5. granted k (hj_request hashsize nkeys k)" "2 ^ 58 \<le> unat hashsize"
    | "\<forall>k < 5. granted k (hj_request hashsize nkeys k)" "unat hashsize < 2 ^ 58" by fastforce
  then show ?thesis
  proof cases
    case 1
    then have "build_hashtable granted hashsize = Inl (Exit 1)" unfolding b by auto
    then show ?thesis using 1 by (simp add: hashjoin_def)
  next
    case 2
    then have "build_hashtable granted hashsize = Inl Out_of_bounds" unfolding b using build_hashtable_wraps by simp
    then show ?thesis using 2 by (simp add: hashjoin_def)
  next
    case 3
    then obtain s where s: "build_hashtable granted hashsize = Inr s" "built (unat hashsize) (unat hashsize) s"
      unfolding b using build_hashtable_built by auto
    have "\<exists>t. foldE (\<lambda>i table. arr_set table i (of_nat i)) [0..<nkeys] (replicate nkeys (0 :: u64)) = Inr t \<and> length t = nkeys"
      by (rule foldE_upt_inv [where I = "\<lambda>_ t. length t = nkeys"]) auto
    then obtain t where t: "foldE (\<lambda>i table. arr_set table i (of_nat i)) [0..<nkeys] (replicate nkeys (0 :: u64)) = Inr t"
      "length t = nkeys" by blast
    have "foldE (probe_step hashsize nkeys t s) [0..<m] 0 = Inr (4 * of_nat m)" for m
      by (induction m) (simp_all add: foldE_append probe_step_hits [OF s(2) assms t(2)] algebra_simps)
    then show ?thesis using 3 s(1) t(1)
      by (auto simp: hashjoin_def hj_allocate_def NUM_REGIONS_def sizeof_hj_element_def r5)
  qed
qed

section \<open>The tables and probes of hashjoin_2.c\<close>

definition l2_built :: "nat \<Rightarrow> nat \<Rightarrow> nat option list \<times> u64 list \<Rightarrow> bool" where
  "l2_built l2 n = (\<lambda>(ht, elms). length ht = l2 \<and> l2 \<le> length elms \<and>
     (\<forall>j < n. ht ! j = Some j \<and> elms ! j = of_nat j))"

lemma build_l2_built:
  assumes "l2 \<le> length elms"
  shows "\<exists>ht elms'. build_l2 (l2 * 8) l2 elms = Inr (ht, elms') \<and> length elms' = length elms \<and> l2_built l2 l2 (ht, elms')"
proof -
  have "\<exists>s'. build_l2 (l2 * 8) l2 elms = Inr s' \<and> (l2_built l2 l2 s' \<and> length (snd s') = length elms)"
    unfolding build_l2_def
    by (rule foldE_upt_inv [where I = "\<lambda>i s. l2_built l2 i s \<and> length (snd s) = length elms"])
      (use assms in \<open>auto simp: l2_built_def less_Suc_eq nth_list_update\<close>)
  then show ?thesis by auto
qed

definition l1_built :: "nat \<Rightarrow> nat \<Rightarrow> nat \<Rightarrow> nat option list list \<times> u64 list \<Rightarrow> bool" where
  "l1_built l1 l2 n = (\<lambda>(tables, elms). length tables = l1 \<and> length elms = l1 * l2 \<and>
     (\<forall>i < n. l2_built l2 l2 (tables ! i, elms)))"

lemma l2_built_elms: "l2_built l2 l2 (ht, elms) \<Longrightarrow> l2_built l2 l2 (ht', elms') \<Longrightarrow> l2_built l2 l2 (ht, elms')"
  by (simp add: l2_built_def)

definition h2_request :: "nat \<Rightarrow> nat \<Rightarrow> nat \<Rightarrow> nat \<Rightarrow> nat" where
  "h2_request l1 l2 nkeys k =
     (if k < 2 then l1 * l2 * 1032 else if k = 2 then l1 * 8 else if k < 3 + l1 then l2 * 8 else nkeys * 40)"

lemma build_l1_loop:
  assumes "l1_built l1 l2 0 s0" and "m \<le> l1"
  shows "\<exists>s. foldE (\<lambda>i (tables, elms).
       bindE (hj_allocate granted (3 + i) (l2 * 8)) (\<lambda>bytes2.
       bindE (build_l2 bytes2 l2 elms) (\<lambda>(ht, elms).
       bindE (arr_set tables i ht) (\<lambda>tables. Inr (tables, elms))))) [0..<m] s0
    = (if \<forall>i < m. granted (3 + i) (l2 * 8) then Inr s else Inl (Exit 1)) \<and> l1_built l1 l2 m s"
  using assms(2)
proof (induction m)
  case 0
  then show ?case using assms(1) by (intro exI [of _ s0]) simp
next
  case (Suc i)
  then obtain s where s: "foldE (\<lambda>i (tables, elms).
       bindE (hj_allocate granted (3 + i) (l2 * 8)) (\<lambda>bytes2.
       bindE (build_l2 bytes2 l2 elms) (\<lambda>(ht, elms).
       bindE (arr_set tables i ht) (\<lambda>tables. Inr (tables, elms))))) [0..<i] s0
    = (if \<forall>j < i. granted (3 + j) (l2 * 8) then Inr s else Inl (Exit 1))" and I: "l1_built l1 l2 i s"
    using Suc.IH [OF Suc_leD [OF Suc.prems]] by blast
  obtain tables elms where t: "s = (tables, elms)" by (cases s)
  have "l2 \<le> length elms" using I Suc.prems by (cases l1) (auto simp: t l1_built_def)
  then obtain ht elms' where b: "build_l2 (l2 * 8) l2 elms = Inr (ht, elms')" "length elms' = length elms" "l2_built l2 l2 (ht, elms')"
    using build_l2_built by blast
  have "l1_built l1 l2 (Suc i) (tables[i := ht], elms')"
    using I b Suc.prems l2_built_elms [OF _ b(3)] by (auto simp: t l1_built_def less_Suc_eq nth_list_update)
  moreover have "i < length tables" using I Suc.prems by (simp add: t l1_built_def)
  ultimately show ?case using s b(1)
    by (intro exI [of _ "(tables[i := ht], elms')"]) (auto simp: foldE_append t hj_allocate_def less_Suc_eq)
qed

lemma build_l1_built:
  "\<exists>tables elms. build_l1 granted l1 l2
     = (if \<forall>k < 3 + l1. granted k (h2_request l1 l2 nkeys k) then Inr (tables, elms) else Inl (Exit 1)) \<and>
   l1_built l1 l2 l1 (tables, elms)"
proof -
  have "l1_built l1 l2 0 (replicate l1 [], replicate (l1 * l2) 0)" by (simp add: l1_built_def)
  from build_l1_loop [OF this le_refl, of granted] obtain s where s: "foldE (\<lambda>i (tables, elms).
       bindE (hj_allocate granted (3 + i) (l2 * 8)) (\<lambda>bytes2.
       bindE (build_l2 bytes2 l2 elms) (\<lambda>(ht, elms).
       bindE (arr_set tables i ht) (\<lambda>tables. Inr (tables, elms))))) [0..<l1] (replicate l1 [], replicate (l1 * l2) 0)
    = (if \<forall>i < l1. granted (3 + i) (l2 * 8) then Inr s else Inl (Exit 1))" "l1_built l1 l2 l1 s" by blast
  obtain tables elms where "s = (tables, elms)" by (cases s)
  note t = s [unfolded this]
  have "(\<forall>k < 3 + l1. P k) \<longleftrightarrow> P 0 \<and> P 1 \<and> P 2 \<and> (\<forall>i < l1. P (3 + i))" for P
  proof
    assume P: "P 0 \<and> P 1 \<and> P 2 \<and> (\<forall>i < l1. P (3 + i))"
    show "\<forall>k < 3 + l1. P k"
    proof (intro allI impI)
      fix k assume k: "k < 3 + l1"
      show "P k"
      proof (cases "k < 3")
        case True
        then have "k = 0 \<or> k = 1 \<or> k = 2" by auto
        then show ?thesis using P by blast
      next
        case False
        then have "P (3 + (k - 3))" using P k by (intro P [THEN conjunct2, THEN conjunct2, THEN conjunct2, rule_format]) simp
        then show ?thesis using False by simp
      qed
    qed
  qed simp
  then have "(\<forall>k < 3 + l1. granted k (h2_request l1 l2 nkeys k)) \<longleftrightarrow> granted 0 (l1 * l2 * 1032) \<and>
      granted 1 (l1 * l2 * 1032) \<and> granted 2 (l1 * 8) \<and> (\<forall>i < l1. granted (3 + i) (l2 * 8))"
    by (simp add: h2_request_def)
  then show ?thesis using t
    by (intro exI [of _ tables] exI [of _ elms]) (simp add: build_l1_def hj_allocate_def sizeof_htelm_2_def)
qed

text \<open>The hash of a key, as a total function.\<close>

definition key_hash :: "u64 \<Rightarrow> u64 \<times> u64" where
  "key_hash k = x64_128_final 8 (42 XOR mix64 k 0x87c37b91114253d5 31 0x4cf5ad432745937f, 42)"

lemma key_hash: "MurmurHash3_x64_128 (bytes8 k) 8 42 = Inr (key_hash k)"
  by (simp add: x64_128_key key_hash_def)

definition probe2_hit :: "nat \<Rightarrow> nat \<Rightarrow> nat \<Rightarrow> nat \<Rightarrow> bool" where
  "probe2_hit l1 l2 nkeys i \<longleftrightarrow> snd (key_hash (of_nat (i mod nkeys mod (l1 * l2)))) mod of_nat l2 \<noteq> 0"

lemma probe2_step_eq:
  assumes "l1_built l1 l2 l1 (tables, elms)" and l: "0 < l1" "l1 < 2 ^ 64" "0 < l2" "l2 < 2 ^ 64"
  shows "probe2_step l1 l2 nkeys tables elms i matches = Inr (if probe2_hit l1 l2 nkeys i then matches + 1 else matches)"
proof -
  obtain h0 h1 where h: "key_hash (of_nat (i mod nkeys mod (l1 * l2))) = (h0, h1)" by fastforce
  define a where "a = unat (h0 mod (of_nat l1 :: u64))"
  define b where "b = unat (h1 mod (of_nat l2 :: u64))"
  have ab: "a < l1" "b < l2" unfolding a_def b_def using mod_index l by blast+
  then have "l2_built l2 l2 (tables ! a, elms)" and "length tables = l1" using assms(1) by (auto simp: l1_built_def)
  then have t: "tables ! a ! b = Some b" "length (tables ! a) = l2" "l2 \<le> length elms" "elms ! b = of_nat b"
    using ab(2) by (auto simp: l2_built_def)
  have "(of_nat b :: u64) = h1 mod of_nat l2" by (simp add: b_def)
  then show ?thesis
    using t ab \<open>length tables = l1\<close> unfolding probe2_step_def Let_def key_hash h
    by (simp add: a_def [symmetric] b_def [symmetric] probe2_hit_def h)
qed

lemma hashjoin_2_count:
  assumes "0 < l1" "l1 < 2 ^ 64" "0 < l2" "l2 < 2 ^ 64"
  shows "hashjoin_2 granted l1 l2 nkeys nlookups =
    (if \<forall>k < 4 + l1. granted k (h2_request l1 l2 nkeys k)
     then Inr (of_nat (length (filter (probe2_hit l1 l2 nkeys) [0..<nlookups]))) else Inl (Exit 1))"
proof -
  obtain tables elms where b: "build_l1 granted l1 l2
     = (if \<forall>k < 3 + l1. granted k (h2_request l1 l2 nkeys k) then Inr (tables, elms) else Inl (Exit 1))"
    "l1_built l1 l2 l1 (tables, elms)" using build_l1_built by metis
  have "foldE (probe2_step l1 l2 nkeys tables elms) [0..<m] 0 = Inr (of_nat (length (filter (probe2_hit l1 l2 nkeys) [0..<m])))" for m
    by (induction m) (simp_all add: foldE_append probe2_step_eq [OF b(2) assms])
  moreover have "(\<forall>k < 4 + l1. granted k (h2_request l1 l2 nkeys k)) \<longleftrightarrow>
      (\<forall>k < 3 + l1. granted k (h2_request l1 l2 nkeys k)) \<and> granted (3 + l1) (nkeys * 40)"
  proof -
    have "4 + l1 = Suc (3 + l1)" "h2_request l1 l2 nkeys (3 + l1) = nkeys * 40" by (simp_all add: h2_request_def)
    then show ?thesis by (simp only: All_less_Suc conj_commute)
  qed
  ultimately show ?thesis using b(1) by (auto simp: hashjoin_2_def hj_allocate_def)
qed

section \<open>Properties\<close>

text \<open>
  C15. What the hash join does for every size but 0: it exits with status 1 when one of its
  requests for memory is refused; with \<open>2 ^ 58\<close> or more entries the size of the regions
  wraps and it writes outside them; otherwise, a multiple of the number of regions or not, building the table stays
  inside the four regions, every probe stays inside the table and hits an element with a
  nonzero key, and the printed count is four times the number of lookups (modulo
  \<open>2 ^ 64\<close>).
\<close>

theorem hashjoin_counts_all:
  assumes "hashsize \<noteq> 0" and "0 < nkeys"
  shows "hashjoin granted hashsize nkeys nlookups =
    (if \<exists>k < 5. \<not> granted k (hj_request hashsize nkeys k) then Inl (Exit 1)
     else if 2 ^ 58 \<le> unat hashsize then Inl Out_of_bounds
     else if \<not> granted 5 (hj_request hashsize nkeys 5) then Inl (Exit 1)
     else Inr (4 * of_nat nlookups))"
  by (rule hashjoin_outcome [OF assms])

theorem hashjoin_counts_all_witness:
  "hashjoin (\<lambda>_ _. True) (2 ^ 28) (2 ^ 27) 500000000 = Inr 2000000000 \<and>
   hashjoin (\<lambda>_ _. True) (2 ^ 61) (2 ^ 27) 1 = Inl Out_of_bounds \<and>
   hashjoin (\<lambda>_ bytes. bytes < 2 ^ 32) (2 ^ 28) (2 ^ 27) 1 = Inl (Exit 1)"
proof -
  have r: "\<exists>k < 5. \<not> hj_request (2 ^ 28) (2 ^ 27) k < 2 ^ 32" by (intro exI [of _ 1]) (simp add: hj_request_def)
  show ?thesis
    using hashjoin_counts_all [of "2 ^ 28" "2 ^ 27" "\<lambda>_ _. True" 500000000] hashjoin_counts_all [of "2 ^ 61" "2 ^ 27" "\<lambda>_ _. True" 1]
      hashjoin_counts_all [of "2 ^ 28" "2 ^ 27" "\<lambda>_ bytes. bytes < 2 ^ 32" 1] r by simp
qed

text \<open>
  C16. The two-level hash join counts exactly the lookups whose second hash is not a multiple of
  the size of the second-level tables: the element with index 0 has the key 0, which the probe
  takes for an empty slot. No probe reads outside the tables or through a null pointer; when one
  of its requests for memory is refused, the program exits with status 1.
\<close>

theorem hashjoin_2_counts:
  assumes "0 < l1" "l1 < 2 ^ 64" "0 < l2" "l2 < 2 ^ 64"
  shows "hashjoin_2 granted l1 l2 nkeys nlookups =
    (if \<forall>k < 4 + l1. granted k (h2_request l1 l2 nkeys k)
     then Inr (of_nat (length (filter (probe2_hit l1 l2 nkeys) [0..<nlookups]))) else Inl (Exit 1))"
  by (rule hashjoin_2_count [OF assms])

theorem hashjoin_2_counts_witness:
  "hashjoin_2 (\<lambda>_ _. True) L1_HASH_TABLE_SIZE L2_HASH_TABLE_SIZE (2 ^ 26) 3
    = Inr (of_nat (length (filter (probe2_hit L1_HASH_TABLE_SIZE L2_HASH_TABLE_SIZE (2 ^ 26)) [0..<3])))"
  using hashjoin_2_counts [of L1_HASH_TABLE_SIZE L2_HASH_TABLE_SIZE "\<lambda>_ _. True" "2 ^ 26" 3]
  by (simp add: L1_HASH_TABLE_SIZE_def L2_HASH_TABLE_SIZE_def)

end
