(* ===== verification/Gups.thy ===== *)
theory Gups
  imports Prelude
begin

text \<open>
  The RandomAccess benchmark (\<^verbatim>\<open>gups/gups.c\<close>, \<^verbatim>\<open>gups/gupstoy.c\<close>): the starting
  points of the random streams, the size of the table and the update loop, in the build
  without OpenMP.
\<close>

section \<open>The random stream\<close>

definition POLY :: u64 where
  "POLY = 7"

definition PERIOD :: int where
  "PERIOD = 1317624576693539401"

text \<open>\<^verbatim>\<open>(ran << 1) ^ ((int64_t) ran < 0 ? POLY : 0)\<close>\<close>

definition lfsr :: "u64 \<Rightarrow> u64" where
  "lfsr rnd = push_bit 1 rnd XOR (if bit rnd 63 then POLY else 0)"

function raise_n :: "int \<Rightarrow> int" where
  "raise_n n = (if n < 0 then raise_n (n + PERIOD) else n)"
  by pat_completeness auto
termination
  by (relation "measure (\<lambda>n. nat (- n))") (auto simp: PERIOD_def)

function lower_n :: "int \<Rightarrow> int" where
  "lower_n n = (if n > PERIOD then lower_n (n - PERIOD) else n)"
  by pat_completeness auto
termination
  by (relation "measure nat") (auto simp: PERIOD_def)

declare raise_n.simps [simp del] lower_n.simps [simp del]

definition m2_table :: "u64 list" where
  "m2_table = snd (fold (\<lambda>i (temp, m2). (lfsr (lfsr temp), m2 @ [temp])) [0..<64] (1, []))"

text \<open>The first set bit of \<open>n\<close> at or below position \<open>i - 1\<close>, or -1.\<close>

fun high_bit :: "nat \<Rightarrow> nat \<Rightarrow> int" where
  "high_bit 0 n = - 1"
| "high_bit (Suc i) n = (if bit n i then int i else high_bit i n)"

definition gf_square :: "u64 list \<Rightarrow> u64 \<Rightarrow> u64" where
  "gf_square m2 rnd = fold (\<lambda>j temp. if bit rnd j then temp XOR m2 ! j else temp) [0..<64] 0"

fun starts_loop :: "nat \<Rightarrow> nat \<Rightarrow> u64 \<Rightarrow> u64" where
  "starts_loop 0 n rnd = rnd"
| "starts_loop (Suc i) n rnd =
     (let rnd = gf_square m2_table rnd;
          rnd = (if bit n i then lfsr rnd else rnd)
      in starts_loop i n rnd)"

definition HPCC_starts :: "int \<Rightarrow> u64" where
  "HPCC_starts n =
     (let n = lower_n (raise_n n) in
      if n = 0 then 1 else starts_loop (nat (high_bit 63 (nat n))) (nat n) 2)"

section \<open>The table\<close>

text \<open>The largest power of two that is not above \<open>mem\<close>; a shift by -1 is undefined.\<close>

fun round_mem :: "nat \<Rightarrow> nat \<Rightarrow> u64 \<Rightarrow> u64 result" where
  "round_mem 0 i mem = Inr mem"
| "round_mem (Suc k) i mem =
     (if push_bit i 1 > mem
      then (if i = 0 then Inl Undefined else Inr (push_bit (i - 1) 1))
      else round_mem k (Suc i) mem)"

definition init_table :: "nat \<Rightarrow> u64 list \<Rightarrow> u64 list result" where
  "init_table TableSize Table = foldE (\<lambda>i t. arr_set t i (of_nat i)) [0..<TableSize] Table"

definition xor_cell :: "u64 list \<Rightarrow> nat \<Rightarrow> u64 \<Rightarrow> u64 list result" where
  "xor_cell t i v = bindE (arr_get t i) (\<lambda>w. arr_set t i (w XOR v))"

definition update_step :: "nat \<Rightarrow> nat \<Rightarrow> u64 list \<times> u64 list \<Rightarrow> (u64 list \<times> u64 list) result" where
  "update_step TableSize j = (\<lambda>(rnd, t).
     bindE (arr_get rnd j) (\<lambda>r.
     let r = lfsr r in
     bindE (arr_set rnd j r) (\<lambda>rnd.
     if TableSize = 0 then Inl Undefined else
     let elm = unat (r mod of_nat TableSize) in
     bindE (xor_cell t elm r) (\<lambda>t.
     bindE (xor_cell t (TableSize - elm) r) (\<lambda>t. Inr (rnd, t))))))"

definition update_round :: "nat \<Rightarrow> nat \<Rightarrow> u64 list \<times> u64 list \<Rightarrow> (u64 list \<times> u64 list) result" where
  "update_round TableSize i s = foldE (update_step TableSize) [0..<128] s"

text \<open>The main function after the size is chosen; \<open>cells\<close> is the size of the allocated block.\<close>

definition gups_run :: "nat \<Rightarrow> nat \<Rightarrow> nat \<Rightarrow> (u64 list \<times> u64 list) result" where
  "gups_run nupdate cells TableSize =
     bindE (init_table TableSize (replicate cells 0)) (\<lambda>t.
     let rnd = map (\<lambda>j. HPCC_starts (int (nupdate div 128 * j))) [0..<128] in
     foldE (update_round TableSize) [0..<nupdate div 128] (rnd, t))"

definition gups :: "u64 \<Rightarrow> (u64 list \<times> u64 list) result" where
  "gups mem =
     bindE (round_mem 64 0 mem) (\<lambda>mem.
     gups_run (2 ^ 28) ((unat mem + 16) div 8) (unat mem div 8))"

definition gupstoy :: "(u64 list \<times> u64 list) result" where
  "gupstoy = gups_run (2 ^ 27) (2 ^ 26 div 8) (2 ^ 26 div 8)"

section \<open>Linearity\<close>

lemma lfsr_xor: "lfsr (a XOR b) = lfsr a XOR lfsr b"
  by (simp add: lfsr_def push_bit_xor bit_xor_iff ac_simps)

lemma lfsr_0 [simp]: "lfsr 0 = 0"
  by (simp add: lfsr_def)

lemma lfsr_pow_xor: "(lfsr ^^ n) (a XOR b) = (lfsr ^^ n) a XOR (lfsr ^^ n) b"
  by (induction n) (simp_all add: lfsr_xor)

lemma lfsr_pow_1: "n < 64 \<Longrightarrow> (lfsr ^^ n) 1 = push_bit n 1"
proof (induction n)
  case (Suc n)
  then have "\<not> bit (push_bit n 1 :: u64) 63" by (auto simp: bit_simps)
  then show ?case using Suc by (simp add: lfsr_def push_bit_push_bit)
qed simp

lemma lfsr_64: "(lfsr ^^ 64) 1 = 7"
proof -
  have "(lfsr ^^ Suc 63) 1 = lfsr (push_bit 63 1)" unfolding funpow.simps comp_def by (subst lfsr_pow_1) simp_all
  also have "\<dots> = 7" by (simp add: lfsr_def POLY_def)
  finally show ?thesis by simp
qed

lemma lfsr_128: "(lfsr ^^ 128) 1 = 21"
proof -
  have s: "lfsr 1 = 2" "lfsr 2 = 4" "lfsr 7 = 14" "lfsr 14 = 28" by (simp_all add: lfsr_def)
  have c: "(lfsr ^^ 64) (lfsr x) = lfsr ((lfsr ^^ 64) x)" for x by (metis funpow_swap1)
  have "(7 :: u64) = 1 XOR 2 XOR 4" by simp
  then have "(lfsr ^^ 64) 7 = (lfsr ^^ 64) 1 XOR (lfsr ^^ 64) (lfsr 1) XOR (lfsr ^^ 64) (lfsr (lfsr 1))"
    by (simp only: lfsr_pow_xor s)
  also have "(lfsr ^^ 64) (lfsr 1) = 14" using c [of 1] by (simp only: lfsr_64 s)
  also have "(lfsr ^^ 64) (lfsr (lfsr 1)) = 28" using c [of "lfsr 1"] c [of 1] by (simp only: lfsr_64 s)
  finally have "(lfsr ^^ 64) ((lfsr ^^ 64) 1) = 21" by (simp add: lfsr_64)
  then show ?thesis by (metis funpow_add comp_apply numeral_Bit0)
qed

section \<open>Squaring\<close>

text \<open>The first \<open>n\<close> iterations of the squaring loop.\<close>

fun sq :: "u64 \<Rightarrow> nat \<Rightarrow> u64" where
  "sq r 0 = 0"
| "sq r (Suc n) = sq r n XOR (if bit r n then (lfsr ^^ (2 * n)) 1 else 0)"

lemma m2_prefix:
  "fold (\<lambda>i (temp, m2). (lfsr (lfsr temp), m2 @ [temp])) [0..<n] (1, [])
     = ((lfsr ^^ (2 * n)) 1, map (\<lambda>j. (lfsr ^^ (2 * j)) 1) [0..<n])"
  by (induction n) simp_all

lemma m2_nth: "j < 64 \<Longrightarrow> m2_table ! j = (lfsr ^^ (2 * j)) 1"
  by (simp add: m2_table_def m2_prefix)

lemma gf_square_sq: "gf_square m2_table r = sq r 64"
proof -
  have "fold (\<lambda>j temp. if bit r j then temp XOR m2_table ! j else temp) [0..<n] 0 = sq r n" if "n \<le> 64" for n
    using that by (induction n) (simp_all add: m2_nth)
  then show ?thesis by (simp add: gf_square_def)
qed

lemma sq_xor: "sq (a XOR b) n = sq a n XOR sq b n"
  by (induction n) (auto simp: bit_xor_iff ac_simps)

lemma sq_shift: "Suc n \<le> 64 \<Longrightarrow> sq (push_bit 1 r) (Suc n) = lfsr (lfsr (sq r n))"
proof (induction n)
  case 0
  then show ?case by (simp add: bit_0)
next
  case (Suc n)
  have "bit (push_bit 1 r) (Suc n) = bit r n" unfolding bit_push_bit_iff using Suc.prems by simp
  then show ?case using Suc by (subst sq.simps(2)) (simp add: lfsr_xor)
qed

lemma sq_small:
  assumes "\<And>j. bit r j \<Longrightarrow> j < n" and "n \<le> m"
  shows "sq r m = sq r n"
  using assms(2)
proof (induction m rule: dec_induct)
  case (step m)
  then show ?case using assms(1) [of m] by auto
qed simp

lemma sq_7: "sq 7 64 = 21"
proof -
  have m: "(7 :: u64) = mask 3" by (simp add: mask_eq_exp_minus_1)
  have "sq 7 64 = sq 7 3" by (rule sq_small) (simp_all add: m bit_mask_iff)
  also have "\<dots> = sq 7 (Suc (Suc (Suc 0)))" by (simp only: numeral_3_eq_3)
  also have "\<dots> = 21" by (simp add: m bit_mask_iff) (simp add: lfsr_pow_1)
  finally show ?thesis .
qed

lemma sq_1: "sq 1 64 = 1"
proof -
  have "sq 1 64 = sq 1 1" by (rule sq_small) (simp_all add: bit_1_iff)
  also have "\<dots> = 1" by simp
  finally show ?thesis .
qed

lemma sq_0 [simp]: "sq 0 n = 0"
  by (induction n) simp_all

lemma sq_lfsr: "sq (lfsr r) 64 = lfsr (lfsr (sq r 64))"
proof -
  have 1: "sq (push_bit 1 r) 64 = lfsr (lfsr (sq r 63))" using sq_shift [of 63 r] by simp
  have 2: "sq r 64 = sq r 63 XOR (if bit r 63 then (lfsr ^^ 126) 1 else 0)" using sq.simps(2) [of r 63] by simp
  have 3: "lfsr (lfsr ((lfsr ^^ 126) 1)) = 21" 
    using funpow.simps(2) [of 127 lfsr] funpow.simps(2) [of 126 lfsr] lfsr_128 by (simp add: comp_def)
  show ?thesis
    unfolding lfsr_def [of r] sq_xor 1 2 by (simp add: lfsr_xor 3 POLY_def sq_7)
qed

lemma square_pow: "gf_square m2_table ((lfsr ^^ k) 1) = (lfsr ^^ (2 * k)) 1"
  unfolding gf_square_sq by (induction k) (simp_all add: sq_1 sq_lfsr)

section \<open>Starting points\<close>

lemma drop_bit_Suc_nat: "drop_bit i (n :: nat) = 2 * drop_bit (Suc i) n + of_bool (bit n i)"
proof -
  have "drop_bit i n = 2 * (drop_bit i n div 2) + drop_bit i n mod 2" by simp
  then show ?thesis by (simp add: drop_bit_Suc bit_iff_odd_drop_bit mod2_eq_if drop_bit_half)
qed

lemma starts_loop_pow: "starts_loop i n ((lfsr ^^ drop_bit i n) 1) = (lfsr ^^ n) 1"
proof (induction i)
  case (Suc i)
  have "(let r = gf_square m2_table ((lfsr ^^ drop_bit (Suc i) n) 1) in if bit n i then lfsr r else r) = (lfsr ^^ drop_bit i n) 1"
    unfolding square_pow by (simp add: drop_bit_Suc_nat [of i n])
  then show ?case using Suc by (simp add: Let_def)
qed simp

lemma high_bit_spec:
  "0 < n \<Longrightarrow> n < 2 ^ i \<Longrightarrow> \<exists>k. high_bit i n = int k \<and> drop_bit k n = 1"
proof (induction i)
  case (Suc i)
  show ?case
  proof (cases "bit n i")
    case True
    have "drop_bit i n < 2" using Suc.prems by (simp add: drop_bit_eq_div div_less_iff_less_mult)
    moreover have "odd (drop_bit i n)" using True by (simp add: bit_iff_odd_drop_bit)
    ultimately have "drop_bit i n = 1" by presburger
    then show ?thesis using True by auto
  next
    case False
    have "n < 2 ^ i"
    proof (rule ccontr)
      assume "\<not> n < 2 ^ i"
      then have "n div 2 ^ i = 1" using Suc.prems by (intro div_nat_eqI) simp_all
      then have "drop_bit i n = 1" by (simp add: drop_bit_eq_div)
      then show False using False by (simp add: bit_iff_odd_drop_bit)
    qed
    then show ?thesis using Suc False by simp
  qed
qed simp

lemma starts_pow:
  assumes "0 \<le> n" and "n \<le> PERIOD"
  shows "HPCC_starts n = (lfsr ^^ nat n) 1"
proof (cases "n = 0")
  case True
  then show ?thesis by (simp add: HPCC_starts_def raise_n.simps lower_n.simps PERIOD_def)
next
  case False
  have "0 < nat n" "nat n < 2 ^ 63" using assms False by (auto simp: PERIOD_def)
  then obtain k where k: "high_bit 63 (nat n) = int k" "drop_bit k (nat n) = 1" using high_bit_spec by blast
  have "(2 :: u64) = (lfsr ^^ 1) 1" by (simp add: lfsr_def)
  then have "starts_loop k (nat n) 2 = (lfsr ^^ nat n) 1" using starts_loop_pow [of k "nat n"] k(2) by simp
  then show ?thesis using assms False k(1) by (simp add: HPCC_starts_def raise_n.simps lower_n.simps)
qed

section \<open>The update loop\<close>

definition gups_ok :: "nat \<Rightarrow> nat \<Rightarrow> u64 list \<times> u64 list \<Rightarrow> bool" where
  "gups_ok cells k s \<longleftrightarrow> length (fst s) = 128 \<and> length (snd s) = cells"

lemma xor_cell_in: "i < length t \<Longrightarrow> xor_cell t i v = Inr (t[i := t ! i XOR v])"
  by (simp add: xor_cell_def)

lemma update_step_ok:
  assumes "gups_ok cells k s" and "j < 128" and ts: "0 < TS" "TS < cells" "TS < 2 ^ 64"
  shows "\<exists>s'. update_step TS j s = Inr s' \<and> gups_ok cells k' s'"
proof -
  obtain r t where s: "s = (r, t)" by (cases s)
  let ?e = "unat (lfsr (r ! j) mod of_nat TS)"
  have "?e < TS" using ts by (simp add: unat_mod_distrib unat_of_nat take_bit_eq_mod)
  then have "?e < length t" "TS - ?e < length t" using assms by (auto simp: gups_ok_def s)
  then show ?thesis using assms(1,2) ts(1) by (simp add: s gups_ok_def update_step_def Let_def xor_cell_in)
qed

lemma update_round_ok:
  assumes "gups_ok cells k s" and ts: "0 < TS" "TS < cells" "TS < 2 ^ 64"
  shows "\<exists>s'. update_round TS i s = Inr s' \<and> gups_ok cells k' s'"
  unfolding update_round_def
  using foldE_upt_inv [where I = "gups_ok cells" and a = 0 and b = 128 and f = "update_step TS"] update_step_ok [OF _ _ ts] assms(1)
  by (simp add: gups_ok_def)

lemma init_table_ok: "n \<le> length t \<Longrightarrow> \<exists>t'. init_table n t = Inr t' \<and> length t' = length t"
  unfolding init_table_def
  using foldE_upt_inv [where I = "\<lambda>i s. length s = length t" and a = 0 and b = n and f = "\<lambda>i t. arr_set t i (of_nat i)" and s = t]
  by simp

lemma gups_run_ok:
  assumes "0 < TS" "TS < cells" "TS < 2 ^ 64"
  shows "\<exists>s. gups_run nupdate cells TS = Inr s"
proof -
  obtain t where t: "init_table TS (replicate cells 0) = Inr t" "length t = cells"
    using init_table_ok [of TS "replicate cells 0"] assms(2) by auto
  have "\<exists>s'. foldE (update_round TS) [0..<m] (map f [0..<128], t) = Inr s' \<and> gups_ok cells m s'" for m f
    by (rule foldE_upt_inv) (use update_round_ok [OF _ assms] t(2) in \<open>simp_all add: gups_ok_def\<close>)
  then show ?thesis using t(1) unfolding gups_run_def Let_def by (simp only: bindE.simps) blast
qed

lemma unat_bit: "i < 64 \<Longrightarrow> unat (push_bit i 1 :: u64) = 2 ^ i"
proof -
  assume "i < 64"
  then have "(2 :: nat) ^ i < 2 ^ 64" by (rule power_strict_increasing) simp
  moreover have "(push_bit i 1 :: u64) = of_nat (2 ^ i)" by (simp add: push_bit_eq_mult)
  ultimately show ?thesis by (simp only: unat_of_nat take_bit_eq_mod len_num0 len_num1 len_bit0 len_bit1) simp
qed

lemma round_mem_spec:
  assumes "0 < unat mem" and "unat mem < 2 ^ (i + k)" and "i + k < 64" and "2 ^ i \<le> 2 * unat mem"
  shows "\<exists>p. round_mem (Suc k) i mem = Inr (push_bit p 1) \<and> p < 64 \<and> 2 ^ p \<le> unat mem \<and> unat mem < 2 ^ Suc p"
  using assms
proof (induction k arbitrary: i)
  case 0
  have u: "unat (push_bit i 1 :: u64) = 2 ^ i" using 0 by (intro unat_bit) simp
  then have gt: "mem < push_bit i 1" using 0 by (simp add: word_less_nat_alt)
  obtain j where "i = Suc j" using 0 by (cases i) auto
  then show ?case using gt 0 by auto
next
  case (Suc k)
  have u: "unat (push_bit i 1 :: u64) = 2 ^ i" using Suc.prems by (intro unat_bit) simp
  show ?case
  proof (cases "mem < push_bit i 1")
    case True
    then have lt: "unat mem < 2 ^ i" using u by (simp add: word_less_nat_alt)
    then obtain j where "i = Suc j" using Suc.prems by (cases i) auto
    then show ?thesis using True lt Suc.prems by (intro exI [of _ j]) auto
  next
    case False
    then have "2 ^ i \<le> unat mem" using u by (simp add: word_less_nat_alt)
    then have "\<exists>p. round_mem (Suc k) (Suc i) mem = Inr (push_bit p 1) \<and> p < 64 \<and> 2 ^ p \<le> unat mem \<and> unat mem < 2 ^ Suc p"
      using Suc.prems by (intro Suc.IH) auto
    then show ?thesis using False by (subst round_mem.simps) simp
  qed
qed

section \<open>The toy variant\<close>

text \<open>A loop in which every step succeeds or leaves an array.\<close>

lemma foldE_err:
  assumes "\<And>i s e. f i s = Inl e \<Longrightarrow> e = Out_of_bounds" and "foldE f xs s = Inl e"
  shows "e = Out_of_bounds"
  using assms(2)
proof (induction xs arbitrary: s)
  case (Cons x xs)
  then show ?case using assms(1) by (auto simp: bindE_eq_Inl_iff)
qed simp

lemma xor_cell_err: "xor_cell t i v = Inl e \<Longrightarrow> e = Out_of_bounds"
  by (auto simp: xor_cell_def arr_get_def arr_set_def split: if_splits)

lemma update_step_err: "0 < TS \<Longrightarrow> update_step TS j s = Inl e \<Longrightarrow> e = Out_of_bounds"
  by (cases s) (auto simp: update_step_def Let_def bindE_eq_Inl_iff arr_get_def arr_set_def split: if_splits dest: xor_cell_err)

lemma update_round_err: "0 < TS \<Longrightarrow> update_round TS i s = Inl e \<Longrightarrow> e = Out_of_bounds"
  unfolding update_round_def using foldE_err update_step_err by metis

text \<open>A round that returns has moved every stream by one step.\<close>

lemma xor_cell_length: "xor_cell t i v = Inr t' \<Longrightarrow> length t' = length t"
  by (auto simp: xor_cell_def arr_get_def arr_set_def split: if_splits)

lemma update_step_stream:
  assumes "update_step TS j s = Inr s'"
  shows "fst s' = (fst s)[j := lfsr (fst s ! j)]" "length (snd s') = length (snd s)"
proof -
  obtain r t where s: "s = (r, t)" by (cases s)
  show "fst s' = (fst s)[j := lfsr (fst s ! j)]" "length (snd s') = length (snd s)"
    using assms unfolding s by (auto simp: update_step_def Let_def arr_get_def arr_set_def bindE_eq_Inr_iff
        split: if_splits dest!: xor_cell_length)
qed

lemma update_round_stream:
  assumes "update_round TS i s = Inr s'" and "length (fst s) = 128"
  shows "fst s' = map lfsr (fst s)" "length (snd s') = length (snd s)"
proof -
  have "length (fst z) = 128 \<and> length (snd z) = length (snd s) \<and>
      (\<forall>j < 128. fst z ! j = (if j < n then lfsr (fst s ! j) else fst s ! j))"
    if "foldE (update_step TS) [0..<n] s = Inr z" "n \<le> 128" for n z
    using that
  proof (induction n arbitrary: z)
    case 0
    then show ?case using assms(2) by simp
  next
    case (Suc n)
    then obtain y where y: "foldE (update_step TS) [0..<n] s = Inr y" "update_step TS n y = Inr z"
      by (auto simp: foldE_append bindE_eq_Inr_iff)
    show ?case using Suc.IH [OF y(1)] update_step_stream [OF y(2)] Suc.prems(2)
      by (auto simp: nth_list_update less_Suc_eq)
  qed
  from this [of 128 s'] assms(1) have "length (fst s') = 128" "length (snd s') = length (snd s)"
    "\<forall>j < 128. fst s' ! j = lfsr (fst s ! j)" by (auto simp: update_round_def)
  then show "fst s' = map lfsr (fst s)" "length (snd s') = length (snd s)" using assms(2) by (auto intro: nth_equalityI)
qed

lemma rounds_stream:
  assumes "foldE (update_round TS) [0..<n] s = Inr s'" and "length (fst s) = 128"
  shows "fst s' = map (lfsr ^^ n) (fst s) \<and> length (snd s') = length (snd s)"
  using assms
proof (induction n arbitrary: s')
  case 0
  then show ?case by simp
next
  case (Suc n)
  then obtain y where y: "foldE (update_round TS) [0..<n] s = Inr y" "update_round TS n y = Inr s'"
    by (auto simp: foldE_append bindE_eq_Inr_iff)
  then have "fst y = map (lfsr ^^ n) (fst s)" "length (snd y) = length (snd s)" using Suc by auto
  then show ?case using update_round_stream [OF y(2)] Suc.prems(2) by simp
qed

lemma gupstoy_out:
  assumes TS: "TS = 2 ^ b" "0 < b" "b < 64" and rounds: "b \<le> nupdate div 128"
  shows "gups_run nupdate TS TS = Inl Out_of_bounds"
proof (rule ccontr)
  assume no: "gups_run nupdate TS TS \<noteq> Inl Out_of_bounds"
  have TS0: "0 < TS" using TS by simp
  let ?ran = "map (\<lambda>j. HPCC_starts (int (nupdate div 128 * j))) [0..<128]"
  obtain t where t: "init_table TS (replicate TS 0) = Inr t" "length t = TS"
    using init_table_ok [of TS "replicate TS 0"] by auto
  obtain s where s: "foldE (update_round TS) [0..<nupdate div 128] (?ran, t) = Inr s"
    using no t(1) foldE_err [of "update_round TS" "[0..<nupdate div 128]" "(?ran, t)"] update_round_err [OF TS0]
    unfolding gups_run_def Let_def by (cases "foldE (update_round TS) [0..<nupdate div 128] (?ran, t)") auto
  obtain c where c: "nupdate div 128 = b + c" using rounds le_Suc_ex by blast
  have "[0..<nupdate div 128] = [0..<b] @ [b..<b + c]" unfolding c by (rule upt_add_eq_append) simp
  then obtain y where "foldE (update_round TS) [0..<b] (?ran, t) = Inr y"
    using s by (auto simp: foldE_append bindE_eq_Inr_iff)
  moreover obtain d where d: "b = Suc d" using TS(2) by (cases b) auto
  ultimately obtain z where z: "foldE (update_round TS) [0..<d] (?ran, t) = Inr z" "update_round TS d z = Inr y"
    by (auto simp: foldE_append bindE_eq_Inr_iff)
  have st: "fst z = map (lfsr ^^ d) ?ran" "length (snd z) = TS" using rounds_stream [OF z(1)] t(2) by simp_all
  have "HPCC_starts 0 = 1" using starts_pow [of 0] by (simp add: PERIOD_def)
  then have "fst z ! 0 = (lfsr ^^ d) 1" using st(1) by simp
  then have r: "lfsr (fst z ! 0) = push_bit b 1" using lfsr_pow_1 [of b] TS(3) by (simp add: d)
  obtain x where "update_step TS 0 z = Inr x" using z(2) unfolding update_round_def
    by (simp add: upt_rec [of 0 128] bindE_eq_Inr_iff) blast
  moreover have "unat (push_bit b 1 mod (of_nat TS :: u64)) = 0"
    using unat_bit [OF TS(3)] TS by (simp add: unat_mod_distrib push_bit_eq_mult)
  moreover obtain r0 t0 where zz: "z = (r0, t0)" by (cases z)
  ultimately show False using r st TS0
    by (auto simp: zz update_step_def Let_def bindE_eq_Inr_iff xor_cell_def arr_get_def arr_set_def split: if_splits)
qed

section \<open>Properties\<close>

text \<open>
  C17. \<^verbatim>\<open>HPCC_starts(n)\<close> jumps to the \<open>n\<close>-th element of the random stream: for
  every \<open>n\<close> up to the period the repeated squaring equals \<open>n\<close> single shifts of the
  feedback register that starts with 1.
\<close>

theorem HPCC_starts_is_nth:
  assumes "0 \<le> n" and "n \<le> PERIOD"
  shows "HPCC_starts n = (lfsr ^^ nat n) 1"
  by (rule starts_pow [OF assms])

theorem HPCC_starts_is_nth_witness: "HPCC_starts 2097152 = (lfsr ^^ 2097152) 1"
  using HPCC_starts_is_nth [of 2097152] by (simp add: PERIOD_def)

text \<open>
  C18. For every amount of memory from 8 bytes to below \<open>2 ^ 63\<close> the benchmark rounds it
  down to a power of two and runs to the end with every access inside the allocated block: the
  16 extra bytes take the update of \<^verbatim>\<open>Table[TableSize - elm]\<close> for \<open>elm = 0\<close>.
\<close>

theorem gups_completes:
  assumes "8 \<le> unat mem" and "unat mem < 2 ^ 63"
  shows "\<exists>s. gups mem = Inr s"
proof -
  have p0: "0 < unat mem" "unat mem < 2 ^ (0 + 63)" "0 + 63 < (64 :: nat)" "2 ^ 0 \<le> 2 * unat mem" using assms by simp_all
  have "(64 :: nat) = Suc 63" by simp
  then obtain p where p: "round_mem 64 0 mem = Inr (push_bit p 1)" "p < 64" "2 ^ p \<le> unat mem" "unat mem < 2 ^ Suc p"
    using round_mem_spec [OF p0] by metis
  have "2 < p"
  proof (rule ccontr)
    assume "\<not> 2 < p"
    then have "(2 :: nat) ^ Suc p \<le> 2 ^ 3" by (intro power_increasing) simp_all
    then show False using p(4) assms(1) by simp
  qed
  define q where "q = p - 3"
  have q: "p = q + 3" using \<open>2 < p\<close> by (simp add: q_def)
  have u: "unat (push_bit p 1 :: u64) = 8 * 2 ^ q" using unat_bit [OF p(2)] by (simp add: q power_add)
  have "(2 :: nat) ^ q < 2 ^ 64" using p(2) q by (intro power_strict_increasing) simp_all
  then have "\<exists>s. gups_run (2 ^ 28) ((8 * 2 ^ q + 16) div 8) (8 * 2 ^ q div 8) = Inr s"
    by (intro gups_run_ok) simp_all
  then show ?thesis using p(1) unfolding gups_def by (simp only: bindE.simps u)
qed

theorem gups_completes_witness: "8 \<le> unat (2 ^ 36 :: u64) \<and> unat (2 ^ 36 :: u64) < 2 ^ 63 \<and> (\<exists>s. gups (2 ^ 36) = Inr s)"
  using gups_completes [of "2 ^ 36"] by simp

text \<open>
  C19. The toy variant allocates exactly the table and so writes one word past it: the first
  random stream starts with 1, after 23 rounds its value is \<open>2 ^ 23\<close>, the table size, and
  the update of \<^verbatim>\<open>Table[TableSize - 0]\<close> leaves the block. No run of the program completes
  without an access out of bounds.
\<close>

theorem gupstoy_overflows: "gupstoy = Inl Out_of_bounds"
  unfolding gupstoy_def by (rule gupstoy_out [where b = 23]) simp_all

end
