(* ===== verification/Mod_Arith.thy ===== *)
theory Mod_Arith
  imports Prelude "HOL-Library.Signed_Division"
begin

text \<open>
  Arithmetic modulo 2^31 - 1, the field of the random number generator of graph500
  (\<^verbatim>\<open>graph500/generator/mod_arith*.h\<close>). \<^verbatim>\<open>mod_arith.h\<close> picks one of several
  implementations at compile time; the two that need no special hardware are modelled
  here, each as a value of the record \<open>mod_ops\<close>, so that the generator is written once
  over that record. \<^verbatim>\<open>uint_fast32_t\<close> and \<^verbatim>\<open>int_fast32_t\<close> are 64 bits wide on x86-64
  Linux. The locale \<open>mod_arith\<close> states what the generator relies on, and both
  implementations are interpretations of it.
\<close>

section \<open>The 64-bit implementation (mod_arith_64bit.h)\<close>

definition in_field :: "u64 \<Rightarrow> bool" where
  "in_field a \<longleftrightarrow> a \<le> 0x7FFFFFFE"

definition mod_add_64 :: "u64 \<Rightarrow> u64 \<Rightarrow> u64 result" where
  "mod_add_64 a b =
     bindE (assertE (in_field a)) (\<lambda>_.
     bindE (assertE (in_field b)) (\<lambda>_.
     Inr ((a + b) mod 0x7FFFFFFF)))"

definition mod_mul_64 :: "u64 \<Rightarrow> u64 \<Rightarrow> u64 result" where
  "mod_mul_64 a b =
     bindE (assertE (in_field a)) (\<lambda>_.
     bindE (assertE (in_field b)) (\<lambda>_.
     Inr (a * b mod 0x7FFFFFFF)))"

definition mod_mac_64 :: "u64 \<Rightarrow> u64 \<Rightarrow> u64 \<Rightarrow> u64 result" where
  "mod_mac_64 sm a b =
     bindE (assertE (in_field sm)) (\<lambda>_.
     bindE (assertE (in_field a)) (\<lambda>_.
     bindE (assertE (in_field b)) (\<lambda>_.
     Inr ((a * b + sm) mod 0x7FFFFFFF))))"

definition mod_mac2_64 :: "u64 \<Rightarrow> u64 \<Rightarrow> u64 \<Rightarrow> u64 \<Rightarrow> u64 \<Rightarrow> u64 result" where
  "mod_mac2_64 sm a b c d =
     bindE (assertE (in_field sm)) (\<lambda>_.
     bindE (assertE (in_field a)) (\<lambda>_.
     bindE (assertE (in_field b)) (\<lambda>_.
     bindE (assertE (in_field c)) (\<lambda>_.
     bindE (assertE (in_field d)) (\<lambda>_.
     Inr ((a * b + c * d + sm) mod 0x7FFFFFFF))))))"

definition mod_mac3_64 ::
  "u64 \<Rightarrow> u64 \<Rightarrow> u64 \<Rightarrow> u64 \<Rightarrow> u64 \<Rightarrow> u64 \<Rightarrow> u64 \<Rightarrow> u64 result" where
  "mod_mac3_64 sm a b c d e f =
     bindE (assertE (in_field sm)) (\<lambda>_.
     bindE (assertE (in_field a)) (\<lambda>_.
     bindE (assertE (in_field b)) (\<lambda>_.
     bindE (assertE (in_field c)) (\<lambda>_.
     bindE (assertE (in_field d)) (\<lambda>_.
     bindE (assertE (in_field e)) (\<lambda>_.
     bindE (assertE (in_field f)) (\<lambda>_.
     Inr ((a * b + c * d + e * f + sm) mod 0x7FFFFFFF))))))))"

definition mod_mac4_64 ::
  "u64 \<Rightarrow> u64 \<Rightarrow> u64 \<Rightarrow> u64 \<Rightarrow> u64 \<Rightarrow> u64 \<Rightarrow> u64 \<Rightarrow> u64 \<Rightarrow> u64 \<Rightarrow> u64 result" where
  "mod_mac4_64 sm a b c d e f g h =
     bindE (assertE (in_field sm)) (\<lambda>_.
     bindE (assertE (in_field a)) (\<lambda>_.
     bindE (assertE (in_field b)) (\<lambda>_.
     bindE (assertE (in_field c)) (\<lambda>_.
     bindE (assertE (in_field d)) (\<lambda>_.
     bindE (assertE (in_field e)) (\<lambda>_.
     bindE (assertE (in_field f)) (\<lambda>_.
     bindE (assertE (in_field g)) (\<lambda>_.
     bindE (assertE (in_field h)) (\<lambda>_.
     Inr ((a * b + c * d + e * f + g * h + sm) mod 0x7FFFFFFF))))))))))"

definition mod_mul_x_64 :: "u64 \<Rightarrow> u64 result" where
  "mod_mul_x_64 a = mod_mul_64 a 107374182"

definition mod_mul_y_64 :: "u64 \<Rightarrow> u64 result" where
  "mod_mul_y_64 a = mod_mul_64 a 104480"

definition mod_mac_y_64 :: "u64 \<Rightarrow> u64 \<Rightarrow> u64 result" where
  "mod_mac_y_64 sm a = mod_mac_64 sm a 104480"

section \<open>The 32-bit implementation (mod_arith_32bit.h)\<close>

text \<open>
  It avoids division: a sum is reduced by one conditional subtraction, a product by
  folding the high bits onto the low ones (2^31 = 1 in the field), and the two
  multipliers \<open>x\<close> and \<open>y\<close> by L'Ecuyer's decomposition \<open>m = a q + r\<close> in signed
  arithmetic. \<open>signed_div\<close> is C's division, which truncates.
\<close>

definition mod_add_32 :: "u64 \<Rightarrow> u64 \<Rightarrow> u64 result" where
  "mod_add_32 a b =
     bindE (assertE (in_field a)) (\<lambda>_.
     bindE (assertE (in_field b)) (\<lambda>_.
     let x = a + b in
     Inr (if x \<ge> 0x7FFFFFFF then x - 0x7FFFFFFF else x)))"

definition fold_reduce :: "u64 \<Rightarrow> u64" where
  "fold_reduce temp =
     (let temp2 = (temp AND 0x7FFFFFFF) + drop_bit 31 temp in
      if temp2 \<ge> 0x7FFFFFFF then temp2 - 0x7FFFFFFF else temp2)"

definition mod_mul_32 :: "u64 \<Rightarrow> u64 \<Rightarrow> u64 result" where
  "mod_mul_32 a b =
     bindE (assertE (in_field a)) (\<lambda>_.
     bindE (assertE (in_field b)) (\<lambda>_.
     Inr (fold_reduce (a * b))))"

definition mod_mac_32 :: "u64 \<Rightarrow> u64 \<Rightarrow> u64 \<Rightarrow> u64 result" where
  "mod_mac_32 sm a b =
     bindE (assertE (in_field sm)) (\<lambda>_.
     bindE (assertE (in_field a)) (\<lambda>_.
     bindE (assertE (in_field b)) (\<lambda>_.
     Inr (fold_reduce (a * b + sm)))))"

definition mod_mac2_32 :: "u64 \<Rightarrow> u64 \<Rightarrow> u64 \<Rightarrow> u64 \<Rightarrow> u64 \<Rightarrow> u64 result" where
  "mod_mac2_32 sm a b c d =
     bindE (assertE (in_field sm)) (\<lambda>_.
     bindE (assertE (in_field a)) (\<lambda>_.
     bindE (assertE (in_field b)) (\<lambda>_.
     bindE (assertE (in_field c)) (\<lambda>_.
     bindE (assertE (in_field d)) (\<lambda>_.
     bindE (mod_mac_32 sm a b) (\<lambda>s1. mod_mac_32 s1 c d))))))"

definition mod_mac3_32 ::
  "u64 \<Rightarrow> u64 \<Rightarrow> u64 \<Rightarrow> u64 \<Rightarrow> u64 \<Rightarrow> u64 \<Rightarrow> u64 \<Rightarrow> u64 result" where
  "mod_mac3_32 sm a b c d e f =
     bindE (assertE (in_field sm)) (\<lambda>_.
     bindE (assertE (in_field a)) (\<lambda>_.
     bindE (assertE (in_field b)) (\<lambda>_.
     bindE (assertE (in_field c)) (\<lambda>_.
     bindE (assertE (in_field d)) (\<lambda>_.
     bindE (assertE (in_field e)) (\<lambda>_.
     bindE (assertE (in_field f)) (\<lambda>_.
     bindE (mod_mac_32 sm a b) (\<lambda>s1. mod_mac2_32 s1 c d e f))))))))"

definition mod_mac4_32 ::
  "u64 \<Rightarrow> u64 \<Rightarrow> u64 \<Rightarrow> u64 \<Rightarrow> u64 \<Rightarrow> u64 \<Rightarrow> u64 \<Rightarrow> u64 \<Rightarrow> u64 \<Rightarrow> u64 result" where
  "mod_mac4_32 sm a b c d e f g h =
     bindE (assertE (in_field sm)) (\<lambda>_.
     bindE (assertE (in_field a)) (\<lambda>_.
     bindE (assertE (in_field b)) (\<lambda>_.
     bindE (assertE (in_field c)) (\<lambda>_.
     bindE (assertE (in_field d)) (\<lambda>_.
     bindE (assertE (in_field e)) (\<lambda>_.
     bindE (assertE (in_field f)) (\<lambda>_.
     bindE (assertE (in_field g)) (\<lambda>_.
     bindE (assertE (in_field h)) (\<lambda>_.
     bindE (mod_mac2_32 sm a b c d) (\<lambda>s1. mod_mac2_32 s1 e f g h))))))))))"

text \<open>
  The signed intermediate of \<^verbatim>\<open>mod_mul_x\<close> and \<^verbatim>\<open>mod_mul_y\<close>, for the multiplier \<open>k\<close> with
  quotient \<open>q\<close> and remainder \<open>r\<close> of 2^31 - 1 by \<open>k\<close>, before and after the
  correction of its sign.
\<close>

definition lecuyer_raw :: "int \<Rightarrow> int \<Rightarrow> int \<Rightarrow> u64 \<Rightarrow> int" where
  "lecuyer_raw k q r a =
     (let res = sint a sdiv q in k * (sint a - res * q) - res * r)"

definition lecuyer_mul :: "int \<Rightarrow> int \<Rightarrow> int \<Rightarrow> u64 \<Rightarrow> u64" where
  "lecuyer_mul k q r a =
     (let res = lecuyer_raw k q r a in
      word_of_int (res + (if res < 0 then 0x7FFFFFFF else 0)))"

definition mod_mul_x_32 :: "u64 \<Rightarrow> u64 result" where
  "mod_mul_x_32 a =
     (let res = lecuyer_mul 107374182 20 7 a in
      bindE (mod_mul_32 a 107374182) (\<lambda>m.
      bindE (assertE (res = m)) (\<lambda>_. Inr res)))"

definition mod_mul_y_32 :: "u64 \<Rightarrow> u64 result" where
  "mod_mul_y_32 a =
     (let res = lecuyer_mul 104480 20554 1727 a in
      bindE (mod_mul_32 a 104480) (\<lambda>m.
      bindE (assertE (res = m)) (\<lambda>_. Inr res)))"

definition mod_mac_y_32 :: "u64 \<Rightarrow> u64 \<Rightarrow> u64 result" where
  "mod_mac_y_32 sm a =
     bindE (mod_mul_y_32 a) (\<lambda>t.
     bindE (mod_add_32 sm t) (\<lambda>res.
     bindE (mod_mac_32 sm a 104480) (\<lambda>m.
     bindE (assertE (res = m)) (\<lambda>_. Inr res))))"

section \<open>The interface: what the generator relies on\<close>

record mod_ops =
  op_add :: "u64 \<Rightarrow> u64 \<Rightarrow> u64 result"
  op_mul :: "u64 \<Rightarrow> u64 \<Rightarrow> u64 result"
  op_mac :: "u64 \<Rightarrow> u64 \<Rightarrow> u64 \<Rightarrow> u64 result"
  op_mac2 :: "u64 \<Rightarrow> u64 \<Rightarrow> u64 \<Rightarrow> u64 \<Rightarrow> u64 \<Rightarrow> u64 result"
  op_mac3 :: "u64 \<Rightarrow> u64 \<Rightarrow> u64 \<Rightarrow> u64 \<Rightarrow> u64 \<Rightarrow> u64 \<Rightarrow> u64 \<Rightarrow> u64 result"
  op_mac4 :: "u64 \<Rightarrow> u64 \<Rightarrow> u64 \<Rightarrow> u64 \<Rightarrow> u64 \<Rightarrow> u64 \<Rightarrow> u64 \<Rightarrow> u64 \<Rightarrow> u64 \<Rightarrow> u64 result"
  op_mul_x :: "u64 \<Rightarrow> u64 result"
  op_mul_y :: "u64 \<Rightarrow> u64 result"
  op_mac_y :: "u64 \<Rightarrow> u64 \<Rightarrow> u64 result"

definition ops64 :: mod_ops where
  "ops64 = \<lparr>op_add = mod_add_64, op_mul = mod_mul_64, op_mac = mod_mac_64,
     op_mac2 = mod_mac2_64, op_mac3 = mod_mac3_64, op_mac4 = mod_mac4_64,
     op_mul_x = mod_mul_x_64, op_mul_y = mod_mul_y_64, op_mac_y = mod_mac_y_64\<rparr>"

definition ops32 :: mod_ops where
  "ops32 = \<lparr>op_add = mod_add_32, op_mul = mod_mul_32, op_mac = mod_mac_32,
     op_mac2 = mod_mac2_32, op_mac3 = mod_mac3_32, op_mac4 = mod_mac4_32,
     op_mul_x = mod_mul_x_32, op_mul_y = mod_mul_y_32, op_mac_y = mod_mac_y_32\<rparr>"

abbreviation MP :: nat where
  "MP \<equiv> 2147483647"

text \<open>
  Field elements are written \<open>of_nat a\<close> with \<open>a < MP\<close>. On them every operation returns,
  no assertion fails, and the result is the residue of the exact value.
\<close>

locale mod_arith =
  fixes ops :: mod_ops
  assumes add: "a < MP \<Longrightarrow> b < MP \<Longrightarrow>
      op_add ops (of_nat a) (of_nat b) = Inr (of_nat ((a + b) mod MP))"
    and mul: "a < MP \<Longrightarrow> b < MP \<Longrightarrow>
      op_mul ops (of_nat a) (of_nat b) = Inr (of_nat (a * b mod MP))"
    and mac: "sm < MP \<Longrightarrow> a < MP \<Longrightarrow> b < MP \<Longrightarrow>
      op_mac ops (of_nat sm) (of_nat a) (of_nat b) = Inr (of_nat ((a * b + sm) mod MP))"
    and mac2: "sm < MP \<Longrightarrow> a < MP \<Longrightarrow> b < MP \<Longrightarrow> c < MP \<Longrightarrow> d < MP \<Longrightarrow>
      op_mac2 ops (of_nat sm) (of_nat a) (of_nat b) (of_nat c) (of_nat d)
        = Inr (of_nat ((a * b + c * d + sm) mod MP))"
    and mac3: "sm < MP \<Longrightarrow> a < MP \<Longrightarrow> b < MP \<Longrightarrow> c < MP \<Longrightarrow> d < MP \<Longrightarrow> e < MP \<Longrightarrow> f < MP \<Longrightarrow>
      op_mac3 ops (of_nat sm) (of_nat a) (of_nat b) (of_nat c) (of_nat d) (of_nat e) (of_nat f)
        = Inr (of_nat ((a * b + c * d + e * f + sm) mod MP))"
    and mac4: "sm < MP \<Longrightarrow> a < MP \<Longrightarrow> b < MP \<Longrightarrow> c < MP \<Longrightarrow> d < MP \<Longrightarrow> e < MP \<Longrightarrow> f < MP \<Longrightarrow>
      g < MP \<Longrightarrow> h < MP \<Longrightarrow>
      op_mac4 ops (of_nat sm) (of_nat a) (of_nat b) (of_nat c) (of_nat d) (of_nat e) (of_nat f)
          (of_nat g) (of_nat h)
        = Inr (of_nat ((a * b + c * d + e * f + g * h + sm) mod MP))"
    and mul_x: "a < MP \<Longrightarrow> op_mul_x ops (of_nat a) = Inr (of_nat (a * 107374182 mod MP))"
    and mul_y: "a < MP \<Longrightarrow> op_mul_y ops (of_nat a) = Inr (of_nat (a * 104480 mod MP))"
    and mac_y: "sm < MP \<Longrightarrow> a < MP \<Longrightarrow>
      op_mac_y ops (of_nat sm) (of_nat a) = Inr (of_nat ((a * 104480 + sm) mod MP))"

section \<open>Both implementations satisfy it\<close>

lemma in_field_of_nat [simp]: "a < MP \<Longrightarrow> in_field (of_nat a)"
  by (simp add: in_field_def word_le_nat_alt unat_of_nat)

lemma in_field_unat: "in_field a \<longleftrightarrow> unat a < MP"
  by (auto simp add: in_field_def word_le_nat_alt)

lemma of_nat_mod_field:
  "n < 2 ^ 64 \<Longrightarrow> (of_nat n :: u64) mod 0x7FFFFFFF = of_nat (n mod MP)"
  by (simp add: unat_eq_of_nat_iff unat_mod unat_of_nat)

text \<open>
  The widest sum of \<^verbatim>\<open>mod_mac4\<close> is below 2^64, so none of the 64-bit sums wraps.
\<close>

lemma field_prod_bound: "a < MP \<Longrightarrow> b < MP \<Longrightarrow> a * b \<le> 4611686009837453316"
  using mult_mono [of a 2147483646 b 2147483646] by simp

lemma mac4_no_wrap:
  assumes "sm < MP" "a < MP" "b < MP" "c < MP" "d < MP" "e < MP" "f < MP" "g < MP" "h < MP"
  shows "a * b + c * d + e * f + g * h + sm < 2 ^ 64"
  using field_prod_bound [of a b] field_prod_bound [of c d] field_prod_bound [of e f]
    field_prod_bound [of g h] assms by simp

lemmas mod_64_defs = mod_add_64_def mod_mul_64_def mod_mac_64_def mod_mac2_64_def
  mod_mac3_64_def mod_mac4_64_def mod_mul_x_64_def mod_mul_y_64_def mod_mac_y_64_def

lemma field_consts [simp]: "in_field 107374182" "in_field 104480"
  by (simp_all add: in_field_def)

lemma of_nat_field_eq:
  "n < 2 ^ 64 \<Longrightarrow> w = of_nat n \<Longrightarrow> (w :: u64) mod 0x7FFFFFFF = of_nat (n mod MP)"
  by (simp add: of_nat_mod_field)

interpretation m64: mod_arith ops64
proof unfold_locales
  fix sm a b c d e f g h :: nat
  assume lt: "sm < MP" "a < MP" "b < MP" "c < MP" "d < MP" "e < MP" "f < MP" "g < MP" "h < MP"
  note b1 = field_prod_bound [OF lt(2,3)] field_prod_bound [OF lt(4,5)]
    field_prod_bound [OF lt(6,7)]
  show "op_mac3 ops64 (of_nat sm) (of_nat a) (of_nat b) (of_nat c) (of_nat d) (of_nat e) (of_nat f)
      = Inr (of_nat ((a * b + c * d + e * f + sm) mod MP))"
    using lt b1 by (simp add: ops64_def mod_64_defs of_nat_field_eq)
  show "op_mac4 ops64 (of_nat sm) (of_nat a) (of_nat b) (of_nat c) (of_nat d) (of_nat e)
      (of_nat f) (of_nat g) (of_nat h)
      = Inr (of_nat ((a * b + c * d + e * f + g * h + sm) mod MP))"
    using lt mac4_no_wrap [OF lt] by (simp add: ops64_def mod_64_defs of_nat_field_eq)
next
  fix sm a b c d :: nat
  assume lt: "sm < MP" "a < MP" "b < MP" "c < MP" "d < MP"
  note b1 = field_prod_bound [OF lt(2,3)] field_prod_bound [OF lt(4,5)]
  show "op_mac2 ops64 (of_nat sm) (of_nat a) (of_nat b) (of_nat c) (of_nat d)
      = Inr (of_nat ((a * b + c * d + sm) mod MP))"
    using lt b1 by (simp add: ops64_def mod_64_defs of_nat_field_eq)
qed (use field_prod_bound in \<open>force simp: ops64_def mod_64_defs of_nat_field_eq\<close>)+

subsection \<open>Folding and L'Ecuyer's multiplication\<close>

lemma fold_step:
  assumes "n \<le> 4611686011984936962"
  shows "n mod MP = (let t = n mod 2 ^ 31 + n div 2 ^ 31 in if t \<ge> MP then t - MP else t)"
proof -
  define t where "t = n mod 2 ^ 31 + n div 2 ^ 31"
  have "n = 2 ^ 31 * (n div 2 ^ 31) + n mod 2 ^ 31" by simp
  then have "n = t + MP * (n div 2 ^ 31)" unfolding t_def by simp
  then have "n mod MP = t mod MP" by (metis mod_mult_self2)
  moreover have "n div 2 ^ 31 \<le> 2147483645" using assms by simp
  then have "t < 2 * MP" unfolding t_def using mod_less_divisor [of "2 ^ 31" n] by simp
  then have "t mod MP = (if t \<ge> MP then t - MP else t)" by (auto simp: le_mod_geq)
  ultimately show ?thesis unfolding t_def [symmetric] Let_def by metis
qed

lemma and_mask31: "x AND 0x7FFFFFFF = take_bit 31 (x :: u64)"
proof -
  have "mask 31 = (0x7FFFFFFF :: u64)" by (simp add: mask_eq_exp_minus_1)
  then show ?thesis by (simp add: take_bit_eq_mask)
qed

lemma fold_reduce_correct:
  assumes "n \<le> 4611686011984936962"
  shows "fold_reduce (of_nat n) = of_nat (n mod MP)"
proof -
  have lt: "n < 2 ^ 64" using assms by simp
  have lo: "unat (of_nat n AND 0x7FFFFFFF :: u64) = n mod 2 ^ 31"
    using lt by (simp add: and_mask31 unat_of_nat take_bit_eq_mod unat_mod)
  have hi: "unat (drop_bit 31 (of_nat n) :: u64) = n div 2 ^ 31"
    using lt by (simp add: drop_bit_eq_div unat_of_nat unat_div)
  have hib: "n div 2 ^ 31 \<le> 2147483645" using assms by simp
  have lob: "n mod 2 ^ 31 \<le> 2147483647" using mod_less_divisor [of "2 ^ 31" n] by simp
  have t: "unat ((of_nat n AND 0x7FFFFFFF) + drop_bit 31 (of_nat n) :: u64)
      = n mod 2 ^ 31 + n div 2 ^ 31"
    using lo hi hib lob by (simp add: unat_add_no_wrap)
  have "unat (fold_reduce (of_nat n)) = n mod MP"
    using t fold_step [OF assms]
    by (simp add: fold_reduce_def Let_def word_le_nat_alt unat_sub_if')
  moreover have "n mod MP < 2 ^ LENGTH(64)"
    using mod_less_divisor [of MP n] by (simp del: mod_less_divisor)
  ultimately show ?thesis by (simp only: unat_eq_of_nat_iff)
qed

lemma lecuyer_raw_bounds:
  assumes "a < MP" and "k * q + r = int MP" and "0 < k" "0 < q" "0 \<le> r" and "r < q"
  shows "- int MP < lecuyer_raw k q r (of_nat a) \<and> lecuyer_raw k q r (of_nat a) < int MP"
    and "lecuyer_raw k q r (of_nat a) mod int MP = int a * k mod int MP"
proof -
  have sa: "sint (of_nat a :: u64) = int a"
    using assms(1) by (simp add: signed_of_nat signed_take_bit_int_eq_self)
  define d m where "d = int a div q" and "m = int a mod q"
  have raw: "lecuyer_raw k q r (of_nat a) = k * m - d * r"
    using assms(4) by (simp add: lecuyer_raw_def sa d_def m_def Let_def signed_divide_int_def
        minus_div_mult_eq_mod sgn_if)
  have a_eq: "int a = d * q + m" unfolding d_def m_def by simp
  have m: "0 \<le> m" "m < q" using assms(4) by (simp_all add: m_def)
  have d: "0 \<le> d" using assms(4) by (simp add: d_def pos_imp_zdiv_nonneg_iff)
  have km: "k * m \<le> k * q - k" using m(2) assms(3) mult_left_mono [of m "q - 1" k]
    by (simp add: algebra_simps)
  have "d * r \<le> d * q" using assms(6) d by (intro mult_left_mono) auto
  then have dr: "d * r < int MP" using a_eq m assms(1) by linarith
  have "0 \<le> k * m" "0 \<le> d * r" using assms m d by auto
  then show "- int MP < lecuyer_raw k q r (of_nat a) \<and> lecuyer_raw k q r (of_nat a) < int MP"
    using km dr assms(2,3,5) unfolding raw by auto
  have "int a * k = (k * m - d * r) + d * (k * q + r)"
    unfolding a_eq by (simp add: algebra_simps)
  then have "int a * k = (k * m - d * r) + d * int MP" unfolding assms(2) .
  then show "lecuyer_raw k q r (of_nat a) mod int MP = int a * k mod int MP"
    unfolding raw by (metis mod_mult_self1)
qed

lemma lecuyer_mul_correct:
  assumes "a < MP" and "k * q + r = int MP" and "0 < k" "0 < q" "0 \<le> r" and "r < q"
  shows "lecuyer_mul k q r (of_nat a) = of_nat (a * nat k mod MP)"
proof -
  define v where "v = lecuyer_raw k q r (of_nat a)"
  have v: "- int MP < v" "v < int MP" "v mod int MP = int a * k mod int MP"
    using lecuyer_raw_bounds [OF assms] by (simp_all add: v_def)
  have "v + (if v < 0 then 0x7FFFFFFF else 0) = v mod int MP"
  proof (cases "v < 0")
    case True
    then have "v mod int MP = (v + int MP) mod int MP" by simp
    also have "\<dots> = v + int MP" using True v(1) by (intro mod_pos_pos_trivial) auto
    finally show ?thesis using True by simp
  qed (use v(2) in simp)
  also have "\<dots> = int (a * nat k mod MP)"
    using v(3) assms(3) by (simp add: zmod_int)
  finally have "v + (if v < 0 then 0x7FFFFFFF else 0) = int (a * nat k mod MP)" .
  then show ?thesis
    unfolding lecuyer_mul_def v_def [symmetric] Let_def by (metis of_int_of_nat_eq)
qed

lemma mod_mul_32_of_nat:
  "a < MP \<Longrightarrow> b < MP \<Longrightarrow> mod_mul_32 (of_nat a) (of_nat b) = Inr (of_nat (a * b mod MP))"
  using field_prod_bound [of a b] fold_reduce_correct [of "a * b"] by (simp add: mod_mul_32_def)

lemma mod_mac_32_of_nat:
  "sm < MP \<Longrightarrow> a < MP \<Longrightarrow> b < MP \<Longrightarrow>
   mod_mac_32 (of_nat sm) (of_nat a) (of_nat b) = Inr (of_nat ((a * b + sm) mod MP))"
  using field_prod_bound [of a b] fold_reduce_correct [of "a * b + sm"]
  by (simp add: mod_mac_32_def)

lemma mod_add_32_of_nat:
  assumes "a < MP" "b < MP"
  shows "mod_add_32 (of_nat a) (of_nat b) = Inr (of_nat ((a + b) mod MP))"
proof -
  have "unat (of_nat (a + b) :: u64) = a + b"
    using assms by (simp add: unat_of_nat del: of_nat_add)
  then show ?thesis using assms
    by (auto simp: mod_add_32_def Let_def word_le_nat_alt unat_eq_of_nat_iff unat_sub_if'
        le_mod_geq simp flip: of_nat_add)
qed

lemma mod_mac2_32_of_nat:
  "sm < MP \<Longrightarrow> a < MP \<Longrightarrow> b < MP \<Longrightarrow> c < MP \<Longrightarrow> d < MP \<Longrightarrow>
   mod_mac2_32 (of_nat sm) (of_nat a) (of_nat b) (of_nat c) (of_nat d)
     = Inr (of_nat ((a * b + c * d + sm) mod MP))"
  by (simp add: mod_mac2_32_def mod_mac_32_of_nat mod_add_right_eq ac_simps)

lemma mod_mul_x_32_of_nat:
  "a < MP \<Longrightarrow> mod_mul_x_32 (of_nat a) = Inr (of_nat (a * 107374182 mod MP))"
  using mod_mul_32_of_nat [of a 107374182] lecuyer_mul_correct [of a 107374182 20 7]
  by (simp add: mod_mul_x_32_def Let_def)

lemma mod_mul_y_32_of_nat:
  "a < MP \<Longrightarrow> mod_mul_y_32 (of_nat a) = Inr (of_nat (a * 104480 mod MP))"
  using mod_mul_32_of_nat [of a 104480] lecuyer_mul_correct [of a 104480 20554 1727]
  by (simp add: mod_mul_y_32_def Let_def)

lemmas mod_32_of_nat = mod_add_32_of_nat mod_mul_32_of_nat mod_mac_32_of_nat
  mod_mac2_32_of_nat mod_mul_x_32_of_nat mod_mul_y_32_of_nat

interpretation m32: mod_arith ops32
proof unfold_locales
  fix sm a b c d e f g h :: nat
  assume lt: "sm < MP" "a < MP" "b < MP" "c < MP" "d < MP" "e < MP" "f < MP" "g < MP" "h < MP"
  show "op_mac3 ops32 (of_nat sm) (of_nat a) (of_nat b) (of_nat c) (of_nat d) (of_nat e) (of_nat f)
      = Inr (of_nat ((a * b + c * d + e * f + sm) mod MP))"
    using lt by (simp add: ops32_def mod_mac3_32_def mod_32_of_nat mod_add_right_eq)
      (simp add: ac_simps)
  show "op_mac4 ops32 (of_nat sm) (of_nat a) (of_nat b) (of_nat c) (of_nat d) (of_nat e)
      (of_nat f) (of_nat g) (of_nat h)
      = Inr (of_nat ((a * b + c * d + e * f + g * h + sm) mod MP))"
    using lt by (simp add: ops32_def mod_mac4_32_def mod_32_of_nat mod_add_right_eq)
      (simp add: ac_simps)
next
  fix sm a :: nat
  assume lt: "sm < MP" "a < MP"
  have "mod_mac_32 (of_nat sm) (of_nat a) 104480 = Inr (of_nat ((a * 104480 + sm) mod MP))"
    using mod_mac_32_of_nat [of sm a 104480] lt by simp
  moreover have "(sm + a * 104480 mod MP) mod MP = (a * 104480 + sm) mod MP"
    by (simp add: mod_add_right_eq ac_simps)
  ultimately show "op_mac_y ops32 (of_nat sm) (of_nat a) = Inr (of_nat ((a * 104480 + sm) mod MP))"
    using lt by (simp add: ops32_def mod_mac_y_32_def mod_32_of_nat)
qed (simp_all add: ops32_def mod_32_of_nat)

section \<open>Properties\<close>

lemma in_fieldE:
  assumes "in_field x"
  obtains a where "a < MP" "x = of_nat a"
  using assms that [of "unat x"] by (simp add: in_field_unat)

text \<open>
  C3. The two arithmetic headers compute the same values: on field elements every operation
  of \<^verbatim>\<open>mod_arith_32bit.h\<close> (no division, signed intermediates, its own cross-checking
  assertions) returns exactly what \<^verbatim>\<open>mod_arith_64bit.h\<close> returns.
\<close>

theorem mod_arith_32_equiv_64:
  assumes "list_all in_field [sm, a, b, c, d, e, f, g, h]"
  shows "mod_add_32 a b = mod_add_64 a b \<and> mod_mul_32 a b = mod_mul_64 a b \<and>
    mod_mac_32 sm a b = mod_mac_64 sm a b \<and> mod_mac2_32 sm a b c d = mod_mac2_64 sm a b c d \<and>
    mod_mac3_32 sm a b c d e f = mod_mac3_64 sm a b c d e f \<and>
    mod_mac4_32 sm a b c d e f g h = mod_mac4_64 sm a b c d e f g h \<and>
    mod_mul_x_32 a = mod_mul_x_64 a \<and> mod_mul_y_32 a = mod_mul_y_64 a \<and>
    mod_mac_y_32 sm a = mod_mac_y_64 sm a"
proof -
  obtain sm' a' b' c' d' where 1: "sm' < MP" "a' < MP" "b' < MP" "c' < MP" "d' < MP"
      "sm = of_nat sm'" "a = of_nat a'" "b = of_nat b'" "c = of_nat c'" "d = of_nat d'"
    using assms by (auto elim!: in_fieldE)
  obtain e' f' g' h' where 2: "e' < MP" "f' < MP" "g' < MP" "h' < MP"
      "e = of_nat e'" "f = of_nat f'" "g = of_nat g'" "h = of_nat h'"
    using assms by (auto elim!: in_fieldE)
  note m64 = m64.add m64.mul m64.mac m64.mac2 m64.mac3 m64.mac4 m64.mul_x m64.mul_y m64.mac_y
  note m32 = m32.add m32.mul m32.mac m32.mac2 m32.mac3 m32.mac4 m32.mul_x m32.mul_y m32.mac_y
  note eqs = m64 [unfolded ops64_def mod_ops.simps] m32 [unfolded ops32_def mod_ops.simps]
  show ?thesis
    unfolding 1(6-) 2(5-) using 1(1-5) 2(1-4) by (simp only: eqs simp_thms)
qed

theorem mod_arith_32_equiv_64_witness:
  "list_all in_field [1, 2147483646, 7, 2, 3, 4, 5, 6, 8] \<and>
   mod_mac4_32 1 2147483646 7 2 3 4 5 6 8 = mod_mac4_64 1 2147483646 7 2 3 4 5 6 8 \<and>
   mod_mul_y_32 2147483646 = mod_mul_y_64 2147483646"
proof -
  have h: "list_all in_field [1, 2147483646, 7, 2, 3, 4, 5, 6, 8]" by (simp add: in_field_def)
  show ?thesis using h mod_arith_32_equiv_64 [OF h] by blast
qed

text \<open>
  C4. The 64-bit multiply-accumulate cannot wrap: for field elements the widest sum of four
  products fits in 64 bits, so \<open>mod_mac4_64\<close> is the residue of the exact integer value, and
  outside the field its assertion stops it.
\<close>

theorem mod_mac4_64_exact:
  "mod_mac4_64 sm a b c d e f g h =
     (if list_all in_field [sm, a, b, c, d, e, f, g, h]
      then Inr (of_nat ((unat a * unat b + unat c * unat d + unat e * unat f + unat g * unat h
             + unat sm) mod (2 ^ 31 - 1)))
      else Inl Assertion)"
proof (cases "list_all in_field [sm, a, b, c, d, e, f, g, h]")
  case True
  then show ?thesis
    using m64.mac4 [of "unat sm" "unat a" "unat b" "unat c" "unat d" "unat e" "unat f" "unat g"
        "unat h"] by (simp add: ops64_def in_field_unat)
next
  case False
  then show ?thesis by (auto simp: mod_mac4_64_def bindE_eq_Inl_iff assertE_def)
qed

end
