(* ===== verification/Mrg.thy ===== *)
theory Mrg
  imports Mod_Arith
begin

text \<open>
  The splittable multiple recursive random number generator of graph500
  (\<^verbatim>\<open>graph500/generator/splittable_mrg.c\<close>): a state of five field elements, the transition
  matrix \<open>A\<close>, matrices that represent its powers by their bottom row and four cached
  entries, and skipping ahead with a table of powers. Every function takes the modular
  arithmetic it is compiled with as its first argument (\<open>ops64\<close> is what
  \<^verbatim>\<open>user_settings.h\<close> selects).
\<close>

section \<open>State and matrices\<close>

record mrg_state =
  z1 :: u64
  z2 :: u64
  z3 :: u64
  z4 :: u64
  z5 :: u64

record mrg_transition_matrix =
  m_s :: u64
  m_t :: u64
  m_u :: u64
  m_v :: u64
  m_w :: u64
  m_a :: u64
  m_b :: u64
  m_c :: u64
  m_d :: u64

section \<open>Building the powers of the transition matrix\<close>

definition mrg_update_cache ::
  "mod_ops \<Rightarrow> mrg_transition_matrix \<Rightarrow> mrg_transition_matrix result" where
  "mrg_update_cache ops p =
     bindE (op_mul_x ops (m_s p)) (\<lambda>xs. bindE (op_add ops xs (m_t p)) (\<lambda>a.
     bindE (op_mul_x ops a) (\<lambda>xa. bindE (op_add ops xa (m_u p)) (\<lambda>b.
     bindE (op_mul_x ops b) (\<lambda>xb. bindE (op_add ops xb (m_v p)) (\<lambda>c.
     bindE (op_mul_x ops c) (\<lambda>xc. bindE (op_add ops xc (m_w p)) (\<lambda>d.
     Inr (p\<lparr>m_a := a, m_b := b, m_c := c, m_d := d\<rparr>)))))))))"

definition blank_matrix :: "u64 \<Rightarrow> u64 \<Rightarrow> u64 \<Rightarrow> u64 \<Rightarrow> u64 \<Rightarrow> mrg_transition_matrix" where
  "blank_matrix s t u v w =
     \<lparr>m_s = s, m_t = t, m_u = u, m_v = v, m_w = w, m_a = 0, m_b = 0, m_c = 0, m_d = 0\<rparr>"

definition mrg_make_identity :: "mod_ops \<Rightarrow> mrg_transition_matrix result" where
  "mrg_make_identity ops = mrg_update_cache ops (blank_matrix 0 0 0 0 1)"

definition mrg_make_A :: "mod_ops \<Rightarrow> mrg_transition_matrix result" where
  "mrg_make_A ops = mrg_update_cache ops (blank_matrix 0 0 0 1 0)"

definition mrg_multiply ::
  "mod_ops \<Rightarrow> mrg_transition_matrix \<Rightarrow> mrg_transition_matrix \<Rightarrow> mrg_transition_matrix result"
  where
  "mrg_multiply ops m n =
     bindE (op_mul ops (m_s m) (m_d n)) (\<lambda>e.
     bindE (op_mac ops e (m_t m) (m_c n)) (\<lambda>e.
     bindE (op_mac ops e (m_u m) (m_b n)) (\<lambda>e.
     bindE (op_mac ops e (m_v m) (m_a n)) (\<lambda>e.
     bindE (op_mac ops e (m_w m) (m_s n)) (\<lambda>rs.
     bindE (op_mul ops (m_s m) (m_s n)) (\<lambda>e.
     bindE (op_mul_y ops e) (\<lambda>e.
     bindE (op_mac ops e (m_t m) (m_w n)) (\<lambda>e.
     bindE (op_mac ops e (m_u m) (m_v n)) (\<lambda>e.
     bindE (op_mac ops e (m_v m) (m_u n)) (\<lambda>e.
     bindE (op_mac ops e (m_w m) (m_t n)) (\<lambda>rt.
     bindE (op_mul ops (m_s m) (m_a n)) (\<lambda>e.
     bindE (op_mac ops e (m_t m) (m_s n)) (\<lambda>e.
     bindE (op_mul_y ops e) (\<lambda>e.
     bindE (op_mac ops e (m_u m) (m_w n)) (\<lambda>e.
     bindE (op_mac ops e (m_v m) (m_v n)) (\<lambda>e.
     bindE (op_mac ops e (m_w m) (m_u n)) (\<lambda>ru.
     bindE (op_mul ops (m_s m) (m_b n)) (\<lambda>e.
     bindE (op_mac ops e (m_t m) (m_a n)) (\<lambda>e.
     bindE (op_mac ops e (m_u m) (m_s n)) (\<lambda>e.
     bindE (op_mul_y ops e) (\<lambda>e.
     bindE (op_mac ops e (m_v m) (m_w n)) (\<lambda>e.
     bindE (op_mac ops e (m_w m) (m_v n)) (\<lambda>rv.
     bindE (op_mul ops (m_s m) (m_c n)) (\<lambda>e.
     bindE (op_mac ops e (m_t m) (m_b n)) (\<lambda>e.
     bindE (op_mac ops e (m_u m) (m_a n)) (\<lambda>e.
     bindE (op_mac ops e (m_v m) (m_s n)) (\<lambda>e.
     bindE (op_mul_y ops e) (\<lambda>e.
     bindE (op_mac ops e (m_w m) (m_w n)) (\<lambda>rw.
     mrg_update_cache ops (blank_matrix rs rt ru rv rw))))))))))))))))))))))))))))))"

text \<open>The loop of \<^verbatim>\<open>mrg_power\<close>: square and multiply.\<close>

fun mrg_power_loop ::
  "mod_ops \<Rightarrow> mrg_transition_matrix \<Rightarrow> nat \<Rightarrow> mrg_transition_matrix \<Rightarrow> mrg_transition_matrix result"
  where
  "mrg_power_loop ops current_power_of_2 exponent res =
     (if exponent > 0 then
        bindE (if exponent mod 2 = 1 then mrg_multiply ops res current_power_of_2 else Inr res)
          (\<lambda>res.
        bindE (mrg_multiply ops current_power_of_2 current_power_of_2) (\<lambda>c2.
        mrg_power_loop ops c2 (exponent div 2) res))
      else Inr res)"

declare mrg_power_loop.simps [simp del]

definition mrg_power ::
  "mod_ops \<Rightarrow> mrg_transition_matrix \<Rightarrow> nat \<Rightarrow> mrg_transition_matrix result" where
  "mrg_power ops m exponent =
     bindE (mrg_make_identity ops) (\<lambda>res. mrg_power_loop ops m exponent res)"

section \<open>Stepping\<close>

definition mrg_apply_transition ::
  "mod_ops \<Rightarrow> mrg_transition_matrix \<Rightarrow> mrg_state \<Rightarrow> mrg_state result" where
  "mrg_apply_transition ops mat st =
     bindE (op_mul ops (m_d mat) (z1 st)) (\<lambda>p.
     bindE (op_mac4 ops 0 (m_s mat) (z2 st) (m_a mat) (z3 st) (m_b mat) (z4 st) (m_c mat) (z5 st))
       (\<lambda>q. bindE (op_mac_y ops p q) (\<lambda>o1.
     bindE (op_mac2 ops 0 (m_c mat) (z1 st) (m_w mat) (z2 st)) (\<lambda>p.
     bindE (op_mac3 ops 0 (m_s mat) (z3 st) (m_a mat) (z4 st) (m_b mat) (z5 st)) (\<lambda>q.
     bindE (op_mac_y ops p q) (\<lambda>o2.
     bindE (op_mac3 ops 0 (m_b mat) (z1 st) (m_v mat) (z2 st) (m_w mat) (z3 st)) (\<lambda>p.
     bindE (op_mac2 ops 0 (m_s mat) (z4 st) (m_a mat) (z5 st)) (\<lambda>q.
     bindE (op_mac_y ops p q) (\<lambda>o3.
     bindE (op_mac4 ops 0 (m_a mat) (z1 st) (m_u mat) (z2 st) (m_v mat) (z3 st) (m_w mat) (z4 st))
       (\<lambda>p. bindE (op_mul ops (m_s mat) (z5 st)) (\<lambda>q. bindE (op_mac_y ops p q) (\<lambda>o4.
     bindE (op_mac3 ops 0 (m_s mat) (z1 st) (m_t mat) (z2 st) (m_u mat) (z3 st)) (\<lambda>p.
     bindE (op_mac2 ops p (m_v mat) (z4 st) (m_w mat) (z5 st)) (\<lambda>o5.
     Inr \<lparr>z1 = o1, z2 = o2, z3 = o3, z4 = o4, z5 = o5\<rparr>))))))))))))))"

definition mrg_step ::
  "mod_ops \<Rightarrow> mrg_transition_matrix \<Rightarrow> mrg_state \<Rightarrow> mrg_state result" where
  "mrg_step ops mat state = mrg_apply_transition ops mat state"

definition mrg_orig_step :: "mod_ops \<Rightarrow> mrg_state \<Rightarrow> mrg_state result" where
  "mrg_orig_step ops st =
     bindE (op_mul_x ops (z1 st)) (\<lambda>x.
     bindE (op_mac_y ops x (z5 st)) (\<lambda>new_elt.
     Inr \<lparr>z1 = new_elt, z2 = z1 st, z3 = z2 st, z4 = z3 st, z5 = z4 st\<rparr>))"

definition mrg_get_uint_orig :: "mod_ops \<Rightarrow> mrg_state \<Rightarrow> (u64 \<times> mrg_state) result" where
  "mrg_get_uint_orig ops st = bindE (mrg_orig_step ops st) (\<lambda>st'. Inr (z1 st', st'))"

definition mrg_seed :: "u64 list \<Rightarrow> mrg_state result" where
  "mrg_seed seed =
     bindE (arr_get seed 0) (\<lambda>a. bindE (arr_get seed 1) (\<lambda>b. bindE (arr_get seed 2) (\<lambda>c.
     bindE (arr_get seed 3) (\<lambda>d. bindE (arr_get seed 4) (\<lambda>e.
     Inr \<lparr>z1 = a, z2 = b, z3 = c, z4 = d, z5 = e\<rparr>)))))"

section \<open>Skipping ahead\<close>

text \<open>
  \<^verbatim>\<open>mrg_skip_matrices[byte][value]\<close> is the list of rows \<open>tbl\<close>. One call of
  \<open>mrg_skip_bytes\<close> is one of the three loops of \<^verbatim>\<open>mrg_skip\<close>, over the bytes of one
  64-bit word of the exponent.
\<close>

lemma drop_bit_8_less: "e \<noteq> 0 \<Longrightarrow> unat (drop_bit 8 (e :: u64)) < unat e"
  by (simp add: drop_bit_eq_div unat_div unat_gt_0)

function mrg_skip_bytes ::
  "mod_ops \<Rightarrow> mrg_transition_matrix list list \<Rightarrow> nat \<Rightarrow> u64 \<Rightarrow> mrg_state \<Rightarrow> mrg_state result"
  where
  "mrg_skip_bytes ops tbl byte_index e st =
     (if e \<noteq> 0 then
        let val = e AND 0xFF in
        bindE (if val \<noteq> 0 then
                 bindE (arr_get tbl byte_index) (\<lambda>row.
                 bindE (arr_get row (unat val)) (\<lambda>mat. mrg_step ops mat st))
               else Inr st) (\<lambda>st.
        mrg_skip_bytes ops tbl (Suc byte_index) (drop_bit 8 e) st)
      else Inr st)"
  by pat_completeness auto
termination
  by (relation "measure (\<lambda>(ops, tbl, b, e, st). unat e)") (auto simp: drop_bit_8_less)

declare mrg_skip_bytes.simps [simp del]

definition mrg_skip ::
  "mod_ops \<Rightarrow> mrg_transition_matrix list list \<Rightarrow> mrg_state \<Rightarrow> u64 \<Rightarrow> u64 \<Rightarrow> u64 \<Rightarrow> mrg_state result"
  where
  "mrg_skip ops tbl state exponent_high exponent_middle exponent_low =
     bindE (mrg_skip_bytes ops tbl 0 exponent_low state) (\<lambda>st.
     bindE (mrg_skip_bytes ops tbl 8 exponent_middle st) (\<lambda>st.
     mrg_skip_bytes ops tbl 16 exponent_high st))"

text \<open>
  \<^verbatim>\<open>dump_mrg_powers\<close> prints the table; here it returns the rows. \<open>transitions i\<close> is
  \<^verbatim>\<open>transitions[i]\<close>, and the first two entries of a row are the identity and
  \<^verbatim>\<open>transitions[i]\<close> itself.
\<close>

fun transitions :: "mod_ops \<Rightarrow> nat \<Rightarrow> mrg_transition_matrix result" where
  "transitions ops 0 = mrg_make_A ops"
| "transitions ops (Suc i) = bindE (transitions ops i) (\<lambda>m. mrg_power ops m 256)"

definition dump_row :: "mod_ops \<Rightarrow> nat \<Rightarrow> mrg_transition_matrix list result" where
  "dump_row ops i =
     bindE (mrg_make_identity ops) (\<lambda>ident.
     bindE (transitions ops i) (\<lambda>tr.
     bindE (mapE (mrg_power ops tr) [2..<256]) (\<lambda>rest. Inr (ident # tr # rest))))"

definition dump_mrg_powers :: "mod_ops \<Rightarrow> mrg_transition_matrix list list result" where
  "dump_mrg_powers ops = mapE (dump_row ops) [0..<192 div 8]"

section \<open>What the matrices mean\<close>

text \<open>
  Over the natural numbers, before reduction: \<open>A_step\<close> is multiplication by \<open>A\<close> from the
  left, \<open>row_step\<close> multiplication of a row by \<open>A\<close> from the right, and \<open>row k\<close> the bottom
  row of the \<open>k\<close>-th power of \<open>A\<close>.
\<close>

type_synonym vec5 = "nat \<times> nat \<times> nat \<times> nat \<times> nat"

fun A_step :: "vec5 \<Rightarrow> vec5" where
  "A_step (a, b, c, d, e) = (107374182 * a + 104480 * e, a, b, c, d)"

fun row_step :: "vec5 \<Rightarrow> vec5" where
  "row_step (s, t, u, v, w) = (107374182 * s + t, u, v, w, 104480 * s)"

fun dot :: "vec5 \<Rightarrow> vec5 \<Rightarrow> nat" where
  "dot (s, t, u, v, w) (a, b, c, d, e) = s * a + t * b + u * c + v * d + w * e"

definition row :: "nat \<Rightarrow> vec5" where
  "row k = (row_step ^^ k) (0, 0, 0, 0, 1)"

fun st_of :: "vec5 \<Rightarrow> mrg_state" where
  "st_of (a, b, c, d, e) = \<lparr>z1 = of_nat (a mod MP), z2 = of_nat (b mod MP), z3 = of_nat (c mod MP),
     z4 = of_nat (d mod MP), z5 = of_nat (e mod MP)\<rparr>"

fun mat_row :: "vec5 \<Rightarrow> mrg_transition_matrix" where
  "mat_row (s, t, u, v, w) =
     (let a = 107374182 * s + t; b = 107374182 * a + u; c = 107374182 * b + v;
          d = 107374182 * c + w in
      \<lparr>m_s = of_nat (s mod MP), m_t = of_nat (t mod MP), m_u = of_nat (u mod MP),
       m_v = of_nat (v mod MP), m_w = of_nat (w mod MP), m_a = of_nat (a mod MP),
       m_b = of_nat (b mod MP), m_c = of_nat (c mod MP), m_d = of_nat (d mod MP)\<rparr>)"

definition mat_of :: "nat \<Rightarrow> mrg_transition_matrix" where
  "mat_of k = mat_row (row k)"

lemma row_0 [simp]: "row 0 = (0, 0, 0, 0, 1)"
  by (simp add: row_def)

lemma row_Suc: "row (Suc k) = row_step (row k)"
  by (simp add: row_def)

lemma dot_row_step: "dot (row_step r) z = dot r (A_step z)"
  by (cases r rule: row_step.cases, cases z rule: A_step.cases) (simp add: algebra_simps)

lemma dot_row: "dot (row k) z = snd (snd (snd (snd ((A_step ^^ k) z))))"
proof (induction k arbitrary: z)
  case 0
  then show ?case by (cases z rule: A_step.cases) simp
next
  case (Suc k)
  then show ?case by (simp add: row_Suc dot_row_step funpow_Suc_right del: funpow.simps)
qed

text \<open>A row times the \<open>j\<close>-th power of \<open>A\<close>, from the bottom row of that power.\<close>

fun row_mult :: "vec5 \<Rightarrow> vec5 \<Rightarrow> vec5" where
  "row_mult (s, t, u, v, w) (s2, t2, u2, v2, w2) =
     (let a2 = 107374182 * s2 + t2; b2 = 107374182 * a2 + u2; c2 = 107374182 * b2 + v2;
          d2 = 107374182 * c2 + w2; y = 104480 in
      (s * d2 + t * c2 + u * b2 + v * a2 + w * s2,
       s * s2 * y + t * w2 + u * v2 + v * u2 + w * t2,
       s * a2 * y + t * s2 * y + u * w2 + v * v2 + w * u2,
       s * b2 * y + t * a2 * y + u * s2 * y + v * w2 + w * v2,
       s * c2 * y + t * b2 * y + u * a2 * y + v * s2 * y + w * w2))"

lemma row_mult_step: "row_mult r (row_step q) = row_step (row_mult r q)"
  by (cases r rule: row_step.cases, cases q rule: row_step.cases)
    (simp add: Let_def algebra_simps)

lemma row_add: "row (i + j) = row_mult (row i) (row j)"
proof (induction j)
  case 0
  then show ?case by (cases "row i" rule: row_step.cases) (simp add: Let_def)
next
  case (Suc j)
  then show ?case by (simp add: row_Suc row_mult_step)
qed

text \<open>The five components after \<open>k\<close> steps are the last component after \<open>k\<close> to \<open>k + 4\<close>.\<close>

lemma A_steps:
  "(A_step ^^ k) z = (dot (row (k + 4)) z, dot (row (k + 3)) z, dot (row (k + 2)) z,
     dot (row (k + 1)) z, dot (row k) z)"
proof -
  obtain a b c d e where k: "(A_step ^^ k) z = (a, b, c, d, e)" by (cases "(A_step ^^ k) z")
  have "k + 4 = Suc (Suc (Suc (Suc k)))" "k + 3 = Suc (Suc (Suc k))" "k + 2 = Suc (Suc k)"
    "k + 1 = Suc k" by simp_all
  then show ?thesis by (simp only: dot_row funpow.simps o_apply k A_step.simps snd_conv)
qed

definition power_table :: "mrg_transition_matrix list list \<Rightarrow> bool" where
  "power_table tbl \<longleftrightarrow> length tbl = 24 \<and>
     (\<forall>i < 24. length (tbl ! i) = 256 \<and> (\<forall>j < 256. tbl ! i ! j = mat_of (j * 256 ^ i)))"

lemma unat_and_255: "unat (e AND 0xFF) = unat (e :: u64) mod 256"
proof -
  have "mask 8 = (0xFF :: u64)" by (simp add: mask_eq_exp_minus_1)
  then have "e AND 0xFF = take_bit 8 e" by (simp add: take_bit_eq_mask)
  then show ?thesis by (simp add: take_bit_eq_mod unat_mod)
qed

context mod_arith
begin

text \<open>
  The laws on residues: arguments and results are reduced, so rewriting with them keeps
  a single reduction at the top of each term.
\<close>

lemma op_laws:
  "op_add ops (of_nat (a mod MP)) (of_nat (b mod MP)) = Inr (of_nat ((a + b) mod MP))"
  "op_mul ops (of_nat (a mod MP)) (of_nat (b mod MP)) = Inr (of_nat (a * b mod MP))"
  "op_mul_x ops (of_nat (a mod MP)) = Inr (of_nat (a * 107374182 mod MP))"
  "op_mul_y ops (of_nat (a mod MP)) = Inr (of_nat (a * 104480 mod MP))"
  "op_mac_y ops (of_nat (sm mod MP)) (of_nat (a mod MP)) = Inr (of_nat ((a * 104480 + sm) mod MP))"
  by (simp_all add: add mul mul_x mul_y mac_y)
    (intro arg_cong [where f = of_nat] mod_add_cong mod_mult_cong; simp)+

lemma mac_law:
  "op_mac ops (of_nat (sm mod MP)) (of_nat (a mod MP)) (of_nat (b mod MP))
     = Inr (of_nat ((a * b + sm) mod MP))"
  by (simp add: mac) (intro arg_cong [where f = of_nat] mod_add_cong mod_mult_cong; simp)

lemma mac2_law:
  "op_mac2 ops (of_nat (sm mod MP)) (of_nat (a mod MP)) (of_nat (b mod MP)) (of_nat (c mod MP))
       (of_nat (d mod MP)) = Inr (of_nat ((a * b + c * d + sm) mod MP))"
  by (simp add: mac2) (intro arg_cong [where f = of_nat] mod_add_cong mod_mult_cong; simp)

lemma mac3_law:
  "op_mac3 ops (of_nat (sm mod MP)) (of_nat (a mod MP)) (of_nat (b mod MP)) (of_nat (c mod MP))
       (of_nat (d mod MP)) (of_nat (e mod MP)) (of_nat (f mod MP))
     = Inr (of_nat ((a * b + c * d + e * f + sm) mod MP))"
  by (simp add: mac3) (intro arg_cong [where f = of_nat] mod_add_cong mod_mult_cong; simp)

lemma mac4_law:
  "op_mac4 ops (of_nat (sm mod MP)) (of_nat (a mod MP)) (of_nat (b mod MP)) (of_nat (c mod MP))
       (of_nat (d mod MP)) (of_nat (e mod MP)) (of_nat (f mod MP)) (of_nat (g mod MP))
       (of_nat (h mod MP))
     = Inr (of_nat ((a * b + c * d + e * f + g * h + sm) mod MP))"
  by (simp add: mac4) (intro arg_cong [where f = of_nat] mod_add_cong mod_mult_cong; simp)

lemmas mac_zero_laws = mac2_law [of 0, simplified] mac3_law [of 0, simplified]
  mac4_law [of 0, simplified]

lemmas residue_laws = op_laws mac_law mac2_law mac_zero_laws

lemma update_cache_correct:
  "mrg_update_cache ops (blank_matrix (of_nat (s mod MP)) (of_nat (t mod MP)) (of_nat (u mod MP))
     (of_nat (v mod MP)) (of_nat (w mod MP))) = Inr (mat_row (s, t, u, v, w))"
  by (simp add: mrg_update_cache_def blank_matrix_def residue_laws Let_def mult.commute)

lemma make_identity_correct: "mrg_make_identity ops = Inr (mat_of 0)"
  using update_cache_correct [of 0 0 0 0 1] by (simp add: mrg_make_identity_def mat_of_def)

lemma make_A_correct: "mrg_make_A ops = Inr (mat_of 1)"
  using update_cache_correct [of 0 0 0 1 0] by (simp add: mrg_make_A_def mat_of_def row_Suc)

lemma multiply_row:
  "mrg_multiply ops (mat_row r) (mat_row q) = Inr (mat_row (row_mult r q))"
proof -
  obtain s t u v w where r: "r = (s, t, u, v, w)" by (cases r)
  obtain s2 t2 u2 v2 w2 where q: "q = (s2, t2, u2, v2, w2)" by (cases q)
  show ?thesis
    unfolding r q mrg_multiply_def mat_row.simps Let_def row_mult.simps
      mrg_transition_matrix.simps residue_laws bindE.simps update_cache_correct
    by (simp only: ac_simps distrib_left)
qed

lemma multiply_correct: "mrg_multiply ops (mat_of i) (mat_of j) = Inr (mat_of (i + j))"
  by (simp add: mat_of_def multiply_row row_add)

lemma power_loop_correct:
  "mrg_power_loop ops (mat_of i) e (mat_of k) = Inr (mat_of (k + i * e))"
proof (induction e arbitrary: i k rule: less_induct)
  case (less e)
  show ?case
  proof (cases "e > 0")
    case True
    have "mrg_power_loop ops (mat_of (i + i)) (e div 2) (mat_of (k + i * (e mod 2)))
        = Inr (mat_of (k + i * (e mod 2) + (i + i) * (e div 2)))"
      using less True by simp
    also have "k + i * (e mod 2) + (i + i) * (e div 2) = k + i * e"
    proof -
      have "i * e = i * (2 * (e div 2)) + i * (e mod 2)"
        by (metis distrib_left mult_div_mod_eq)
      then show ?thesis by (simp only: mult_2 distrib_left distrib_right add.assoc add.commute)
    qed
    finally show ?thesis
      using True
      by (cases "e mod 2 = 1") (simp_all add: mrg_power_loop.simps [of ops _ e] multiply_correct)
  qed (simp add: mrg_power_loop.simps)
qed

lemma power_correct: "mrg_power ops (mat_of i) e = Inr (mat_of (i * e))"
  using power_loop_correct [of i e 0] by (simp add: mrg_power_def make_identity_correct)

lemma apply_transition_correct:
  "mrg_apply_transition ops (mat_of k) (st_of z) = Inr (st_of ((A_step ^^ k) z))"
proof -
  obtain s t u v w where r: "row k = (s, t, u, v, w)" by (cases "row k")
  obtain a b c d e where z: "z = (a, b, c, d, e)" by (cases z)
  have rows: "row (k + 1) = row_step (row k)" "row (k + 2) = row_step (row_step (row k))"
    "row (k + 3) = row_step (row_step (row_step (row k)))"
    "row (k + 4) = row_step (row_step (row_step (row_step (row k))))"
    by (simp_all only: row_Suc [symmetric] add_Suc_right numeral_nat add_0_right One_nat_def)
  show ?thesis
    unfolding A_steps rows mat_of_def r z mrg_apply_transition_def mat_row.simps Let_def
      mrg_transition_matrix.simps mrg_state.simps st_of.simps residue_laws bindE.simps
      row_step.simps dot.simps
    by (simp only: ac_simps distrib_left)
qed

lemma orig_step_correct: "mrg_orig_step ops (st_of z) = Inr (st_of (A_step z))"
  by (cases z rule: A_step.cases) (simp add: mrg_orig_step_def residue_laws ac_simps)

lemma iter_orig_step: "iterE n (mrg_orig_step ops) (st_of z) = Inr (st_of ((A_step ^^ n) z))"
  by (rule iterE_funpow) (rule orig_step_correct)

lemma transitions_correct: "transitions ops i = Inr (mat_of (256 ^ i))"
  by (induction i) (simp_all add: make_A_correct power_correct mult.commute)

lemma dump_row_correct: "dump_row ops i = Inr (map (\<lambda>j. mat_of (j * 256 ^ i)) [0..<256])"
proof -
  have "mapE (mrg_power ops (mat_of (256 ^ i))) [2..<256] = Inr (map (\<lambda>j. mat_of (j * 256 ^ i)) [2..<256])"
    by (rule mapE_Inr) (simp add: power_correct mult.commute)
  moreover have "[0..<256] = 0 # 1 # [2..<256::nat]"
    by (simp add: upt_conv_Cons numeral_2_eq_2)
  ultimately show ?thesis
    by (simp add: dump_row_def make_identity_correct transitions_correct)
qed

lemma dump_correct: "\<exists>tbl. dump_mrg_powers ops = Inr tbl \<and> power_table tbl"
proof -
  have "mapE (dump_row ops) [0..<192 div 8]
      = Inr (map (\<lambda>i. map (\<lambda>j. mat_of (j * 256 ^ i)) [0..<256]) [0..<192 div 8])"
    by (rule mapE_Inr) (rule dump_row_correct)
  then show ?thesis by (simp add: dump_mrg_powers_def power_table_def)
qed

lemma skip_bytes_correct:
  assumes "power_table tbl" and "unat e < 256 ^ n" and "b + n \<le> 24"
  shows "mrg_skip_bytes ops tbl b e (st_of z) = Inr (st_of ((A_step ^^ (unat e * 256 ^ b)) z))"
  using assms(2,3)
proof (induction n arbitrary: b e z)
  case 0
  then have "e = 0" by (simp add: unat_eq_0)
  then show ?case by (simp add: mrg_skip_bytes.simps)
next
  case (Suc n)
  show ?case
  proof (cases "e = 0")
    case False
    define j where "j = unat e mod 256"
    have val: "unat (e AND 0xFF) = j" by (simp add: j_def unat_and_255)
    have row: "b < length tbl" "length (tbl ! b) = 256" "tbl ! b ! j = mat_of (j * 256 ^ b)"
      using assms(1) Suc.prems(2) by (auto simp: power_table_def j_def)
    have dv: "unat (drop_bit 8 e) = unat e div 256" by (simp add: drop_bit_eq_div unat_div)
    have rec: "mrg_skip_bytes ops tbl (Suc b) (drop_bit 8 e) (st_of z') =
        Inr (st_of ((A_step ^^ (unat e div 256 * 256 ^ Suc b)) z'))" for z'
      using Suc.IH [of "drop_bit 8 e" "Suc b" z'] Suc.prems by (simp add: dv less_mult_imp_div_less mult.commute)
    have ex: "unat e * 256 ^ b = unat e div 256 * 256 ^ Suc b + j * 256 ^ b"
      using div_mult_mod_eq [of "unat e" 256] by (simp add: j_def flip: distrib_right mult.assoc)
    have "(if e AND 0xFF \<noteq> 0 then
                 bindE (arr_get tbl b) (\<lambda>row.
                 bindE (arr_get row (unat (e AND 0xFF))) (\<lambda>mat. mrg_step ops mat (st_of z)))
               else Inr (st_of z)) = Inr (st_of ((A_step ^^ (j * 256 ^ b)) z))"
      using row val by (auto simp: mrg_step_def apply_transition_correct j_def unat_eq_zero [symmetric])
    then show ?thesis
      using False by (simp add: mrg_skip_bytes.simps [of ops tbl b e] Let_def rec ex funpow_add)
  qed (simp add: mrg_skip_bytes.simps)
qed

lemma skip_correct:
  assumes "power_table tbl"
  shows "mrg_skip ops tbl (st_of z) hi mid lo
    = Inr (st_of ((A_step ^^ (unat lo + 2 ^ 64 * unat mid + 2 ^ 128 * unat hi)) z))"
proof -
  have b: "unat (x :: u64) < 256 ^ 8" for x using unsigned_less [of x] by simp
  have p: "(256 :: nat) ^ 8 = 2 ^ 64" "(256 :: nat) ^ 16 = 2 ^ 128" by simp_all
  have "unat lo + 2 ^ 64 * unat mid + 2 ^ 128 * unat hi =
      unat hi * 256 ^ 16 + (unat mid * 256 ^ 8 + unat lo * 256 ^ 0)" by (simp add: p)
  then show ?thesis
    using skip_bytes_correct [OF assms b, of 0 lo z] b
    by (simp only: mrg_skip_def bindE.simps skip_bytes_correct [OF assms b] funpow_add o_apply)
qed

end

section \<open>Valid states\<close>

definition valid_state :: "mrg_state \<Rightarrow> bool" where
  "valid_state st \<longleftrightarrow> in_field (z1 st) \<and> in_field (z2 st) \<and> in_field (z3 st) \<and> in_field (z4 st) \<and>
     in_field (z5 st)"

definition zero_state :: mrg_state where
  "zero_state = \<lparr>z1 = 0, z2 = 0, z3 = 0, z4 = 0, z5 = 0\<rparr>"

lemma valid_st_of: "valid_state (st_of z)"
  by (cases z rule: A_step.cases) (simp add: valid_state_def)

lemma valid_stateE:
  assumes "valid_state st"
  obtains z where "st = st_of z"
proof
  show "st = st_of (unat (z1 st), unat (z2 st), unat (z3 st), unat (z4 st), unat (z5 st))"
    using assms by (cases st) (simp add: valid_state_def in_field_unat)
qed

lemma of_nat_mod_eq_0: "of_nat (n mod MP) = (0 :: u64) \<longleftrightarrow> n mod MP = 0"
proof -
  have "n mod MP < 2 ^ LENGTH(64)" using mod_less_divisor [of MP n] by (simp del: mod_less_divisor)
  then have "(0 :: u64) = of_nat (n mod MP) \<longleftrightarrow> unat (0 :: u64) = n mod MP"
    by (rule unat_eq_of_nat_iff)
  then show ?thesis by (auto dest: sym)
qed

lemma mult_y_zero: "104480 * e mod MP = 0 \<longleftrightarrow> e mod MP = 0"
proof -
  have inv: "(1840344978 * 104480) mod MP = 1" by simp
  have "e mod MP = (1840344978 * 104480 mod MP) * e mod MP" unfolding inv by simp
  also have "\<dots> = 1840344978 * (104480 * e mod MP) mod MP" by (simp only: mod_simps mult.assoc)
  finally show ?thesis by (metis mod_0 mod_mult_right_eq mult_0_right)
qed

lemma A_step_zero: "st_of (A_step z) = zero_state \<longleftrightarrow> st_of z = zero_state"
proof -
  obtain a b c d e where z: "z = (a, b, c, d, e)" by (cases z)
  have "a mod MP = 0 \<Longrightarrow> (107374182 * a + 104480 * e) mod MP = 104480 * e mod MP"
    by (metis add_0 mod_add_left_eq mod_mult_right_eq mult_0_right mod_0)
  then show ?thesis
    by (auto simp: z zero_state_def of_nat_mod_eq_0 mult_y_zero)
qed

section \<open>Properties of the generator\<close>

text \<open>
  C1. Skipping ahead is exactly stepping: on any valid state, with the table that
  \<open>dump_mrg_powers\<close> produces, \<open>mrg_skip\<close> by the 192-bit exponent (high, middle, low)
  returns (no assertion fails, no table access is out of range) the state that many single
  steps of the generator reach.
\<close>

theorem mrg_skip_is_iterated_step:
  assumes "valid_state st"
  shows "\<exists>tbl. dump_mrg_powers ops64 = Inr tbl \<and>
    mrg_skip ops64 tbl st hi mid lo
      = iterE (unat lo + 2 ^ 64 * unat mid + 2 ^ 128 * unat hi) (mrg_orig_step ops64) st"
proof -
  obtain z where z: "st = st_of z" using assms by (rule valid_stateE)
  obtain tbl where "dump_mrg_powers ops64 = Inr tbl" "power_table tbl"
    using m64.dump_correct by blast
  then show ?thesis unfolding z
    by (intro exI [of _ tbl] conjI) (simp_all only: m64.skip_correct m64.iter_orig_step)
qed

theorem mrg_skip_is_iterated_step_witness:
  "valid_state \<lparr>z1 = 1, z2 = 2, z3 = 3, z4 = 4, z5 = 5\<rparr> \<and>
   (\<exists>tbl. dump_mrg_powers ops64 = Inr tbl \<and>
     mrg_skip ops64 tbl \<lparr>z1 = 1, z2 = 2, z3 = 3, z4 = 4, z5 = 5\<rparr> 0 0 2
       = Inr \<lparr>z1 = 177402481, z2 = 107896582, z3 = 1, z4 = 2, z5 = 3\<rparr>)"
proof -
  let ?st = "\<lparr>z1 = 1, z2 = 2, z3 = 3, z4 = 4, z5 = 5\<rparr>"
  have v: "valid_state ?st" by (simp add: valid_state_def in_field_def)
  have "iterE 2 (mrg_orig_step ops64) ?st
      = Inr \<lparr>z1 = 177402481, z2 = 107896582, z3 = 1, z4 = 2, z5 = 3\<rparr>"
    unfolding numeral_2_eq_2 iterE.simps
    by (simp add: mrg_orig_step_def ops64_def mod_64_defs in_field_def)
  then show ?thesis using v mrg_skip_is_iterated_step [OF v, of 0 0 2] by simp
qed

text \<open>
  C2. A draw stays in range and never wears the state out: from a valid state
  \<open>mrg_get_uint_orig\<close> returns a number below 2^31 - 1 and a valid state, and the new
  state is all zero (where the generator would be stuck) only if the old one was.
\<close>

theorem mrg_draw_valid:
  assumes "valid_state st"
  shows "\<exists>v st'. mrg_get_uint_orig ops64 st = Inr (v, st') \<and> unat v < 2 ^ 31 - 1 \<and>
    valid_state st' \<and> (st' = zero_state \<longleftrightarrow> st = zero_state)"
proof -
  obtain z where z: "st = st_of z" using assms by (rule valid_stateE)
  have "valid_state (st_of (A_step z))" by (rule valid_st_of)
  then show ?thesis unfolding z
    by (simp add: mrg_get_uint_orig_def m64.orig_step_correct A_step_zero valid_state_def
        in_field_unat)
qed

theorem mrg_draw_valid_witness:
  "valid_state \<lparr>z1 = 1, z2 = 2, z3 = 3, z4 = 4, z5 = 5\<rparr> \<and>
   (\<exists>v st'. mrg_get_uint_orig ops64 \<lparr>z1 = 1, z2 = 2, z3 = 3, z4 = 4, z5 = 5\<rparr> = Inr (v, st') \<and>
     unat v < 2 ^ 31 - 1 \<and> valid_state st' \<and> st' \<noteq> zero_state)"
proof -
  have v: "valid_state \<lparr>z1 = 1, z2 = 2, z3 = 3, z4 = 4, z5 = 5\<rparr>"
    by (simp add: valid_state_def in_field_def)
  show ?thesis using v mrg_draw_valid [OF v] by (auto simp: zero_state_def)
qed

text \<open>
  Square-and-multiply computes the transition for \<open>n\<close> steps: applying
  \<open>mrg_power A n\<close> to a valid state is \<open>n\<close> single steps, whichever of the two arithmetic
  headers the generator is compiled with.
\<close>

lemma mrg_power_is_n_steps:
  assumes "valid_state st" and "ops \<in> {ops64, ops32}"
  shows "bindE (mrg_make_A ops) (\<lambda>A. bindE (mrg_power ops A n) (\<lambda>P. mrg_apply_transition ops P st))
    = iterE n (mrg_orig_step ops) st"
proof -
  obtain z where "st = st_of z" using assms(1) by (rule valid_stateE)
  then show ?thesis using assms(2)
    by (auto simp: m64.make_A_correct m64.power_correct m64.apply_transition_correct
        m64.iter_orig_step m32.make_A_correct m32.power_correct m32.apply_transition_correct
        m32.iter_orig_step)
qed

end
