(* ===== verification/Scramble.thy ===== *)
theory Scramble
  imports Prelude
begin

text \<open>
  The vertex scrambling of the Kronecker generator
  (\<^verbatim>\<open>graph500/generator/graph_generator.c\<close>): bit reversal with the 64-bit code path that
  \<^verbatim>\<open>FAST_64BIT_ARITHMETIC\<close> selects, and the permutation of the vertex numbers.
\<close>

section \<open>The code\<close>

text \<open>\<^verbatim>\<open>__builtin_bswap64\<close>, as the lines for other compilers spell it out.\<close>

definition bswap64 :: "u64 \<Rightarrow> u64" where
  "bswap64 x =
     (let x = drop_bit 32 x OR push_bit 32 x;
          x = (drop_bit 16 x AND 0x0000FFFF0000FFFF) OR push_bit 16 (x AND 0x0000FFFF0000FFFF)
      in (drop_bit 8 x AND 0x00FF00FF00FF00FF) OR push_bit 8 (x AND 0x00FF00FF00FF00FF))"

definition bitreverse :: "u64 \<Rightarrow> u64" where
  "bitreverse x =
     (let x = bswap64 x;
          x = (drop_bit 4 x AND 0x0F0F0F0F0F0F0F0F) OR push_bit 4 (x AND 0x0F0F0F0F0F0F0F0F);
          x = (drop_bit 2 x AND 0x3333333333333333) OR push_bit 2 (x AND 0x3333333333333333)
      in (drop_bit 1 x AND 0x5555555555555555) OR push_bit 1 (x AND 0x5555555555555555))"

text \<open>
  A shift by 64 is undefined, so are scrambling for a single vertex (\<^verbatim>\<open>>> (64 - lgN)\<close>) and for
  \<open>2 ^ 64\<close> (\<^verbatim>\<open>v >> lgN\<close>).
\<close>

definition scramble :: "u64 \<Rightarrow> nat \<Rightarrow> u64 \<Rightarrow> u64 \<Rightarrow> u64 result" where
  "scramble v0 lgN val0 val1 =
     (if lgN = 0 \<or> 64 \<le> lgN then Inl Undefined
      else
        let v = v0 + (val0 + val1);
            v = v * (val0 OR 0x4519840211493211);
            v = drop_bit (64 - lgN) (bitreverse v) in
        bindE (assertE (drop_bit lgN v = 0)) (\<lambda>_.
        let v = v * (val1 OR 0x3050852102C843A5);
            v = drop_bit (64 - lgN) (bitreverse v) in
        bindE (assertE (drop_bit lgN v = 0)) (\<lambda>_. Inr v)))"

section \<open>Bit reversal\<close>

definition flip :: "nat \<Rightarrow> nat \<Rightarrow> nat" where
  "flip k n = (if n mod (2 * k) < k then n + k else n - k)"

text \<open>The masks select the lower halves of the groups.\<close>

lemma all_64: "(\<forall>n < (64 :: nat). P n) \<longleftrightarrow> list_all P
    [0, 1, 2, 3, 4, 5, 6, 7, 8, 9, 10, 11, 12, 13, 14, 15, 16, 17, 18, 19, 20, 21, 22, 23, 24,
     25, 26, 27, 28, 29, 30, 31, 32, 33, 34, 35, 36, 37, 38, 39, 40, 41, 42, 43, 44, 45, 46,
     47, 48, 49, 50, 51, 52, 53, 54, 55, 56, 57, 58, 59, 60, 61, 62, 63]"
proof -
  have "[0..<64] =
    [0, 1, 2, 3, 4, 5, 6, 7, 8, 9, 10, 11, 12, 13, 14, 15, 16, 17, 18, 19, 20, 21, 22, 23, 24,
     25, 26, 27, 28, 29, 30, 31, 32, 33, 34, 35, 36, 37, 38, 39, 40, 41, 42, 43, 44, 45, 46,
     47, 48, 49, 50, 51, 52, 53, 54, 55, 56, 57, 58, 59, 60, 61, 62, 63]"
    by (simp add: upt_rec)
  from this [symmetric] show ?thesis by (auto simp only: list_all_iff set_upt atLeastLessThan_iff)
qed

lemma mask_bits:
  "\<forall>n < 64. bit (0x0000FFFF0000FFFF :: u64) n = (n mod 32 < 16)"
  "\<forall>n < 64. bit (0x00FF00FF00FF00FF :: u64) n = (n mod 16 < 8)"
  "\<forall>n < 64. bit (0x0F0F0F0F0F0F0F0F :: u64) n = (n mod 8 < 4)"
  "\<forall>n < 64. bit (0x3333333333333333 :: u64) n = (n mod 4 < 2)"
  "\<forall>n < 64. bit (0x5555555555555555 :: u64) n = (n mod 2 < 1)"
  unfolding all_64 list.pred_inject by simp_all

lemma swap_bits:
  fixes x m :: u64
  assumes m: "\<forall>n < 64. bit m n = (n mod (2 * k) < k)" and k: "0 < k" "2 * k dvd 64" and n: "n < 64"
  shows "bit ((drop_bit k x AND m) OR push_bit k (x AND m)) n = bit x (flip k n)"
proof (cases "n mod (2 * k) < k")
  case True
  have "\<not> (k \<le> n \<and> (n - k) mod (2 * k) < k)"
  proof
    assume a: "k \<le> n \<and> (n - k) mod (2 * k) < k"
    define r where "r = (n - k) mod (2 * k)"
    have "n = 2 * k * ((n - k) div (2 * k)) + (r + k)" using a unfolding r_def by (metis add.assoc le_add_diff_inverse2 mult_div_mod_eq)
    then have "n mod (2 * k) = r + k" using a by (metis mod_mult_self4 mod_less r_def mult_2 add_less_cancel_right)
    then show False using True by simp
  qed
  then show ?thesis using True m n by (auto simp: flip_def bit_simps add.commute)
next
  case False
  let ?q = "n div (2 * k)" and ?r = "n mod (2 * k)"
  have r: "n = 2 * k * ?q + ?r" "?r < 2 * k" "k \<le> ?r" using False k(1) by simp_all
  then have "n - k = 2 * k * ?q + (?r - k)" "k \<le> n" by linarith+
  then have "(n - k) mod (2 * k) = ?r - k" using r by (metis mod_mult_self4 mod_less less_imp_diff_less)
  then have "(n - k) mod (2 * k) < k" using r by linarith
  then show ?thesis using False m n \<open>k \<le> n\<close> by (auto simp: flip_def bit_simps)
qed

lemma flip_step: "n mod (2 * k) < k \<Longrightarrow> flip k n = n + k" "\<not> n mod (2 * k) < k \<Longrightarrow> flip k n = n - k"
  by (simp_all add: flip_def)

lemma flip_less:
  "\<forall>n < 64. flip 1 n < 64" "\<forall>n < 64. flip 2 n < 64" "\<forall>n < 64. flip 4 n < 64" "\<forall>n < 64. flip 8 n < 64"
  "\<forall>n < 64. flip 16 n < 64"
  unfolding all_64 list.pred_inject by (simp_all add: flip_step)

lemma flips_low: "\<forall>n < 64. flip 4 (flip 2 (flip 1 n)) = 8 * (n div 8) + (7 - n mod 8)"
  unfolding all_64 list.pred_inject by (simp add: flip_step)

lemma flips_high: "\<forall>n < 64. flip 32 (flip 16 (flip 8 n)) = 8 * (7 - n div 8) + n mod 8"
  unfolding all_64 list.pred_inject by (simp add: flip_step)

lemma flips: "n < 64 \<Longrightarrow> flip 32 (flip 16 (flip 8 (flip 4 (flip 2 (flip 1 n))))) = 63 - n"
proof -
  assume n: "n < 64"
  define q r where "q = n div 8" and "r = n mod 8"
  have qr: "n = 8 * q + r" "q < 8" "r < 8" using n by (simp_all add: q_def r_def)
  define d where "d = 7 - r"
  have d: "d < 8" by (simp add: d_def)
  let ?m = "8 * q + d"
  have "flip 4 (flip 2 (flip 1 n)) = ?m" using flips_low n by (simp add: q_def r_def d_def)
  moreover have "?m < 64" "?m div 8 = q" "?m mod 8 = d" using qr d by auto
  moreover have "8 * (7 - q) + d = 63 - n" using qr by (auto simp: d_def)
  ultimately show ?thesis using flips_high by simp
qed

lemma swap_steps:
  fixes y :: u64
  assumes "n < 64"
  shows "bit ((drop_bit 1 y AND 0x5555555555555555) OR push_bit 1 (y AND 0x5555555555555555)) n = bit y (flip 1 n)"
    "bit ((drop_bit 2 y AND 0x3333333333333333) OR push_bit 2 (y AND 0x3333333333333333)) n = bit y (flip 2 n)"
    "bit ((drop_bit 4 y AND 0x0F0F0F0F0F0F0F0F) OR push_bit 4 (y AND 0x0F0F0F0F0F0F0F0F)) n = bit y (flip 4 n)"
    "bit ((drop_bit 8 y AND 0x00FF00FF00FF00FF) OR push_bit 8 (y AND 0x00FF00FF00FF00FF)) n = bit y (flip 8 n)"
    "bit ((drop_bit 16 y AND 0x0000FFFF0000FFFF) OR push_bit 16 (y AND 0x0000FFFF0000FFFF)) n = bit y (flip 16 n)"
    "bit (drop_bit 32 y OR push_bit 32 y) n = bit y (flip 32 n)"
proof -
  show "bit (drop_bit 32 y OR push_bit 32 y) n = bit y (flip 32 n)"
    using assms by (auto simp: flip_def bit_simps add.commute dest: bit_imp_le_length)
qed (rule swap_bits; use mask_bits assms in simp)+

lemma bitreverse_bits: "n < 64 \<Longrightarrow> bit (bitreverse x) n = bit x (63 - n)"
proof -
  assume n: "n < 64"
  note l1 = flip_less(1) [rule_format, OF n]
  note l2 = flip_less(2) [rule_format, OF l1]
  note l4 = flip_less(3) [rule_format, OF l2]
  note l8 = flip_less(4) [rule_format, OF l4]
  note l16 = flip_less(5) [rule_format, OF l8]
  have "bit (bitreverse x) n = bit x (flip 32 (flip 16 (flip 8 (flip 4 (flip 2 (flip 1 n))))))"
    unfolding bitreverse_def bswap64_def Let_def swap_steps(1) [OF n] swap_steps(2) [OF l1] swap_steps(3) [OF l2]
      swap_steps(4) [OF l4] swap_steps(5) [OF l8] swap_steps(6) [OF l16] ..
  then show ?thesis using flips [OF n] by simp
qed

section \<open>The permutation\<close>

text \<open>The low \<open>n\<close> bits in reverse order.\<close>

definition rev_low :: "nat \<Rightarrow> u64 \<Rightarrow> u64" where
  "rev_low n v = drop_bit (64 - n) (bitreverse v)"

lemma rev_low_bits: "n \<le> 64 \<Longrightarrow> bit (rev_low n v) i = (i < n \<and> bit v (n - 1 - i))"
proof (cases "i < n")
  case True
  assume n: "n \<le> 64"
  have "bit (rev_low n v) i = bit (bitreverse v) (64 - n + i)" by (simp add: rev_low_def bit_simps)
  also have "\<dots> = bit v (63 - (64 - n + i))" by (rule bitreverse_bits) (use True n in simp)
  also have "63 - (64 - n + i) = n - 1 - i" using True n by simp
  finally show ?thesis using True by simp
next
  case False
  assume n: "n \<le> 64"
  then have "\<not> 64 - n + i < 64" using False by simp
  then have "\<not> bit (bitreverse v) (64 - n + i)" by (auto dest: bit_imp_le_length)
  then show ?thesis using False by (simp add: rev_low_def bit_simps)
qed

lemma rev_low_small: "n \<le> 64 \<Longrightarrow> drop_bit n (rev_low n v) = 0"
  by (rule bit_word_eqI) (simp add: bit_drop_bit_eq rev_low_bits)

lemma rev_low_inj:
  assumes n: "n \<le> 64" and eq: "rev_low n v = rev_low n w"
  shows "take_bit n v = take_bit n w"
proof (rule bit_word_eqI)
  fix i assume "i < LENGTH(64)"
  show "bit (take_bit n v) i = bit (take_bit n w) i"
  proof (cases "i < n")
    case True
    then have "bit (rev_low n u) (n - 1 - i) = bit u i" for u using rev_low_bits [OF n, of u "n - 1 - i"] by simp
    then show ?thesis using True eq by (metis bit_take_bit_iff)
  qed (simp add: bit_take_bit_iff)
qed

lemma take_bit_mult_odd:
  fixes v w o' :: u64
  assumes n: "n \<le> 64" and odd: "odd o'" and eq: "take_bit n (v * o') = take_bit n (w * o')"
  shows "take_bit n v = take_bit n w"
proof -
  have tb: "uint (take_bit n x) = uint x mod 2 ^ n" for x :: u64
    unfolding unsigned_take_bit_eq by (rule take_bit_eq_mod)
  have dv: "(2 :: int) ^ n dvd 2 ^ 64" using n by (rule le_imp_power_dvd)
  have um: "uint (x * o') mod 2 ^ n = (uint x * uint o') mod 2 ^ n" for x
    using dv by (simp add: uint_word_ariths mod_mod_cancel)
  have "(uint v * uint o') mod 2 ^ n = (uint w * uint o') mod 2 ^ n" using eq um tb by metis
  then have "2 ^ n dvd (uint v - uint w) * uint o'" by (simp add: mod_eq_dvd_iff left_diff_distrib)
  moreover have "odd (uint o')" using odd by (metis even_of_int_iff of_int_uint word_of_int_uint)
  then have "coprime ((2 :: int) ^ n) (uint o')" by simp
  ultimately have "2 ^ n dvd uint v - uint w" by (simp add: coprime_dvd_mult_left_iff)
  then have "uint v mod 2 ^ n = uint w mod 2 ^ n" by (simp add: mod_eq_dvd_iff)
  then show ?thesis using tb by (metis word_uint_eqI)
qed

lemma take_bit_add_cancel:
  fixes v w c :: u64
  assumes n: "n \<le> 64" and eq: "take_bit n (v + c) = take_bit n (w + c)"
  shows "take_bit n v = take_bit n w"
proof -
  have tb: "uint (take_bit n x) = uint x mod 2 ^ n" for x :: u64
    unfolding unsigned_take_bit_eq by (rule take_bit_eq_mod)
  have dv: "(2 :: int) ^ n dvd 2 ^ 64" using n by (rule le_imp_power_dvd)
  have ua: "uint (x + c) mod 2 ^ n = (uint x + uint c) mod 2 ^ n" for x
    using dv by (simp add: uint_word_ariths mod_mod_cancel)
  have "(uint v + uint c) mod 2 ^ n = (uint w + uint c) mod 2 ^ n" using eq ua tb by metis
  then have "uint v mod 2 ^ n = uint w mod 2 ^ n" by (simp add: mod_eq_dvd_iff)
  then show ?thesis using tb by (metis word_uint_eqI)
qed

definition scramble_fun :: "nat \<Rightarrow> u64 \<Rightarrow> u64 \<Rightarrow> u64 \<Rightarrow> u64" where
  "scramble_fun n val0 val1 v =
     rev_low n (rev_low n ((v + (val0 + val1)) * (val0 OR 0x4519840211493211)) * (val1 OR 0x3050852102C843A5))"

lemma scramble_eq: "0 < n \<Longrightarrow> n < 64 \<Longrightarrow> scramble v n val0 val1 = Inr (scramble_fun n val0 val1 v)"
  by (simp add: scramble_def scramble_fun_def Let_def rev_low_small rev_low_def [symmetric])

lemma odd_or: "odd (c :: u64) \<Longrightarrow> odd (a OR c)"
  by (simp add: even_or_iff)

lemma scramble_fun_inj:
  assumes n: "n \<le> 64" and eq: "scramble_fun n val0 val1 v = scramble_fun n val0 val1 w"
  shows "take_bit n v = take_bit n w"
proof -
  let ?f = "\<lambda>v. (v + (val0 + val1)) * (val0 OR 0x4519840211493211)"
  have o: "odd (val0 OR 0x4519840211493211)" "odd (val1 OR 0x3050852102C843A5)" by (rule odd_or; simp)+
  have t: "take_bit n (rev_low n u) = rev_low n u" for u
    using n by (intro bit_word_eqI) (auto simp: bit_take_bit_iff rev_low_bits)
  have "take_bit n (rev_low n (?f v)) = take_bit n (rev_low n (?f w))"
    using rev_low_inj [OF n eq [unfolded scramble_fun_def]] by (rule take_bit_mult_odd [OF n o(2)])
  then have "take_bit n (?f v) = take_bit n (?f w)" unfolding t by (rule rev_low_inj [OF n])
  then have "take_bit n (v + (val0 + val1)) = take_bit n (w + (val0 + val1))" by (rule take_bit_mult_odd [OF n o(1)])
  then show ?thesis by (rule take_bit_add_cancel [OF n])
qed

definition vertices :: "nat \<Rightarrow> u64 set" where
  "vertices n = {v. drop_bit n v = 0}"

lemma vertices_take_bit: "v \<in> vertices n \<Longrightarrow> take_bit n v = v"
  using bits_ident [of n v] by (simp add: vertices_def)

lemma scramble_fun_vertices: "n \<le> 64 \<Longrightarrow> scramble_fun n val0 val1 v \<in> vertices n"
  by (simp add: scramble_fun_def vertices_def rev_low_small)

section \<open>Properties\<close>

text \<open>
  \<^verbatim>\<open>bitreverse\<close> reverses the 64 bits of its argument, and is its own inverse.
\<close>

theorem bitreverse_reverses: "(\<forall>n < 64. bit (bitreverse x) n = bit x (63 - n)) \<and> bitreverse (bitreverse x) = x"
proof -
  have "bitreverse (bitreverse x) = x" by (rule bit_word_eqI) (simp add: bitreverse_bits)
  then show ?thesis using bitreverse_bits by blast
qed

theorem bitreverse_reverses_witness: "bitreverse 1 = 2 ^ 63 \<and> bitreverse (bitreverse 0x1234) = 0x1234"
proof -
  have "bitreverse 1 = push_bit 63 1"
    by (rule bit_word_eqI) (use bitreverse_reverses [of 1] in \<open>auto simp: bit_1_iff bit_push_bit_iff simp del: push_bit_of_1 push_bit_numeral\<close>)
  then show ?thesis using bitreverse_reverses [of "0x1234"] by simp
qed

text \<open>
  C23. Scrambling is a permutation of the vertices: for every number of bits from 1 to 63 and all
  scrambling values, no shift is undefined, no assertion fails and \<^verbatim>\<open>scramble\<close> maps the numbers below
  \<open>2 ^ lgN\<close> one to one onto themselves, so relabelling the vertices never merges two.
\<close>

theorem scramble_permutes:
  assumes "0 < lgN" and "lgN < 64"
  shows "(\<forall>v. \<exists>w. scramble v lgN val0 val1 = Inr w) \<and>
    bij_betw (\<lambda>v. projr (scramble v lgN val0 val1)) (vertices lgN) (vertices lgN)"
proof -
  have le: "lgN \<le> 64" using assms(2) by simp
  have "inj_on (scramble_fun lgN val0 val1) (vertices lgN)"
    using scramble_fun_inj [OF le] vertices_take_bit by (metis inj_onI)
  moreover have "scramble_fun lgN val0 val1 ` vertices lgN \<subseteq> vertices lgN"
    using scramble_fun_vertices [OF le] by blast
  ultimately have "bij_betw (scramble_fun lgN val0 val1) (vertices lgN) (vertices lgN)"
    by (simp add: bij_betw_def endo_inj_surj)
  then show ?thesis using scramble_eq [OF assms] by simp
qed

theorem scramble_permutes_witness:
  "bij_betw (\<lambda>v. projr (scramble v 20 17 42)) (vertices 20) (vertices 20) \<and> 5 \<in> vertices 20"
  using scramble_permutes [of 20 17 42] by (simp add: vertices_def)

end
