(* ===== verification/Kronecker.thy ===== *)
theory Kronecker
  imports Mrg Scramble
begin

text \<open>
  The Kronecker graph generator (\<^verbatim>\<open>graph500/generator/graph_generator.c\<close>,
  \<^verbatim>\<open>utils.c\<close>, \<^verbatim>\<open>graph_generator.h\<close>, \<^verbatim>\<open>graph500/prng.c\<close>): seeding, the draw
  of a quadrant, one edge and a range of edges. The loop that redraws rejected numbers takes
  fuel; the transition table of \<^verbatim>\<open>mrg_skip\<close> is an argument, as in the theory of the
  random number generator.
\<close>

section \<open>Seeds\<close>

definition make_mrg_seed :: "u64 \<Rightarrow> u64 \<Rightarrow> u64 list" where
  "make_mrg_seed userseed1 userseed2 =
     [ucast (ucast (userseed1 AND 0x3FFFFFFF) + 1 :: u32),
      ucast (ucast (drop_bit 30 userseed1 AND 0x3FFFFFFF) + 1 :: u32),
      ucast (ucast (userseed2 AND 0x3FFFFFFF) + 1 :: u32),
      ucast (ucast (drop_bit 30 userseed2 AND 0x3FFFFFFF) + 1 :: u32),
      ucast (ucast (push_bit 4 (drop_bit 60 userseed2)) + ucast (drop_bit 60 userseed1) + 1 :: u32)]"

text \<open>The variant of \<^verbatim>\<open>prng.c\<close> with one user seed.\<close>

definition make_mrg_seed1 :: "u64 \<Rightarrow> u64 list" where
  "make_mrg_seed1 userseed =
     [(userseed AND 0x3FFFFFFF) + 1,
      (drop_bit 30 userseed AND 0x3FFFFFFF) + 1,
      (userseed AND 0x3FFFFFFF) + 1,
      (drop_bit 30 userseed AND 0x3FFFFFFF) + 1,
      push_bit 4 (drop_bit 60 userseed) + drop_bit 60 userseed + 1]"

text \<open>
  \<^verbatim>\<open>init_random\<close>: the seed that \<^verbatim>\<open>strtol\<close> reads from the environment variable, if it
  is there and in range, or -1.
\<close>

definition init_random :: "int option \<Rightarrow> mrg_state result" where
  "init_random env =
     (let seed = (case env of None \<Rightarrow> - 1 | Some s \<Rightarrow> s);
          seed = (if seed < 0 then 0xDECAFBAD else seed) in
      mrg_seed (make_mrg_seed1 (of_int seed)))"

section \<open>One edge\<close>

definition INITIATOR_A_NUMERATOR :: nat where
  "INITIATOR_A_NUMERATOR = 5700"

definition INITIATOR_BC_NUMERATOR :: nat where
  "INITIATOR_BC_NUMERATOR = 1900"

definition INITIATOR_DENOMINATOR :: nat where
  "INITIATOR_DENOMINATOR = 10000"

definition bernoulli_limit :: nat where
  "bernoulli_limit = 0x7FFFFFFF mod INITIATOR_DENOMINATOR"

text \<open>\<^verbatim>\<open>do val = mrg_get_uint_orig(st); while (val < limit);\<close>\<close>

fun redraw :: "nat \<Rightarrow> mod_ops \<Rightarrow> mrg_state \<Rightarrow> (nat \<times> mrg_state) result" where
  "redraw 0 ops st = Inl Out_of_fuel"
| "redraw (Suc fuel) ops st =
     bindE (mrg_get_uint_orig ops st) (\<lambda>(v, st).
     if unat v < bernoulli_limit then redraw fuel ops st else Inr (unat v, st))"

text \<open>With \<^verbatim>\<open>SPK_NOISE_LEVEL\<close> 0.\<close>

definition quadrant :: "nat \<Rightarrow> nat" where
  "quadrant val =
     (let val = val mod INITIATOR_DENOMINATOR in
      if val < INITIATOR_BC_NUMERATOR then 1
      else let val = val - INITIATOR_BC_NUMERATOR in
      if val < INITIATOR_BC_NUMERATOR then 2
      else let val = val - INITIATOR_BC_NUMERATOR in
      if val < INITIATOR_A_NUMERATOR then 0 else 3)"

definition generate_4way_bernoulli :: "nat \<Rightarrow> mod_ops \<Rightarrow> mrg_state \<Rightarrow> (nat \<times> mrg_state) result" where
  "generate_4way_bernoulli fuel ops st =
     bindE (mrg_get_uint_orig ops st) (\<lambda>(v, st).
     bindE (if unat v < bernoulli_limit then redraw fuel ops st else Inr (unat v, st)) (\<lambda>(val, st).
     Inr (quadrant val, st)))"

function edge_loop ::
  "nat \<Rightarrow> mod_ops \<Rightarrow> nat \<Rightarrow> nat \<Rightarrow> nat \<Rightarrow> mrg_state \<Rightarrow> (nat \<times> nat \<times> mrg_state) result" where
  "edge_loop fuel ops nverts base_src base_tgt st =
     (if nverts > 1 then
        bindE (generate_4way_bernoulli fuel ops st) (\<lambda>(square, st).
        let src_offset = square div 2; tgt_offset = square mod 2 in
        bindE (assertE (base_src \<le> base_tgt)) (\<lambda>_.
        let (src_offset, tgt_offset) =
              (if base_src = base_tgt \<and> src_offset > tgt_offset then (tgt_offset, src_offset)
               else (src_offset, tgt_offset));
            nverts = nverts div 2 in
        edge_loop fuel ops nverts (base_src + nverts * src_offset) (base_tgt + nverts * tgt_offset) st))
      else Inr (base_src, base_tgt, st))"
  by pat_completeness auto
termination
  by (relation "measure (\<lambda>(fuel, ops, nverts, _). nverts)") auto

declare edge_loop.simps [simp del]

record packed_edge =
  edge_v0 :: u32
  edge_v1 :: u32

definition get_v0_from_edge :: "packed_edge \<Rightarrow> u64" where
  "get_v0_from_edge p = ucast (edge_v0 p)"

definition get_v1_from_edge :: "packed_edge \<Rightarrow> u64" where
  "get_v1_from_edge p = ucast (edge_v1 p)"

definition write_edge :: "u64 \<Rightarrow> u64 \<Rightarrow> packed_edge" where
  "write_edge v0 v1 = \<lparr>edge_v0 = ucast v0, edge_v1 = ucast v1\<rparr>"

definition make_one_edge ::
  "nat \<Rightarrow> mod_ops \<Rightarrow> nat \<Rightarrow> nat \<Rightarrow> mrg_state \<Rightarrow> u64 \<Rightarrow> u64 \<Rightarrow> packed_edge result" where
  "make_one_edge fuel ops nverts lgN st val0 val1 =
     bindE (edge_loop fuel ops nverts 0 0 st) (\<lambda>(base_src, base_tgt, _).
     bindE (scramble (of_nat base_src) lgN val0 val1) (\<lambda>v0.
     bindE (scramble (of_nat base_tgt) lgN val0 val1) (\<lambda>v1.
     Inr (write_edge v0 v1))))"

section \<open>A range of edges\<close>

definition scramble_values ::
  "mod_ops \<Rightarrow> mrg_transition_matrix list list \<Rightarrow> mrg_state \<Rightarrow> (u64 \<times> u64) result" where
  "scramble_values ops tbl state =
     bindE (mrg_skip ops tbl state 50 7 0) (\<lambda>st.
     bindE (mrg_get_uint_orig ops st) (\<lambda>(a, st).
     bindE (mrg_get_uint_orig ops st) (\<lambda>(b, st).
     bindE (mrg_get_uint_orig ops st) (\<lambda>(c, st).
     bindE (mrg_get_uint_orig ops st) (\<lambda>(d, st).
     Inr (a * 0xFFFFFFFF + b, c * 0xFFFFFFFF + d))))))"

definition generate_edge ::
  "nat \<Rightarrow> mod_ops \<Rightarrow> mrg_transition_matrix list list \<Rightarrow> nat \<Rightarrow> mrg_state \<Rightarrow> u64 \<Rightarrow> u64 \<Rightarrow> nat \<Rightarrow>
   packed_edge result" where
  "generate_edge fuel ops tbl logN state val0 val1 ei =
     bindE (mrg_skip ops tbl state 0 (of_nat ei) 0) (\<lambda>st.
     make_one_edge fuel ops (2 ^ logN) logN st val0 val1)"

definition generate_kronecker_range ::
  "nat \<Rightarrow> mod_ops \<Rightarrow> mrg_transition_matrix list list \<Rightarrow> u64 list \<Rightarrow> nat \<Rightarrow> nat \<Rightarrow> nat \<Rightarrow>
   packed_edge list result" where
  "generate_kronecker_range fuel ops tbl seed logN start_edge end_edge =
     bindE (mrg_seed seed) (\<lambda>state.
     bindE (scramble_values ops tbl state) (\<lambda>(val0, val1).
     mapE (generate_edge fuel ops tbl logN state val0 val1) [start_edge..<end_edge]))"

section \<open>Whole graphs\<close>

text \<open>
  \<^verbatim>\<open>do_xmalloc_large\<close> of \<^verbatim>\<open>utils.c\<close>, with the requests that
  \<^verbatim>\<open>posix_memalign\<close> grants as an argument.
\<close>

definition do_xmalloc_large :: "(nat \<Rightarrow> bool) \<Rightarrow> nat \<Rightarrow> unit result" where
  "do_xmalloc_large granted sz = (if granted sz then Inr () else Inl (Exit 1))"

definition sizeof_packed_edge :: nat where
  "sizeof_packed_edge = 8"

definition make_graph ::
  "(nat \<Rightarrow> bool) \<Rightarrow> nat \<Rightarrow> mod_ops \<Rightarrow> mrg_transition_matrix list list \<Rightarrow> nat \<Rightarrow> nat \<Rightarrow> u64 \<Rightarrow> u64 \<Rightarrow>
   (nat \<times> packed_edge list) result" where
  "make_graph granted fuel ops tbl log_numverts M userseed1 userseed2 =
     (let seed = make_mrg_seed userseed1 userseed2 in
      bindE (do_xmalloc_large granted (M * sizeof_packed_edge)) (\<lambda>_.
      bindE (generate_kronecker_range fuel ops tbl seed log_numverts 0 M) (\<lambda>edges.
      Inr (M, edges))))"

text \<open>The variant for MPI: every rank generates its own range.\<close>

definition compute_edge_range :: "nat \<Rightarrow> nat \<Rightarrow> nat \<Rightarrow> nat \<times> nat" where
  "compute_edge_range rank sz M =
     (rank * (M div sz) + (if rank < M mod sz then rank else M mod sz),
      (rank + 1) * (M div sz) + (if rank + 1 < M mod sz then rank + 1 else M mod sz))"

definition make_graph_rank ::
  "(nat \<Rightarrow> bool) \<Rightarrow> nat \<Rightarrow> mod_ops \<Rightarrow> mrg_transition_matrix list list \<Rightarrow> nat \<Rightarrow> nat \<Rightarrow> nat \<Rightarrow> nat \<Rightarrow>
   u64 \<Rightarrow> u64 \<Rightarrow> (nat \<times> packed_edge list) result" where
  "make_graph_rank granted fuel ops tbl rank sz log_numverts M userseed1 userseed2 =
     (let seed = make_mrg_seed userseed1 userseed2;
          (start_idx, end_idx) = compute_edge_range rank sz M;
          nedges = end_idx - start_idx in
      bindE (do_xmalloc_large granted (nedges * sizeof_packed_edge)) (\<lambda>_.
      bindE (generate_kronecker_range fuel ops tbl seed log_numverts start_idx end_idx) (\<lambda>local_edges.
      Inr (nedges, local_edges))))"

section \<open>The redraw loop ends\<close>

text \<open>
  A draw is the next element of the linear recurrence. Two small operands give a small
  element only if both are zero, so ten draws in a row below the limit leave the zero state,
  which no seed reaches.
\<close>

definition live :: "vec5 \<Rightarrow> bool" where
  "live z \<longleftrightarrow> st_of z \<noteq> zero_state"

lemma live_step [simp]: "live (A_step z) \<longleftrightarrow> live z"
  by (simp add: live_def A_step_zero)

lemma live_steps [simp]: "live ((A_step ^^ n) z) \<longleftrightarrow> live z"
  by (induction n) simp_all

definition draw :: "vec5 \<Rightarrow> nat" where
  "draw z = unat (z1 (st_of (A_step z)))"

lemma draw_st_of: "mrg_get_uint_orig ops64 (st_of z) = Inr (z1 (st_of (A_step z)), st_of (A_step z))"
  by (simp add: mrg_get_uint_orig_def m64.orig_step_correct)

lemma unat_residue: "unat (of_nat (n mod MP) :: u64) = n mod MP"
proof -
  have "n mod MP < 2 ^ 64" using mod_less_divisor [of MP n] by (simp del: mod_less_divisor)
  then show ?thesis by (simp add: unat_of_nat take_bit_eq_mod)
qed

lemma draw_eq: "draw (a, b, c, d, e) = (107374182 * a + 104480 * e) mod MP"
  by (simp add: draw_def unat_residue)

lemma draw_of_st: "draw z = (107374182 * unat (z1 (st_of z)) + 104480 * unat (z5 (st_of z))) mod MP"
  by (cases z rule: A_step.cases) (simp add: draw_eq unat_residue, intro mod_add_cong mod_mult_cong, simp_all)

lemma limit_value: "bernoulli_limit = 3647"
  by (simp add: bernoulli_limit_def INITIATOR_DENOMINATOR_def)

lemma small_multiple:
  fixes s e u :: nat
  assumes "1 \<le> s" "104480 * e = s * 107374182 + u" "u \<le> 4935" "e < 3647"
  shows False
proof -
  consider "s = 1" | "s = 2" | "s = 3" | "4 \<le> s" using assms(1) by linarith
  then show False
  proof cases
    case 1
    have "e \<le> 1027 \<or> 1028 \<le> e" by linarith
    then show False using assms 1 by linarith
  next
    case 2
    have "e \<le> 2055 \<or> 2056 \<le> e" by linarith
    then show False using assms 2 by linarith
  next
    case 3
    have "e \<le> 3083 \<or> 3084 \<le> e" by linarith
    then show False using assms 3 by linarith
  next
    case 4
    then have "4 * 107374182 \<le> s * 107374182" by (rule mult_right_mono) simp
    then show False using assms by linarith
  qed
qed

lemma small_recurrence:
  fixes a e :: nat
  assumes "a < 3647" "e < 3647" "(107374182 * a + 104480 * e) mod 2147483647 < 3647"
  shows "a = 0 \<and> e = 0"
proof -
  define q r k \<delta> where "q = a div 20" and "r = a mod 20"
    and "k = (107374182 * a + 104480 * e) div 2147483647"
    and "\<delta> = (107374182 * a + 104480 * e) mod 2147483647"
  have a: "a = 20 * q + r" "r < 20" "q \<le> 182" using assms(1) by (simp_all add: q_def r_def)
  have d: "\<delta> < 3647" using assms(3) by (simp add: \<delta>_def)
  have eq: "107374182 * a + 104480 * e = 2147483647 * k + \<delta>" by (simp add: k_def \<delta>_def)
  then have eq': "2147483640 * q + 107374182 * r + 104480 * e = 2147483647 * k + \<delta>" by (simp add: a(1))
  consider "k < q" | "k = q" | "k = q + 1" | "q + 2 \<le> k" by linarith
  then show ?thesis
  proof cases
    case 1
    then show ?thesis using eq' a d by linarith
  next
    case 2
    then have sm: "107374182 * r + 104480 * e = 7 * q + \<delta>" using eq' by linarith
    then have "r = 0" "e = 0" using a d by linarith+
    moreover have "q = 0" using sm calculation by simp
    ultimately show ?thesis using a by simp
  next
    case 3
    have "(20 - r) * 107374182 = 2147483640 - 107374182 * r" by (simp add: diff_mult_distrib mult.commute)
    then have "104480 * e = (20 - r) * 107374182 + (7 * q + 7 + \<delta>)" using eq' 3 a(2) by linarith
    then have False by (intro small_multiple [of "20 - r" e "7 * q + 7 + \<delta>"]) (use a d assms(2) in linarith)+
    then show ?thesis ..
  next
    case 4
    then show ?thesis using eq' a d assms(2) by linarith
  qed
qed

lemma small_draws:
  assumes "\<And>i. i < 10 \<Longrightarrow> draw ((A_step ^^ i) z) < bernoulli_limit"
  shows "\<not> live z"
proof -
  define x where "x i = draw ((A_step ^^ i) z)" for i
  have small: "x i < 3647" if "i < 10" for i using assms [OF that] by (simp add: x_def limit_value)
  have st: "st_of ((A_step ^^ (i + 5)) z)
      = \<lparr>z1 = of_nat (x (i + 4)), z2 = of_nat (x (i + 3)), z3 = of_nat (x (i + 2)),
         z4 = of_nat (x (i + 1)), z5 = of_nat (x i)\<rparr>" for i
  proof -
    obtain a b c d e where z: "(A_step ^^ i) z = (a, b, c, d, e)" by (cases "(A_step ^^ i) z")
    have steps: "i + 5 = Suc (Suc (Suc (Suc (Suc i))))" "i + 4 = Suc (Suc (Suc (Suc i)))"
      "i + 3 = Suc (Suc (Suc i))" "i + 2 = Suc (Suc i)" "i + 1 = Suc i" by simp_all
    show ?thesis unfolding steps x_def by (simp add: z draw_eq)
  qed
  have rec: "x (i + 5) = (107374182 * x (i + 4) + 104480 * x i) mod MP" for i
    using draw_of_st [of "(A_step ^^ (i + 5)) z"] unfolding st by (simp add: x_def draw_def)
  have "x i = 0" if "i < 5" for i
  proof -
    have "(107374182 * x (i + 4) + 104480 * x i) mod 2147483647 < 3647"
      using rec [of i] small [of "i + 5"] that by simp
    then show ?thesis using small_recurrence [of "x (i + 4)" "x i"] small [of "i + 4"] small [of i] that by simp
  qed
  then have "st_of ((A_step ^^ 5) z) = zero_state" using st [of 0] by (simp add: zero_state_def)
  then show ?thesis using live_steps [of 5 z] by (simp add: live_def)
qed

lemma redraw_eq:
  "redraw (Suc fuel) ops64 (st_of z) =
     (if draw z < bernoulli_limit then redraw fuel ops64 (st_of (A_step z))
      else Inr (draw z, st_of (A_step z)))"
  by (simp add: draw_st_of draw_def)

lemma redraw_first:
  assumes "\<And>j. j < i \<Longrightarrow> draw ((A_step ^^ j) z) < bernoulli_limit"
    and "\<not> draw ((A_step ^^ i) z) < bernoulli_limit" and "i < fuel"
  shows "redraw fuel ops64 (st_of z) = Inr (draw ((A_step ^^ i) z), st_of ((A_step ^^ Suc i) z))"
  using assms
proof (induction i arbitrary: fuel z)
  case 0
  then obtain f where "fuel = Suc f" by (cases fuel) auto
  then show ?case using 0 by (simp add: redraw_eq del: redraw.simps)
next
  case (Suc i)
  then obtain f where f: "fuel = Suc f" "i < f" by (cases fuel) auto
  have "redraw f ops64 (st_of (A_step z)) = Inr (draw ((A_step ^^ i) (A_step z)), st_of ((A_step ^^ Suc i) (A_step z)))"
  proof (rule Suc.IH)
    show "draw ((A_step ^^ j) (A_step z)) < bernoulli_limit" if "j < i" for j
      using Suc.prems(1) [of "Suc j"] that by (simp add: funpow_Suc_right del: funpow.simps)
    show "\<not> draw ((A_step ^^ i) (A_step z)) < bernoulli_limit"
      using Suc.prems(2) by (simp add: funpow_Suc_right del: funpow.simps)
  qed (rule f(2))
  then show ?case using Suc.prems(1) [of 0] f(1)
    by (simp add: redraw_eq funpow_Suc_right del: funpow.simps redraw.simps)
qed

lemma redraw_returns:
  assumes "live z" and "10 \<le> fuel"
  obtains v z' where "redraw fuel ops64 (st_of z) = Inr (v, st_of z')" "live z'" "bernoulli_limit \<le> v"
proof -
  let ?P = "\<lambda>i. \<not> draw ((A_step ^^ i) z) < bernoulli_limit"
  obtain k where k: "k < 10" "?P k" using small_draws [of z] assms(1) by auto
  define i where "i = (LEAST i. ?P i)"
  have i: "?P i" unfolding i_def by (rule LeastI) (rule k(2))
  have lt: "\<not> ?P j" if "j < i" for j using that unfolding i_def by (rule not_less_Least)
  have "i \<le> k" unfolding i_def by (rule Least_le) (rule k(2))
  then have "redraw fuel ops64 (st_of z) = Inr (draw ((A_step ^^ i) z), st_of ((A_step ^^ Suc i) z))"
    using i lt k(1) assms(2) by (intro redraw_first) auto
  then show thesis using that [OF _ _ linorder_not_less [THEN iffD1, OF i]] assms(1) by simp
qed

lemma quadrant_less: "quadrant v < 4"
  by (simp add: quadrant_def Let_def)

lemma bernoulli_returns:
  assumes "live z" and "10 \<le> fuel"
  obtains q z' where "generate_4way_bernoulli fuel ops64 (st_of z) = Inr (q, st_of z')" "q < 4" "live z'"
proof (cases "draw z < bernoulli_limit")
  case True
  obtain v z' where "redraw fuel ops64 (st_of (A_step z)) = Inr (v, st_of z')" "live z'"
    by (rule redraw_returns [of "A_step z" fuel]) (use assms in simp_all)
  then show thesis using True that [OF _ quadrant_less]
    by (simp add: generate_4way_bernoulli_def draw_st_of draw_def)
next
  case False
  then have "generate_4way_bernoulli fuel ops64 (st_of z) = Inr (quadrant (draw z), st_of (A_step z))"
    by (simp add: generate_4way_bernoulli_def draw_st_of draw_def)
  then show thesis using that [OF _ quadrant_less] assms(1) by simp
qed

section \<open>Edges\<close>

text \<open>
  The bases stay ordered and, with the \<open>2 ^ k\<close> vertices that are left, inside the graph;
  equal bases may grow together, unequal ones differ by at least the vertices left.
\<close>

lemma edge_offsets:
  fixes N :: nat
  assumes "s = t \<or> s + 2 * N \<le> t" and "t + 2 * N \<le> m" and "a \<le> 1" "b \<le> 1" "s = t \<Longrightarrow> a \<le> b"
  shows "(s + N * a = t + N * b \<or> s + N * a + N \<le> t + N * b) \<and> t + N * b + N \<le> m"
proof -
  have "a = 0 \<or> a = 1" "b = 0 \<or> b = 1" using assms(3,4) by auto
  then show ?thesis using assms(1,2,5) by (elim disjE) auto
qed

lemma edge_loop_returns:
  assumes "s = t \<or> s + 2 ^ k \<le> t" and "t + 2 ^ k \<le> 2 ^ n" and "live z" and fuel: "10 \<le> fuel"
  shows "\<exists>s' t' z'. edge_loop fuel ops64 (2 ^ k) s t (st_of z) = Inr (s', t', st_of z') \<and> s' \<le> t' \<and> t' < 2 ^ n"
  using assms(1-3)
proof (induction k arbitrary: s t z)
  case 0
  then have "edge_loop fuel ops64 (2 ^ 0) s t (st_of z) = Inr (s, t, st_of z)" by (simp add: edge_loop.simps)
  moreover have "s \<le> t" "t < 2 ^ n" using 0 by auto
  ultimately show ?case by blast
next
  case (Suc k)
  let ?N = "2 ^ k :: nat"
  have N: "(2 :: nat) ^ Suc k > 1" "2 ^ Suc k div 2 = ?N" by (rule one_less_power) simp_all
  obtain q z' where q: "generate_4way_bernoulli fuel ops64 (st_of z) = Inr (q, st_of z')" "q < 4" "live z'"
    using Suc.prems(3) fuel by (rule bernoulli_returns)
  have le: "s \<le> t" using Suc.prems by auto
  define a b where "a = (if s = t \<and> q div 2 > q mod 2 then q mod 2 else q div 2)"
    and "b = (if s = t \<and> q div 2 > q mod 2 then q div 2 else q mod 2)"
  have ab: "a \<le> 1" "b \<le> 1" "s = t \<Longrightarrow> a \<le> b" using q(2) by (auto simp: a_def b_def)
  have step: "edge_loop fuel ops64 (2 ^ Suc k) s t (st_of z)
      = edge_loop fuel ops64 ?N (s + ?N * a) (t + ?N * b) (st_of z')"
    using N q(1) le unfolding a_def b_def by (subst edge_loop.simps) (simp add: Let_def)
  have "(s + ?N * a = t + ?N * b \<or> s + ?N * a + ?N \<le> t + ?N * b) \<and> t + ?N * b + ?N \<le> 2 ^ n"
    by (rule edge_offsets) (use Suc.prems ab in simp_all)
  then show ?case unfolding step using q(3) by (intro Suc.IH) auto
qed

lemma of_nat_vertex: "n < 64 \<Longrightarrow> t < 2 ^ n \<Longrightarrow> (of_nat t :: u64) \<in> vertices n"
proof -
  assume n: "n < 64" and t: "t < 2 ^ n"
  have "(2 :: nat) ^ n < 2 ^ 64" using n by (rule power_strict_increasing) simp
  then have "unat (of_nat t :: u64) = t" using t by (simp add: unat_of_nat take_bit_eq_mod)
  then have "unat (drop_bit n (of_nat t :: u64)) = 0" unfolding unat_drop_bit_eq using t by (simp add: drop_bit_eq_div)
  then show ?thesis by (simp add: vertices_def unat_eq_zero)
qed

definition edge_in :: "nat \<Rightarrow> packed_edge \<Rightarrow> bool" where
  "edge_in n e \<longleftrightarrow> get_v0_from_edge e \<in> vertices n \<and> get_v1_from_edge e \<in> vertices n"

lemma trunc_vertex: "v \<in> vertices n \<Longrightarrow> ucast (ucast v :: u32) \<in> vertices n"
proof -
  assume "v \<in> vertices n"
  then have z: "drop_bit n v = 0" by (simp add: vertices_def)
  have "drop_bit n (ucast (ucast v :: u32) :: u64) = 0"
  proof (rule bit_word_eqI)
    fix i
    have "bit (drop_bit n v) i = bit (0 :: u64) i" by (simp only: z)
    then have "\<not> bit v (n + i)" by (simp add: bit_drop_bit_eq)
    then show "bit (drop_bit n (ucast (ucast v :: u32) :: u64)) i = bit 0 i" by (simp add: bit_simps)
  qed
  then show ?thesis by (simp add: vertices_def)
qed

lemma make_one_edge_returns:
  assumes n: "0 < n" "n < 64" and "live z" and "10 \<le> fuel"
  shows "\<exists>e. make_one_edge fuel ops64 (2 ^ n) n (st_of z) val0 val1 = Inr e \<and> edge_in n e"
proof -
  obtain s t z' where e: "edge_loop fuel ops64 (2 ^ n) 0 0 (st_of z) = Inr (s, t, st_of z')"
    using edge_loop_returns [of 0 0 n n z fuel] assms by auto
  let ?f = "scramble_fun n val0 val1"
  have "scramble v n val0 val1 = Inr (?f v)" for v by (rule scramble_eq) (use n in simp_all)
  then have "make_one_edge fuel ops64 (2 ^ n) n (st_of z) val0 val1 = Inr (write_edge (?f (of_nat s)) (?f (of_nat t)))"
    by (simp add: make_one_edge_def e)
  moreover have "edge_in n (write_edge (?f (of_nat s)) (?f (of_nat t)))"
    using scramble_fun_vertices [of n] n trunc_vertex
    by (simp add: edge_in_def get_v0_from_edge_def get_v1_from_edge_def write_edge_def)
  ultimately show ?thesis by blast
qed

lemma mapE_append: "mapE f (xs @ ys) = bindE (mapE f xs) (\<lambda>us. bindE (mapE f ys) (\<lambda>vs. Inr (us @ vs)))"
proof (induction xs)
  case (Cons x xs)
  show ?case
    by (cases "f x"; cases "mapE f xs"; cases "mapE f ys") (simp_all add: Cons)
qed simp

section \<open>Seeds are in range\<close>

lemma field_nonzero: "0 < unat w \<Longrightarrow> unat w \<le> 2 ^ 30 \<Longrightarrow> in_field w \<and> w \<noteq> 0"
  by (auto simp: in_field_def word_le_nat_alt)

lemma low30: "unat (w AND 0x3FFFFFFF :: u64) < 2 ^ 30"
proof -
  have "w AND 0x3FFFFFFF = take_bit 30 w" by (simp add: take_bit_eq_mask mask_eq_exp_minus_1)
  then show ?thesis by (simp only: unsigned_take_bit_eq take_bit_nat_less_exp)
qed

lemma low30_seed: "in_field ((w AND 0x3FFFFFFF) + 1) \<and> (w AND 0x3FFFFFFF) + 1 \<noteq> 0"
  by (rule field_nonzero) (use low30 [of w] in \<open>simp_all add: unat_add_no_wrap\<close>)

lemma seed32: "unat (a :: u64) + 1 \<le> 2 ^ 30 \<Longrightarrow> in_field (ucast (ucast a + 1 :: u32)) \<and> ucast (ucast a + 1 :: u32) \<noteq> (0 :: u64)"
proof -
  assume a: "unat (a :: u64) + 1 \<le> 2 ^ 30"
  have "unat (ucast a :: u32) = unat a" using a by (simp add: unsigned_ucast_eq take_bit_nat_eq_self)
  then have "unat (ucast a + 1 :: u32) = unat a + 1" using a by (simp add: unat_add_no_wrap)
  then have "unat (ucast (ucast a + 1 :: u32) :: u64) = unat a + 1" using a by (simp add: unsigned_ucast_eq take_bit_nat_eq_self)
  then show ?thesis by (intro field_nonzero) (use a in simp_all)
qed

lemma high4: "unat (drop_bit 60 w :: u64) < 16"
proof -
  have "unat w < 2 ^ 64" using unsigned_less [of w] by simp
  then show ?thesis unfolding unat_drop_bit_eq by (simp add: drop_bit_eq_div div_less_iff_less_mult)
qed

lemma high_sum: "unat (push_bit 4 (drop_bit 60 v) + drop_bit 60 w :: u64) \<le> 255"
proof -
  have "push_bit 4 (drop_bit 60 v) = 16 * drop_bit 60 v" by (simp add: push_bit_eq_mult)
  then have "unat (push_bit 4 (drop_bit 60 v)) = 16 * unat (drop_bit 60 v)" using high4 [of v] by (simp add: unat_mult_no_wrap)
  then show ?thesis using high4 [of v] high4 [of w] by (simp add: unat_add_no_wrap)
qed

lemma narrow_add: "(ucast (a + b :: u64) :: u32) = ucast a + ucast b"
proof -
  have "unat (ucast (a + b :: u64) :: u32) = (unat a + unat b) mod 2 ^ 64 mod 2 ^ 32"
    by (simp add: unsigned_ucast_eq take_bit_eq_mod unat_word_ariths)
  also have "\<dots> = (unat a + unat b) mod 2 ^ 32" by (rule mod_mod_cancel) simp
  also have "\<dots> = unat (ucast a + ucast b :: u32)"
    by (simp add: unsigned_ucast_eq take_bit_eq_mod unat_word_ariths mod_add_eq)
  finally show ?thesis by (rule unsigned_word_eqI)
qed

lemma high_seed32:
  "in_field (ucast (ucast (push_bit 4 (drop_bit 60 (v :: u64))) + ucast (drop_bit 60 (w :: u64)) + 1 :: u32) :: u64)"
proof -
  have "ucast (push_bit 4 (drop_bit 60 v)) + ucast (drop_bit 60 w) = (ucast (push_bit 4 (drop_bit 60 v) + drop_bit 60 w) :: u32)"
    by (rule narrow_add [symmetric])
  then show ?thesis using seed32 [of "push_bit 4 (drop_bit 60 v) + drop_bit 60 w"] high_sum [of v w] by simp
qed

lemma mrg_seed_list: "mrg_seed [a, b, c, d, e] = Inr \<lparr>z1 = a, z2 = b, z3 = c, z4 = d, z5 = e\<rparr>"
  by (simp add: mrg_seed_def)

lemma narrow_fits: "ucast (ucast v :: u32) = v \<longleftrightarrow> unat (v :: u64) < 2 ^ 32"
proof -
  have "unat (ucast (ucast v :: u32) :: u64) = unat v mod 2 ^ 32"
    by (simp add: unsigned_ucast_eq take_bit_eq_mod unat_mod)
  then show ?thesis by (metis mod_less mod_less_divisor unsigned_word_eqI zero_less_numeral zero_less_power)
qed

lemma make_mrg_seed_valid: "\<exists>st. mrg_seed (make_mrg_seed s1 s2) = Inr st \<and> valid_state st \<and> st \<noteq> zero_state"
proof -
  have l: "unat (w AND 0x3FFFFFFF :: u64) + 1 \<le> 2 ^ 30" for w using low30 [of w] by simp
  show ?thesis unfolding make_mrg_seed_def mrg_seed_list
    using seed32 [OF l] high_seed32 by (simp add: valid_state_def zero_state_def)
qed

lemma make_mrg_seed1_valid: "\<exists>st. mrg_seed (make_mrg_seed1 s) = Inr st \<and> valid_state st \<and> st \<noteq> zero_state"
proof -
  have "unat (push_bit 4 (drop_bit 60 s) + drop_bit 60 s + 1) = unat (push_bit 4 (drop_bit 60 s) + drop_bit 60 s) + 1"
    using high_sum [of s s] by (intro unat_add_no_wrap [of _ 1, unfolded unat_1]) simp
  then have "in_field (push_bit 4 (drop_bit 60 s) + drop_bit 60 s + 1)"
    using field_nonzero high_sum [of s s] by simp
  then show ?thesis unfolding make_mrg_seed1_def mrg_seed_list
    using low30_seed by (simp add: valid_state_def zero_state_def)
qed

section \<open>Ranges\<close>

lemma seed_live:
  assumes "valid_state st" and "st \<noteq> zero_state"
  obtains z where "st = st_of z" "live z"
  using assms by (metis valid_stateE live_def)

lemma scramble_values_returns:
  assumes "power_table tbl"
  obtains val0 val1 where "scramble_values ops64 tbl (st_of z) = Inr (val0, val1)"
  by (simp add: scramble_values_def m64.skip_correct [OF assms] draw_st_of del: st_of.simps)

lemma generate_edge_returns:
  assumes "power_table tbl" "0 < n" "n < 64" "live z" "10 \<le> fuel"
  shows "\<exists>e. generate_edge fuel ops64 tbl n (st_of z) val0 val1 ei = Inr e \<and> edge_in n e"
  using make_one_edge_returns [OF assms(2,3) _ assms(5)] assms(4)
  by (simp add: generate_edge_def m64.skip_correct [OF assms(1)])

lemma mapE_returns:
  assumes "\<And>x. x \<in> set xs \<Longrightarrow> \<exists>y. f x = Inr y \<and> P y"
  shows "\<exists>ys. mapE f xs = Inr ys \<and> length ys = length xs \<and> list_all P ys"
  using assms
proof (induction xs)
  case (Cons x xs)
  obtain y where "f x = Inr y" "P y" using Cons.prems [of x] by auto
  moreover obtain ys where "mapE f xs = Inr ys" "length ys = length xs" "list_all P ys"
    using Cons.IH Cons.prems by (meson list.set_intros(2))
  ultimately show ?case by simp
qed simp

lemma range_returns:
  assumes "power_table tbl" "0 < n" "n < 64" "10 \<le> fuel"
    and "mrg_seed seed = Inr st" "valid_state st" "st \<noteq> zero_state"
  shows "\<exists>es. generate_kronecker_range fuel ops64 tbl seed n a b = Inr es \<and> length es = b - a \<and>
    list_all (edge_in n) es"
proof -
  obtain z where z: "st = st_of z" "live z" using assms(6,7) by (rule seed_live)
  obtain val0 val1 where sv: "scramble_values ops64 tbl (st_of z) = Inr (val0, val1)"
    using assms(1) by (rule scramble_values_returns)
  have "\<exists>es. mapE (generate_edge fuel ops64 tbl n (st_of z) val0 val1) [a..<b] = Inr es \<and>
      length es = length [a..<b] \<and> list_all (edge_in n) es"
    by (rule mapE_returns) (rule generate_edge_returns [OF assms(1-3) z(2) assms(4)])
  then show ?thesis by (simp add: generate_kronecker_range_def assms(5) z(1) sv del: st_of.simps)
qed

lemma range_append:
  assumes "a \<le> b" "b \<le> c"
  shows "bindE (generate_kronecker_range fuel ops tbl seed n a b) (\<lambda>us.
      bindE (generate_kronecker_range fuel ops tbl seed n b c) (\<lambda>vs. Inr (us @ vs)))
    = generate_kronecker_range fuel ops tbl seed n a c"
proof (cases "bindE (mrg_seed seed) (\<lambda>st. bindE (scramble_values ops tbl st) (\<lambda>v. Inr (st, v)))")
  case (Inl e)
  then show ?thesis by (auto simp: generate_kronecker_range_def bindE_eq_Inl_iff)
next
  case (Inr p)
  then obtain st v0 v1 where "mrg_seed seed = Inr st" "scramble_values ops tbl st = Inr (v0, v1)"
    by (auto simp: bindE_eq_Inr_iff)
  moreover have "[a..<c] = [a..<b] @ [b..<c]" using assms upt_add_eq_append [of a b "c - b"] by simp
  ultimately show ?thesis by (simp add: generate_kronecker_range_def mapE_append)
qed

section \<open>Ranks\<close>

definition rank_start :: "nat \<Rightarrow> nat \<Rightarrow> nat \<Rightarrow> nat" where
  "rank_start sz M r = r * (M div sz) + min r (M mod sz)"

lemma compute_edge_range_eq: "compute_edge_range r sz M = (rank_start sz M r, rank_start sz M (r + 1))"
  by (simp add: compute_edge_range_def rank_start_def min_def)

lemma rank_start_0 [simp]: "rank_start sz M 0 = 0"
  by (simp add: rank_start_def)

lemma rank_start_all: "0 < sz \<Longrightarrow> rank_start sz M sz = M"
  using mod_less_divisor [of sz M] by (simp add: rank_start_def min_def del: mod_less_divisor)

lemma rank_start_mono: "rank_start sz M r \<le> rank_start sz M (Suc r)"
  by (simp add: rank_start_def)

definition gather_ranks :: "(nat \<times> packed_edge list) list \<Rightarrow> nat \<times> packed_edge list" where
  "gather_ranks ps = (sum_list (map fst ps), concat (map snd ps))"

lemma ranks_prefix:
  fixes fuel :: nat and ops :: mod_ops and tbl and sz n M :: nat and s1 s2 :: u64
  defines "rk \<equiv> \<lambda>r. make_graph_rank (\<lambda>_. True) fuel ops tbl r sz n M s1 s2"
  shows "bindE (mapE rk [0..<Suc k]) (\<lambda>ps. Inr (gather_ranks ps))
    = bindE (generate_kronecker_range fuel ops tbl (make_mrg_seed s1 s2) n 0 (rank_start sz M (Suc k)))
        (\<lambda>es. Inr (rank_start sz M (Suc k), es))"
proof (induction k)
  case 0
  show ?case
    by (simp add: rk_def make_graph_rank_def do_xmalloc_large_def compute_edge_range_eq bindE_assoc gather_ranks_def)
next
  case (Suc k)
  let ?g = "generate_kronecker_range fuel ops tbl (make_mrg_seed s1 s2) n"
  let ?a = "rank_start sz M (Suc k)" and ?b = "rank_start sz M (Suc (Suc k))"
  have ab: "?a \<le> ?b" by (rule rank_start_mono)
  have r: "rk (Suc k) = bindE (?g ?a ?b) (\<lambda>es. Inr (?b - ?a, es))"
    by (simp add: rk_def make_graph_rank_def do_xmalloc_large_def compute_edge_range_eq)
  have "bindE (mapE rk [0..<Suc (Suc k)]) (\<lambda>ps. Inr (gather_ranks ps))
      = bindE (bindE (mapE rk [0..<Suc k]) (\<lambda>ps. Inr (gather_ranks ps)))
          (\<lambda>(m, us). bindE (rk (Suc k)) (\<lambda>(d, vs). Inr (m + d, us @ vs)))"
    by (subst upt_Suc_append) (simp_all add: mapE_append bindE_assoc gather_ranks_def case_prod_beta' del: upt_Suc)
  also have "\<dots> = bindE (?g 0 ?a) (\<lambda>us. bindE (?g ?a ?b) (\<lambda>vs. Inr (?b, us @ vs)))"
    unfolding Suc.IH r by (simp add: bindE_assoc ab)
  also have "\<dots> = bindE (?g 0 ?b) (\<lambda>es. Inr (?b, es))"
    unfolding range_append [OF le0 ab, of fuel ops tbl _ n, symmetric] by (simp add: bindE_assoc)
  finally show ?case .
qed

section \<open>Properties\<close>

text \<open>
  C22. Both seeding functions give the generator a state it accepts: five numbers from 1 to
  \<open>2 ^ 30\<close>, so below the modulus and not all zero, whatever the user seeds and whatever
  the environment variable of \<^verbatim>\<open>init_random\<close> holds.
\<close>

theorem seeds_valid:
  "\<exists>st st'. mrg_seed (make_mrg_seed s1 s2) = Inr st \<and> valid_state st \<and> st \<noteq> zero_state \<and>
     init_random env = Inr st' \<and> valid_state st' \<and> st' \<noteq> zero_state"
  unfolding init_random_def Let_def using make_mrg_seed_valid make_mrg_seed1_valid by blast

lemma make_graph_ok:
  assumes "power_table tbl" and "0 < n" "n < 63" and "granted (M * 8)" and "10 \<le> fuel"
  shows "\<exists>es. make_graph granted fuel ops64 tbl n M s1 s2 = Inr (M, es) \<and> length es = M \<and> list_all (edge_in n) es"
proof -
  obtain st where st: "mrg_seed (make_mrg_seed s1 s2) = Inr st" "valid_state st" "st \<noteq> zero_state"
    using make_mrg_seed_valid by blast
  have "\<exists>es. generate_kronecker_range fuel ops64 tbl (make_mrg_seed s1 s2) n 0 M = Inr es \<and>
      length es = M - 0 \<and> list_all (edge_in n) es"
    by (rule range_returns [OF assms(1,2) _ assms(5) st]) (use assms(3) in simp)
  then show ?thesis using assms(4) by (auto simp: make_graph_def do_xmalloc_large_def sizeof_packed_edge_def)
qed

text \<open>
  C20. Generating a graph always completes. The loop that redraws rejected random numbers
  runs at most ten times whatever the seed, so fuel 10 is enough; no assertion fails, and the
  \<open>M\<close> edges join vertices below \<open>2 ^ n\<close>.
\<close>

theorem make_graph_completes:
  assumes "0 < n" "n < 63" and "granted (M * 8)" and "10 \<le> fuel"
  shows "\<exists>tbl es. dump_mrg_powers ops64 = Inr tbl \<and>
    make_graph granted fuel ops64 tbl n M s1 s2 = Inr (M, es) \<and> length es = M \<and> list_all (edge_in n) es"
  using m64.dump_correct make_graph_ok [where granted = granted and n = n and M = M, OF _ assms] by blast

theorem make_graph_completes_witness:
  "\<exists>tbl es. dump_mrg_powers ops64 = Inr tbl \<and>
    make_graph (\<lambda>sz. sz \<le> 2 ^ 32) 10 ops64 tbl 26 (16 * 2 ^ 20) 2 3 = Inr (16 * 2 ^ 20, es) \<and>
    length es = 16 * 2 ^ 20 \<and> list_all (edge_in 26) es"
  by (rule make_graph_completes) simp_all

text \<open>
  C21. Any number of ranks generate the graph of the sequential program: the ranges that
  \<^verbatim>\<open>compute_edge_range\<close> gives them are consecutive and cover all edges, and the edges of
  the ranks, one after the other, are those of \<^verbatim>\<open>make_graph\<close>.
\<close>

theorem ranks_make_graph:
  assumes "0 < sz"
  shows "bindE (mapE (\<lambda>rank. make_graph_rank (\<lambda>_. True) fuel ops tbl rank sz n M s1 s2) [0..<sz])
      (\<lambda>ps. Inr (gather_ranks ps))
    = make_graph (\<lambda>_. True) fuel ops tbl n M s1 s2"
proof -
  obtain k where k: "sz = Suc k" using assms by (cases sz) auto
  show ?thesis using ranks_prefix [of fuel ops tbl sz n M s1 s2 k] rank_start_all [OF assms, of M]
    by (simp add: k make_graph_def do_xmalloc_large_def)
qed

theorem ranks_make_graph_witness:
  "bindE (mapE (\<lambda>rank. make_graph_rank (\<lambda>_. True) 10 ops64 [] rank 3 4 10 1 2) [0..<3])
      (\<lambda>ps. Inr (gather_ranks ps))
    = make_graph (\<lambda>_. True) 10 ops64 [] 4 10 1 2"
  by (rule ranks_make_graph) simp

text \<open>
  An edge gives back the two vertices written to it exactly when both fit into 32 bits.
\<close>

theorem write_edge_roundtrip:
  "get_v0_from_edge (write_edge v0 v1) = v0 \<and> get_v1_from_edge (write_edge v0 v1) = v1 \<longleftrightarrow>
   unat v0 < 2 ^ 32 \<and> unat v1 < 2 ^ 32"
  by (simp add: get_v0_from_edge_def get_v1_from_edge_def write_edge_def narrow_fits)

end
