(* ===== verification/Bfs.thy ===== *)
theory Bfs
  imports Kronecker
begin

text \<open>
  What the breadth first searches of Graph500 compute, independent of how they store the
  graph: walks in an edge list, distances, and the trees a search may return. The invariant of
  a search with a queue is stated and kept once, in the locale \<open>bfs_scan\<close>; the list and the
  compressed row implementations (\<^verbatim>\<open>seq-list.c\<close>, \<^verbatim>\<open>seq-csr.c\<close>) interpret it.
\<close>

section \<open>Signed indices\<close>

text \<open>Array accesses with an \<^verbatim>\<open>int64_t\<close> index.\<close>

definition arr_geti :: "'a list \<Rightarrow> int \<Rightarrow> 'a result" where
  "arr_geti xs i = (if 0 \<le> i then arr_get xs (nat i) else Inl Out_of_bounds)"

definition arr_seti :: "'a list \<Rightarrow> int \<Rightarrow> 'a \<Rightarrow> 'a list result" where
  "arr_seti xs i v = (if 0 \<le> i then arr_set xs (nat i) v else Inl Out_of_bounds)"

lemma arr_geti_int [simp]: "arr_geti xs (int n) = arr_get xs n"
  by (simp add: arr_geti_def)

lemma arr_seti_int [simp]: "arr_seti xs (int n) v = arr_set xs n v"
  by (simp add: arr_seti_def)

section \<open>Walks and distances\<close>

definition end0 :: "packed_edge \<Rightarrow> nat" where
  "end0 e = unat (edge_v0 e)"

definition end1 :: "packed_edge \<Rightarrow> nat" where
  "end1 e = unat (edge_v1 e)"

lemma get_v_int: "sint (get_v0_from_edge e) = int (end0 e)" "sint (get_v1_from_edge e) = int (end1 e)"
proof -
  have "sint (ucast w :: u64) = int (unat w)" for w :: u32
  proof -
    have "uint w < 2 ^ 32" using unsigned_less [of w] by simp
    then have u: "uint (ucast w :: u64) = uint w" by (simp add: unsigned_ucast_eq take_bit_int_eq_self)
    moreover have "- (2 ^ 63) \<le> uint w" using unsigned_greater_eq [of w] by (rule order_trans [rotated]) simp
    ultimately have "sint (ucast w :: u64) = uint w" using \<open>uint w < 2 ^ 32\<close>
      by (simp add: sint_uint signed_take_bit_int_eq_self)
    then show ?thesis by simp
  qed
  then show "sint (get_v0_from_edge e) = int (end0 e)" "sint (get_v1_from_edge e) = int (end1 e)"
    by (simp_all add: get_v0_from_edge_def get_v1_from_edge_def end0_def end1_def)
qed

definition nbr :: "packed_edge list \<Rightarrow> nat \<Rightarrow> nat \<Rightarrow> bool" where
  "nbr IJ v w \<longleftrightarrow> v \<noteq> w \<and> (\<exists>e \<in> set IJ. (end0 e = v \<and> end1 e = w) \<or> (end0 e = w \<and> end1 e = v))"

lemma nbr_sym: "nbr IJ v w \<Longrightarrow> nbr IJ w v"
  unfolding nbr_def by blast

inductive walk :: "packed_edge list \<Rightarrow> nat \<Rightarrow> nat \<Rightarrow> nat \<Rightarrow> bool" for IJ src where
  walk_0: "walk IJ src 0 src"
| walk_Suc: "walk IJ src n v \<Longrightarrow> nbr IJ v w \<Longrightarrow> walk IJ src (Suc n) w"

inductive_simps walk_zero_iff [simp]: "walk IJ src 0 v"
inductive_cases walk_SucE: "walk IJ src (Suc n) v"

definition reachable :: "packed_edge list \<Rightarrow> nat \<Rightarrow> nat \<Rightarrow> bool" where
  "reachable IJ src v \<longleftrightarrow> (\<exists>n. walk IJ src n v)"

definition is_dist :: "packed_edge list \<Rightarrow> nat \<Rightarrow> nat \<Rightarrow> nat \<Rightarrow> bool" where
  "is_dist IJ src v n \<longleftrightarrow> walk IJ src n v \<and> (\<forall>m<n. \<not> walk IJ src m v)"

lemma is_dist_unique: "is_dist IJ src v n \<Longrightarrow> is_dist IJ src v m \<Longrightarrow> n = m"
  unfolding is_dist_def by (meson linorder_neqE_nat)

lemma is_dist_le: "is_dist IJ src v n \<Longrightarrow> walk IJ src m v \<Longrightarrow> n \<le> m"
  unfolding is_dist_def by (meson not_le)

lemma is_dist_src: "is_dist IJ src src n \<longleftrightarrow> n = 0"
  unfolding is_dist_def by (metis gr0I not_less_zero walk_0)

text \<open>
  The tree of a breadth first search: the parent of a reached vertex is a neighbor one step
  closer to the source, and the entries of all other vertices are -1.
\<close>

definition bfs_tree_of :: "packed_edge list \<Rightarrow> nat \<Rightarrow> nat \<Rightarrow> int list \<Rightarrow> bool" where
  "bfs_tree_of IJ nv src tree \<longleftrightarrow>
     src < nv \<and> nv \<le> length tree \<and> tree ! src = int src \<and>
     (\<forall>v<nv. v \<noteq> src \<longrightarrow>
        (if reachable IJ src v
         then \<exists>p n. p < nv \<and> tree ! v = int p \<and> nbr IJ p v \<and> is_dist IJ src p n \<and> is_dist IJ src v (Suc n)
         else tree ! v = - 1))"

section \<open>The queue\<close>

text \<open>
  The state of a search with its ghost queue \<open>q\<close>: the vertices in the order they were
  reached; those before position \<open>k\<close> have been scanned.
\<close>

definition bfs_inv :: "packed_edge list \<Rightarrow> nat \<Rightarrow> nat \<Rightarrow> nat \<Rightarrow> int list \<Rightarrow> nat list \<Rightarrow> bool" where
  "bfs_inv IJ nv src k tree q \<longleftrightarrow>
     q \<noteq> [] \<and> q ! 0 = src \<and> distinct q \<and> set q \<subseteq> {..<nv} \<and> k \<le> length q \<and> nv \<le> length tree \<and>
     tree ! src = int src \<and>
     (\<forall>v<nv. v \<notin> set q \<longrightarrow> tree ! v = - 1) \<and>
     (\<forall>v\<in>set q. v \<noteq> src \<longrightarrow>
        (\<exists>p n. p < nv \<and> tree ! v = int p \<and> nbr IJ p v \<and> is_dist IJ src p n \<and> is_dist IJ src v (Suc n))) \<and>
     (\<forall>i j n m. i \<le> j \<longrightarrow> j < length q \<longrightarrow> is_dist IJ src (q ! i) n \<longrightarrow> is_dist IJ src (q ! j) m \<longrightarrow>
        n \<le> m \<and> (k \<le> i \<longrightarrow> m \<le> Suc n)) \<and>
     (\<forall>i<k. \<forall>w. nbr IJ (q ! i) w \<longrightarrow> w \<in> set q)"

lemma bfs_invD:
  assumes "bfs_inv IJ nv src k tree q"
  shows bfs_inv_nonempty: "q \<noteq> []" and bfs_inv_src: "src \<in> set q" and bfs_inv_first: "q ! 0 = src"
    and bfs_inv_distinct: "distinct q" and bfs_inv_bound: "v \<in> set q \<Longrightarrow> v < nv"
    and bfs_inv_pos: "k \<le> length q" and bfs_inv_len: "nv \<le> length tree"
    and bfs_inv_root: "tree ! src = int src"
    and bfs_inv_unseen: "v < nv \<Longrightarrow> v \<notin> set q \<Longrightarrow> tree ! v = - 1"
    and bfs_inv_parent: "v \<in> set q \<Longrightarrow> v \<noteq> src \<Longrightarrow>
        \<exists>p n. p < nv \<and> tree ! v = int p \<and> nbr IJ p v \<and> is_dist IJ src p n \<and> is_dist IJ src v (Suc n)"
    and bfs_inv_sorted: "i \<le> j \<Longrightarrow> j < length q \<Longrightarrow> is_dist IJ src (q ! i) n \<Longrightarrow> is_dist IJ src (q ! j) m \<Longrightarrow> n \<le> m"
    and bfs_inv_near: "k \<le> i \<Longrightarrow> i \<le> j \<Longrightarrow> j < length q \<Longrightarrow> is_dist IJ src (q ! i) n \<Longrightarrow> is_dist IJ src (q ! j) m \<Longrightarrow> m \<le> Suc n"
    and bfs_inv_closed: "i < k \<Longrightarrow> nbr IJ (q ! i) w \<Longrightarrow> w \<in> set q"
proof -
  note i = assms [unfolded bfs_inv_def]
  show "q \<noteq> []" "q ! 0 = src" "distinct q" "k \<le> length q" "nv \<le> length tree" "tree ! src = int src" using i by blast+
  show "src \<in> set q" using i nth_mem [of 0 q] by simp
  show "v < nv" if "v \<in> set q" using i that by blast
  show "tree ! v = - 1" if "v < nv" "v \<notin> set q" using i that by blast
  show "\<exists>p n. p < nv \<and> tree ! v = int p \<and> nbr IJ p v \<and> is_dist IJ src p n \<and> is_dist IJ src v (Suc n)"
    if "v \<in> set q" "v \<noteq> src" using i that by blast
  show "n \<le> m" if "i \<le> j" "j < length q" "is_dist IJ src (q ! i) n" "is_dist IJ src (q ! j) m" using i that by blast
  show "m \<le> Suc n" if "k \<le> i" "i \<le> j" "j < length q" "is_dist IJ src (q ! i) n" "is_dist IJ src (q ! j) m"
    using i that by blast
  show "w \<in> set q" if "i < k" "nbr IJ (q ! i) w" using i that by blast
qed

lemma bfs_inv_dist:
  assumes "bfs_inv IJ nv src k tree q" "v \<in> set q"
  shows "\<exists>n. is_dist IJ src v n"
  using bfs_inv_parent [OF assms] by (cases "v = src") (auto simp: is_dist_src)

text \<open>Everything closer than the next vertex of the queue has been scanned.\<close>

lemma bfs_inv_closer:
  assumes inv: "bfs_inv IJ nv src k tree q" and k: "k < length q" and d: "is_dist IJ src (q ! k) d"
  shows "walk IJ src m u \<Longrightarrow> m < d \<Longrightarrow> u \<in> set (take k q)"
proof (induction m arbitrary: u)
  case 0
  have "k \<noteq> 0"
  proof
    assume "k = 0"
    then have "is_dist IJ src src d" using d bfs_inv_first [OF inv] by simp
    then show False using 0 by (simp add: is_dist_src)
  qed
  moreover have "u = q ! 0" using 0 bfs_inv_first [OF inv] by simp
  ultimately show ?case using k by (auto simp: in_set_conv_nth intro: exI [of _ 0])
next
  case (Suc m)
  from Suc.prems(1) obtain u' where u': "walk IJ src m u'" "nbr IJ u' u" by (rule walk_SucE)
  then have "u' \<in> set (take k q)" using Suc by simp
  then obtain j where "j < k" "u' = q ! j" by (auto simp: in_set_conv_nth)
  then have "u \<in> set q" using bfs_inv_closed [OF inv] u'(2) by blast
  then obtain i where i: "i < length q" "u = q ! i" by (auto simp: in_set_conv_nth)
  obtain n where n: "is_dist IJ src u n" using bfs_inv_dist [OF inv \<open>u \<in> set q\<close>] ..
  have "\<not> k \<le> i"
  proof
    assume "k \<le> i"
    then have "d \<le> n" using bfs_inv_sorted [OF inv _ i(1) d] n i(2) by simp
    then show False using is_dist_le [OF n Suc.prems(1)] Suc.prems(2) by simp
  qed
  then show ?case using i by (auto simp: in_set_conv_nth)
qed

lemma bfs_inv_new_dist:
  assumes inv: "bfs_inv IJ nv src k tree q" and k: "k < length q" and d: "is_dist IJ src (q ! k) d"
    and w: "nbr IJ (q ! k) w" "w \<notin> set q"
  shows "is_dist IJ src w (Suc d)"
proof -
  have "\<not> walk IJ src m w" if "m < Suc d" for m
  proof
    assume wk: "walk IJ src m w"
    have "w \<noteq> src" using bfs_inv_src [OF inv] w(2) by blast
    then obtain m' where m': "m = Suc m'" using wk by (cases m) auto
    then obtain u where u: "walk IJ src m' u" "nbr IJ u w" using wk by (auto elim: walk_SucE)
    then have "u \<in> set (take k q)" using bfs_inv_closer [OF inv k d] m' that by simp
    then obtain j where "j < k" "u = q ! j" by (auto simp: in_set_conv_nth)
    then show False using bfs_inv_closed [OF inv] u(2) w(2) by blast
  qed
  moreover have "walk IJ src (Suc d) w" using d w(1) by (auto simp: is_dist_def intro: walk_Suc)
  ultimately show ?thesis by (simp add: is_dist_def)
qed

lemma bfs_inv_add:
  assumes inv: "bfs_inv IJ nv src k tree q" and k: "k < length q"
    and w: "nbr IJ (q ! k) w" "w < nv" "w \<notin> set q"
  shows "bfs_inv IJ nv src k (tree[w := int (q ! k)]) (q @ [w])"
proof -
  obtain d where d: "is_dist IJ src (q ! k) d" using bfs_inv_dist [OF inv nth_mem [OF k]] by blast
  note dw = bfs_inv_new_dist [OF inv k d w(1,3)]
  have ord: "n \<le> m \<and> (k \<le> i \<longrightarrow> m \<le> Suc n)"
    if "i \<le> j" "j < length (q @ [w])" "is_dist IJ src ((q @ [w]) ! i) n" "is_dist IJ src ((q @ [w]) ! j) m" for i j n m
  proof (cases "j < length q")
    case True
    then show ?thesis using that bfs_inv_sorted [OF inv] bfs_inv_near [OF inv] by (simp add: nth_append)
  next
    case False
    then have "is_dist IJ src w m" using that by (simp add: nth_append less_Suc_eq)
    then have j: "m = Suc d" using dw by (rule is_dist_unique)
    show ?thesis
    proof (cases "i < length q")
      case True
      then have i: "is_dist IJ src (q ! i) n" using that by (simp add: nth_append)
      have "n \<le> Suc d"
      proof (cases "i \<le> k")
        case True
        then have "n \<le> d" using i d by (rule bfs_inv_sorted [OF inv _ k])
        then show ?thesis by simp
      next
        case False
        then show ?thesis using bfs_inv_near [OF inv le_refl _ \<open>i < length q\<close> d i] by simp
      qed
      moreover have "k \<le> i \<longrightarrow> d \<le> n" using bfs_inv_sorted [OF inv _ \<open>i < length q\<close> d i] by blast
      ultimately show ?thesis using j by auto
    next
      case False
      then have "is_dist IJ src w n" using that by (simp add: nth_append less_Suc_eq)
      then have "n = Suc d" using dw by (rule is_dist_unique)
      then show ?thesis using j by simp
    qed
  qed
  have neq: "w \<noteq> src" using bfs_inv_src [OF inv] w(3) by blast
  have len: "nv \<le> length tree" by (rule bfs_inv_len [OF inv])
  have "q ! k < nv" using bfs_inv_bound [OF inv nth_mem [OF k]] .
  then have par: "\<exists>p n. p < nv \<and> tree[w := int (q ! k)] ! v = int p \<and> nbr IJ p v \<and> is_dist IJ src p n \<and> is_dist IJ src v (Suc n)"
    if "v \<in> set (q @ [w])" "v \<noteq> src" for v
    using that w d dw len bfs_inv_parent [OF inv, of v] by (cases "v = w") auto
  show ?thesis unfolding bfs_inv_def
  proof (intro conjI allI impI ballI)
    show "(q @ [w]) ! 0 = src" using bfs_inv_first [OF inv] bfs_inv_nonempty [OF inv] by (simp add: nth_append)
    show "distinct (q @ [w])" using bfs_inv_distinct [OF inv] w(3) by simp
    show "set (q @ [w]) \<subseteq> {..<nv}" using bfs_inv_bound [OF inv] w(2) by auto
    show "tree[w := int (q ! k)] ! src = int src" using bfs_inv_root [OF inv] neq by simp
    show "tree[w := int (q ! k)] ! v = - 1" if "v < nv" "v \<notin> set (q @ [w])" for v
      using bfs_inv_unseen [OF inv, of v] that by simp
    show "u \<in> set (q @ [w])" if "i < k" "nbr IJ ((q @ [w]) ! i) u" for i u
      using bfs_inv_closed [OF inv, of i u] that k by (simp add: nth_append)
    show "\<exists>p n. p < nv \<and> tree[w := int (q ! k)] ! v = int p \<and> nbr IJ p v \<and> is_dist IJ src p n \<and> is_dist IJ src v (Suc n)"
      if "v \<in> set (q @ [w])" "v \<noteq> src" for v using that by (rule par)
    show "n \<le> m" "k \<le> i \<Longrightarrow> m \<le> Suc n"
      if "i \<le> j" "j < length (q @ [w])" "is_dist IJ src ((q @ [w]) ! i) n" "is_dist IJ src ((q @ [w]) ! j) m" for i j n m
      using ord [OF that] by blast+
  qed (use k len in simp_all)
qed

lemma bfs_inv_scanned:
  assumes "bfs_inv IJ nv src k tree q" "k < length q" "\<And>w. nbr IJ (q ! k) w \<Longrightarrow> w \<in> set q"
  shows "bfs_inv IJ nv src (Suc k) tree q"
  using assms unfolding bfs_inv_def by (auto simp: less_Suc_eq)

lemma bfs_inv_start:
  assumes "src < nv" "nv \<le> length tree" "tree ! src = int src" "\<And>v. v < nv \<Longrightarrow> v \<noteq> src \<Longrightarrow> tree ! v = - 1"
  shows "bfs_inv IJ nv src 0 tree [src]"
  using assms by (auto simp: bfs_inv_def is_dist_src)

lemma bfs_inv_done:
  assumes inv: "bfs_inv IJ nv src (length q) tree q"
  shows "bfs_tree_of IJ nv src tree"
proof -
  have all: "v \<in> set q" if "walk IJ src n v" for n v
    using that
  proof induction
    case walk_0
    show ?case by (rule bfs_inv_src [OF inv])
  next
    case (walk_Suc n v w)
    then obtain i where "i < length q" "v = q ! i" by (auto simp: in_set_conv_nth)
    then show ?case using bfs_inv_closed [OF inv] walk_Suc.hyps by blast
  qed
  have r: "reachable IJ src v \<longleftrightarrow> v \<in> set q" for v
    using all bfs_inv_dist [OF inv, of v] unfolding reachable_def is_dist_def by blast
  show ?thesis unfolding bfs_tree_of_def r
    using bfs_inv_bound [OF inv bfs_inv_src [OF inv]] bfs_inv_len [OF inv] bfs_inv_root [OF inv]
      bfs_inv_parent [OF inv] bfs_inv_unseen [OF inv] by simp
qed

lemma bfs_inv_length:
  assumes "bfs_inv IJ nv src k tree q"
  shows "length q \<le> nv"
proof -
  have "length q = card (set q)" using bfs_inv_distinct [OF assms] by (simp add: distinct_card)
  also have "\<dots> \<le> card {..<nv}" by (rule card_mono) (use bfs_inv_bound [OF assms] in auto)
  finally show ?thesis by simp
qed

section \<open>The search on arrays\<close>

text \<open>
  The body both programs share: if the new vertex has no parent yet, it gets one and is
  appended to the queue \<^verbatim>\<open>vlist\<close>. The programs differ in how they test for the missing
  parent.
\<close>

type_synonym bfs_state = "int list \<times> int list \<times> nat"

definition push :: "(int \<Rightarrow> bool) \<Rightarrow> int \<Rightarrow> int \<Rightarrow> bfs_state \<Rightarrow> bfs_state result" where
  "push unseen parent newv = (\<lambda>(bfs_tree, vlist, k2).
     bindE (arr_geti bfs_tree newv) (\<lambda>t.
     if unseen t then
       bindE (arr_seti bfs_tree newv parent) (\<lambda>bfs_tree.
       bindE (arr_set vlist k2 newv) (\<lambda>vlist.
       Inr (bfs_tree, vlist, k2 + 1)))
     else Inr (bfs_tree, vlist, k2)))"

definition bfs_rep :: "packed_edge list \<Rightarrow> nat \<Rightarrow> nat \<Rightarrow> nat \<Rightarrow> int list \<Rightarrow> int list \<Rightarrow> nat list \<Rightarrow> bool" where
  "bfs_rep IJ nv src k tree vlist q \<longleftrightarrow>
     bfs_inv IJ nv src k tree q \<and> length vlist = nv \<and> take (length q) vlist = map int q"

lemma bfs_rep_nth:
  assumes "bfs_rep IJ nv src k tree vlist q" "i < length q"
  shows "arr_get vlist i = Inr (int (q ! i))"
proof -
  have t: "take (length q) vlist = map int q" and "length q \<le> length vlist"
    using assms bfs_inv_length [of IJ nv src k tree q] by (auto simp: bfs_rep_def)
  have "vlist ! i = take (length q) vlist ! i" using assms(2) by simp
  also have "\<dots> = int (q ! i)" unfolding t using assms(2) by simp
  finally show ?thesis using \<open>length q \<le> length vlist\<close> assms(2) by simp
qed

locale bfs_scan =
  fixes IJ :: "packed_edge list" and nv :: nat and unseen :: "int \<Rightarrow> bool"
    and scan :: "int \<Rightarrow> bfs_state \<Rightarrow> bfs_state result"
  assumes nbr_bound: "nbr IJ v w \<Longrightarrow> w < nv"
    and unseen_none: "unseen (- 1)"
    and unseen_parent: "\<not> unseen (int p)"
    and scan_nbrs: "v < nv \<Longrightarrow>
      \<exists>ws. set ws = {w. nbr IJ v w} \<and> (\<forall>s. scan (int v) s = foldE (\<lambda>w. push unseen (int v) (int w)) ws s)"
begin

lemma push_rep:
  assumes rep: "bfs_rep IJ nv src k tree vlist q" and k: "k < length q" and w: "nbr IJ (q ! k) w"
  shows "\<exists>tree' vlist' r. push unseen (int (q ! k)) (int w) (tree, vlist, length q) = Inr (tree', vlist', length (q @ r)) \<and>
    bfs_rep IJ nv src k tree' vlist' (q @ r) \<and> w \<in> set (q @ r)"
proof -
  have inv: "bfs_inv IJ nv src k tree q" and vl: "length vlist = nv" "take (length q) vlist = map int q"
    using rep by (auto simp: bfs_rep_def)
  have wn: "w < nv" "w < length tree" using nbr_bound [OF w] bfs_inv_len [OF inv] by simp_all
  show ?thesis
  proof (cases "w \<in> set q")
    case True
    then obtain p where "tree ! w = int p" using bfs_inv_parent [OF inv True] bfs_inv_root [OF inv] by blast
    then have "push unseen (int (q ! k)) (int w) (tree, vlist, length q) = Inr (tree, vlist, length (q @ []))"
      using wn unseen_parent by (simp add: push_def)
    then show ?thesis using rep True by (intro exI [of _ tree] exI [of _ vlist] exI [of _ "[]"]) simp
  next
    case False
    have inv': "bfs_inv IJ nv src k (tree[w := int (q ! k)]) (q @ [w])"
      using bfs_inv_add [OF inv k w wn(1) False] .
    have lt: "length q < nv" using bfs_inv_length [OF inv'] by simp
    have "push unseen (int (q ! k)) (int w) (tree, vlist, length q)
        = Inr (tree[w := int (q ! k)], vlist[length q := int w], length (q @ [w]))"
      using wn lt vl bfs_inv_unseen [OF inv wn(1) False] unseen_none by (simp add: push_def)
    moreover have "bfs_rep IJ nv src k (tree[w := int (q ! k)]) (vlist[length q := int w]) (q @ [w])"
      using inv' vl lt by (simp add: bfs_rep_def take_Suc_conv_app_nth)
    ultimately show ?thesis by (intro exI conjI) (assumption, assumption, simp)
  qed
qed

lemma scan_rep:
  assumes rep: "bfs_rep IJ nv src k tree vlist q" and k: "k < length q"
  shows "\<exists>tree' vlist' r. scan (int (q ! k)) (tree, vlist, length q) = Inr (tree', vlist', length (q @ r)) \<and>
    bfs_rep IJ nv src (Suc k) tree' vlist' (q @ r)"
proof -
  have inv: "bfs_inv IJ nv src k tree q" using rep by (simp add: bfs_rep_def)
  let ?v = "q ! k" and ?f = "\<lambda>w. push unseen (int (q ! k)) (int w)"
  have claim: "\<exists>tree' vlist' r. foldE ?f ws (tree, vlist, length q) = Inr (tree', vlist', length (q @ r)) \<and>
      bfs_rep IJ nv src k tree' vlist' (q @ r) \<and> set ws \<subseteq> set (q @ r)"
    if "set ws \<subseteq> {w. nbr IJ ?v w}" for ws
    using that
  proof (induction ws rule: rev_induct)
    case Nil
    then show ?case using rep by fastforce
  next
    case (snoc w ws)
    then obtain tree' vlist' r where 1: "foldE ?f ws (tree, vlist, length q) = Inr (tree', vlist', length (q @ r))"
      "bfs_rep IJ nv src k tree' vlist' (q @ r)" "set ws \<subseteq> set (q @ r)" by auto
    have "nbr IJ ((q @ r) ! k) w" "k < length (q @ r)" using snoc.prems k by (simp_all add: nth_append)
    from push_rep [OF 1(2) this(2,1)] obtain tree'' vlist'' r' where
      2: "?f w (tree', vlist', length (q @ r)) = Inr (tree'', vlist'', length ((q @ r) @ r'))"
      "bfs_rep IJ nv src k tree'' vlist'' ((q @ r) @ r')" "w \<in> set ((q @ r) @ r')"
      using k by (auto simp: nth_append)
    show ?case
      by (intro exI [of _ tree''] exI [of _ vlist''] exI [of _ "r @ r'"]) (use 1 2 in \<open>auto simp: foldE_append\<close>)
  qed
  obtain ws where ws: "set ws = {w. nbr IJ ?v w}" "\<forall>s. scan (int ?v) s = foldE ?f ws s"
    using scan_nbrs [OF bfs_inv_bound [OF inv nth_mem [OF k]]] by blast
  obtain tree' vlist' r where
    *: "scan (int ?v) (tree, vlist, length q) = Inr (tree', vlist', length (q @ r))"
    "bfs_rep IJ nv src k tree' vlist' (q @ r)" "{w. nbr IJ ?v w} \<subseteq> set (q @ r)"
    using claim [of ws] ws by auto
  have "bfs_inv IJ nv src (Suc k) tree' (q @ r)"
    by (rule bfs_inv_scanned) (use * k in \<open>auto simp: bfs_rep_def nth_append\<close>)
  then show ?thesis using * by (auto simp: bfs_rep_def)
qed

text \<open>Scanning a block of the queue.\<close>

lemma scan_block:
  assumes rep: "bfs_rep IJ nv src k tree vlist q" and "k \<le> e" "e \<le> length q"
  shows "\<exists>tree' vlist' r.
    foldE (\<lambda>i (tree, vlist, k2). bindE (arr_get vlist i) (\<lambda>v. scan v (tree, vlist, k2))) [k..<e] (tree, vlist, length q)
      = Inr (tree', vlist', length (q @ r)) \<and> bfs_rep IJ nv src e tree' vlist' (q @ r)"
  using assms(2,3)
proof (induction e rule: dec_induct)
  case base
  then show ?case using rep by fastforce
next
  case (step e)
  let ?f = "\<lambda>i (tree, vlist, k2). bindE (arr_get vlist i) (\<lambda>v. scan v (tree, vlist, k2))"
  obtain tree' vlist' r where 1: "foldE ?f [k..<e] (tree, vlist, length q) = Inr (tree', vlist', length (q @ r))"
    "bfs_rep IJ nv src e tree' vlist' (q @ r)" using step by auto
  have e: "e < length (q @ r)" using step by simp
  from scan_rep [OF 1(2) e] obtain tree'' vlist'' r' where
    2: "scan (int ((q @ r) ! e)) (tree', vlist', length (q @ r)) = Inr (tree'', vlist'', length ((q @ r) @ r'))"
    "bfs_rep IJ nv src (Suc e) tree'' vlist'' ((q @ r) @ r')" by blast
  show ?case
    by (intro exI [of _ tree''] exI [of _ vlist''] exI [of _ "r @ r'"])
      (use 1 2 bfs_rep_nth [OF 1(2) e] step.hyps in \<open>simp add: foldE_append\<close>)
qed

end

lemma bfs_rep_done: "bfs_rep IJ nv src (length q) tree vlist q \<Longrightarrow> bfs_tree_of IJ nv src tree"
  by (auto simp: bfs_rep_def intro: bfs_inv_done)

lemma bfs_rep_pos: "bfs_rep IJ nv src k tree vlist q \<Longrightarrow> k \<le> length q \<and> length q \<le> nv"
  using bfs_inv_pos bfs_inv_length by (auto simp: bfs_rep_def)

lemma bfs_rep_start:
  assumes "src < nv" "nv \<le> length tree" "tree ! src = int src" "\<And>v. v < nv \<Longrightarrow> v \<noteq> src \<Longrightarrow> tree ! v = - 1"
    and "length vlist = nv" "vlist ! 0 = int src"
  shows "bfs_rep IJ nv src 0 tree vlist [src]"
  using bfs_inv_start [OF assms(1-4)] assms by (auto simp: bfs_rep_def take_Suc_conv_app_nth)

end
