(* ===== verification/SeqList.thy ===== *)
theory SeqList
  imports Bfs
begin

text \<open>
  The breadth first search on linked lists of edges, \<^verbatim>\<open>graph500/seq-list/seq-list.c\<close>: every
  edge \<open>k\<close> contributes the list cells \<open>2 k\<close> and \<open>2 k + 1\<close>, one in the list of
  each end. Loops whose length depends on the data take fuel.
\<close>

section \<open>Model\<close>

text \<open>The globals of the file. \<^verbatim>\<open>head\<close>, \<^verbatim>\<open>deg\<close> and \<^verbatim>\<open>next\<close> are consecutive parts of one block.\<close>

record list_graph =
  lg_IJ :: "packed_edge list"
  lg_nIJ :: int
  lg_maxvtx :: int
  lg_maxdeg :: int
  lg_head :: "int list"
  lg_deg :: "int list"
  lg_next :: "int list"

definition max_end :: "packed_edge \<Rightarrow> int \<Rightarrow> int" where
  "max_end e maxvtx =
     (let maxvtx = (if sint (get_v0_from_edge e) > maxvtx then sint (get_v0_from_edge e) else maxvtx) in
      if sint (get_v1_from_edge e) > maxvtx then sint (get_v1_from_edge e) else maxvtx)"

definition find_maxvtx :: "packed_edge list \<Rightarrow> int" where
  "find_maxvtx IJ = fold max_end IJ (- 1)"

definition incr :: "int list \<Rightarrow> int \<Rightarrow> int list result" where
  "incr xs i = bindE (arr_geti xs i) (\<lambda>d. arr_seti xs i (d + 1))"

text \<open>One end of an edge: cell \<open>t\<close> becomes the head of the list of \<open>i\<close>.\<close>

definition link_end ::
  "int \<Rightarrow> int \<Rightarrow> int \<Rightarrow> int list \<times> int list \<times> int list \<Rightarrow> (int list \<times> int list \<times> int list) result" where
  "link_end nIJ i t = (\<lambda>(head, deg, nxt).
     bindE (arr_geti head i) (\<lambda>t_head.
     bindE (arr_seti head i t) (\<lambda>head.
     bindE (assertE (t_head < 2 * nIJ)) (\<lambda>_.
     bindE (arr_seti nxt t t_head) (\<lambda>nxt.
     bindE (incr deg i) (\<lambda>deg.
     Inr (head, deg, nxt)))))))"

definition link_edge ::
  "packed_edge list \<Rightarrow> int \<Rightarrow> nat \<Rightarrow> int list \<times> int list \<times> int list \<Rightarrow> (int list \<times> int list \<times> int list) result" where
  "link_edge IJ nIJ k = (\<lambda>(head, deg, nxt).
     bindE (arr_get IJ k) (\<lambda>e.
     let i = sint (get_v0_from_edge e); j = sint (get_v1_from_edge e) in
     if i \<ge> 0 \<and> j \<ge> 0 \<and> i \<noteq> j then
       bindE (arr_seti nxt (2 * int k) (- 1)) (\<lambda>nxt.
       bindE (arr_seti nxt (1 + 2 * int k) (- 1)) (\<lambda>nxt.
       let t = 2 * int k + 1 in
       bindE (link_end nIJ i t (head, deg, nxt)) (\<lambda>s.
       link_end nIJ j (t - 1) s)))
     else Inr (head, deg, nxt)))"

definition find_maxdeg :: "int list \<Rightarrow> int" where
  "find_maxdeg deg = fold (\<lambda>d maxdeg. if d > maxdeg then d else maxdeg) deg (- 1)"

definition list_create_graph_from_edgelist ::
  "(nat \<Rightarrow> bool) \<Rightarrow> packed_edge list \<Rightarrow> list_graph result" where
  "list_create_graph_from_edgelist granted IJ =
     (let nIJ = int (length IJ); maxvtx = find_maxvtx IJ; n = nat (maxvtx + 1) in
      bindE (do_xmalloc_large granted (nat (2 * (maxvtx + 1) + 2 * nIJ) * 8)) (\<lambda>_.
      bindE (foldE (\<lambda>k (head, deg). bindE (arr_set head k (- 1)) (\<lambda>head.
               bindE (arr_set deg k 0) (\<lambda>deg. Inr (head, deg)))) [0..<n] (replicate n 0, replicate n 0)) (\<lambda>(head, deg).
      bindE (foldE (link_edge IJ nIJ) [0..<length IJ] (head, deg, replicate (nat (2 * nIJ)) 0)) (\<lambda>(head, deg, nxt).
      Inr \<lparr>lg_IJ = IJ, lg_nIJ = nIJ, lg_maxvtx = maxvtx, lg_maxdeg = find_maxdeg deg, lg_head = head,
           lg_deg = deg, lg_next = nxt\<rparr>))))"

text \<open>\<^verbatim>\<open>while (p >= 0)\<close>: the neighbors of one vertex.\<close>

fun list_scan :: "nat \<Rightarrow> list_graph \<Rightarrow> int \<Rightarrow> int \<Rightarrow> bfs_state \<Rightarrow> bfs_state result" where
  "list_scan 0 g parent p s = Inl Out_of_fuel"
| "list_scan (Suc fuel) g parent p s =
     (if p \<ge> 0 then
        bindE (arr_geti (lg_IJ g) (p div 2)) (\<lambda>e.
        let newv = (if p mod 2 \<noteq> 0 then sint (get_v1_from_edge e) else sint (get_v0_from_edge e)) in
        bindE (push (\<lambda>t. t < 0) parent newv s) (\<lambda>s.
        bindE (arr_geti (lg_next g) p) (\<lambda>p.
        list_scan fuel g parent p s)))
      else Inr s)"

definition list_scan_vertex :: "nat \<Rightarrow> list_graph \<Rightarrow> int \<Rightarrow> bfs_state \<Rightarrow> bfs_state result" where
  "list_scan_vertex fuel g parent s =
     bindE (arr_geti (lg_head g) parent) (\<lambda>p. list_scan fuel g parent p s)"

text \<open>
  The \<^verbatim>\<open>for\<close> loop over the queue. Its body assigns \<^verbatim>\<open>k1\<close> and \<^verbatim>\<open>k2\<close>, so the bound
  of the loop moves while it runs.
\<close>

fun list_for :: "nat \<Rightarrow> nat \<Rightarrow> list_graph \<Rightarrow> nat \<Rightarrow> nat \<times> nat \<times> nat \<times> int list \<times> int list \<Rightarrow>
   (nat \<times> nat \<times> int list \<times> int list) result" where
  "list_for 0 fuel g k s = Inl Out_of_fuel"
| "list_for (Suc n) fuel g k (k1, k2, newk2, bfs_tree, vlist) =
     (if k < k2 then
        bindE (arr_get vlist k) (\<lambda>parent.
        bindE (list_scan_vertex fuel g parent (bfs_tree, vlist, newk2)) (\<lambda>(bfs_tree, vlist, newk2).
        let k1 = k2; k2 = newk2 in
        list_for n fuel g (k + 1) (k1, k2, newk2, bfs_tree, vlist)))
      else Inr (k1, k2, bfs_tree, vlist))"

fun list_while :: "nat \<Rightarrow> nat \<Rightarrow> list_graph \<Rightarrow> nat \<times> nat \<times> int list \<times> int list \<Rightarrow> int list result" where
  "list_while 0 fuel g s = Inl Out_of_fuel"
| "list_while (Suc n) fuel g (k1, k2, bfs_tree, vlist) =
     (if k1 \<noteq> k2 then
        bindE (list_for fuel fuel g k1 (k1, k2, k2, bfs_tree, vlist)) (list_while n fuel g)
      else Inr bfs_tree)"

definition list_make_bfs_tree ::
  "(nat \<Rightarrow> bool) \<Rightarrow> nat \<Rightarrow> list_graph \<Rightarrow> int list \<Rightarrow> nat \<Rightarrow> (int \<times> int list) result" where
  "list_make_bfs_tree granted fuel g bfs_tree srcvtx =
     (let nv = nat (lg_maxvtx g + 1) in
      bindE (arr_set bfs_tree srcvtx (int srcvtx)) (\<lambda>bfs_tree.
      bindE (do_xmalloc_large granted (nv * 8)) (\<lambda>_.
      bindE (arr_set bfs_tree srcvtx (int srcvtx)) (\<lambda>bfs_tree.
      bindE (arr_set (replicate nv 0) 0 (int srcvtx)) (\<lambda>vlist.
      bindE (foldE (\<lambda>k t. arr_set t k (- 1)) [0..<srcvtx] bfs_tree) (\<lambda>bfs_tree.
      bindE (foldE (\<lambda>k t. arr_set t k (- 1)) [srcvtx + 1..<nv] bfs_tree) (\<lambda>bfs_tree.
      bindE (list_while fuel fuel g (0, 1, bfs_tree, vlist)) (\<lambda>bfs_tree.
      Inr (lg_maxvtx g, bfs_tree)))))))))"

section \<open>The number of vertices\<close>

lemma max_end_eq: "max_end e m = max m (max (int (end0 e)) (int (end1 e)))"
  by (simp add: max_end_def get_v_int Let_def max_def)

lemma fold_max_end:
  "m \<le> fold max_end IJ m \<and> (\<forall>e \<in> set IJ. int (end0 e) \<le> fold max_end IJ m \<and> int (end1 e) \<le> fold max_end IJ m)"
proof (induction IJ arbitrary: m)
  case (Cons e IJ)
  show ?case using Cons [of "max_end e m"] by (auto simp: max_end_eq)
qed simp

lemma find_maxvtx_ge: "- 1 \<le> find_maxvtx IJ"
  using fold_max_end [of "- 1" IJ] by (simp add: find_maxvtx_def)

definition num_vertices :: "packed_edge list \<Rightarrow> nat" where
  "num_vertices IJ = nat (find_maxvtx IJ + 1)"

lemma find_maxvtx_num: "find_maxvtx IJ + 1 = int (num_vertices IJ)"
  using find_maxvtx_ge [of IJ] by (simp add: num_vertices_def)

lemma ends_bound:
  assumes "e \<in> set IJ"
  shows "end0 e < num_vertices IJ \<and> end1 e < num_vertices IJ"
proof -
  have "int (end0 e) \<le> find_maxvtx IJ" "int (end1 e) \<le> find_maxvtx IJ"
    using fold_max_end [of "- 1" IJ] assms by (simp_all add: find_maxvtx_def)
  then show ?thesis using find_maxvtx_num [of IJ] by simp
qed

lemma nbr_num_vertices: "nbr IJ v w \<Longrightarrow> w < num_vertices IJ"
  using ends_bound by (auto simp: nbr_def)

section \<open>The lists of cells\<close>

fun chain :: "int list \<Rightarrow> int \<Rightarrow> nat list \<Rightarrow> bool" where
  "chain nxt p [] \<longleftrightarrow> p = - 1"
| "chain nxt p (x # xs) \<longleftrightarrow> p = int x \<and> x < length nxt \<and> chain nxt (nxt ! x) xs"

lemma chain_frame: "chain nxt p xs \<Longrightarrow> a \<notin> set xs \<Longrightarrow> chain (nxt[a := u]) p xs"
  by (induction xs arbitrary: p) auto

definition other_end :: "packed_edge list \<Rightarrow> nat \<Rightarrow> nat" where
  "other_end IJ x = (if odd x then end1 (IJ ! (x div 2)) else end0 (IJ ! (x div 2)))"

text \<open>
  After \<open>n\<close> edges, the list of \<open>v\<close> has a cell for every end at \<open>v\<close> of an edge that is
  no loop, the latest first.
\<close>

definition linked_vertex :: "packed_edge list \<Rightarrow> nat \<Rightarrow> nat \<Rightarrow> int \<Rightarrow> int \<Rightarrow> int list \<Rightarrow> bool" where
  "linked_vertex IJ n v h d nxt \<longleftrightarrow> (\<exists>ps. chain nxt h ps \<and> sorted_wrt (>) ps \<and> (\<forall>x \<in> set ps. x < 2 * n) \<and>
     other_end IJ ` set ps = {w. nbr (take n IJ) v w} \<and> d = int (length ps))"

definition linked :: "packed_edge list \<Rightarrow> nat \<Rightarrow> nat \<Rightarrow> int list \<times> int list \<times> int list \<Rightarrow> bool" where
  "linked IJ nv n = (\<lambda>(head, deg, nxt). length head = nv \<and> length deg = nv \<and> length nxt = 2 * length IJ \<and>
     (\<forall>v<nv. linked_vertex IJ n v (head ! v) (deg ! v) nxt))"

lemma nbr_take_Suc:
  "n < length IJ \<Longrightarrow> nbr (take (Suc n) IJ) v w \<longleftrightarrow>
     nbr (take n IJ) v w \<or> v \<noteq> w \<and> (end0 (IJ ! n) = v \<and> end1 (IJ ! n) = w \<or> end0 (IJ ! n) = w \<and> end1 (IJ ! n) = v)"
  by (auto simp: nbr_def take_Suc_conv_app_nth)

lemma linked_vertex_head: "linked_vertex IJ n v h d nxt \<Longrightarrow> h < 2 * int n \<and> - 1 \<le> h"
proof -
  assume "linked_vertex IJ n v h d nxt"
  then obtain ps where "chain nxt h ps" "\<forall>x \<in> set ps. x < 2 * n" by (auto simp: linked_vertex_def)
  then show ?thesis by (cases ps) auto
qed

lemma linked_vertex_keep:
  assumes "linked_vertex IJ n v h d nxt" "n < length IJ" "end0 (IJ ! n) = end1 (IJ ! n) \<or> end0 (IJ ! n) \<noteq> v \<and> end1 (IJ ! n) \<noteq> v"
  shows "linked_vertex IJ (Suc n) v h d (nxt[Suc (2 * n) := a, 2 * n := b])"
    and "linked_vertex IJ (Suc n) v h d nxt"
proof -
  obtain ps where ps: "chain nxt h ps" "sorted_wrt (>) ps" "\<forall>x \<in> set ps. x < 2 * n"
    "other_end IJ ` set ps = {w. nbr (take n IJ) v w}" "d = int (length ps)" using assms(1) by (auto simp: linked_vertex_def)
  have n: "nbr (take (Suc n) IJ) v w \<longleftrightarrow> nbr (take n IJ) v w" for w using assms(2,3) by (auto simp: nbr_take_Suc)
  have b: "\<forall>x \<in> set ps. x < 2 * Suc n" using ps(3) by auto
  show "linked_vertex IJ (Suc n) v h d nxt" unfolding linked_vertex_def n using ps b by blast
  have "chain (nxt[Suc (2 * n) := a, 2 * n := b]) h ps" using ps(1,3) by (intro chain_frame) auto
  then show "linked_vertex IJ (Suc n) v h d (nxt[Suc (2 * n) := a, 2 * n := b])"
    unfolding linked_vertex_def n using ps b by blast
qed

lemma linked_vertex_cons:
  assumes "linked_vertex IJ n v h d nxt" "n < length IJ" "length nxt = 2 * length IJ" "v \<noteq> w"
    and x: "x = 2 * n \<and> end0 (IJ ! n) = w \<and> end1 (IJ ! n) = v \<or> x = Suc (2 * n) \<and> end0 (IJ ! n) = v \<and> end1 (IJ ! n) = w"
    and nxt': "nxt' = nxt[Suc (2 * n) := a, 2 * n := b]" "nxt' ! x = h"
  shows "linked_vertex IJ (Suc n) v (int x) (d + 1) nxt'"
proof -
  obtain ps where ps: "chain nxt h ps" "sorted_wrt (>) ps" "\<forall>x \<in> set ps. x < 2 * n"
    "other_end IJ ` set ps = {w. nbr (take n IJ) v w}" "d = int (length ps)" using assms(1) by (auto simp: linked_vertex_def)
  have "chain nxt' h ps" unfolding nxt' using ps(1,3) by (intro chain_frame) auto
  moreover have "x < length nxt'" "2 * n \<le> x" "x < 2 * Suc n" using x assms(2,3) nxt' by auto
  moreover have "other_end IJ x = w" using x by (auto simp: other_end_def)
  moreover have "nbr (take (Suc n) IJ) v u \<longleftrightarrow> u = w \<or> nbr (take n IJ) v u" for u
    using assms(2,4) x by (auto simp: nbr_take_Suc)
  ultimately show ?thesis unfolding linked_vertex_def using ps nxt'(2)
    by (intro exI [of _ "x # ps"]) fastforce
qed

lemma link_end_eq:
  assumes "i < length head" "i < length deg" "t < length nxt" "head ! i < 2 * nIJ"
  shows "link_end nIJ (int i) (int t) (head, deg, nxt) = Inr (head[i := int t], deg[i := deg ! i + 1], nxt[t := head ! i])"
  using assms by (simp add: link_end_def incr_def)

lemma link_edge_linked:
  assumes l: "linked IJ nv n s" and n: "n < length IJ" and nv: "nv = num_vertices IJ"
  shows "\<exists>s'. link_edge IJ (int (length IJ)) n s = Inr s' \<and> linked IJ nv (Suc n) s'"
proof -
  obtain head deg nxt where s: "s = (head, deg, nxt)" by (cases s)
  have len: "length head = nv" "length deg = nv" "length nxt = 2 * length IJ"
    and lv: "\<And>v. v < nv \<Longrightarrow> linked_vertex IJ n v (head ! v) (deg ! v) nxt" using l by (auto simp: linked_def s)
  define i j where "i = end0 (IJ ! n)" and "j = end1 (IJ ! n)"
  have ij: "i < nv" "j < nv" using ends_bound [of "IJ ! n" IJ] n by (simp_all add: i_def j_def nv)
  show ?thesis
  proof (cases "i = j")
    case True
    then have "link_edge IJ (int (length IJ)) n s = Inr s"
      using n by (simp add: link_edge_def s get_v_int i_def j_def Let_def)
    moreover have "linked_vertex IJ (Suc n) v (head ! v) (deg ! v) nxt" if "v < nv" for v
      using linked_vertex_keep(2) [OF lv [OF that] n] True by (simp add: i_def j_def)
    ultimately show ?thesis using len by (auto simp: linked_def s)
  next
    case False
    let ?head = "head[i := int (Suc (2 * n)), j := int (2 * n)]" and ?deg = "deg[i := deg ! i + 1, j := deg ! j + 1]"
    let ?nxt = "nxt[Suc (2 * n) := head ! i, 2 * n := head ! j]"
    have t: "2 * int n = int (2 * n)" "1 + int (2 * n) = int (Suc (2 * n))" "int (2 * n) + 1 = int (Suc (2 * n))"
      "int (Suc (2 * n)) - 1 = int (2 * n)" by simp_all
    have h: "head ! i < 2 * int (length IJ)" "head ! j < 2 * int (length IJ)"
      using linked_vertex_head [OF lv [OF ij(1)]] linked_vertex_head [OF lv [OF ij(2)]] n by linarith+
    have upd: "nxt[2 * n := - 1, Suc (2 * n) := head ! i, 2 * n := head ! j] = ?nxt"
      by (simp add: list_update_swap)
    have "link_edge IJ (int (length IJ)) n s = Inr (?head, ?deg, ?nxt)"
      unfolding link_edge_def s using n False len ij h
      by (simp add: get_v_int i_def [symmetric] j_def [symmetric] t Let_def link_end_eq upd del: of_nat_Suc of_nat_mult)
    moreover have "linked_vertex IJ (Suc n) v (?head ! v) (?deg ! v) ?nxt" if v: "v < nv" for v
    proof -
      consider "v = i" | "v = j" | "v \<noteq> i" "v \<noteq> j" by blast
      then show ?thesis
      proof cases
        case 1
        have "linked_vertex IJ (Suc n) i (int (Suc (2 * n))) (deg ! i + 1) ?nxt"
          by (rule linked_vertex_cons [OF lv [OF ij(1)] n len(3) False _ refl]) (use n len in \<open>auto simp: i_def j_def\<close>)
        then show ?thesis using 1 False ij len by simp
      next
        case 2
        have "linked_vertex IJ (Suc n) j (int (2 * n)) (deg ! j + 1) ?nxt"
          by (rule linked_vertex_cons [OF lv [OF ij(2)] n len(3) not_sym [OF False] _ refl]) (use n len in \<open>auto simp: i_def j_def\<close>)
        then show ?thesis using 2 False ij len by simp
      next
        case 3
        then show ?thesis using linked_vertex_keep(1) [OF lv [OF v] n] by (simp add: i_def j_def)
      qed
    qed
    ultimately show ?thesis using len by (auto simp: linked_def)
  qed
qed

lemma list_create_linked:
  assumes "granted ((2 * num_vertices IJ + 2 * length IJ) * 8)"
  shows "\<exists>g. list_create_graph_from_edgelist granted IJ = Inr g \<and> lg_IJ g = IJ \<and> lg_maxvtx g = find_maxvtx IJ \<and>
    linked IJ (num_vertices IJ) (length IJ) (lg_head g, lg_deg g, lg_next g)"
proof -
  let ?n = "num_vertices IJ"
  have sz: "nat (2 * (find_maxvtx IJ + 1) + 2 * int (length IJ)) = 2 * ?n + 2 * length IJ" "nat (find_maxvtx IJ + 1) = ?n"
    "nat (2 * int (length IJ)) = 2 * length IJ"
    unfolding find_maxvtx_num by (simp_all add: nat_add_distrib nat_mult_distrib)
  define I :: "nat \<Rightarrow> int list \<times> int list \<Rightarrow> bool"
    where "I k = (\<lambda>(head, deg). length head = ?n \<and> length deg = ?n \<and> (\<forall>i<k. head ! i = - 1 \<and> deg ! i = 0))" for k
  have "\<exists>s. foldE (\<lambda>k (head, deg). bindE (arr_set head k (- 1)) (\<lambda>head. bindE (arr_set deg k 0) (\<lambda>deg. Inr (head, deg))))
      [0..<?n] (replicate ?n (0 :: int), replicate ?n (0 :: int)) = Inr s \<and> I ?n s"
    by (rule foldE_upt_inv) (auto simp: I_def nth_list_update)
  then obtain head deg where 1: "foldE (\<lambda>k (head, deg). bindE (arr_set head k (- 1)) (\<lambda>head. bindE (arr_set deg k 0) (\<lambda>deg. Inr (head, deg))))
      [0..<?n] (replicate ?n (0 :: int), replicate ?n (0 :: int)) = Inr (head, deg)" and
    i: "length head = ?n" "length deg = ?n" "\<And>i. i < ?n \<Longrightarrow> head ! i = - 1 \<and> deg ! i = 0" by (auto simp: I_def)
  have "linked_vertex IJ 0 v (- 1) 0 (replicate (2 * length IJ) 0)" for v
    unfolding linked_vertex_def by (rule exI [of _ "[]"]) (simp add: nbr_def)
  then have "linked IJ ?n 0 (head, deg, replicate (2 * length IJ) 0)" using i by (simp add: linked_def)
  then have "\<exists>s. foldE (link_edge IJ (int (length IJ))) [0..<length IJ] (head, deg, replicate (2 * length IJ) 0) = Inr s \<and>
      linked IJ ?n (length IJ) s"
    by (rule foldE_upt_inv) (simp, rule link_edge_linked, simp_all)
  then obtain head' deg' nxt' where 2: "foldE (link_edge IJ (int (length IJ))) [0..<length IJ] (head, deg, replicate (2 * length IJ) 0)
      = Inr (head', deg', nxt')" "linked IJ ?n (length IJ) (head', deg', nxt')" by (metis prod_cases3)
  show ?thesis unfolding list_create_graph_from_edgelist_def Let_def sz
    using assms 1 2 by (simp add: do_xmalloc_large_def)
qed

section \<open>The search\<close>

lemma list_scan_chain:
  assumes "chain (lg_next g) p ps" "length ps < fuel" "\<forall>x \<in> set ps. x < 2 * length (lg_IJ g)"
  shows "list_scan fuel g parent p s
    = foldE (\<lambda>w. push (\<lambda>t. t < 0) parent (int w)) (map (other_end (lg_IJ g)) ps) s"
  using assms
proof (induction ps arbitrary: p s fuel)
  case Nil
  then show ?case by (cases fuel) simp_all
next
  case (Cons x ps)
  obtain f where f: "fuel = Suc f" "length ps < f" using Cons.prems(2) by (cases fuel) auto
  have p: "p = int x" "x < length (lg_next g)" "chain (lg_next g) (lg_next g ! x) ps" using Cons.prems(1) by auto
  have d: "x div 2 < length (lg_IJ g)" using Cons.prems(3) by auto
  have pd: "int x div 2 = int (x div 2)" "int x mod 2 = 1 \<longleftrightarrow> odd x" "int x mod 2 = 0 \<longleftrightarrow> even x"
    by (simp add: zdiv_int) presburger+
  have IH: "list_scan f g parent (lg_next g ! x) s'
      = foldE (\<lambda>w. push (\<lambda>t. t < 0) parent (int w)) (map (other_end (lg_IJ g)) ps) s'" for s'
    by (rule Cons.IH [OF p(3) f(2)]) (use Cons.prems(3) in simp)
  show ?case unfolding f(1) p(1) using d p(2) by (simp add: pd IH Let_def other_end_def [of _ x] get_v_int)
qed

lemma list_scan_locale:
  assumes l: "linked IJ (num_vertices IJ) (length IJ) (lg_head g, lg_deg g, lg_next g)"
    and g: "lg_IJ g = IJ" and fuel: "2 * length IJ < fuel"
  shows "bfs_scan IJ (num_vertices IJ) (\<lambda>t. t < 0) (list_scan_vertex fuel g)"
proof
  fix v assume v: "v < num_vertices IJ"
  then have "linked_vertex IJ (length IJ) v (lg_head g ! v) (lg_deg g ! v) (lg_next g)" "v < length (lg_head g)"
    using l by (auto simp: linked_def)
  then obtain ps where ps: "chain (lg_next g) (lg_head g ! v) ps" "sorted_wrt (>) ps" "\<forall>x \<in> set ps. x < 2 * length IJ"
    "other_end IJ ` set ps = {w. nbr IJ v w}" by (auto simp: linked_vertex_def)
  have "distinct ps" using ps(2) by (induction ps) auto
  then have "length ps = card (set ps)" by (simp add: distinct_card)
  also have "\<dots> \<le> card {..<2 * length IJ}" by (rule card_mono) (use ps(3) in auto)
  finally have "length ps < fuel" using fuel by simp
  then have "list_scan_vertex fuel g (int v) s
      = foldE (\<lambda>w. push (\<lambda>t. t < 0) (int v) (int w)) (map (other_end IJ) ps) s" for s
    using list_scan_chain [OF ps(1), of fuel] ps(3) g \<open>v < length (lg_head g)\<close> by (simp add: list_scan_vertex_def)
  then show "\<exists>ws. set ws = {w. nbr IJ v w} \<and>
      (\<forall>s. list_scan_vertex fuel g (int v) s = foldE (\<lambda>w. push (\<lambda>t. t < 0) (int v) (int w)) ws s)"
    using ps(4) by (intro exI [of _ "map (other_end IJ) ps"]) simp
qed (auto intro: nbr_num_vertices)

text \<open>The graph that is built when memory is granted, and the search interface on it.\<close>

definition list_graph_of :: "packed_edge list \<Rightarrow> list_graph" where
  "list_graph_of IJ = projr (list_create_graph_from_edgelist (\<lambda>_. True) IJ)"

lemma list_graph_of:
  "list_create_graph_from_edgelist (\<lambda>_. True) IJ = Inr (list_graph_of IJ)"
  "lg_IJ (list_graph_of IJ) = IJ" "lg_maxvtx (list_graph_of IJ) = int (num_vertices IJ) - 1"
  "linked IJ (num_vertices IJ) (length IJ) (lg_head (list_graph_of IJ), lg_deg (list_graph_of IJ), lg_next (list_graph_of IJ))"
  using list_create_linked [of "\<lambda>_. True" IJ] find_maxvtx_num [of IJ] by (auto simp: list_graph_of_def)

interpretation list_bfs: bfs_scan IJ "num_vertices IJ" "\<lambda>t. t < 0"
  "list_scan_vertex (Suc (2 * length IJ + more)) (list_graph_of IJ)" for IJ more
  by (rule list_scan_locale [OF list_graph_of(4) list_graph_of(2)]) simp

lemma list_for_done:
  fixes IJ more
  defines "fuel \<equiv> Suc (2 * length IJ + more)" and "nv \<equiv> num_vertices IJ"
  assumes "bfs_rep IJ nv src k tree vlist q" and "k \<le> k1" "k1 \<le> length q" and "nv < n + k"
  shows "\<exists>tree' vlist' m. list_for n fuel (list_graph_of IJ) k (k1, length q, length q, tree, vlist) = Inr (m, m, tree', vlist') \<and>
    bfs_tree_of IJ nv src tree'"
  using assms(3-6)
proof (induction n arbitrary: k k1 tree vlist q)
  case 0
  then show ?case using bfs_rep_pos [OF 0(1)] by simp
next
  case (Suc n)
  show ?case
  proof (cases "k < length q")
    case True
    obtain tree' vlist' r where
      s: "list_scan_vertex fuel (list_graph_of IJ) (int (q ! k)) (tree, vlist, length q) = Inr (tree', vlist', length (q @ r))"
      "bfs_rep IJ nv src (Suc k) tree' vlist' (q @ r)"
      using list_bfs.scan_rep [OF Suc.prems(1) [unfolded nv_def] True, of more] by (auto simp: fuel_def nv_def)
    have "list_for (Suc n) fuel (list_graph_of IJ) k (k1, length q, length q, tree, vlist)
        = list_for n fuel (list_graph_of IJ) (Suc k) (length q, length (q @ r), length (q @ r), tree', vlist')"
      using True bfs_rep_nth [OF Suc.prems(1) True] s(1) by simp
    then show ?thesis using Suc.IH [OF s(2), of "length q"] True Suc.prems(4) by simp
  next
    case False
    then have "k = length q" "k1 = length q" using Suc.prems bfs_rep_pos by auto
    then show ?thesis using bfs_rep_done Suc.prems(1) by fastforce
  qed
qed

lemma list_search_tree:
  assumes "src < nv" "nv \<le> length tree" "length vlist = nv"
  obtains t1 t2 where "foldE (\<lambda>k t. arr_set t k (- 1)) [0..<src] (tree[src := int src]) = Inr t1"
    "foldE (\<lambda>k t. arr_set t k (- 1)) [src + 1..<nv] t1 = Inr t2"
    "bfs_rep IJ nv src 0 t2 (vlist[0 := int src]) [src]"
proof -
  obtain t1 where t1: "foldE (\<lambda>k t. arr_set t k (- 1)) [0..<src] (tree[src := int src]) = Inr t1" "length t1 = length tree"
    "\<forall>i. t1 ! i = (if 0 \<le> i \<and> i < src then - 1 else tree[src := int src] ! i)"
    using foldE_fill [of src "tree[src := int src]" "- 1" 0] assms by auto
  obtain t2 where t2: "foldE (\<lambda>k t. arr_set t k (- 1)) [src + 1..<nv] t1 = Inr t2" "length t2 = length t1"
    "\<forall>i. t2 ! i = (if src + 1 \<le> i \<and> i < nv then - 1 else t1 ! i)"
    using foldE_fill [of nv t1 "- 1" "src + 1"] assms t1(2) by auto
  have "bfs_rep IJ nv src 0 t2 (vlist[0 := int src]) [src]"
    by (rule bfs_rep_start) (use assms t1 t2 in auto)
  then show thesis using that t1(1) t2(1) by blast
qed

lemma list_search:
  assumes "src < num_vertices IJ" and "num_vertices IJ \<le> length tree" and "2 * length IJ + num_vertices IJ + 1 < fuel"
  shows "\<exists>tree'. list_make_bfs_tree (\<lambda>_. True) fuel (list_graph_of IJ) tree src = Inr (int (num_vertices IJ) - 1, tree') \<and>
    bfs_tree_of IJ (num_vertices IJ) src tree'"
proof -
  let ?nv = "num_vertices IJ" and ?g = "list_graph_of IJ"
  have nv: "lg_maxvtx ?g = int ?nv - 1" "nat (int ?nv - 1 + 1) = ?nv" by (simp_all add: list_graph_of(3))
  obtain t1 t2 where t: "foldE (\<lambda>k t. arr_set t k (- 1)) [0..<src] (tree[src := int src]) = Inr t1"
    "foldE (\<lambda>k t. arr_set t k (- 1)) [src + 1..<?nv] t1 = Inr t2"
    "bfs_rep IJ ?nv src 0 t2 ((replicate ?nv 0)[0 := int src]) [src]"
    by (rule list_search_tree [of src ?nv tree "replicate ?nv 0" IJ]) (use assms in simp_all)
  obtain more where more: "fuel = Suc (2 * length IJ + more)"
    using assms(3) by (metis add.commute add_Suc_right less_imp_Suc_add less_add_Suc1 add_lessD1 add.assoc)
  obtain tree' vlist' m where s: "list_for fuel fuel ?g 0 (0, 1, 1, t2, (replicate ?nv 0)[0 := int src]) = Inr (m, m, tree', vlist')"
    "bfs_tree_of IJ ?nv src tree'"
    using list_for_done [OF t(3), of 0 fuel more] assms(3) more by auto
  obtain f where f: "fuel = Suc (Suc f)" using assms(3) by (cases fuel; cases "fuel - 1") auto
  have "list_while fuel fuel ?g (0, 1, t2, (replicate ?nv 0)[0 := int src]) = Inr tree'"
    using s(1) by (simp add: f)
  then have "list_make_bfs_tree (\<lambda>_. True) fuel ?g tree src = Inr (int ?nv - 1, tree')"
    unfolding list_make_bfs_tree_def Let_def nv using assms t by (simp add: do_xmalloc_large_def)
  then show ?thesis using s(2) by blast
qed

section \<open>Property\<close>

text \<open>
  C24. The list implementation builds its lists and searches without an access out of bounds
  and with every assertion true, and the search returns a breadth first tree of the edge
  list: every vertex that can be reached has a parent one step closer to the source, all others
  have none. The moving bounds of the inner loop make the outer loop run once.
\<close>

theorem list_bfs_correct:
  assumes "\<And>sz. granted sz" and "src < num_vertices IJ" and "num_vertices IJ \<le> length tree"
    and "2 * length IJ + num_vertices IJ + 1 < fuel"
  shows "\<exists>g tree'. list_create_graph_from_edgelist granted IJ = Inr g \<and>
    list_make_bfs_tree granted fuel g tree src = Inr (int (num_vertices IJ) - 1, tree') \<and>
    bfs_tree_of IJ (num_vertices IJ) src tree'"
proof -
  have gr: "granted = (\<lambda>_. True)" using assms(1) by auto
  show ?thesis unfolding gr using list_search [OF assms(2-4)] list_graph_of(1) by blast
qed

theorem list_bfs_correct_witness:
  "\<exists>g tree'. list_create_graph_from_edgelist (\<lambda>_. True) [write_edge 0 1, write_edge 1 2, write_edge 3 3] = Inr g \<and>
    list_make_bfs_tree (\<lambda>_. True) 20 g [0, 0, 0, 0] 0 = Inr (3, tree') \<and>
    bfs_tree_of [write_edge 0 1, write_edge 1 2, write_edge 3 3] 4 0 tree'"
proof -
  have "num_vertices [write_edge 0 1, write_edge 1 2, write_edge 3 3] = 4"
    by (simp add: num_vertices_def find_maxvtx_def max_end_eq end0_def end1_def write_edge_def)
  then show ?thesis
    using list_bfs_correct [of "\<lambda>_. True" 0 "[write_edge 0 1, write_edge 1 2, write_edge 3 3]" "[0, 0, 0, 0]" 20] by simp
qed

end
