(* ===== verification/Verify.thy ===== *)
theory Verify
  imports SeqList
begin

text \<open>
  Validation of a breadth first tree, \<^verbatim>\<open>graph500/verify.c\<close>, in the build without OpenMP: the
  levels of the vertices, the checks on every edge, and the checks on every vertex.
\<close>

section \<open>Model\<close>

text \<open>Run up the tree until we encounter an already-leveled vertex.\<close>

function climb :: "int list \<Rightarrow> nat \<Rightarrow> int list \<Rightarrow> int \<Rightarrow> nat \<Rightarrow> (int \<times> nat) result" where
  "climb level nv bfs_tree parent nhop =
     (if parent \<ge> 0 then
        bindE (arr_geti level parent) (\<lambda>l.
        if l < 0 \<and> nhop < nv then
          bindE (arr_geti bfs_tree parent) (\<lambda>p.
          bindE (assertE (parent \<noteq> p)) (\<lambda>_.
          climb level nv bfs_tree p (nhop + 1)))
        else Inr (parent, nhop))
      else Inr (parent, nhop))"
  by pat_completeness auto
termination
  by (relation "measure (\<lambda>(_, nv, _, _, nhop). nv - nhop)") auto

text \<open>Assign levels until we meet an already-leveled vertex.\<close>

function assign_levels :: "int list \<Rightarrow> int list \<Rightarrow> int \<Rightarrow> int \<Rightarrow> (int list \<times> int \<times> int) result" where
  "assign_levels bfs_tree level parent nhop =
     bindE (arr_geti level parent) (\<lambda>l.
     if l < 0 then
       if nhop > 0 then
         bindE (arr_seti level parent nhop) (\<lambda>level.
         bindE (arr_geti bfs_tree parent) (\<lambda>p.
         assign_levels bfs_tree level p (nhop - 1)))
       else Inl Assertion
     else Inr (level, parent, nhop))"
  by pat_completeness auto
termination
  by (relation "measure (\<lambda>(_, _, _, nhop). nat nhop)") auto

text \<open>The internal check.\<close>

function check_levels :: "int list \<Rightarrow> int list \<Rightarrow> int \<Rightarrow> int \<Rightarrow> unit result" where
  "check_levels bfs_tree level parent lastlvl =
     bindE (arr_geti level parent) (\<lambda>l.
     if l > 0 then
       if lastlvl = 1 + l then
         bindE (arr_geti bfs_tree parent) (\<lambda>p. check_levels bfs_tree level p l)
       else Inl Assertion
     else Inr ())"
  by pat_completeness auto
termination
  by (relation "measure (\<lambda>(_, _, _, lastlvl). nat lastlvl)") auto

declare climb.simps [simp del] assign_levels.simps [simp del] check_levels.simps [simp del]

definition level_vertex :: "nat \<Rightarrow> int list \<Rightarrow> nat \<Rightarrow> int list \<Rightarrow> (int list \<times> int) result" where
  "level_vertex nv bfs_tree k level =
     bindE (climb level nv bfs_tree (int k) 0) (\<lambda>(parent, nhop).
     let terr = (if nhop \<ge> nv then - 1 else 0);
         terr = (if parent < 0 then - 2 else terr) in
     if terr = 0 then
       bindE (arr_geti level parent) (\<lambda>l.
       bindE (assign_levels bfs_tree level (int k) (int nhop + l)) (\<lambda>(level, parent, nhop).
       bindE (arr_geti level parent) (\<lambda>l.
       bindE (assertE (nhop = l)) (\<lambda>_.
       bindE (arr_get level k) (\<lambda>l.
       bindE (check_levels bfs_tree level (int k) (l + 1)) (\<lambda>_.
       Inr (level, terr)))))))
     else Inr (level, terr))"

definition level_step :: "nat \<Rightarrow> int list \<Rightarrow> nat \<Rightarrow> nat \<Rightarrow> int list \<times> int \<Rightarrow> (int list \<times> int) result" where
  "level_step nv bfs_tree root k = (\<lambda>(level, err).
     bindE (arr_get level k) (\<lambda>l.
     if l \<ge> 0 then Inr (level, err)
     else
       let terr = err in
       bindE (arr_get bfs_tree k) (\<lambda>t.
       bindE (if terr = 0 \<and> t \<ge> 0 \<and> k \<noteq> root then level_vertex nv bfs_tree k level else Inr (level, terr)) (\<lambda>(level, terr).
       Inr (level, if terr \<noteq> 0 then terr else err)))))"

definition compute_levels :: "int list \<Rightarrow> nat \<Rightarrow> int list \<Rightarrow> nat \<Rightarrow> (int list \<times> int) result" where
  "compute_levels level nv bfs_tree root =
     bindE (foldE (\<lambda>k level. arr_set level k (if k = root then 0 else - 1)) [0..<nv] level) (\<lambda>level.
     foldE (level_step nv bfs_tree root) [0..<nv] (level, 0))"

definition mark_seen :: "int list \<Rightarrow> int \<Rightarrow> int \<Rightarrow> int list \<Rightarrow> int list result" where
  "mark_seen bfs_tree i j seen_edge =
     bindE (arr_geti bfs_tree i) (\<lambda>t. if t = j then arr_seti seen_edge i 1 else Inr seen_edge)"

text \<open>The state of the edge loop: the marks, \<^verbatim>\<open>err\<close>, \<^verbatim>\<open>terr\<close> and the edges traversed.\<close>

type_synonym edge_state = "int list \<times> int \<times> int \<times> int"

definition check_edge ::
  "int \<Rightarrow> int list \<Rightarrow> int list \<Rightarrow> packed_edge \<Rightarrow> edge_state \<Rightarrow> edge_state result" where
  "check_edge max_bfsvtx bfs_tree level e = (\<lambda>(seen_edge, err, terr, nedge_traversed).
     let i = sint (get_v0_from_edge e); j = sint (get_v1_from_edge e); terr = err in
     if i < 0 \<or> j < 0 then Inr (seen_edge, err, terr, nedge_traversed)
     else
     let terr = (if i > max_bfsvtx \<and> j \<le> max_bfsvtx then - 10 else terr);
         terr = (if j > max_bfsvtx \<and> i \<le> max_bfsvtx then - 11 else terr);
         err = (if terr \<noteq> 0 then terr else err) in
     if terr \<noteq> 0 \<or> i > max_bfsvtx then Inr (seen_edge, err, terr, nedge_traversed)
     else
     bindE (arr_geti bfs_tree i) (\<lambda>ti.
     bindE (arr_geti bfs_tree j) (\<lambda>tj.
     let terr = (if ti \<ge> 0 \<and> tj < 0 then - 12 else terr);
         terr = (if tj \<ge> 0 \<and> ti < 0 then - 13 else terr);
         err = (if terr \<noteq> 0 then terr else err) in
     if terr \<noteq> 0 \<or> ti < 0 then Inr (seen_edge, err, terr, nedge_traversed)
     else
     let nedge_traversed = nedge_traversed + 1 in
     bindE (if i \<noteq> j then bindE (mark_seen bfs_tree i j seen_edge) (mark_seen bfs_tree j i) else Inr seen_edge) (\<lambda>seen_edge.
     bindE (arr_geti level i) (\<lambda>li.
     bindE (arr_geti level j) (\<lambda>lj.
     let lvldiff = li - lj;
         terr = (if lvldiff > 1 \<or> lvldiff < - 1 then - 14 else terr);
         err = (if terr \<noteq> 0 then terr else err) in
     Inr (seen_edge, err, terr, nedge_traversed)))))))"

definition check_vertex :: "int list \<Rightarrow> nat \<Rightarrow> int list \<Rightarrow> nat \<Rightarrow> int \<Rightarrow> int result" where
  "check_vertex bfs_tree root seen_edge k err =
     (let terr = err in
      if terr = 0 \<and> k \<noteq> root then
        bindE (arr_get bfs_tree k) (\<lambda>t.
        bindE (if t \<ge> 0 then arr_get seen_edge k else Inr 1) (\<lambda>s.
        let terr = (if s = 0 then - 15 else terr);
            terr = (if t = int k then - 16 else terr) in
        Inr (if terr \<noteq> 0 then terr else err)))
      else Inr err)"

definition verify_bfs_tree ::
  "(nat \<Rightarrow> bool) \<Rightarrow> int list \<Rightarrow> int \<Rightarrow> nat \<Rightarrow> packed_edge list \<Rightarrow> int result" where
  "verify_bfs_tree granted bfs_tree max_bfsvtx root IJ =
     (let nv = nat (max_bfsvtx + 1) in
      if int root > max_bfsvtx then Inr (- 999)
      else
      bindE (arr_get bfs_tree root) (\<lambda>t.
      if t \<noteq> int root then Inr (- 999)
      else
      bindE (do_xmalloc_large granted (2 * nv * 8)) (\<lambda>_.
      bindE (compute_levels (replicate nv 0) nv bfs_tree root) (\<lambda>(level, err).
      if err \<noteq> 0 then Inr err
      else
      bindE (foldE (\<lambda>k t. arr_set t k 0) [0..<nv] (replicate nv 0)) (\<lambda>seen_edge.
      bindE (foldE (check_edge max_bfsvtx bfs_tree level) IJ (seen_edge, err, 0, 0)) (\<lambda>(seen_edge, err, terr, nedge_traversed).
      bindE (if terr = 0 then foldE (check_vertex bfs_tree root seen_edge) [0..<nv] err else Inr err) (\<lambda>err.
      if err \<noteq> 0 then Inr err else Inr nedge_traversed)))))))"

section \<open>Depths in a tree\<close>

inductive tree_depth :: "int list \<Rightarrow> nat \<Rightarrow> nat \<Rightarrow> nat \<Rightarrow> nat \<Rightarrow> bool" for tree nv root where
  depth_root: "root < nv \<Longrightarrow> tree_depth tree nv root root 0"
| depth_parent: "tree_depth tree nv root p n \<Longrightarrow> v < nv \<Longrightarrow> v \<noteq> root \<Longrightarrow> tree ! v = int p \<Longrightarrow> tree_depth tree nv root v (Suc n)"

inductive_cases depth_0E: "tree_depth tree nv root v 0"
inductive_cases depth_SucE: "tree_depth tree nv root v (Suc n)"
inductive_cases depth_rootE: "tree_depth tree nv root root n"

lemma depth_bound: "tree_depth tree nv root v n \<Longrightarrow> v < nv"
  by (induction rule: tree_depth.induct) auto

lemma depth_unique: "tree_depth tree nv root v n \<Longrightarrow> tree_depth tree nv root v m \<Longrightarrow> n = m"
proof (induction n arbitrary: v m)
  case 0
  then have "v = root" by (auto elim: depth_0E)
  then show ?case using 0 by (auto elim: depth_rootE)
next
  case (Suc n)
  obtain p where p: "tree_depth tree nv root p n" "v \<noteq> root" "tree ! v = int p" using Suc.prems(1) by (auto elim: depth_SucE)
  then obtain m' where m: "m = Suc m'" using Suc.prems(2) by (cases m) (auto elim: depth_0E)
  then have "tree_depth tree nv root p m'" using Suc.prems(2) p(3) by (auto elim: depth_SucE)
  then show ?case using Suc.IH [OF p(1)] m by simp
qed

lemma depth_ancestors: "tree_depth tree nv root v n \<Longrightarrow> m \<le> n \<Longrightarrow> \<exists>u. tree_depth tree nv root u m"
  by (induction rule: tree_depth.induct) (auto simp: le_Suc_eq intro: depth_root depth_parent)

lemma depth_less:
  assumes "tree_depth tree nv root v n"
  shows "n < nv"
proof -
  have "\<forall>m\<in>{..n}. \<exists>u. tree_depth tree nv root u m" using depth_ancestors [OF assms] by auto
  then obtain f where f: "\<forall>m\<in>{..n}. tree_depth tree nv root (f m) m" by metis
  then have "inj_on f {..n}" by (metis depth_unique inj_onI)
  then have "card {..n} = card (f ` {..n})" by (simp add: card_image)
  also have "\<dots> \<le> card {..<nv}" by (rule card_mono) (use f depth_bound [of tree nv root] in blast)+
  finally show ?thesis by simp
qed

lemma depth_parentD:
  assumes "tree_depth tree nv root v n" "v \<noteq> root"
  obtains p m where "n = Suc m" "tree ! v = int p" "tree_depth tree nv root p m" "p < nv" "p \<noteq> v"
proof -
  obtain m p where m: "n = Suc m" "tree ! v = int p" "tree_depth tree nv root p m"
    using assms by (cases rule: tree_depth.cases) auto
  moreover have "p \<noteq> v"
  proof
    assume "p = v"
    then have "m = n" using depth_unique [OF m(3)] assms(1) by simp
    then show False using m(1) by simp
  qed
  ultimately show thesis using that depth_bound by blast
qed

section \<open>Levels\<close>

text \<open>Levels that are set are depths; \<open>hole\<close> is a vertex whose level a child may wait for.\<close>

definition levels_ok :: "int list \<Rightarrow> nat \<Rightarrow> nat \<Rightarrow> int list \<Rightarrow> bool" where
  "levels_ok tree nv root level \<longleftrightarrow> length level = nv \<and> nv \<le> length tree \<and> root < nv \<and> level ! root = 0 \<and>
     (\<forall>v<nv. level ! v \<ge> 0 \<longrightarrow> tree_depth tree nv root v (nat (level ! v))) \<and> (\<forall>v<nv. level ! v \<ge> - 1)"

definition closed_but :: "int list \<Rightarrow> nat \<Rightarrow> nat \<Rightarrow> int list \<Rightarrow> nat \<Rightarrow> bool" where
  "closed_but tree nv root level hole \<longleftrightarrow>
     (\<forall>v<nv. \<forall>p<nv. level ! v \<ge> 0 \<longrightarrow> v \<noteq> root \<longrightarrow> tree ! v = int p \<longrightarrow> level ! p \<ge> 0 \<or> p = hole)"

lemma closed_butD:
  "closed_but tree nv root level hole \<Longrightarrow> v < nv \<Longrightarrow> p < nv \<Longrightarrow> level ! v \<ge> 0 \<Longrightarrow> v \<noteq> root \<Longrightarrow> tree ! v = int p \<Longrightarrow>
    level ! p \<ge> 0 \<or> p = hole"
  unfolding closed_but_def by blast

lemma closed_but_fill: "closed_but tree nv root level hole \<Longrightarrow> level ! hole \<ge> 0 \<or> hole \<ge> nv \<Longrightarrow> closed_but tree nv root level h"
  unfolding closed_but_def by (metis not_le)

lemma levels_okD:
  assumes "levels_ok tree nv root level"
  shows "length level = nv" "nv \<le> length tree" "root < nv" "level ! root = 0"
    "v < nv \<Longrightarrow> level ! v \<ge> 0 \<Longrightarrow> tree_depth tree nv root v (nat (level ! v))" "v < nv \<Longrightarrow> level ! v \<ge> - 1"
  using assms by (auto simp: levels_ok_def)

lemma level_is_depth:
  assumes "levels_ok tree nv root level" "tree_depth tree nv root v n" "level ! v \<ge> 0"
  shows "level ! v = int n"
proof -
  have "tree_depth tree nv root v (nat (level ! v))" using levels_okD(5) [OF assms(1)] depth_bound [OF assms(2)] assms(3) by blast
  then have "nat (level ! v) = n" using assms(2) by (rule depth_unique)
  then show ?thesis using assms(3) by simp
qed

lemma climb_depth:
  assumes ok: "levels_ok tree nv root level"
  shows "tree_depth tree nv root v n \<Longrightarrow> h + n < nv \<Longrightarrow>
    \<exists>u m. climb level nv tree (int v) h = Inr (int u, h + m) \<and> m \<le> n \<and> u < nv \<and> level ! u = int (n - m)"
proof (induction n arbitrary: v h)
  case 0
  then have "v = root" by (auto elim: depth_0E)
  then have "climb level nv tree (int v) h = Inr (int v, h + 0)" using levels_okD [OF ok] by (subst climb.simps) simp
  then show ?case using \<open>v = root\<close> levels_okD [OF ok] by fastforce
next
  case (Suc n)
  have v: "v < nv" "v < length level" "v < length tree" using depth_bound [OF Suc.prems(1)] levels_okD [OF ok] by auto
  show ?case
  proof (cases "level ! v \<ge> 0")
    case True
    then have "climb level nv tree (int v) h = Inr (int v, h + 0)" using v by (subst climb.simps) simp
    then show ?thesis using v level_is_depth [OF ok Suc.prems(1) True] by fastforce
  next
    case False
    then have "v \<noteq> root" using levels_okD(4) [OF ok] by auto
    then obtain p where p: "tree ! v = int p" "tree_depth tree nv root p n" "p \<noteq> v"
      using Suc.prems(1) by (auto elim: depth_parentD)
    have "climb level nv tree (int v) h = climb level nv tree (int p) (h + 1)"
      using v False p Suc.prems(2) by (subst climb.simps) simp
    moreover obtain u m where "climb level nv tree (int p) (h + 1) = Inr (int u, h + 1 + m)" "m \<le> n" "u < nv" "level ! u = int (n - m)"
      using Suc.IH [OF p(2), of "h + 1"] Suc.prems(2) by auto
    ultimately show ?thesis by (intro exI [of _ u] exI [of _ "Suc m"]) simp
  qed
qed

lemma assign_depth:
  assumes "tree_depth tree nv root v n" "levels_ok tree nv root level" "closed_but tree nv root level v"
  shows "\<exists>level' u l. assign_levels tree level (int v) (int n) = Inr (level', int u, l) \<and> u < nv \<and> level' ! u = l \<and>
    levels_ok tree nv root level' \<and> closed_but tree nv root level' nv \<and> level' ! v = int n \<and>
    (\<forall>x<nv. level ! x \<ge> 0 \<longrightarrow> level' ! x = level ! x)"
  using assms
proof (induction n arbitrary: v level rule: nat_induct)
  case 0
  then have "v = root" by (auto elim: depth_0E)
  then have "assign_levels tree level (int v) (int 0) = Inr (level, int v, 0)" and "level ! v = 0" "v < nv"
    using levels_okD [OF 0(2)] by (subst assign_levels.simps, simp_all)
  moreover have "closed_but tree nv root level nv" using 0(3) by (rule closed_but_fill) (simp add: \<open>level ! v = 0\<close>)
  ultimately show ?case using 0 by (intro exI [of _ level] exI [of _ v] exI [of _ 0]) simp
next
  case (Suc n)
  note ok = Suc.prems(2)
  have v: "v < nv" "v < length level" "v < length tree" using depth_bound [OF Suc.prems(1)] levels_okD [OF ok] by auto
  show ?case
  proof (cases "level ! v \<ge> 0")
    case True
    then have l: "level ! v = int (Suc n)" by (rule level_is_depth [OF ok Suc.prems(1)])
    have "assign_levels tree level (int v) (int (Suc n)) = Inr (level, int v, int (Suc n))"
      using v True by (subst assign_levels.simps) simp
    moreover have "closed_but tree nv root level nv" using Suc.prems(3) by (rule closed_but_fill) (simp add: True)
    ultimately show ?thesis using ok l v(1) by (intro exI [of _ level] exI [of _ v] exI [of _ "int (Suc n)"]) simp
  next
    case False
    then have nr: "v \<noteq> root" using levels_okD(4) [OF ok] by auto
    then obtain p where p: "tree ! v = int p" "tree_depth tree nv root p n" "p \<noteq> v"
      using Suc.prems(1) by (auto elim: depth_parentD)
    let ?l = "level[v := int (Suc n)]"
    have step: "assign_levels tree level (int v) (int (Suc n)) = assign_levels tree ?l (int p) (int n)"
      using v False p(1) by (subst assign_levels.simps) simp
    have ok': "levels_ok tree nv root ?l"
      using ok nr Suc.prems(1) v(2) unfolding levels_ok_def by (auto simp: nth_list_update nat_add_distrib)
    have "closed_but tree nv root ?l p"
      unfolding closed_but_def
    proof (intro allI impI)
      fix x q assume x: "x < nv" "q < nv" "?l ! x \<ge> 0" "x \<noteq> root" "tree ! x = int q"
      show "?l ! q \<ge> 0 \<or> q = p"
      proof (cases "x = v")
        case True
        then show ?thesis using x(5) p(1) by simp
      next
        case False
        then show ?thesis using closed_butD [OF Suc.prems(3) x(1,2) _ x(4,5)] x(3) v(2) by (cases "q = v") auto
      qed
    qed
    from Suc.IH [OF p(2) ok' this] obtain level' u l where
      r: "assign_levels tree ?l (int p) (int n) = Inr (level', int u, l)" "u < nv" "level' ! u = l"
      "levels_ok tree nv root level'" "closed_but tree nv root level' nv" "\<forall>x<nv. ?l ! x \<ge> 0 \<longrightarrow> level' ! x = ?l ! x" by blast
    have "level' ! v = int (Suc n)" using r(6) v by simp
    moreover have "\<forall>x<nv. level ! x \<ge> 0 \<longrightarrow> level' ! x = level ! x" using r(6) False by (metis nth_list_update_neq)
    ultimately show ?thesis using step r by (intro exI [of _ level'] exI [of _ u] exI [of _ l]) simp
  qed
qed

lemma check_depth:
  assumes ok: "levels_ok tree nv root level" "closed_but tree nv root level nv"
  shows "tree_depth tree nv root v n \<Longrightarrow> level ! v \<ge> 0 \<Longrightarrow> check_levels tree level (int v) (int n + 1) = Inr ()"
proof (induction n arbitrary: v)
  case 0
  then show ?case using level_is_depth [OF ok(1) 0] depth_bound [OF 0(1)] levels_okD(1) [OF ok(1)]
    by (subst check_levels.simps) simp
next
  case (Suc n)
  have v: "v < nv" "v < length level" "v < length tree" using depth_bound [OF Suc.prems(1)] levels_okD [OF ok(1)] by auto
  have l: "level ! v = int (Suc n)" by (rule level_is_depth [OF ok(1) Suc.prems])
  then have nr: "v \<noteq> root" using levels_okD(4) [OF ok(1)] by auto
  then obtain p where p: "tree ! v = int p" "tree_depth tree nv root p n" "p < nv"
    using Suc.prems(1) by (auto elim: depth_parentD)
  then have "level ! p \<ge> 0" using closed_butD [OF ok(2) v(1) p(3) Suc.prems(2) nr p(1)] by simp
  moreover have "check_levels tree level (int v) (int (Suc n) + 1) = check_levels tree level (int p) (int n + 1)"
    using v l p(1) by (subst check_levels.simps) (simp add: add.commute)
  ultimately show ?case using Suc.IH [OF p(2)] by simp
qed

lemma level_vertex_depth:
  assumes d: "tree_depth tree nv root k n" and ok: "levels_ok tree nv root level" "closed_but tree nv root level nv"
  shows "\<exists>level'. level_vertex nv tree k level = Inr (level', 0) \<and> levels_ok tree nv root level' \<and>
    closed_but tree nv root level' nv \<and> level' ! k \<ge> 0 \<and> (\<forall>x<nv. level ! x \<ge> 0 \<longrightarrow> level' ! x = level ! x)"
proof -
  have k: "k < nv" by (rule depth_bound [OF d])
  obtain u m where c: "climb level nv tree (int k) 0 = Inr (int u, m)" "m \<le> n" "u < nv" "level ! u = int (n - m)"
    using climb_depth [OF ok(1) d, of 0] depth_less [OF d] by auto
  have hole: "closed_but tree nv root level k" using ok(2) by (rule closed_but_fill) simp
  obtain level' u' l where a: "assign_levels tree level (int k) (int n) = Inr (level', int u', l)" "u' < nv" "level' ! u' = l"
    "levels_ok tree nv root level'" "closed_but tree nv root level' nv" "level' ! k = int n"
    "\<forall>x<nv. level ! x \<ge> 0 \<longrightarrow> level' ! x = level ! x" using assign_depth [OF d ok(1) hole] by blast
  have "check_levels tree level' (int k) (int n + 1) = Inr ()" by (rule check_depth [OF a(4,5) d]) (simp add: a(6))
  moreover have "int m + int (n - m) = int n" using c(2) by simp
  moreover have "m < nv" using c(2) depth_less [OF d] by simp
  ultimately have "level_vertex nv tree k level = Inr (level', 0)"
    unfolding level_vertex_def using c(1,3,4) a(1,2,3,6) k levels_okD(1) [OF ok(1)] levels_okD(1) [OF a(4)] by simp
  then show ?thesis using a by simp
qed

lemma climb_sound:
  assumes ok: "levels_ok tree nv root level" and wf: "\<forall>v<nv. tree ! v < int nv"
  shows "climb level nv tree (int v) h = Inr (p, h') \<Longrightarrow> v < nv \<Longrightarrow> 0 \<le> p \<Longrightarrow> h' < nv \<Longrightarrow> \<exists>n. tree_depth tree nv root v n"
proof (induction "nv - h" arbitrary: v h rule: less_induct)
  case less
  have v: "v < length level" "v < length tree" using less.prems(2) levels_okD [OF ok] by auto
  show ?case
  proof (cases "level ! v \<ge> 0")
    case True
    then show ?thesis using levels_okD(5) [OF ok less.prems(2)] by blast
  next
    case False
    have h: "h < nv"
    proof (rule ccontr)
      assume "\<not> h < nv"
      then have "climb level nv tree (int v) h = Inr (int v, h)" using v by (subst climb.simps) simp
      then show False using less.prems \<open>\<not> h < nv\<close> by simp
    qed
    have e: "climb level nv tree (int v) h = bindE (assertE (int v \<noteq> tree ! v)) (\<lambda>_. climb level nv tree (tree ! v) (h + 1))"
      using v False h by (subst climb.simps) simp
    then have c: "climb level nv tree (tree ! v) (h + 1) = Inr (p, h')" using less.prems(1) by (cases "int v = tree ! v") simp_all
    have "0 \<le> tree ! v"
    proof (rule ccontr)
      assume "\<not> 0 \<le> tree ! v"
      then have "climb level nv tree (tree ! v) (h + 1) = Inr (tree ! v, h + 1)" by (subst climb.simps) simp
      then show False using c less.prems(3) \<open>\<not> 0 \<le> tree ! v\<close> by simp
    qed
    then obtain u where u: "tree ! v = int u" by (metis nonneg_int_cases)
    then have "u < nv" using wf less.prems(2) by (metis of_nat_less_iff)
    have "nv - (h + 1) < nv - h" using h by linarith
    then obtain n where "tree_depth tree nv root u n"
      using less.hyps [of "h + 1" u] c [unfolded u] \<open>u < nv\<close> less.prems(3,4) by blast
    moreover have "v \<noteq> root" using False levels_okD(4) [OF ok] by auto
    ultimately show ?thesis using depth_parent u less.prems(2) by blast
  qed
qed

lemma level_vertex_sound:
  assumes ok: "levels_ok tree nv root level" and wf: "\<forall>v<nv. tree ! v < int nv" and "k < nv"
    and r: "level_vertex nv tree k level = Inr (level', e)"
  shows "e \<le> 0" "e = 0 \<Longrightarrow> \<exists>n. tree_depth tree nv root k n"
proof -
  obtain p h where c: "climb level nv tree (int k) 0 = Inr (p, h)" using r by (auto simp: level_vertex_def bindE_eq_Inr_iff)
  have e: "e = (if p < 0 then - 2 else if h \<ge> nv then - 1 else 0)"
    using r by (auto simp: level_vertex_def c bindE_eq_Inr_iff Let_def split: if_splits)
  show "e \<le> 0" using e by simp
  show "\<exists>n. tree_depth tree nv root k n" if "e = 0"
    by (rule climb_sound [OF ok wf c assms(3)]) (use that e in \<open>auto split: if_splits\<close>)
qed

definition leveled :: "int list \<Rightarrow> nat \<Rightarrow> nat \<Rightarrow> nat \<Rightarrow> int list \<Rightarrow> bool" where
  "leveled tree nv root k level \<longleftrightarrow> levels_ok tree nv root level \<and> closed_but tree nv root level nv \<and>
     (\<forall>v<k. tree ! v \<ge> 0 \<longrightarrow> level ! v \<ge> 0)"

lemma level_step_complete:
  assumes l: "leveled tree nv root k level" and k: "k < nv" and d: "tree ! k \<ge> 0 \<longrightarrow> (\<exists>n. tree_depth tree nv root k n)"
  shows "\<exists>level'. level_step nv tree root k (level, 0) = Inr (level', 0) \<and> leveled tree nv root (Suc k) level'"
proof -
  have ok: "levels_ok tree nv root level" "closed_but tree nv root level nv" using l by (simp_all add: leveled_def)
  have kl: "k < length level" "k < length tree" using k levels_okD [OF ok(1)] by auto
  consider "level ! k \<ge> 0" | "level ! k < 0" "tree ! k < 0" | "level ! k < 0" "tree ! k \<ge> 0" by linarith
  then show ?thesis
  proof cases
    case 1
    then show ?thesis using kl l by (auto simp: level_step_def leveled_def less_Suc_eq)
  next
    case 2
    then show ?thesis using kl l by (auto simp: level_step_def leveled_def less_Suc_eq)
  next
    case 3
    then obtain n where n: "tree_depth tree nv root k n" using d by blast
    have "k \<noteq> root" using 3(1) levels_okD(4) [OF ok(1)] by auto
    obtain level' where r: "level_vertex nv tree k level = Inr (level', 0)" "levels_ok tree nv root level'"
      "closed_but tree nv root level' nv" "level' ! k \<ge> 0" "\<forall>x<nv. level ! x \<ge> 0 \<longrightarrow> level' ! x = level ! x"
      using level_vertex_depth [OF n ok] by blast
    have "level_step nv tree root k (level, 0) = Inr (level', 0)"
      using kl 3 \<open>k \<noteq> root\<close> r(1) by (simp add: level_step_def)
    moreover have "\<forall>v<Suc k. tree ! v \<ge> 0 \<longrightarrow> level' ! v \<ge> 0"
      using l r(4,5) k by (auto simp: leveled_def less_Suc_eq)
    ultimately show ?thesis using r(2,3) by (simp add: leveled_def)
  qed
qed

lemma level_step_sound:
  assumes l: "leveled tree nv root k level" and k: "k < nv" and wf: "\<forall>v<nv. tree ! v < int nv"
    and r: "level_step nv tree root k (level, 0) = Inr (level', e)"
  shows "e \<le> 0 \<and> (e = 0 \<longrightarrow> tree ! k \<ge> 0 \<longrightarrow> (\<exists>n. tree_depth tree nv root k n))"
proof -
  have ok: "levels_ok tree nv root level" using l by (simp add: leveled_def)
  have kl: "k < length level" "k < length tree" using k levels_okD [OF ok(1)] by auto
  show ?thesis
  proof (cases "level ! k \<ge> 0 \<or> tree ! k < 0")
    case True
    then have "e = 0" using r kl by (auto simp: level_step_def Let_def split: if_splits)
    then show ?thesis using True levels_okD(5) [OF ok k] by auto
  next
    case False
    then have "k \<noteq> root" using levels_okD(4) [OF ok(1)] by auto
    then have "level_vertex nv tree k level = Inr (level', e)" using r kl False
      by (auto simp: level_step_def bindE_eq_Inr_iff split: if_splits)
    then show ?thesis using level_vertex_sound [OF ok wf k] by blast
  qed
qed

lemma level_step_err:
  "level_step nv tree root k (level, e) = Inr (level', e') \<Longrightarrow> e \<noteq> 0 \<Longrightarrow> e' = e"
  by (auto simp: level_step_def Let_def bindE_eq_Inr_iff split: if_splits)

lemma levels_start:
  assumes "root < nv" "nv \<le> length tree"
  obtains level where "foldE (\<lambda>k level. arr_set level k (if k = root then 0 else - 1)) [0..<nv] (replicate nv (0 :: int)) = Inr level"
    "leveled tree nv root 0 level"
proof -
  define I where "I k level \<longleftrightarrow> length level = nv \<and> (\<forall>v<k. level ! v = (if v = root then 0 else - 1))" for k and level :: "int list"
  have "\<exists>l. foldE (\<lambda>k level. arr_set level k (if k = root then 0 else - 1)) [0..<nv] (replicate nv (0 :: int)) = Inr l \<and> I nv l"
    by (rule foldE_upt_inv) (auto simp: I_def nth_list_update)
  then obtain l where l: "foldE (\<lambda>k level. arr_set level k (if k = root then 0 else - 1)) [0..<nv] (replicate nv (0 :: int)) = Inr l"
    "length l = nv" "\<And>v. v < nv \<Longrightarrow> l ! v = (if v = root then 0 else - 1)" by (auto simp: I_def)
  have "levels_ok tree nv root l" unfolding levels_ok_def using l assms by (auto intro: depth_root)
  moreover have "closed_but tree nv root l nv" unfolding closed_but_def using l by auto
  ultimately show thesis using that l(1) by (simp add: leveled_def)
qed

lemma compute_levels_complete:
  assumes "root < nv" "nv \<le> length tree" "\<forall>v<nv. tree ! v \<ge> 0 \<longrightarrow> (\<exists>n. tree_depth tree nv root v n)"
  shows "\<exists>level. compute_levels (replicate nv 0) nv tree root = Inr (level, 0) \<and> leveled tree nv root nv level"
proof -
  obtain l where l: "foldE (\<lambda>k level. arr_set level k (if k = root then 0 else - 1)) [0..<nv] (replicate nv (0 :: int)) = Inr l"
    "leveled tree nv root 0 l" using assms(1,2) by (rule levels_start)
  have "\<exists>s. foldE (level_step nv tree root) [0..<nv] (l, 0) = Inr s \<and> (\<exists>level. s = (level, 0) \<and> leveled tree nv root nv level)"
    by (rule foldE_upt_inv [where I = "\<lambda>k s. \<exists>level. s = (level, 0) \<and> leveled tree nv root k level"])
      (use l(2) level_step_complete assms(3) in fastforce)+
  then show ?thesis using l(1) by (auto simp: compute_levels_def)
qed

lemma compute_levels_sound:
  assumes "root < nv" "nv \<le> length tree" and wf: "\<forall>v<nv. tree ! v < int nv"
    and r: "compute_levels (replicate nv 0) nv tree root = Inr (level, e)"
  shows "e \<le> 0 \<and> (e = 0 \<longrightarrow> (\<forall>v<nv. tree ! v \<ge> 0 \<longrightarrow> (\<exists>n. tree_depth tree nv root v n)))"
proof -
  obtain l where l: "foldE (\<lambda>k level. arr_set level k (if k = root then 0 else - 1)) [0..<nv] (replicate nv (0 :: int)) = Inr l"
    "leveled tree nv root 0 l" using assms(1,2) by (rule levels_start)
  have "foldE (level_step nv tree root) [0..<k] (l, 0) = Inr (level', e') \<Longrightarrow> k \<le> nv \<Longrightarrow>
      e' \<le> 0 \<and> (e' = 0 \<longrightarrow> leveled tree nv root k level' \<and> (\<forall>v<k. tree ! v \<ge> 0 \<longrightarrow> (\<exists>n. tree_depth tree nv root v n)))" for k level' e'
  proof (induction k arbitrary: level' e')
    case 0
    then show ?case using l(2) by simp
  next
    case (Suc k)
    then obtain l1 e1 where 1: "foldE (level_step nv tree root) [0..<k] (l, 0) = Inr (l1, e1)"
      "level_step nv tree root k (l1, e1) = Inr (level', e')" by (auto simp: foldE_append bindE_eq_Inr_iff)
    have IH: "e1 \<le> 0" "e1 = 0 \<Longrightarrow> leveled tree nv root k l1 \<and> (\<forall>v<k. tree ! v \<ge> 0 \<longrightarrow> (\<exists>n. tree_depth tree nv root v n))"
      using Suc.IH [OF 1(1)] Suc.prems(2) by auto
    show ?case
    proof (cases "e1 = 0")
      case False
      then show ?thesis using level_step_err [OF 1(2)] IH(1) by simp
    next
      case True
      have kn: "k < nv" using Suc.prems(2) by simp
      have s: "e' \<le> 0 \<and> (e' = 0 \<longrightarrow> tree ! k \<ge> 0 \<longrightarrow> (\<exists>n. tree_depth tree nv root k n))"
        using level_step_sound [OF _ kn wf] IH(2) True 1(2) by blast
      moreover have "leveled tree nv root (Suc k) level'" if "e' = 0"
        using level_step_complete [OF _ kn, of tree root l1] IH(2) True 1(2) s that by auto
      ultimately show ?thesis using IH(2) True by (auto simp: less_Suc_eq)
    qed
  qed
  then show ?thesis using r l(1) by (simp add: compute_levels_def)
qed

section \<open>Edges\<close>

definition edge_ok :: "int list \<Rightarrow> int list \<Rightarrow> packed_edge \<Rightarrow> bool" where
  "edge_ok tree level e \<longleftrightarrow> (tree ! end0 e \<ge> 0 \<longleftrightarrow> tree ! end1 e \<ge> 0) \<and>
     (tree ! end0 e \<ge> 0 \<longrightarrow> \<bar>level ! end0 e - level ! end1 e\<bar> \<le> 1)"

definition mark :: "int list \<Rightarrow> nat \<Rightarrow> nat \<Rightarrow> int list \<Rightarrow> int list" where
  "mark tree i j seen = (if tree ! i = int j then seen[i := 1] else seen)"

lemma mark_seen_eq: "i < length tree \<Longrightarrow> i < length seen \<Longrightarrow> mark_seen tree (int i) (int j) seen = Inr (mark tree i j seen)"
  by (simp add: mark_seen_def mark_def)

lemma length_mark [simp]: "length (mark tree i j seen) = length seen"
  by (simp add: mark_def)

lemma nth_mark: "v < length seen \<Longrightarrow> mark tree i j seen ! v = (if i = v \<and> tree ! v = int j then 1 else seen ! v)"
  by (cases "i = v") (simp_all add: mark_def)

definition mark_edge :: "int list \<Rightarrow> packed_edge \<Rightarrow> int list \<Rightarrow> int list" where
  "mark_edge tree e seen =
     (if tree ! end0 e \<ge> 0 \<and> end0 e \<noteq> end1 e then mark tree (end1 e) (end0 e) (mark tree (end0 e) (end1 e) seen) else seen)"

lemma check_edge_ok:
  assumes e: "end0 e < nv" "end1 e < nv" and len: "nv \<le> length tree" "length level = nv" "length seen = nv"
    and ok: "edge_ok tree level e"
  shows "check_edge (int nv - 1) tree level e (seen, 0, te, c)
    = Inr (mark_edge tree e seen, 0, 0, c + (if tree ! end0 e \<ge> 0 then 1 else 0))"
  using assms by (auto simp: check_edge_def get_v_int Let_def edge_ok_def mark_edge_def mark_seen_eq)

lemma check_edge_bad:
  assumes e: "end0 e < nv" "end1 e < nv" and len: "nv \<le> length tree" "length level = nv" "length seen = nv"
    and bad: "\<not> edge_ok tree level e"
  shows "\<exists>s er c'. check_edge (int nv - 1) tree level e (seen, 0, te, c) = Inr (s, er, er, c') \<and> er < 0 \<and> length s = nv"
proof (cases "tree ! end0 e \<ge> 0 \<longleftrightarrow> tree ! end1 e \<ge> 0")
  case False
  then show ?thesis using e len by (auto simp: check_edge_def get_v_int Let_def)
next
  case True
  then have t: "tree ! end0 e \<ge> 0" "tree ! end1 e \<ge> 0" "\<not> \<bar>level ! end0 e - level ! end1 e\<bar> \<le> 1" using bad by (auto simp: edge_ok_def)
  then have "level ! end0 e - level ! end1 e > 1 \<or> level ! end0 e - level ! end1 e < - 1" by linarith
  then show ?thesis using e len t(1,2) by (simp add: check_edge_def get_v_int Let_def mark_seen_eq not_less)
qed

lemma check_edge_err:
  assumes "end0 e < nv" "end1 e < nv" "er \<noteq> 0"
  shows "check_edge (int nv - 1) tree level e (seen, er, te, c) = Inr (seen, er, er, c)"
  using assms by (simp add: check_edge_def get_v_int Let_def)

definition marked :: "int list \<Rightarrow> nat \<Rightarrow> packed_edge list \<Rightarrow> int list \<Rightarrow> bool" where
  "marked tree nv es seen \<longleftrightarrow> length seen = nv \<and>
     (\<forall>v<nv. seen ! v = (if tree ! v \<ge> 0 \<and> nbr es v (nat (tree ! v)) then 1 else 0))"

lemma nbr_snoc:
  "nbr (es @ [e]) v w \<longleftrightarrow> nbr es v w \<or> v \<noteq> w \<and> (end0 e = v \<and> end1 e = w \<or> end0 e = w \<and> end1 e = v)"
  unfolding nbr_def by simp blast

lemma mark_edge_marked:
  assumes m: "marked tree nv es seen" and e: "end0 e < nv" "end1 e < nv" and ok: "edge_ok tree level e"
  shows "marked tree nv (es @ [e]) (mark_edge tree e seen)"
proof -
  have len: "length seen = nv" using m by (simp add: marked_def)
  have "mark_edge tree e seen ! v = (if tree ! v \<ge> 0 \<and> nbr (es @ [e]) v (nat (tree ! v)) then 1 else 0)" if v: "v < nv" for v
  proof -
    have s: "seen ! v = (if tree ! v \<ge> 0 \<and> nbr es v (nat (tree ! v)) then 1 else 0)" using m v by (simp add: marked_def)
    have me: "mark_edge tree e seen ! v = (if tree ! end0 e \<ge> 0 \<and> end0 e \<noteq> end1 e \<and>
        (end0 e = v \<and> tree ! v = int (end1 e) \<or> end1 e = v \<and> tree ! v = int (end0 e)) then 1 else seen ! v)"
      using len v by (cases "end0 e = v"; cases "end1 e = v") (simp_all add: mark_edge_def nth_mark)
    show ?thesis
    proof (cases "end0 e \<noteq> end1 e \<and> (end0 e = v \<and> tree ! v = int (end1 e) \<or> end1 e = v \<and> tree ! v = int (end0 e))")
      case True
      then have "nbr (es @ [e]) v (nat (tree ! v))" by (auto simp: nbr_snoc)
      moreover have "mark_edge tree e seen ! v = 1" unfolding me using True ok by (auto simp: edge_ok_def)
      ultimately show ?thesis using True by auto
    next
      case False
      have "nbr (es @ [e]) v (nat (tree ! v)) = nbr es v (nat (tree ! v))" if t: "tree ! v \<ge> 0"
      proof -
        obtain p where p: "tree ! v = int p" using t by (rule nonneg_int_cases)
        show ?thesis unfolding p nbr_snoc using False [unfolded p] by (cases "end0 e = v"; cases "end1 e = v") simp_all
      qed
      moreover have "mark_edge tree e seen ! v = seen ! v" unfolding me by (rule if_not_P) (use False in blast)
      ultimately show ?thesis using s by auto
    qed
  qed
  then show ?thesis using len by (auto simp: marked_def mark_edge_def)
qed

lemma check_edges:
  assumes ends: "\<forall>e \<in> set es. end0 e < nv \<and> end1 e < nv" and len: "nv \<le> length tree" "length level = nv"
  shows "\<exists>seen er c. foldE (check_edge (int nv - 1) tree level) es (replicate nv 0, 0, 0, 0) = Inr (seen, er, er, c) \<and>
    length seen = nv \<and> er \<le> 0 \<and> (er = 0 \<longleftrightarrow> (\<forall>e \<in> set es. edge_ok tree level e)) \<and>
    (er = 0 \<longrightarrow> marked tree nv es seen \<and> c = int (length (filter (\<lambda>e. tree ! end0 e \<ge> 0) es)))"
  using ends
proof (induction es rule: rev_induct)
  case Nil
  show ?case by (simp add: marked_def nbr_def)
next
  case (snoc e es)
  obtain seen er c where IH: "foldE (check_edge (int nv - 1) tree level) es (replicate nv 0, 0, 0, 0) = Inr (seen, er, er, c)"
    "length seen = nv" "er \<le> 0" "er = 0 \<longleftrightarrow> (\<forall>e \<in> set es. edge_ok tree level e)"
    "er = 0 \<longrightarrow> marked tree nv es seen \<and> c = int (length (filter (\<lambda>e. tree ! end0 e \<ge> 0) es))"
    using snoc by auto
  have e: "end0 e < nv" "end1 e < nv" using snoc.prems by simp_all
  consider "er \<noteq> 0" | "er = 0" "edge_ok tree level e" | "er = 0" "\<not> edge_ok tree level e" by blast
  then show ?case
  proof cases
    case 1
    then show ?thesis using IH check_edge_err [OF e 1] by (auto simp: foldE_append foldE_Nil)
  next
    case 2
    have "length (mark_edge tree e seen) = nv" using IH(2) by (simp add: mark_edge_def)
    then show ?thesis using IH 2 check_edge_ok [OF e len IH(2) 2(2)] mark_edge_marked [OF _ e 2(2)]
      by (auto simp: foldE_append foldE_Nil)
  next
    case 3
    obtain s er' c' where r: "check_edge (int nv - 1) tree level e (seen, 0, 0, c) = Inr (s, er', er', c')" "er' < 0" "length s = nv"
      using check_edge_bad [OF e len IH(2) 3(2)] by blast
    then show ?thesis using IH 3 by (auto simp: foldE_append foldE_Nil)
  qed
qed

section \<open>Vertices\<close>

lemma check_vertices:
  assumes len: "nv \<le> length tree" "length seen = nv" and seen: "\<forall>v<nv. seen ! v \<in> {0, 1}"
  shows "\<exists>er. foldE (check_vertex tree root seen) [0..<nv] 0 = Inr er \<and> er \<le> 0 \<and>
    (er = 0 \<longleftrightarrow> (\<forall>k<nv. k \<noteq> root \<longrightarrow> (tree ! k \<ge> 0 \<longrightarrow> seen ! k = 1) \<and> tree ! k \<noteq> int k))"
proof -
  have "\<exists>er. foldE (check_vertex tree root seen) [0..<nv] 0 = Inr er \<and> (er \<le> 0 \<and>
      (er = 0 \<longleftrightarrow> (\<forall>k<nv. k \<noteq> root \<longrightarrow> (tree ! k \<ge> 0 \<longrightarrow> seen ! k = 1) \<and> tree ! k \<noteq> int k)))"
  proof (rule foldE_upt_inv [where I = "\<lambda>n er. er \<le> 0 \<and>
      (er = 0 \<longleftrightarrow> (\<forall>k<n. k \<noteq> root \<longrightarrow> (tree ! k \<ge> 0 \<longrightarrow> seen ! k = 1) \<and> tree ! k \<noteq> int k))"])
    fix k and er :: int
    assume k: "k < nv" and IH: "er \<le> 0 \<and> (er = 0 \<longleftrightarrow> (\<forall>u<k. u \<noteq> root \<longrightarrow> (tree ! u \<ge> 0 \<longrightarrow> seen ! u = 1) \<and> tree ! u \<noteq> int u))"
    have s01: "seen ! k = 0 \<or> seen ! k = 1" using seen k by auto
    show "\<exists>er'. check_vertex tree root seen k er = Inr er' \<and> er' \<le> 0 \<and>
        (er' = 0 \<longleftrightarrow> (\<forall>u<Suc k. u \<noteq> root \<longrightarrow> (tree ! u \<ge> 0 \<longrightarrow> seen ! u = 1) \<and> tree ! u \<noteq> int u))"
    proof (cases "er = 0 \<and> k \<noteq> root")
      case False
      then have "check_vertex tree root seen k er = Inr er" by (auto simp: check_vertex_def Let_def)
      then show ?thesis using IH False by (auto simp: less_Suc_eq)
    next
      case True
      then have "check_vertex tree root seen k er
          = Inr (if tree ! k = int k then - 16 else if tree ! k \<ge> 0 \<and> seen ! k = 0 then - 15 else 0)"
        using k len by (simp add: check_vertex_def Let_def)
      then show ?thesis using IH True s01 by (auto simp: less_Suc_eq)
    qed
  qed simp_all
  then show ?thesis by blast
qed

section \<open>The verdict\<close>

text \<open>What the three phases check together, and that it is what makes a breadth first tree.\<close>

definition tree_checked :: "packed_edge list \<Rightarrow> nat \<Rightarrow> nat \<Rightarrow> int list \<Rightarrow> bool" where
  "tree_checked IJ nv root tree \<longleftrightarrow> tree ! root = int root \<and>
     (\<forall>v<nv. tree ! v \<ge> 0 \<longrightarrow> (\<exists>n. tree_depth tree nv root v n)) \<and>
     (\<forall>v w. nbr IJ v w \<longrightarrow> tree ! v \<ge> 0 \<longrightarrow> tree ! w \<ge> 0 \<and>
        (\<forall>n m. tree_depth tree nv root v n \<longrightarrow> tree_depth tree nv root w m \<longrightarrow> m \<le> Suc n)) \<and>
     (\<forall>v<nv. v \<noteq> root \<longrightarrow> tree ! v \<ge> 0 \<longrightarrow> nbr IJ v (nat (tree ! v)))"

text \<open>The inputs the program passes: all vertices of the edge list, and entries that are vertices or -1.\<close>

definition verify_input :: "packed_edge list \<Rightarrow> nat \<Rightarrow> nat \<Rightarrow> int list \<Rightarrow> bool" where
  "verify_input IJ nv root tree \<longleftrightarrow> root < nv \<and> (\<forall>e \<in> set IJ. end0 e < nv \<and> end1 e < nv) \<and> nv \<le> length tree \<and>
     (\<forall>v<nv. - 1 \<le> tree ! v \<and> tree ! v < int nv)"

lemma verify_inputD:
  assumes "verify_input IJ nv root tree"
  shows "root < nv" "\<forall>e \<in> set IJ. end0 e < nv \<and> end1 e < nv" "nv \<le> length tree"
    "\<forall>v<nv. - 1 \<le> tree ! v \<and> tree ! v < int nv" "\<forall>v<nv. tree ! v < int nv" "nbr IJ v w \<Longrightarrow> v < nv \<and> w < nv"
  using assms unfolding verify_input_def nbr_def by auto

lemma checked_walk:
  assumes vi: "verify_input IJ nv root tree" and "tree_checked IJ nv root tree"
  shows "walk IJ root m v \<Longrightarrow> \<exists>n. tree_depth tree nv root v n \<and> n \<le> m"
proof (induction m arbitrary: v)
  case 0
  then show ?case using depth_root [OF verify_inputD(1) [OF vi]] by auto
next
  case (Suc m)
  from Suc.prems obtain u where u: "walk IJ root m u" "nbr IJ u v" by (rule walk_SucE)
  then obtain n where n: "tree_depth tree nv root u n" "n \<le> m" using Suc.IH by blast
  have "tree ! u \<ge> 0" using n(1) assms(2) by (cases rule: tree_depth.cases) (auto simp: tree_checked_def)
  moreover have "v < nv" using verify_inputD(6) [OF vi u(2)] ..
  ultimately obtain n' where "tree_depth tree nv root v n'" using assms(2) u(2) unfolding tree_checked_def by blast
  moreover have "n' \<le> Suc n" using assms(2) u(2) \<open>tree ! u \<ge> 0\<close> n(1) \<open>tree_depth tree nv root v n'\<close> unfolding tree_checked_def by blast
  ultimately show ?case using n(2) by auto
qed

lemma checked_depth_walk:
  assumes c: "tree_checked IJ nv root tree"
  shows "tree_depth tree nv root v n \<Longrightarrow> walk IJ root n v"
proof (induction rule: tree_depth.induct)
  case depth_root
  show ?case by (rule walk_0)
next
  case (depth_parent p n v)
  then have "nbr IJ v (nat (tree ! v))" using c unfolding tree_checked_def by auto
  then have "nbr IJ p v" using depth_parent.hyps(4) by (auto intro: nbr_sym)
  then show ?case using depth_parent.IH by (rule walk_Suc [rotated])
qed

lemma checked_is_dist:
  assumes vi: "verify_input IJ nv root tree" and c: "tree_checked IJ nv root tree" and d: "tree_depth tree nv root v n"
  shows "is_dist IJ root v n"
proof -
  have "n \<le> m" if "walk IJ root m v" for m using checked_walk [OF vi c that] depth_unique [OF d] by blast
  then show ?thesis using checked_depth_walk [OF c d] unfolding is_dist_def by (meson not_le)
qed

lemma checked_bfs:
  assumes vi: "verify_input IJ nv root tree" and c: "tree_checked IJ nv root tree"
  shows "bfs_tree_of IJ nv root tree"
proof -
  have "\<forall>v<nv. v \<noteq> root \<longrightarrow> (if reachable IJ root v then \<exists>p n. p < nv \<and> tree ! v = int p \<and> nbr IJ p v \<and> is_dist IJ root p n \<and> is_dist IJ root v (Suc n)
      else tree ! v = - 1)"
  proof (intro allI impI)
    fix v assume v: "v < nv" "v \<noteq> root"
    show "if reachable IJ root v then \<exists>p n. p < nv \<and> tree ! v = int p \<and> nbr IJ p v \<and> is_dist IJ root p n \<and> is_dist IJ root v (Suc n)
      else tree ! v = - 1"
  proof (cases "tree ! v \<ge> 0")
    case True
    then obtain n where n: "tree_depth tree nv root v n" using c v unfolding tree_checked_def by blast
    obtain p m where p: "n = Suc m" "tree ! v = int p" "tree_depth tree nv root p m" "p < nv" using n v(2) by (rule depth_parentD)
    have "nbr IJ v (nat (tree ! v))" using c v True unfolding tree_checked_def by blast
    then have "nbr IJ p v" using p(2) by (auto intro: nbr_sym)
    moreover have "reachable IJ root v" using checked_depth_walk [OF c n] by (auto simp: reachable_def)
    ultimately show ?thesis using p checked_is_dist [OF vi c n] checked_is_dist [OF vi c p(3)] by auto
  next
    case False
    have "\<not> reachable IJ root v"
    proof
      assume "reachable IJ root v"
      then obtain n where "tree_depth tree nv root v n" using checked_walk [OF vi c] by (auto simp: reachable_def)
      then show False using False v(2) by (auto elim: depth_parentD)
    qed
    moreover have "- 1 \<le> tree ! v" using verify_inputD(4) [OF vi] v(1) by blast
    then have "tree ! v = - 1" using False by linarith
    ultimately show ?thesis by simp
  qed
  qed
  moreover have "tree ! root = int root" using c by (simp add: tree_checked_def)
  ultimately show ?thesis using verify_inputD(1,3) [OF vi] unfolding bfs_tree_of_def by blast
qed

lemma bfs_tree_ofD:
  assumes "bfs_tree_of IJ nv src tree" "v < nv" "v \<noteq> src"
  shows "reachable IJ src v \<Longrightarrow> \<exists>p n. p < nv \<and> tree ! v = int p \<and> nbr IJ p v \<and> is_dist IJ src p n \<and> is_dist IJ src v (Suc n)"
    and "\<not> reachable IJ src v \<Longrightarrow> tree ! v = - 1"
proof -
  have "if reachable IJ src v then \<exists>p n. p < nv \<and> tree ! v = int p \<and> nbr IJ p v \<and> is_dist IJ src p n \<and> is_dist IJ src v (Suc n)
      else tree ! v = - 1" using assms unfolding bfs_tree_of_def by blast
  then show "reachable IJ src v \<Longrightarrow> \<exists>p n. p < nv \<and> tree ! v = int p \<and> nbr IJ p v \<and> is_dist IJ src p n \<and> is_dist IJ src v (Suc n)"
    "\<not> reachable IJ src v \<Longrightarrow> tree ! v = - 1" by simp_all
qed

lemma bfs_depth:
  assumes vi: "verify_input IJ nv root tree" and b: "bfs_tree_of IJ nv root tree"
  shows "v < nv \<Longrightarrow> is_dist IJ root v n \<Longrightarrow> tree_depth tree nv root v n"
proof (induction n arbitrary: v)
  case 0
  then show ?case using depth_root [OF verify_inputD(1) [OF vi]] by (simp add: is_dist_def)
next
  case (Suc n)
  have "v \<noteq> root" using Suc.prems(2) by (auto simp: is_dist_src)
  moreover have "reachable IJ root v" using Suc.prems(2) by (auto simp: is_dist_def reachable_def)
  ultimately obtain p m where p: "p < nv" "tree ! v = int p" "is_dist IJ root p m" "is_dist IJ root v (Suc m)"
    using bfs_tree_ofD(1) [OF b Suc.prems(1)] by blast
  then have "m = n" using is_dist_unique Suc.prems(2) by blast
  then show ?case using Suc.IH p(1,2,3) Suc.prems(1) \<open>v \<noteq> root\<close> by (blast intro: depth_parent)
qed

lemma bfs_seen:
  assumes "bfs_tree_of IJ nv root tree" "v < nv"
  shows "tree ! v \<ge> 0 \<longleftrightarrow> reachable IJ root v"
proof (cases "v = root")
  case True
  have "reachable IJ root root" using walk_0 unfolding reachable_def by blast
  then show ?thesis using assms True by (simp add: bfs_tree_of_def)
next
  case False
  then show ?thesis using bfs_tree_ofD [OF assms False] by (cases "reachable IJ root v") auto
qed

lemma reachable_dist: "reachable IJ root v \<Longrightarrow> \<exists>n. is_dist IJ root v n"
  unfolding reachable_def is_dist_def by (rule exists_least_iff [THEN iffD1])

lemma bfs_checked:
  assumes vi: "verify_input IJ nv root tree" and b: "bfs_tree_of IJ nv root tree"
  shows "tree_checked IJ nv root tree"
proof -
  have depth: "\<exists>n. tree_depth tree nv root v n \<and> is_dist IJ root v n" if "v < nv" "tree ! v \<ge> 0" for v
    using reachable_dist bfs_seen [OF b that(1)] that bfs_depth [OF vi b] by blast
  have edge: "tree ! w \<ge> 0 \<and> (\<forall>n m. tree_depth tree nv root v n \<longrightarrow> tree_depth tree nv root w m \<longrightarrow> m \<le> Suc n)"
    if vw: "nbr IJ v w" "tree ! v \<ge> 0" for v w
  proof -
    have lt: "v < nv" "w < nv" using verify_inputD(6) [OF vi vw(1)] by auto
    obtain n where n: "tree_depth tree nv root v n" "is_dist IJ root v n" using depth lt(1) vw(2) by blast
    then have wk: "walk IJ root (Suc n) w" using vw(1) by (auto simp: is_dist_def intro: walk_Suc)
    then have tw: "tree ! w \<ge> 0" using bfs_seen [OF b lt(2)] by (auto simp: reachable_def)
    then obtain m where "tree_depth tree nv root w m" "is_dist IJ root w m" using depth lt(2) by blast
    then have "m \<le> Suc n" "tree_depth tree nv root w m" using is_dist_le wk by blast+
    then show ?thesis using tw n(1) depth_unique by blast
  qed
  have par: "nbr IJ v (nat (tree ! v))" if v: "v < nv" "v \<noteq> root" "tree ! v \<ge> 0" for v
  proof -
    have "reachable IJ root v" using bfs_seen [OF b v(1)] v(3) by simp
    then obtain p where "tree ! v = int p" "nbr IJ p v" using bfs_tree_ofD(1) [OF b v(1,2)] by blast
    then show ?thesis by (auto intro: nbr_sym)
  qed
  have "tree ! root = int root" using b by (simp add: bfs_tree_of_def)
  then show ?thesis unfolding tree_checked_def using depth edge par by blast
qed

lemma leveled_edge_ok:
  assumes vi: "verify_input IJ nv root tree" and l: "leveled tree nv root nv level" and e: "e \<in> set IJ"
    and c: "tree_checked IJ nv root tree"
  shows "edge_ok tree level e"
proof (cases "end0 e = end1 e")
  case False
  let ?i = "end0 e" and ?j = "end1 e"
  have n: "nbr IJ ?i ?j" "nbr IJ ?j ?i" using e False by (auto simp: nbr_def)
  have lt: "?i < nv" "?j < nv" using verify_inputD(2) [OF vi] e by auto
  have ok: "levels_ok tree nv root level" using l by (simp add: leveled_def)
  have both: "tree ! ?i \<ge> 0 \<longleftrightarrow> tree ! ?j \<ge> 0" using c n unfolding tree_checked_def by blast
  have "\<bar>level ! ?i - level ! ?j\<bar> \<le> 1" if t: "tree ! ?i \<ge> 0"
  proof -
    have "level ! ?i \<ge> 0" "level ! ?j \<ge> 0" using l lt t both by (auto simp: leveled_def)
    then obtain a b where d: "tree_depth tree nv root ?i a" "level ! ?i = int a" "tree_depth tree nv root ?j b" "level ! ?j = int b"
      using levels_okD(5) [OF ok] lt by (metis nat_0_le)
    have "b \<le> Suc a" "a \<le> Suc b" using c n t both d(1,3) unfolding tree_checked_def by blast+
    then show ?thesis using d(2,4) by simp
  qed
  then show ?thesis using both by (simp add: edge_ok_def)
qed (simp add: edge_ok_def)

lemma edge_ok_checked:
  assumes vi: "verify_input IJ nv root tree" and l: "leveled tree nv root nv level"
    and ok: "\<forall>e \<in> set IJ. edge_ok tree level e" and vw: "nbr IJ v w" "tree ! v \<ge> 0"
  shows "tree ! w \<ge> 0 \<and> (\<forall>n m. tree_depth tree nv root v n \<longrightarrow> tree_depth tree nv root w m \<longrightarrow> m \<le> Suc n)"
proof -
  have lk: "levels_ok tree nv root level" using l by (simp add: leveled_def)
  obtain e where e: "e \<in> set IJ" "end0 e = v \<and> end1 e = w \<or> end0 e = w \<and> end1 e = v" using vw(1) by (auto simp: nbr_def)
  have lt: "v < nv" "w < nv" using verify_inputD(6) [OF vi vw(1)] by auto
  have "edge_ok tree level e" using ok e(1) by blast
  then have tw: "tree ! w \<ge> 0" and diff: "\<bar>level ! v - level ! w\<bar> \<le> 1" using e(2) vw(2) by (auto simp: edge_ok_def abs_minus_commute)
  have lv: "level ! v \<ge> 0" "level ! w \<ge> 0" using l lt vw(2) tw by (auto simp: leveled_def)
  have "m \<le> Suc n" if "tree_depth tree nv root v n" "tree_depth tree nv root w m" for n m
    using level_is_depth [OF lk that(1) lv(1)] level_is_depth [OF lk that(2) lv(2)] diff by linarith
  then show ?thesis using tw by blast
qed

text \<open>
  The phases on a tree whose levels could be computed: no error exactly when the tree passes
  all checks.
\<close>

lemma verify_phases:
  assumes vi: "verify_input IJ nv root tree" and gr: "granted (2 * nv * 8)" and r: "tree ! root = int root"
    and d: "\<forall>v<nv. tree ! v \<ge> 0 \<longrightarrow> (\<exists>n. tree_depth tree nv root v n)"
  shows "\<exists>x. verify_bfs_tree granted tree (int nv - 1) root IJ = Inr x \<and>
    (if tree_checked IJ nv root tree then x = int (length (filter (\<lambda>e. tree ! end0 e \<ge> 0) IJ)) else x < 0)"
proof -
  note V = verify_inputD [OF vi]
  obtain level where l: "compute_levels (replicate nv 0) nv tree root = Inr (level, 0)" "leveled tree nv root nv level"
    using compute_levels_complete [OF V(1,3) d] by blast
  then have lk: "levels_ok tree nv root level" by (simp add: leveled_def)
  have fill: "foldE (\<lambda>k t. arr_set t k 0) [0..<nv] (replicate nv (0 :: int)) = Inr (replicate nv 0)"
  proof -
    obtain ys where ys: "foldE (\<lambda>k t. arr_set t k 0) [0..<nv] (replicate nv (0 :: int)) = Inr ys" "length ys = nv"
      "\<forall>i. ys ! i = (if 0 \<le> i \<and> i < nv then 0 else replicate nv 0 ! i)"
      using foldE_fill [of nv "replicate nv (0 :: int)" 0 0] by auto
    then have "ys = replicate nv 0" by (intro nth_equalityI) simp_all
    then show ?thesis using ys(1) by simp
  qed
  obtain seen er c where e: "foldE (check_edge (int nv - 1) tree level) IJ (replicate nv 0, 0, 0, 0) = Inr (seen, er, er, c)"
    "length seen = nv" "er \<le> 0" "er = 0 \<longleftrightarrow> (\<forall>e \<in> set IJ. edge_ok tree level e)"
    "er = 0 \<longrightarrow> marked tree nv IJ seen \<and> c = int (length (filter (\<lambda>e. tree ! end0 e \<ge> 0) IJ))"
    using check_edges [OF V(2,3) levels_okD(1) [OF lk]] by blast
  have run: "verify_bfs_tree granted tree (int nv - 1) root IJ
      = bindE (if er = 0 then foldE (check_vertex tree root seen) [0..<nv] er else Inr er) (\<lambda>err. if err \<noteq> 0 then Inr err else Inr c)"
    using V(1,3) r gr l(1) fill e(1) by (simp add: verify_bfs_tree_def Let_def do_xmalloc_large_def)
  show ?thesis
  proof (cases "er = 0")
    case False
    then have "\<not> tree_checked IJ nv root tree" using e(4) leveled_edge_ok [OF vi l(2)] by blast
    then show ?thesis using run False e(3) by simp
  next
    case True
    then have m: "marked tree nv IJ seen" using e(5) by blast
    then have m': "seen ! v = (if tree ! v \<ge> 0 \<and> nbr IJ v (nat (tree ! v)) then 1 else 0)" if "v < nv" for v
      using that by (simp add: marked_def)
    have s01: "\<forall>v<nv. seen ! v \<in> {0, 1}" using m' by simp
    obtain er' where v: "foldE (check_vertex tree root seen) [0..<nv] 0 = Inr er'" "er' \<le> 0"
      "er' = 0 \<longleftrightarrow> (\<forall>k<nv. k \<noteq> root \<longrightarrow> (tree ! k \<ge> 0 \<longrightarrow> seen ! k = 1) \<and> tree ! k \<noteq> int k)"
      using check_vertices [OF V(3) e(2) s01, of root] by blast
    have self: "tree ! k \<noteq> int k" if kn: "k < nv" "k \<noteq> root" for k
    proof
      assume k: "tree ! k = int k"
      then have "tree ! k \<ge> 0" by simp
      then obtain n where "tree_depth tree nv root k n" using d kn(1) by blast
      then obtain p m where "tree ! k = int p" "p \<noteq> k" using kn(2) by (rule depth_parentD)
      then show False using k by simp
    qed
    have "er' = 0 \<longleftrightarrow> tree_checked IJ nv root tree"
      unfolding v(3) tree_checked_def using r d self m' edge_ok_checked [OF vi l(2)] e(4) True by auto
    then show ?thesis using run True v(1,2) e(5) by auto
  qed
qed

lemma bfs_tree_entries:
  assumes "bfs_tree_of IJ nv src tree" "v < nv"
  shows "- 1 \<le> tree ! v \<and> tree ! v < int nv"
proof (cases "v = src")
  case True
  then show ?thesis using assms by (simp add: bfs_tree_of_def)
next
  case False
  then show ?thesis using bfs_tree_ofD [OF assms False] by (cases "reachable IJ src v") auto
qed

lemma verify_accepts:
  assumes b: "bfs_tree_of IJ nv root tree" and ends: "\<forall>e \<in> set IJ. end0 e < nv \<and> end1 e < nv" and gr: "granted (2 * nv * 8)"
  shows "verify_bfs_tree granted tree (int nv - 1) root IJ = Inr (int (length (filter (\<lambda>e. reachable IJ root (end0 e)) IJ)))"
proof -
  have vi: "verify_input IJ nv root tree"
    using b ends bfs_tree_entries [OF b] by (simp add: verify_input_def bfs_tree_of_def)
  have c: "tree_checked IJ nv root tree" by (rule bfs_checked [OF vi b])
  have "filter (\<lambda>e. tree ! end0 e \<ge> 0) IJ = filter (\<lambda>e. reachable IJ root (end0 e)) IJ"
    using bfs_seen [OF b] ends by (intro filter_cong) auto
  then show ?thesis using verify_phases [OF vi, of granted] c gr by (auto simp: tree_checked_def)
qed

section \<open>Property\<close>

text \<open>
  C27. The validation is exact. On a tree whose entries are vertices or -1, it returns a number
  that is not negative exactly when the tree is a breadth first tree of the edge list, and then
  that number is the count of edges whose ends were reached. A tree that is not is rejected with
  a negative code or stopped by the assertion that a vertex is not its own parent.
\<close>

theorem verify_exact:
  assumes "root < nv" and "\<forall>e \<in> set IJ. end0 e < nv \<and> end1 e < nv" and "nv \<le> length tree"
    and "\<forall>v<nv. - 1 \<le> tree ! v \<and> tree ! v < int nv" and "granted (2 * nv * 8)"
  shows "if bfs_tree_of IJ nv root tree
    then verify_bfs_tree granted tree (int nv - 1) root IJ
      = Inr (int (length (filter (\<lambda>e. reachable IJ root (end0 e)) IJ)))
    else \<forall>x. verify_bfs_tree granted tree (int nv - 1) root IJ = Inr x \<longrightarrow> x < 0"
proof -
  have vi: "verify_input IJ nv root tree" using assms by (simp add: verify_input_def)
  have iff: "bfs_tree_of IJ nv root tree \<longleftrightarrow> tree_checked IJ nv root tree" using checked_bfs [OF vi] bfs_checked [OF vi] by blast
  show ?thesis
  proof (cases "tree ! root = int root \<and> (\<forall>v<nv. tree ! v \<ge> 0 \<longrightarrow> (\<exists>n. tree_depth tree nv root v n))")
    case True
    then obtain x where x: "verify_bfs_tree granted tree (int nv - 1) root IJ = Inr x"
      "if tree_checked IJ nv root tree then x = int (length (filter (\<lambda>e. tree ! end0 e \<ge> 0) IJ)) else x < 0"
      using verify_phases [OF vi, of granted] assms(5) by blast
    have "filter (\<lambda>e. tree ! end0 e \<ge> 0) IJ = filter (\<lambda>e. reachable IJ root (end0 e)) IJ" if "bfs_tree_of IJ nv root tree"
      using bfs_seen [OF that] assms(2) by (intro filter_cong) auto
    then show ?thesis using x iff by simp
  next
    case False
    then have nb: "\<not> bfs_tree_of IJ nv root tree" unfolding iff tree_checked_def by blast
    have "x < 0" if x: "verify_bfs_tree granted tree (int nv - 1) root IJ = Inr x" for x
    proof (cases "tree ! root = int root")
      case True
      then have "bindE (compute_levels (replicate nv 0) nv tree root) (\<lambda>(level, err). if err \<noteq> 0 then Inr err else
          bindE (foldE (\<lambda>k t. arr_set t k 0) [0..<nv] (replicate nv 0)) (\<lambda>seen_edge.
          bindE (foldE (check_edge (int nv - 1) tree level) IJ (seen_edge, err, 0, 0)) (\<lambda>(seen_edge, err, terr, nedge_traversed).
          bindE (if terr = 0 then foldE (check_vertex tree root seen_edge) [0..<nv] err else Inr err) (\<lambda>err.
          if err \<noteq> 0 then Inr err else Inr nedge_traversed)))) = Inr x"
        using x assms(1,3,5) by (simp add: verify_bfs_tree_def Let_def do_xmalloc_large_def)
      then obtain level err where c: "compute_levels (replicate nv 0) nv tree root = Inr (level, err)" "err \<noteq> 0 \<Longrightarrow> x = err"
        unfolding bindE_eq_Inr_iff by fastforce
      then show ?thesis using compute_levels_sound [OF assms(1,3) verify_inputD(5) [OF vi] c(1)] False True by auto
    next
      case False
      then show ?thesis using x assms(1,3) by (simp add: verify_bfs_tree_def Let_def)
    qed
    then show ?thesis using nb by simp
  qed
qed

theorem verify_exact_witness:
  "bfs_tree_of [write_edge 0 1] 2 0 [0, 0] \<and>
   verify_bfs_tree (\<lambda>_. True) [0, 0] 1 0 [write_edge 0 1]
     = Inr (int (length (filter (\<lambda>e. reachable [write_edge 0 1] 0 (end0 e)) [write_edge 0 1])))"
proof -
  let ?E = "[write_edge 0 1]"
  have n: "nbr ?E 0 1" by (simp add: nbr_def end0_def end1_def write_edge_def)
  then have w: "walk ?E 0 (Suc 0) 1" using walk_Suc [OF walk_0] by blast
  then have "is_dist ?E 0 1 (Suc 0)" by (simp add: is_dist_def)
  then have b: "bfs_tree_of ?E 2 0 [0, 0]"
    using n w unfolding bfs_tree_of_def by (auto simp: less_2_cases_iff reachable_def is_dist_src)
  have ends: "\<forall>e \<in> set ?E. end0 e < 2 \<and> end1 e < 2" by (simp add: end0_def end1_def write_edge_def)
  have wf: "\<forall>v<2. - 1 \<le> [0, 0 :: int] ! v \<and> [0, 0 :: int] ! v < int 2" by (simp add: less_2_cases_iff)
  have i2: "int 2 - 1 = 1" by simp
  show ?thesis using b verify_exact [of 0 2 ?E "[0, 0]" "\<lambda>_. True", OF _ ends _ wf, unfolded i2] by simp
qed

end
