(* ===== verification/SeqCsr.thy ===== *)
theory SeqCsr
  imports SeqList
begin

text \<open>
  The breadth first search on compressed rows, \<^verbatim>\<open>graph500/seq-csr/seq-csr.c\<close>: the neighbors of
  all vertices in one array, two offsets per vertex, rows sorted and without duplicates. The
  interface \<open>bfs_scan\<close> is the one of the list implementation.
\<close>

section \<open>Model\<close>

definition MINVECT_SIZE :: nat where
  "MINVECT_SIZE = 2"

text \<open>
  The globals. Offsets are never negative and cannot wrap, so they are natural numbers; the
  pointer \<^verbatim>\<open>xadj\<close> is \<^verbatim>\<open>&xadjstore[MINVECT_SIZE]\<close>.
\<close>

record csr_graph =
  cs_maxvtx :: int
  cs_nv :: nat
  cs_xoff :: "nat list"
  cs_xadjstore :: "int list"

definition find_nv :: "packed_edge list \<Rightarrow> int \<times> nat" where
  "find_nv IJ = (let maxvtx = fold max_end IJ (- 1) in (maxvtx, nat (1 + maxvtx)))"

definition alloc_graph :: "(nat \<Rightarrow> bool) \<Rightarrow> nat \<Rightarrow> nat list result" where
  "alloc_graph granted nv = bindE (do_xmalloc_large granted ((2 * nv + 2) * 8)) (\<lambda>_. Inr (replicate (2 * nv + 2) 0))"

definition XOFF :: "nat \<Rightarrow> nat" where
  "XOFF k = 2 * k"

definition XENDOFF :: "nat \<Rightarrow> nat" where
  "XENDOFF k = 1 + 2 * k"

definition incr_xoff :: "nat list \<Rightarrow> nat \<Rightarrow> nat list result" where
  "incr_xoff xoff i = bindE (arr_get xoff i) (\<lambda>d. arr_set xoff i (d + 1))"

definition count_edge :: "packed_edge \<Rightarrow> nat list \<Rightarrow> nat list result" where
  "count_edge e xoff =
     (let i = sint (get_v0_from_edge e); j = sint (get_v1_from_edge e) in
      if i \<noteq> j then
        bindE (if i \<ge> 0 then incr_xoff xoff (XOFF (nat i)) else Inr xoff) (\<lambda>xoff.
        if j \<ge> 0 then incr_xoff xoff (XOFF (nat j)) else Inr xoff)
      else Inr xoff)"

definition prefix_step :: "nat \<Rightarrow> nat list \<times> nat \<Rightarrow> (nat list \<times> nat) result" where
  "prefix_step k = (\<lambda>(xoff, accum).
     bindE (arr_get xoff (XOFF k)) (\<lambda>tmp.
     let tmp = (if tmp < MINVECT_SIZE then MINVECT_SIZE else tmp) in
     bindE (arr_set xoff (XOFF k) accum) (\<lambda>xoff.
     Inr (xoff, accum + tmp))))"

definition setup_deg_off ::
  "(nat \<Rightarrow> bool) \<Rightarrow> packed_edge list \<Rightarrow> nat \<Rightarrow> nat list \<Rightarrow> (nat list \<times> int list) result" where
  "setup_deg_off granted IJ nv xoff =
     bindE (foldE (\<lambda>k t. arr_set t k 0) [0..<2 * nv + 2] xoff) (\<lambda>xoff.
     bindE (foldE count_edge IJ xoff) (\<lambda>xoff.
     bindE (foldE prefix_step [0..<nv] (xoff, 0)) (\<lambda>(xoff, accum).
     bindE (arr_set xoff (XOFF nv) accum) (\<lambda>xoff.
     bindE (foldE (\<lambda>k xoff. bindE (arr_get xoff (XOFF k)) (arr_set xoff (XENDOFF k))) [0..<nv] xoff) (\<lambda>xoff.
     bindE (do_xmalloc_large granted ((accum + MINVECT_SIZE) * 8)) (\<lambda>_.
     bindE (foldE (\<lambda>k t. arr_set t k (- 1)) [0..<accum + MINVECT_SIZE] (replicate (accum + MINVECT_SIZE) 0)) (\<lambda>xadjstore.
     Inr (xoff, xadjstore))))))))"

definition scatter_edge :: "nat \<Rightarrow> int \<Rightarrow> nat list \<times> int list \<Rightarrow> (nat list \<times> int list) result" where
  "scatter_edge i j = (\<lambda>(xoff, xadjstore).
     bindE (arr_get xoff (XENDOFF i)) (\<lambda>pos.
     bindE (arr_set xoff (XENDOFF i) (pos + 1)) (\<lambda>xoff.
     bindE (arr_set xadjstore (MINVECT_SIZE + pos) j) (\<lambda>xadjstore.
     Inr (xoff, xadjstore)))))"

definition i64cmp :: "int \<Rightarrow> int \<Rightarrow> int" where
  "i64cmp ia ib = (if ia < ib then - 1 else if ia > ib then 1 else 0)"

text \<open>
  \<^verbatim>\<open>qsort\<close> with a comparison function, on the \<open>n\<close> cells from \<open>lo\<close>. Elements the
  comparison takes for equal are equal here, so the order of the result does not depend on the
  algorithm of the library.
\<close>

fun insert_cmp :: "(int \<Rightarrow> int \<Rightarrow> int) \<Rightarrow> int \<Rightarrow> int list \<Rightarrow> int list" where
  "insert_cmp cmp x [] = [x]"
| "insert_cmp cmp x (y # ys) = (if cmp x y \<le> 0 then x # y # ys else y # insert_cmp cmp x ys)"

definition sort_cmp :: "(int \<Rightarrow> int \<Rightarrow> int) \<Rightarrow> int list \<Rightarrow> int list" where
  "sort_cmp cmp xs = foldr (insert_cmp cmp) xs []"

definition qsort :: "int list \<Rightarrow> nat \<Rightarrow> nat \<Rightarrow> (int \<Rightarrow> int \<Rightarrow> int) \<Rightarrow> int list result" where
  "qsort a lo n cmp =
     (if lo + n \<le> length a then Inr (take lo a @ sort_cmp cmp (take n (drop lo a)) @ drop (lo + n) a)
      else Inl Out_of_bounds)"

definition dedup_step :: "nat \<Rightarrow> int list \<times> nat \<Rightarrow> (int list \<times> nat) result" where
  "dedup_step k = (\<lambda>(xadjstore, kcur).
     bindE (arr_get xadjstore (MINVECT_SIZE + k)) (\<lambda>a.
     bindE (arr_get xadjstore (MINVECT_SIZE + kcur)) (\<lambda>b.
     if a \<noteq> b then
       bindE (arr_set xadjstore (MINVECT_SIZE + (kcur + 1)) a) (\<lambda>xadjstore. Inr (xadjstore, kcur + 1))
     else Inr (xadjstore, kcur))))"

definition pack_vtx_edges :: "nat \<Rightarrow> nat list \<times> int list \<Rightarrow> (nat list \<times> int list) result" where
  "pack_vtx_edges i = (\<lambda>(xoff, xadjstore).
     bindE (arr_get xoff (XOFF i)) (\<lambda>xo.
     bindE (arr_get xoff (XENDOFF i)) (\<lambda>xe.
     if xo + 1 \<ge> xe then Inr (xoff, xadjstore)
     else
       bindE (qsort xadjstore (MINVECT_SIZE + xo) (xe - xo) i64cmp) (\<lambda>xadjstore.
       bindE (foldE dedup_step [xo + 1..<xe] (xadjstore, xo)) (\<lambda>(xadjstore, kcur).
       let kcur = kcur + 1 in
       bindE (foldE (\<lambda>k t. arr_set t (MINVECT_SIZE + k) (- 1)) [kcur..<xe] xadjstore) (\<lambda>xadjstore.
       bindE (arr_set xoff (XENDOFF i) kcur) (\<lambda>xoff.
       Inr (xoff, xadjstore))))))))"

definition pack_edges :: "nat \<Rightarrow> nat list \<times> int list \<Rightarrow> (nat list \<times> int list) result" where
  "pack_edges nv s = foldE pack_vtx_edges [0..<nv] s"

definition gather_edge :: "packed_edge \<Rightarrow> nat list \<times> int list \<Rightarrow> (nat list \<times> int list) result" where
  "gather_edge e s =
     (let i = sint (get_v0_from_edge e); j = sint (get_v1_from_edge e) in
      if i \<ge> 0 \<and> j \<ge> 0 \<and> i \<noteq> j then
        bindE (scatter_edge (nat i) j s) (scatter_edge (nat j) i)
      else Inr s)"

definition gather_edges :: "packed_edge list \<Rightarrow> nat \<Rightarrow> nat list \<times> int list \<Rightarrow> (nat list \<times> int list) result" where
  "gather_edges IJ nv s = bindE (foldE gather_edge IJ s) (pack_edges nv)"

definition csr_create_graph_from_edgelist :: "(nat \<Rightarrow> bool) \<Rightarrow> packed_edge list \<Rightarrow> csr_graph result" where
  "csr_create_graph_from_edgelist granted IJ =
     (let (maxvtx, nv) = find_nv IJ in
      bindE (alloc_graph granted nv) (\<lambda>xoff.
      bindE (setup_deg_off granted IJ nv xoff) (\<lambda>s.
      bindE (gather_edges IJ nv s) (\<lambda>(xoff, xadjstore).
      Inr \<lparr>cs_maxvtx = maxvtx, cs_nv = nv, cs_xoff = xoff, cs_xadjstore = xadjstore\<rparr>))))"

definition csr_scan_vertex :: "csr_graph \<Rightarrow> int \<Rightarrow> bfs_state \<Rightarrow> bfs_state result" where
  "csr_scan_vertex g v s =
     bindE (arr_geti (cs_xoff g) (1 + 2 * v)) (\<lambda>veo.
     bindE (arr_geti (cs_xoff g) (2 * v)) (\<lambda>vo.
     foldE (\<lambda>vo s. bindE (arr_get (cs_xadjstore g) (MINVECT_SIZE + vo)) (\<lambda>j. push (\<lambda>t. t = - 1) v j s)) [vo..<veo] s))"

fun csr_while :: "nat \<Rightarrow> csr_graph \<Rightarrow> nat \<Rightarrow> bfs_state \<Rightarrow> int list result" where
  "csr_while 0 g k1 s = Inl Out_of_fuel"
| "csr_while (Suc fuel) g k1 (bfs_tree, vlist, k2) =
     (if k1 \<noteq> k2 then
        let oldk2 = k2 in
        bindE (foldE (\<lambda>k (bfs_tree, vlist, k2). bindE (arr_get vlist k) (\<lambda>v. csr_scan_vertex g v (bfs_tree, vlist, k2)))
                 [k1..<oldk2] (bfs_tree, vlist, k2))
          (csr_while fuel g oldk2)
      else Inr bfs_tree)"

definition csr_make_bfs_tree :: "(nat \<Rightarrow> bool) \<Rightarrow> nat \<Rightarrow> csr_graph \<Rightarrow> int list \<Rightarrow> nat \<Rightarrow> (int \<times> int list) result" where
  "csr_make_bfs_tree granted fuel g bfs_tree srcvtx =
     bindE (do_xmalloc_large granted (cs_nv g * 8)) (\<lambda>_.
     bindE (foldE (\<lambda>k t. arr_set t k (- 1)) [0..<cs_nv g] bfs_tree) (\<lambda>bfs_tree.
     bindE (arr_set (replicate (cs_nv g) 0) 0 (int srcvtx)) (\<lambda>vlist.
     bindE (arr_set bfs_tree srcvtx (int srcvtx)) (\<lambda>bfs_tree.
     bindE (csr_while fuel g 0 (bfs_tree, vlist, 1)) (\<lambda>bfs_tree.
     Inr (cs_maxvtx g, bfs_tree))))))"

section \<open>Rows\<close>

fun row_of :: "packed_edge list \<Rightarrow> nat \<Rightarrow> nat list" where
  "row_of [] v = []"
| "row_of (e # es) v =
     (if end0 e = end1 e then [] else (if end0 e = v then [end1 e] else []) @ (if end1 e = v then [end0 e] else [])) @ row_of es v"

lemma row_of_append: "row_of (es @ fs) v = row_of es v @ row_of fs v"
  by (induction es) auto

lemma nbr_Nil [simp]: "\<not> nbr [] v w"
  by (simp add: nbr_def)

lemma nbr_Cons:
  "nbr (e # es) v w \<longleftrightarrow> nbr es v w \<or> v \<noteq> w \<and> (end0 e = v \<and> end1 e = w \<or> end0 e = w \<and> end1 e = v)"
  unfolding nbr_def by simp blast

lemma set_row_of: "set (row_of es v) = {w. nbr es v w}"
proof (induction es)
  case (Cons e es)
  show ?case by (rule set_eqI) (auto simp: nbr_Cons Cons)
qed simp

text \<open>Where the rows start when row \<open>v\<close> has room for \<open>d v\<close> entries, and at least two.\<close>

fun row_off :: "(nat \<Rightarrow> nat) \<Rightarrow> nat \<Rightarrow> nat" where
  "row_off d 0 = 0"
| "row_off d (Suc v) = row_off d v + max MINVECT_SIZE (d v)"

lemma row_off_mono: "u \<le> v \<Longrightarrow> row_off d u \<le> row_off d v"
  by (induction v rule: dec_induct) auto

lemma row_off_room: "u < v \<Longrightarrow> row_off d u + d u \<le> row_off d v"
  using row_off_mono [of "Suc u" v d] by simp

definition csr_rows :: "(nat \<Rightarrow> nat) \<Rightarrow> nat \<Rightarrow> (nat \<Rightarrow> nat list) \<Rightarrow> nat list \<times> int list \<Rightarrow> bool" where
  "csr_rows d nv rows = (\<lambda>(xoff, xadjstore).
     length xoff = 2 * nv + 2 \<and> length xadjstore = row_off d nv + MINVECT_SIZE \<and>
     (\<forall>v<nv. length (rows v) \<le> d v \<and> xoff ! XOFF v = row_off d v \<and> xoff ! XENDOFF v = row_off d v + length (rows v) \<and>
       (\<forall>i<length (rows v). xadjstore ! (MINVECT_SIZE + (row_off d v + i)) = int (rows v ! i))))"

lemma X_neq [simp]: "XOFF v = XOFF u \<longleftrightarrow> v = u" "XENDOFF v = XENDOFF u \<longleftrightarrow> v = u"
    "XOFF v \<noteq> XENDOFF u" "XENDOFF u \<noteq> XOFF v"
  by (simp_all add: XOFF_def XENDOFF_def) presburger+

lemma X_bound [simp]: "v \<le> nv \<Longrightarrow> XOFF v < Suc (Suc (2 * nv))" "v \<le> nv \<Longrightarrow> XENDOFF v < Suc (Suc (2 * nv))"
  by (simp_all add: XOFF_def XENDOFF_def)

lemma incr_xoff_eq: "i < length xs \<Longrightarrow> incr_xoff xs i = Inr (xs[i := xs ! i + 1])"
  by (simp add: incr_xoff_def)

lemma count_edges:
  assumes "length xoff = 2 * nv + 2" "\<forall>e \<in> set es. end0 e < nv \<and> end1 e < nv"
  shows "\<exists>xoff'. foldE count_edge es xoff = Inr xoff' \<and> length xoff' = length xoff \<and>
    (\<forall>v<nv. xoff' ! XOFF v = xoff ! XOFF v + length (row_of es v))"
  using assms
proof (induction es arbitrary: xoff)
  case (Cons e es)
  have e: "end0 e < nv" "end1 e < nv" using Cons.prems by auto
  obtain x1 where x1: "count_edge e xoff = Inr x1" "length x1 = length xoff"
    "\<forall>v<nv. x1 ! XOFF v = xoff ! XOFF v + length (row_of [e] v)"
  proof (cases "end0 e = end1 e")
    case True
    then have "count_edge e xoff = Inr xoff" by (simp add: count_edge_def get_v_int)
    then show thesis using that True by simp
  next
    case False
    let ?x = "xoff[XOFF (end0 e) := xoff ! XOFF (end0 e) + 1, XOFF (end1 e) := xoff ! XOFF (end1 e) + 1]"
    have "count_edge e xoff = Inr ?x"
      using False e Cons.prems(1) by (simp add: count_edge_def get_v_int Let_def incr_xoff_eq)
    moreover have "\<forall>v<nv. ?x ! XOFF v = xoff ! XOFF v + length (row_of [e] v)"
      using False Cons.prems(1) by (simp add: nth_list_update)
    ultimately show thesis using that by simp
  qed
  obtain x2 where "foldE count_edge es x1 = Inr x2" "length x2 = length x1"
    "\<forall>v<nv. x2 ! XOFF v = x1 ! XOFF v + length (row_of es v)"
    using Cons.IH [of x1] Cons.prems x1(2) by auto
  then show ?case using x1 row_of_append [of "[e]" es] by (intro exI [of _ x2]) simp
qed simp

lemma prefix_loop:
  assumes "length xoff = 2 * nv + 2" "\<forall>v<nv. xoff ! XOFF v = d v"
  shows "\<exists>xoff'. foldE prefix_step [0..<nv] (xoff, 0) = Inr (xoff', row_off d nv) \<and> length xoff' = length xoff \<and>
    (\<forall>v<nv. xoff' ! XOFF v = row_off d v)"
proof -
  define I where "I k = (\<lambda>(x, accum). length x = length xoff \<and> accum = row_off d k \<and>
      (\<forall>v<nv. x ! XOFF v = (if v < k then row_off d v else d v)))" for k
  have "\<exists>s. foldE prefix_step [0..<nv] (xoff, 0) = Inr s \<and> I nv s"
  proof (rule foldE_upt_inv)
    show "I 0 (xoff, 0)" using assms by (simp add: I_def)
    fix k s assume k: "k < nv" "I k s"
    obtain x accum where s: "s = (x, accum)" by (cases s)
    have "prefix_step k s = Inr (x[XOFF k := accum], accum + max MINVECT_SIZE (d k))"
      using k assms(1) by (simp add: prefix_step_def s I_def Let_def max_def)
    moreover have "I (Suc k) (x[XOFF k := accum], accum + max MINVECT_SIZE (d k))"
      using k assms(1) by (auto simp: s I_def nth_list_update)
    ultimately show "\<exists>s'. prefix_step k s = Inr s' \<and> I (Suc k) s'" by blast
  qed simp
  then show ?thesis by (auto simp: I_def)
qed

lemma endoff_loop:
  assumes "length xoff = 2 * nv + 2"
  shows "\<exists>xoff'. foldE (\<lambda>k xoff. bindE (arr_get xoff (XOFF k)) (arr_set xoff (XENDOFF k))) [0..<nv] xoff = Inr xoff' \<and>
    length xoff' = length xoff \<and> (\<forall>v<nv. xoff' ! XOFF v = xoff ! XOFF v \<and> xoff' ! XENDOFF v = xoff ! XOFF v)"
proof -
  define I where "I k x \<longleftrightarrow> length x = length xoff \<and>
      (\<forall>v<nv. x ! XOFF v = xoff ! XOFF v \<and> (v < k \<longrightarrow> x ! XENDOFF v = xoff ! XOFF v))" for k x
  have "\<exists>s. foldE (\<lambda>k xoff. bindE (arr_get xoff (XOFF k)) (arr_set xoff (XENDOFF k))) [0..<nv] xoff = Inr s \<and> I nv s"
  proof (rule foldE_upt_inv)
    show "I 0 xoff" by (simp add: I_def)
    fix k x assume k: "k < nv" "I k x"
    then have "bindE (arr_get x (XOFF k)) (arr_set x (XENDOFF k)) = Inr (x[XENDOFF k := x ! XOFF k])"
      using assms by (simp add: I_def)
    moreover have "I (Suc k) (x[XENDOFF k := x ! XOFF k])" using k assms by (auto simp: I_def nth_list_update elim: less_SucE)
    ultimately show "\<exists>x'. bindE (arr_get x (XOFF k)) (arr_set x (XENDOFF k)) = Inr x' \<and> I (Suc k) x'" by blast
  qed simp
  then show ?thesis by (auto simp: I_def)
qed

abbreviation row_deg :: "packed_edge list \<Rightarrow> nat \<Rightarrow> nat" where
  "row_deg IJ v \<equiv> length (row_of IJ v)"

lemma setup_rows:
  assumes "\<And>sz. granted sz" and "nv = num_vertices IJ" and "length xoff = 2 * nv + 2"
  shows "\<exists>s. setup_deg_off granted IJ nv xoff = Inr s \<and> csr_rows (row_deg IJ) nv (\<lambda>_. []) s"
proof -
  obtain x1 where x1: "foldE (\<lambda>k t. arr_set t k 0) [0..<2 * nv + 2] xoff = Inr x1" "length x1 = length xoff"
    "\<forall>i. x1 ! i = (if 0 \<le> i \<and> i < 2 * nv + 2 then 0 else xoff ! i)"
    using foldE_fill [of "2 * nv + 2" xoff 0 0] assms(3) by auto
  obtain x2 where x2: "foldE count_edge IJ x1 = Inr x2" "length x2 = 2 * nv + 2" "\<forall>v<nv. x2 ! XOFF v = row_deg IJ v"
    using count_edges [of x1 nv IJ] ends_bound [of _ IJ] x1 assms(2,3) by auto
  obtain x3 where x3: "foldE prefix_step [0..<nv] (x2, 0) = Inr (x3, row_off (row_deg IJ) nv)" "length x3 = 2 * nv + 2"
    "\<forall>v<nv. x3 ! XOFF v = row_off (row_deg IJ) v" using prefix_loop [OF x2(2,3)] x2(2) by auto
  let ?a = "row_off (row_deg IJ) nv" and ?x = "x3[XOFF nv := row_off (row_deg IJ) nv]"
  obtain x4 where x4: "foldE (\<lambda>k xoff. bindE (arr_get xoff (XOFF k)) (arr_set xoff (XENDOFF k))) [0..<nv] ?x = Inr x4"
    "length x4 = 2 * nv + 2" "\<forall>v<nv. x4 ! XOFF v = ?x ! XOFF v \<and> x4 ! XENDOFF v = ?x ! XOFF v"
    using endoff_loop [of ?x nv] x3(2) by auto
  obtain st where st: "foldE (\<lambda>k t. arr_set t k (- 1)) [0..<?a + MINVECT_SIZE] (replicate (?a + MINVECT_SIZE) (0 :: int)) = Inr st"
    "length st = ?a + MINVECT_SIZE"
    using foldE_fill [of "?a + MINVECT_SIZE" "replicate (?a + MINVECT_SIZE) (0 :: int)" "- 1" 0] by auto
  have "setup_deg_off granted IJ nv xoff = Inr (x4, st)"
    using x1(1) x2(1) x3(1,2) x4(1) st(1) assms(1) by (simp add: setup_deg_off_def do_xmalloc_large_def)
  moreover have "csr_rows (row_deg IJ) nv (\<lambda>_. []) (x4, st)"
    using x4 x3(3) st(2) by (simp add: csr_rows_def nth_list_update)
  ultimately show ?thesis by blast
qed

lemma csr_rowsD:
  assumes "csr_rows d nv rows (xoff, st)"
  shows "length xoff = 2 * nv + 2" "length st = row_off d nv + MINVECT_SIZE"
    "v < nv \<Longrightarrow> length (rows v) \<le> d v" "v < nv \<Longrightarrow> xoff ! XOFF v = row_off d v"
    "v < nv \<Longrightarrow> xoff ! XENDOFF v = row_off d v + length (rows v)"
    "v < nv \<Longrightarrow> i < length (rows v) \<Longrightarrow> st ! (MINVECT_SIZE + (row_off d v + i)) = int (rows v ! i)"
  using assms by (auto simp: csr_rows_def)

text \<open>Rows do not overlap: a change inside row \<open>u\<close> keeps the others.\<close>

lemma csr_rows_update:
  assumes rows: "csr_rows d nv rows (xoff, st)" and u: "u < nv" and "length r \<le> d u"
    and "length st' = length st"
    and outside: "\<And>i. i < MINVECT_SIZE + row_off d u \<or> MINVECT_SIZE + row_off d u + d u \<le> i \<Longrightarrow> st' ! i = st ! i"
    and inside: "\<And>i. i < length r \<Longrightarrow> st' ! (MINVECT_SIZE + (row_off d u + i)) = int (r ! i)"
  shows "csr_rows d nv (rows(u := r)) (xoff[XENDOFF u := row_off d u + length r], st')"
proof -
  note D = csr_rowsD [OF rows]
  have "st' ! (MINVECT_SIZE + (row_off d v + i)) = int (rows v ! i)" if v: "v < nv" "v \<noteq> u" "i < length (rows v)" for v i
  proof -
    have i: "i < d v" using D(3) [OF v(1)] v(3) by simp
    consider "v < u" | "u < v" using v(2) by linarith
    then have "MINVECT_SIZE + (row_off d v + i) < MINVECT_SIZE + row_off d u \<or>
        MINVECT_SIZE + row_off d u + d u \<le> MINVECT_SIZE + (row_off d v + i)"
      by cases (use row_off_room [of v u d] row_off_room [of u v d] i in auto)
    then show ?thesis using outside D(6) [OF v(1,3)] by metis
  qed
  then show ?thesis unfolding csr_rows_def using D u assms(3,4) inside by (auto simp: nth_list_update)
qed

lemma scatter_rows:
  assumes rows: "csr_rows d nv rows s" and i: "i < nv" "length (rows i) < d i"
  shows "\<exists>s'. scatter_edge i (int j) s = Inr s' \<and> csr_rows d nv (rows(i := rows i @ [j])) s'"
proof -
  obtain xoff st where s: "s = (xoff, st)" by (cases s)
  note D = csr_rowsD [OF rows [unfolded s]]
  let ?p = "row_off d i + length (rows i)"
  have p: "MINVECT_SIZE + ?p < length st" using row_off_room [OF i(1), of d] i(2) D(2) by simp
  have "scatter_edge i (int j) s = Inr (xoff[XENDOFF i := ?p + 1], st[MINVECT_SIZE + ?p := int j])"
    using D(1,5) i p by (simp add: scatter_edge_def s)
  moreover have "csr_rows d nv (rows(i := rows i @ [j])) (xoff[XENDOFF i := row_off d i + length (rows i @ [j])], st[MINVECT_SIZE + ?p := int j])"
    by (rule csr_rows_update [OF rows [unfolded s] i(1)]) (use i p D(6) [OF i(1)] in \<open>auto simp: nth_list_update nth_append\<close>)
  ultimately show ?thesis by simp
qed

lemma gather_rows:
  assumes "csr_rows d nv (row_of es) s" and e: "end0 e < nv" "end1 e < nv"
    and room: "\<And>v. length (row_of (es @ [e]) v) \<le> d v"
  shows "\<exists>s'. gather_edge e s = Inr s' \<and> csr_rows d nv (row_of (es @ [e])) s'"
proof (cases "end0 e = end1 e")
  case True
  then have "row_of (es @ [e]) = row_of es" by (intro ext) (simp add: row_of_append)
  then show ?thesis using True assms(1) by (simp add: gather_edge_def get_v_int)
next
  case False
  let ?i = "end0 e" and ?j = "end1 e"
  have g: "gather_edge e s = bindE (scatter_edge ?i (int ?j) s) (scatter_edge ?j (int ?i))"
    using False by (simp add: gather_edge_def get_v_int Let_def)
  have "length (row_of es ?i) < d ?i" "length (row_of es ?j) < d ?j"
    using room [of ?i] room [of ?j] False by (simp_all add: row_of_append)
  moreover from calculation(1) obtain s1 where s1: "scatter_edge ?i (int ?j) s = Inr s1"
    "csr_rows d nv ((row_of es)(?i := row_of es ?i @ [?j])) s1" using scatter_rows [OF assms(1) e(1)] by blast
  ultimately obtain s2 where s2: "scatter_edge ?j (int ?i) s1 = Inr s2"
    "csr_rows d nv ((row_of es)(?i := row_of es ?i @ [?j], ?j := row_of es ?j @ [?i])) s2"
    using scatter_rows [OF s1(2) e(2)] False by fastforce
  have "(row_of es)(?i := row_of es ?i @ [?j], ?j := row_of es ?j @ [?i]) = row_of (es @ [e])"
    using False by (intro ext) (simp add: row_of_append)
  then show ?thesis using g s1(1) s2 by simp
qed

lemma gather_all_rows:
  assumes "csr_rows (row_deg IJ) (num_vertices IJ) (\<lambda>_. []) s"
  shows "\<exists>s'. foldE gather_edge IJ s = Inr s' \<and> csr_rows (row_deg IJ) (num_vertices IJ) (row_of IJ) s'"
proof -
  have "\<exists>s'. foldE gather_edge es s = Inr s' \<and> csr_rows (row_deg IJ) (num_vertices IJ) (row_of es) s'"
    if "IJ = es @ fs" for es fs
    using that
  proof (induction es arbitrary: fs rule: rev_induct)
    case Nil
    have "row_of [] = (\<lambda>_. [])" by (intro ext) simp
    then show ?case using assms by simp
  next
    case (snoc e es)
    then obtain s1 where s1: "foldE gather_edge es s = Inr s1" "csr_rows (row_deg IJ) (num_vertices IJ) (row_of es) s1"
      by fastforce
    have "end0 e < num_vertices IJ" "end1 e < num_vertices IJ" using ends_bound [of e IJ] snoc.prems by auto
    moreover have "length (row_of (es @ [e]) v) \<le> row_deg IJ v" for v unfolding snoc.prems by (simp add: row_of_append)
    ultimately obtain s2 where "gather_edge e s1 = Inr s2" "csr_rows (row_deg IJ) (num_vertices IJ) (row_of (es @ [e])) s2"
      using gather_rows [OF s1(2)] by blast
    then show ?case using s1(1) by (simp add: foldE_append)
  qed
  then show ?thesis by (metis append_Nil2)
qed

section \<open>Packing\<close>

lemma insert_cmp_insort: "insert_cmp i64cmp x ys = insort x ys"
  by (induction ys) (auto simp: i64cmp_def)

lemma sort_cmp_sort: "sort_cmp i64cmp xs = sort xs"
  unfolding sort_cmp_def by (induction xs) (simp_all add: insert_cmp_insort)

lemma remdups_adj_snoc:
  "xs \<noteq> [] \<Longrightarrow> remdups_adj (xs @ [y]) = remdups_adj xs @ (if last xs = y then [] else [y])"
  by (cases xs rule: rev_cases) (simp_all add: remdups_adj_append_two)

lemma dedup_loop:
  assumes s: "s \<noteq> []" and len: "MINVECT_SIZE + (lo + length s) \<le> length a"
    and a: "\<And>i. i < length s \<Longrightarrow> a ! (MINVECT_SIZE + (lo + i)) = s ! i"
  shows "\<exists>a'. foldE dedup_step [lo + 1..<lo + length s] (a, lo) = Inr (a', lo + length (remdups_adj s) - 1) \<and>
    length a' = length a \<and> (\<forall>i<length (remdups_adj s). a' ! (MINVECT_SIZE + (lo + i)) = remdups_adj s ! i) \<and>
    (\<forall>i. i < MINVECT_SIZE + lo \<or> MINVECT_SIZE + (lo + length s) \<le> i \<longrightarrow> a' ! i = a ! i)"
proof -
  define R where "R k = remdups_adj (take (k - lo) s)" for k
  define I where "I k = (\<lambda>(a', kcur). length a' = length a \<and> kcur + 1 = lo + length (R k) \<and>
      (\<forall>i<length (R k). a' ! (MINVECT_SIZE + (lo + i)) = R k ! i) \<and>
      (\<forall>i. i < MINVECT_SIZE + lo \<or> MINVECT_SIZE + k \<le> i \<longrightarrow> a' ! i = a ! i))" for k
  have "\<exists>st. foldE dedup_step [lo + 1..<lo + length s] (a, lo) = Inr st \<and> I (lo + length s) st"
  proof (rule foldE_upt_inv)
    have "R (lo + 1) = [s ! 0]" using s by (simp add: R_def take_Suc_conv_app_nth)
    then show "I (lo + 1) (a, lo)" using a [of 0] s by (simp add: I_def)
    show "lo + 1 \<le> lo + length s" using s by (cases s) auto
    fix k st assume k: "lo + 1 \<le> k" "k < lo + length s" "I k st"
    obtain a' kcur where st: "st = (a', kcur)" by (cases st)
    let ?t = "take (k - lo) s" and ?x = "s ! (k - lo)"
    have t: "?t \<noteq> []" "take (Suc k - lo) s = ?t @ [?x]" using k s by (auto simp: Suc_diff_le take_Suc_conv_app_nth)
    have R: "R (Suc k) = R k @ (if last ?t = ?x then [] else [?x])" unfolding R_def t(2) by (rule remdups_adj_snoc [OF t(1)])
    have Rn: "R k \<noteq> []" "last (R k) = last ?t" "length (R k) \<le> k - lo"
      using t(1) remdups_adj_length [of ?t] k by (simp_all add: R_def)
    have i: "length a' = length a" "kcur + 1 = lo + length (R k)" "\<And>i. i < length (R k) \<Longrightarrow> a' ! (MINVECT_SIZE + (lo + i)) = R k ! i"
      "\<And>i. i < MINVECT_SIZE + lo \<or> MINVECT_SIZE + k \<le> i \<Longrightarrow> a' ! i = a ! i" using k(3) by (auto simp: I_def st)
    have len_R: "length (R k) \<noteq> 0" using Rn(1) by simp
    have cur: "kcur = lo + (length (R k) - 1)" "kcur + 1 \<le> k" using i(2) Rn(3) len_R k by linarith+
    have v: "a' ! (MINVECT_SIZE + k) = ?x" using i(4) [of "MINVECT_SIZE + k"] a [of "k - lo"] k by simp
    have w: "a' ! (MINVECT_SIZE + kcur) = last ?t"
      unfolding cur(1) using i(3) [of "length (R k) - 1"] len_R last_conv_nth [OF Rn(1)] Rn(2) by (metis diff_less gr0I zero_less_one)
    show "\<exists>st'. dedup_step k st = Inr st' \<and> I (Suc k) st'"
    proof (cases "last ?t = ?x")
      case True
      then have "dedup_step k st = Inr st" using v w k i(1) len cur by (simp add: dedup_step_def st)
      moreover have "I (Suc k) st" using i R True by (auto simp: I_def st)
      ultimately show ?thesis by blast
    next
      case False
      let ?a = "a'[MINVECT_SIZE + (kcur + 1) := ?x]"
      have "dedup_step k st = Inr (?a, kcur + 1)" using v w k i(1) len cur False by (simp add: dedup_step_def st)
      moreover have "I (Suc k) (?a, kcur + 1)"
        unfolding I_def R using i cur False len k by (auto simp: nth_append nth_list_update less_Suc_eq)
      ultimately show ?thesis by blast
    qed
  qed
  then obtain a' kcur where "foldE dedup_step [lo + 1..<lo + length s] (a, lo) = Inr (a', kcur)" "I (lo + length s) (a', kcur)"
    by auto
  then show ?thesis by (intro exI [of _ a']) (auto simp: I_def R_def)
qed

lemma fill_row:
  fixes a :: "int list"
  assumes "MINVECT_SIZE + hi \<le> length a"
  shows "\<exists>a'. foldE (\<lambda>k t. arr_set t (MINVECT_SIZE + k) (- 1)) [lo..<hi] a = Inr a' \<and> length a' = length a \<and>
    (\<forall>i. i < MINVECT_SIZE + lo \<or> MINVECT_SIZE + hi \<le> i \<longrightarrow> a' ! i = a ! i)"
proof (cases "lo \<le> hi")
  case True
  define I where "I k a' \<longleftrightarrow> length a' = length a \<and>
      (\<forall>i. i < MINVECT_SIZE + lo \<or> MINVECT_SIZE + hi \<le> i \<longrightarrow> a' ! i = a ! i)" for k :: nat and a' :: "int list"
  have "\<exists>a'. foldE (\<lambda>k t. arr_set t (MINVECT_SIZE + k) (- 1)) [lo..<hi] a = Inr a' \<and> I hi a'"
    by (rule foldE_upt_inv [OF _ True]) (use assms in \<open>auto simp: I_def nth_list_update\<close>)
  then show ?thesis by (auto simp: I_def)
qed auto

lemma remdups_adj_short: "length xs \<le> 1 \<Longrightarrow> remdups_adj (sort xs) = xs"
  by (cases xs) simp_all

lemma map_int_insort: "map int (insort x ys) = insort (int x) (map int ys)"
  by (induction ys) simp_all

lemma map_int_sort: "sort (map int xs) = map int (sort xs)"
  by (induction xs) (simp_all add: map_int_insort)

lemma map_int_remdups_adj: "remdups_adj (map int xs) = map int (remdups_adj xs)"
  by (rule remdups_adj_map_injective) (simp add: inj_on_def)

lemma pack_rows:
  assumes rows: "csr_rows d nv rows s" and u: "u < nv"
  shows "\<exists>s'. pack_vtx_edges u s = Inr s' \<and> csr_rows d nv (rows(u := remdups_adj (sort (rows u)))) s'"
proof -
  obtain xoff st where s: "s = (xoff, st)" by (cases s)
  note D = csr_rowsD [OF rows [unfolded s]]
  let ?o = "row_off d u" and ?r = "rows u" and ?p = "remdups_adj (sort (rows u))"
  show ?thesis
  proof (cases "length ?r \<le> 1")
    case True
    then have "pack_vtx_edges u s = Inr s" using D u by (simp add: pack_vtx_edges_def s)
    moreover have "rows(u := ?p) = rows" using remdups_adj_short [OF True] by simp
    ultimately show ?thesis using rows by simp
  next
    case False
    let ?n = "length ?r" and ?b = "MINVECT_SIZE + row_off d u"
    have "length (sort ?r) \<noteq> 0" using False by (cases ?r) simp_all
    then have ne: "sort ?r \<noteq> []" by (simp only: length_0_conv not_False_eq_True)
    have room: "?b + ?n \<le> length st" "?o + d u \<le> row_off d nv" using D(2) D(3) [OF u] row_off_room [OF u, of d] by simp_all
    have sl: "take ?n (drop ?b st) = map int ?r"
      using D(6) [OF u] room(1) by (intro nth_equalityI) (simp_all add: add.assoc)
    let ?a = "take ?b st @ map int (sort ?r) @ drop (?b + ?n) st"
    have q: "qsort st ?b ?n i64cmp = Inr ?a" using room(1) by (simp add: qsort_def sl sort_cmp_sort map_int_sort)
    have la: "length ?a = length st" using room(1) by simp
    have outa: "?a ! i = st ! i" if "i < ?b \<or> ?b + ?n \<le> i" for i using that room(1) by (auto simp: nth_append)
    have "\<exists>a'. foldE dedup_step [?o + 1..<?o + length (map int (sort ?r))] (?a, ?o)
          = Inr (a', ?o + length (remdups_adj (map int (sort ?r))) - 1) \<and> length a' = length ?a \<and>
        (\<forall>i<length (remdups_adj (map int (sort ?r))). a' ! (MINVECT_SIZE + (?o + i)) = remdups_adj (map int (sort ?r)) ! i) \<and>
        (\<forall>i. i < MINVECT_SIZE + ?o \<or> MINVECT_SIZE + (?o + length (map int (sort ?r))) \<le> i \<longrightarrow> a' ! i = ?a ! i)"
    proof (rule dedup_loop)
      show "?a ! (MINVECT_SIZE + (?o + i)) = map int (sort ?r) ! i" if "i < length (map int (sort ?r))" for i
        using that room(1) by (simp add: nth_append)
    qed (use ne room la in \<open>simp_all add: add.assoc\<close>)
    then obtain a1 where a1: "foldE dedup_step [?o + 1..<?o + ?n] (?a, ?o) = Inr (a1, ?o + length ?p - 1)" "length a1 = length ?a"
      "\<forall>i<length ?p. a1 ! (MINVECT_SIZE + (?o + i)) = int (?p ! i)"
      "\<forall>i. i < ?b \<or> ?b + ?n \<le> i \<longrightarrow> a1 ! i = ?a ! i" by (auto simp: map_int_remdups_adj add.assoc)
    have p: "?p \<noteq> []" "length ?p \<le> ?n" using ne remdups_adj_length [of "sort ?r"] by simp_all
    then have c: "?o + length ?p - 1 + 1 = ?o + length ?p" by (cases ?p) auto
    obtain a2 where a2: "foldE (\<lambda>k t. arr_set t (MINVECT_SIZE + k) (- 1)) [?o + length ?p..<?o + ?n] a1 = Inr a2" "length a2 = length a1"
      "\<forall>i. i < MINVECT_SIZE + (?o + length ?p) \<or> MINVECT_SIZE + (?o + ?n) \<le> i \<longrightarrow> a2 ! i = a1 ! i"
      using fill_row [of "?o + ?n" a1 "?o + length ?p"] a1(2) la room(1) by auto
    have "pack_vtx_edges u s = Inr (xoff[XENDOFF u := ?o + length ?p], a2)"
      unfolding pack_vtx_edges_def s using False D(1,4,5) u
      by (simp add: q a1(1) c a2(1) Let_def del: One_nat_def)
    moreover have "csr_rows d nv (rows(u := ?p)) (xoff[XENDOFF u := ?o + length ?p], a2)"
    proof (rule csr_rows_update [OF rows [unfolded s] u])
      show "length ?p \<le> d u" using p(2) D(3) [OF u] by simp
      show "length a2 = length st" using a2(2) a1(2) la by simp
      show "a2 ! i = st ! i" if "i < ?b \<or> ?b + d u \<le> i" for i
      proof -
        have i: "i < ?b \<or> ?b + ?n \<le> i" using that D(3) [OF u] by auto
        then have "a2 ! i = a1 ! i" using a2(3) by (auto simp: add.assoc)
        then show ?thesis using i a1(4) outa by simp
      qed
      show "a2 ! (MINVECT_SIZE + (?o + i)) = int (?p ! i)" if "i < length ?p" for i using a2(3) a1(3) that by simp
    qed
    ultimately show ?thesis by blast
  qed
qed

lemma pack_all_rows:
  assumes "csr_rows d nv rows s"
  shows "\<exists>s'. pack_edges nv s = Inr s' \<and> csr_rows d nv (\<lambda>v. if v < nv then remdups_adj (sort (rows v)) else rows v) s'"
proof -
  have "\<exists>s'. foldE pack_vtx_edges [0..<nv] s = Inr s' \<and>
      csr_rows d nv (\<lambda>v. if v < nv then remdups_adj (sort (rows v)) else rows v) s'"
  proof (rule foldE_upt_inv [where I = "\<lambda>k. csr_rows d nv (\<lambda>v. if v < k then remdups_adj (sort (rows v)) else rows v)"])
    fix k s assume k: "k < nv" "csr_rows d nv (\<lambda>v. if v < k then remdups_adj (sort (rows v)) else rows v) s"
    have "(\<lambda>v. if v < k then remdups_adj (sort (rows v)) else rows v)(k := remdups_adj (sort (rows k)))
        = (\<lambda>v. if v < Suc k then remdups_adj (sort (rows v)) else rows v)" by (auto simp: less_Suc_eq)
    then show "\<exists>s'. pack_vtx_edges k s = Inr s' \<and> csr_rows d nv (\<lambda>v. if v < Suc k then remdups_adj (sort (rows v)) else rows v) s'"
      using pack_rows [OF k(2,1)] by simp
  qed (use assms in simp_all)
  then show ?thesis by (simp add: pack_edges_def)
qed

section \<open>The search\<close>

definition csr_graph_of :: "packed_edge list \<Rightarrow> csr_graph" where
  "csr_graph_of IJ = projr (csr_create_graph_from_edgelist (\<lambda>_. True) IJ)"

lemma csr_create_rows:
  obtains g rows where "csr_create_graph_from_edgelist (\<lambda>_. True) IJ = Inr g" "cs_maxvtx g = int (num_vertices IJ) - 1"
    "cs_nv g = num_vertices IJ" "csr_rows (row_deg IJ) (num_vertices IJ) rows (cs_xoff g, cs_xadjstore g)"
    "\<forall>v<num_vertices IJ. set (rows v) = {w. nbr IJ v w}"
proof -
  let ?nv = "num_vertices IJ"
  have nv: "find_nv IJ = (int ?nv - 1, ?nv)"
    using find_maxvtx_num [of IJ] by (simp add: find_nv_def Let_def find_maxvtx_def [symmetric] num_vertices_def)
  obtain s1 where s1: "setup_deg_off (\<lambda>_. True) IJ ?nv (replicate (2 * ?nv + 2) 0) = Inr s1"
    "csr_rows (row_deg IJ) ?nv (\<lambda>_. []) s1"
    using setup_rows [of "\<lambda>_. True" ?nv IJ "replicate (2 * ?nv + 2) 0"] by auto
  obtain s2 where s2: "foldE gather_edge IJ s1 = Inr s2" "csr_rows (row_deg IJ) ?nv (row_of IJ) s2"
    using gather_all_rows [OF s1(2)] by blast
  let ?rows = "\<lambda>v. if v < ?nv then remdups_adj (sort (row_of IJ v)) else row_of IJ v"
  obtain s3 where s3: "pack_edges ?nv s2 = Inr s3" "csr_rows (row_deg IJ) ?nv ?rows s3"
    using pack_all_rows [OF s2(2)] by blast
  obtain xoff st where xs: "s3 = (xoff, st)" by (cases s3)
  show thesis
  proof (rule that)
    show "csr_create_graph_from_edgelist (\<lambda>_. True) IJ = Inr \<lparr>cs_maxvtx = int ?nv - 1, cs_nv = ?nv, cs_xoff = xoff, cs_xadjstore = st\<rparr>"
      using s1(1) s2(1) s3(1) unfolding csr_create_graph_from_edgelist_def nv
      by (simp add: alloc_graph_def do_xmalloc_large_def gather_edges_def xs)
    show "csr_rows (row_deg IJ) ?nv ?rows (cs_xoff \<lparr>cs_maxvtx = int ?nv - 1, cs_nv = ?nv, cs_xoff = xoff, cs_xadjstore = st\<rparr>,
        cs_xadjstore \<lparr>cs_maxvtx = int ?nv - 1, cs_nv = ?nv, cs_xoff = xoff, cs_xadjstore = st\<rparr>)" using s3(2) by (simp add: xs)
  qed (simp_all add: set_row_of)
qed

lemma csr_graph_of:
  "csr_create_graph_from_edgelist (\<lambda>_. True) IJ = Inr (csr_graph_of IJ)"
  "cs_maxvtx (csr_graph_of IJ) = int (num_vertices IJ) - 1" "cs_nv (csr_graph_of IJ) = num_vertices IJ"
  "\<exists>rows. csr_rows (row_deg IJ) (num_vertices IJ) rows (cs_xoff (csr_graph_of IJ), cs_xadjstore (csr_graph_of IJ)) \<and>
     (\<forall>v<num_vertices IJ. set (rows v) = {w. nbr IJ v w})"
proof -
  obtain g rows where g: "csr_create_graph_from_edgelist (\<lambda>_. True) IJ = Inr g" "cs_maxvtx g = int (num_vertices IJ) - 1"
    "cs_nv g = num_vertices IJ" "csr_rows (row_deg IJ) (num_vertices IJ) rows (cs_xoff g, cs_xadjstore g)"
    "\<forall>v<num_vertices IJ. set (rows v) = {w. nbr IJ v w}" by (rule csr_create_rows [of IJ])
  have "csr_graph_of IJ = g" using g(1) by (simp add: csr_graph_of_def)
  then show "csr_create_graph_from_edgelist (\<lambda>_. True) IJ = Inr (csr_graph_of IJ)"
    "cs_maxvtx (csr_graph_of IJ) = int (num_vertices IJ) - 1" "cs_nv (csr_graph_of IJ) = num_vertices IJ"
    "\<exists>rows. csr_rows (row_deg IJ) (num_vertices IJ) rows (cs_xoff (csr_graph_of IJ), cs_xadjstore (csr_graph_of IJ)) \<and>
      (\<forall>v<num_vertices IJ. set (rows v) = {w. nbr IJ v w})" using g by auto
qed

lemma foldE_row:
  assumes "\<And>i. i < length r \<Longrightarrow> lo + i < length a \<and> a ! (lo + i) = int (r ! i)"
  shows "foldE (\<lambda>vo s. bindE (arr_get a vo) (\<lambda>j. f j s)) [lo..<lo + length r] s = foldE (\<lambda>w. f (int w)) r s"
  using assms
proof (induction r arbitrary: s rule: rev_induct)
  case (snoc w r)
  have "foldE (\<lambda>vo s. bindE (arr_get a vo) (\<lambda>j. f j s)) [lo..<lo + length r] s = foldE (\<lambda>w. f (int w)) r s"
  proof (rule snoc.IH)
    show "lo + i < length a \<and> a ! (lo + i) = int (r ! i)" if "i < length r" for i
      using snoc.prems [of i] that by (simp add: nth_append)
  qed
  moreover have "lo + length r < length a" "a ! (lo + length r) = int w" using snoc.prems [of "length r"] by simp_all
  ultimately show ?case by (cases "foldE (\<lambda>w. f (int w)) r s") (simp_all add: foldE_append foldE_Nil)
qed simp

lemma foldE_shift: "foldE (\<lambda>vo. f (m + vo)) [a..<b] s = foldE f [m + a..<m + b] s"
proof -
  have "map ((+) m) [a..<b] = [m + a..<m + b]" by (induction b) auto
  then show ?thesis using foldE_map [of f "(+) m" "[a..<b]"] by simp
qed

lemma row_fold:
  assumes rows: "csr_rows d nv rows (xoff, st)" and v: "v < nv"
  shows "foldE (\<lambda>vo s. bindE (arr_get st (MINVECT_SIZE + vo)) (\<lambda>j. f j s)) [xoff ! XOFF v..<xoff ! XENDOFF v] s
    = foldE (\<lambda>w. f (int w)) (rows v) s"
proof -
  note D = csr_rowsD [OF rows]
  have "foldE (\<lambda>vo s. bindE (arr_get st vo) (\<lambda>j. f j s)) [MINVECT_SIZE + row_off d v..<MINVECT_SIZE + row_off d v + length (rows v)] s
      = foldE (\<lambda>w. f (int w)) (rows v) s"
    by (rule foldE_row) (use D(2) D(3) [OF v] D(6) [OF v] row_off_room [OF v, of d] in \<open>simp add: add.assoc\<close>)
  then show ?thesis
    unfolding D(4) [OF v] D(5) [OF v] foldE_shift [of "\<lambda>vo s. bindE (arr_get st vo) (\<lambda>j. f j s)"] by (simp add: add.assoc)
qed

interpretation csr_bfs: bfs_scan IJ "num_vertices IJ" "\<lambda>t. t = - 1" "csr_scan_vertex (csr_graph_of IJ)" for IJ
proof
  fix v assume v: "v < num_vertices IJ"
  let ?g = "csr_graph_of IJ"
  obtain rows where r: "csr_rows (row_deg IJ) (num_vertices IJ) rows (cs_xoff ?g, cs_xadjstore ?g)"
    "set (rows v) = {w. nbr IJ v w}" using csr_graph_of(4) v by blast
  have x: "2 * int v = int (XOFF v)" "1 + 2 * int v = int (XENDOFF v)" by (simp_all add: XOFF_def XENDOFF_def)
  have "csr_scan_vertex ?g (int v) s = foldE (\<lambda>w. push (\<lambda>t. t = - 1) (int v) (int w)) (rows v) s" for s
    unfolding csr_scan_vertex_def x(2) unfolding x(1) using v csr_rowsD(1) [OF r(1)] row_fold [OF r(1) v] by simp
  then show "\<exists>ws. set ws = {w. nbr IJ v w} \<and>
      (\<forall>s. csr_scan_vertex ?g (int v) s = foldE (\<lambda>w. push (\<lambda>t. t = - 1) (int v) (int w)) ws s)" using r(2) by blast
qed (auto intro: nbr_num_vertices)

lemma csr_while_done:
  assumes "bfs_rep IJ (num_vertices IJ) src k tree vlist q" and "num_vertices IJ < fuel + k"
  shows "\<exists>tree'. csr_while fuel (csr_graph_of IJ) k (tree, vlist, length q) = Inr tree' \<and>
    bfs_tree_of IJ (num_vertices IJ) src tree'"
  using assms
proof (induction fuel arbitrary: k tree vlist q)
  case 0
  then show ?case using bfs_rep_pos [OF 0(1)] by simp
next
  case (Suc fuel)
  show ?case
  proof (cases "k = length q")
    case True
    then show ?thesis using bfs_rep_done Suc.prems(1) by auto
  next
    case False
    then have k: "k < length q" using bfs_rep_pos [OF Suc.prems(1)] by simp
    obtain tree' vlist' r where
      f: "foldE (\<lambda>i (tree, vlist, k2). bindE (arr_get vlist i) (\<lambda>v. csr_scan_vertex (csr_graph_of IJ) v (tree, vlist, k2)))
          [k..<length q] (tree, vlist, length q) = Inr (tree', vlist', length (q @ r))"
      "bfs_rep IJ (num_vertices IJ) src (length q) tree' vlist' (q @ r)"
      using csr_bfs.scan_block [OF Suc.prems(1), of "length q"] k by auto
    have "csr_while (Suc fuel) (csr_graph_of IJ) k (tree, vlist, length q)
        = csr_while fuel (csr_graph_of IJ) (length q) (tree', vlist', length (q @ r))" using k f(1) by (simp add: Let_def)
    then show ?thesis using Suc.IH [OF f(2)] Suc.prems(2) k by simp
  qed
qed

lemma csr_search:
  assumes "src < num_vertices IJ" and "num_vertices IJ \<le> length tree" and "num_vertices IJ < fuel"
  shows "\<exists>tree'. csr_make_bfs_tree (\<lambda>_. True) fuel (csr_graph_of IJ) tree src = Inr (int (num_vertices IJ) - 1, tree') \<and>
    bfs_tree_of IJ (num_vertices IJ) src tree'"
proof -
  let ?nv = "num_vertices IJ" and ?g = "csr_graph_of IJ"
  obtain t where t: "foldE (\<lambda>k t. arr_set t k (- 1)) [0..<?nv] tree = Inr t" "length t = length tree"
    "\<forall>i. t ! i = (if 0 \<le> i \<and> i < ?nv then - 1 else tree ! i)" using foldE_fill [OF assms(2), of "- 1" 0] by blast
  have "bfs_rep IJ ?nv src 0 (t[src := int src]) ((replicate ?nv 0)[0 := int src]) [src]"
    by (rule bfs_rep_start) (use assms t in auto)
  then obtain tree' where w: "csr_while fuel ?g 0 (t[src := int src], (replicate ?nv 0)[0 := int src], 1) = Inr tree'"
    "bfs_tree_of IJ ?nv src tree'" using csr_while_done assms(3) by fastforce
  have "csr_make_bfs_tree (\<lambda>_. True) fuel ?g tree src = Inr (int ?nv - 1, tree')"
    unfolding csr_make_bfs_tree_def csr_graph_of(2,3) using t(1,2) w(1) assms(1,2) by (simp add: do_xmalloc_large_def)
  then show ?thesis using w(2) by blast
qed

section \<open>Property\<close>

text \<open>
  C25. The compressed row implementation builds its rows (degrees, offsets, scattered edges,
  sorted rows without duplicates) and searches level by level without an access out of bounds,
  and the search returns a breadth first tree of the edge list, as the list implementation does.
\<close>

theorem csr_bfs_correct:
  assumes "\<And>sz. granted sz" and "src < num_vertices IJ" and "num_vertices IJ \<le> length tree" and "num_vertices IJ < fuel"
  shows "\<exists>g tree'. csr_create_graph_from_edgelist granted IJ = Inr g \<and>
    csr_make_bfs_tree granted fuel g tree src = Inr (int (num_vertices IJ) - 1, tree') \<and>
    bfs_tree_of IJ (num_vertices IJ) src tree'"
proof -
  have gr: "granted = (\<lambda>_. True)" using assms(1) by auto
  show ?thesis unfolding gr using csr_search [OF assms(2-4)] csr_graph_of(1) by blast
qed

theorem csr_bfs_correct_witness:
  "\<exists>g tree'. csr_create_graph_from_edgelist (\<lambda>_. True) [write_edge 0 1, write_edge 1 2, write_edge 0 1, write_edge 3 3] = Inr g \<and>
    csr_make_bfs_tree (\<lambda>_. True) 5 g [0, 0, 0, 0] 0 = Inr (3, tree') \<and>
    bfs_tree_of [write_edge 0 1, write_edge 1 2, write_edge 0 1, write_edge 3 3] 4 0 tree'"
proof -
  have "num_vertices [write_edge 0 1, write_edge 1 2, write_edge 0 1, write_edge 3 3] = 4"
    by (simp add: num_vertices_def find_maxvtx_def max_end_eq end0_def end1_def write_edge_def)
  then show ?thesis
    using csr_bfs_correct [of "\<lambda>_. True" 0 "[write_edge 0 1, write_edge 1 2, write_edge 0 1, write_edge 3 3]" "[0, 0, 0, 0]" 5] by simp
qed

end
