(* ===== verification/Bitmap.thy ===== *)
theory Bitmap
  imports Prelude
begin

text \<open>
  The bitmaps of the parallel breadth first search (\<^verbatim>\<open>graph500/omp-csr/bitmap.h\<close>) with the
  atomic operations of \<^verbatim>\<open>omp-csr.c\<close> they rest on. A bitmap is the array of words between its
  two pointers; positions are vertex numbers, natural numbers in the model.
\<close>

section \<open>Atomic operations\<close>

text \<open>Each works on the contents of one cell (a bitmap word, a counter or a vertex) and returns the
  new contents with its result.\<close>

definition int64_fetch_add :: "'a::plus \<Rightarrow> 'a \<Rightarrow> 'a \<times> 'a" where
  "int64_fetch_add p inc = (p, p + inc)"

definition int64_casval :: "'a \<Rightarrow> 'a \<Rightarrow> 'a \<Rightarrow> 'a \<times> 'a" where
  "int64_casval p oldval newval = (p, if p = oldval then newval else p)"

definition int64_cas :: "'a \<Rightarrow> 'a \<Rightarrow> 'a \<Rightarrow> bool \<times> 'a" where
  "int64_cas p oldval newval = (if p = oldval then (True, newval) else (False, p))"

section \<open>Bitmaps\<close>

record bitmap_t =
  words :: "u64 list"

definition WORD_OFFSET :: "nat \<Rightarrow> nat" where
  "WORD_OFFSET n = n div 64"

definition BIT_OFFSET :: "nat \<Rightarrow> nat" where
  "BIT_OFFSET n = n AND 0x3f"

definition bm_reset :: "bitmap_t \<Rightarrow> bitmap_t" where
  "bm_reset bm = bm\<lparr>words := map (\<lambda>_. 0) (words bm)\<rparr>"

text \<open>
  \<^verbatim>\<open>xmalloc\<close> returns memory with arbitrary contents, the argument \<open>junk\<close>. The size is a
  32-bit \<^verbatim>\<open>int\<close>, whose overflow is undefined.
\<close>

definition bm_init :: "(nat \<Rightarrow> u64) \<Rightarrow> nat \<Rightarrow> bitmap_t result" where
  "bm_init junk sz =
     (if sz + 63 \<ge> 2 ^ 31 then Inl Undefined
      else let num_longs = (sz + 63) div 64 in Inr (bm_reset \<lparr>words = map junk [0..<num_longs]\<rparr>))"

definition bm_get_bit :: "bitmap_t \<Rightarrow> nat \<Rightarrow> u64 result" where
  "bm_get_bit bm pos =
     bindE (arr_get (words bm) (WORD_OFFSET pos)) (\<lambda>w. Inr (w AND push_bit (BIT_OFFSET pos) 1))"

text \<open>\<^verbatim>\<open>while (!(temp & 1))\<close>: 64 iterations are enough for a word with a bit set.\<close>

fun skip_zeros :: "nat \<Rightarrow> u64 \<Rightarrow> nat \<Rightarrow> int result" where
  "skip_zeros 0 temp next = Inl Out_of_fuel"
| "skip_zeros (Suc fuel) temp next =
     (if temp AND 1 = 0 then skip_zeros fuel (drop_bit 1 temp) (next + 1) else Inr (int next))"

function next_word :: "u64 list \<Rightarrow> nat \<Rightarrow> nat \<Rightarrow> (u64 \<times> nat) option" where
  "next_word ws it next =
     (let it = Suc it in
      if it \<ge> length ws then None
      else let temp = ws ! it; next = next + 64 in
        if temp = 0 then next_word ws it next else Some (temp, next))"
  by pat_completeness auto
termination
  by (relation "measure (\<lambda>(ws, it, next). length ws - it)") auto

declare next_word.simps [simp del]

definition bm_get_next_bit :: "bitmap_t \<Rightarrow> nat \<Rightarrow> int result" where
  "bm_get_next_bit bm pos =
     bindE (arr_get (words bm) (WORD_OFFSET pos)) (\<lambda>w.
     let bit_offset = BIT_OFFSET pos;
         temp = (if bit_offset \<noteq> 63 then drop_bit (bit_offset + 1) w else 0) in
     if temp = 0 then
       (case next_word (words bm) (WORD_OFFSET pos) (pos AND 0xffffffc0) of
          None \<Rightarrow> Inr (-1)
        | Some (temp, next) \<Rightarrow> skip_zeros 64 temp next)
     else skip_zeros 64 temp (pos + 1))"

definition bm_set_bit :: "bitmap_t \<Rightarrow> nat \<Rightarrow> bitmap_t result" where
  "bm_set_bit bm pos =
     bindE (arr_get (words bm) (WORD_OFFSET pos)) (\<lambda>w.
     bindE (arr_set (words bm) (WORD_OFFSET pos) (w OR push_bit (BIT_OFFSET pos) 1)) (\<lambda>ws.
     Inr (bm\<lparr>words := ws\<rparr>)))"

text \<open>
  The loop of \<^verbatim>\<open>bm_set_bit_atomic\<close> on the contents of the word: \<open>env\<close> lists what other
  threads do to the word between the read and the compare-and-swap of each iteration.
\<close>

fun set_bit_loop :: "(u64 \<Rightarrow> u64) list \<Rightarrow> nat \<Rightarrow> u64 \<Rightarrow> u64" where
  "set_bit_loop [] b loc = snd (int64_cas loc loc (loc OR push_bit b 1))"
| "set_bit_loop (e # env) b loc =
     (let old_val = loc; new_val = old_val OR push_bit b 1; (ok, loc) = int64_cas (e loc) old_val new_val in
      if ok then loc else set_bit_loop env b loc)"

definition bm_set_bit_atomic :: "(u64 \<Rightarrow> u64) list \<Rightarrow> bitmap_t \<Rightarrow> nat \<Rightarrow> bitmap_t result" where
  "bm_set_bit_atomic env bm pos =
     bindE (arr_get (words bm) (WORD_OFFSET pos)) (\<lambda>w.
     bindE (arr_set (words bm) (WORD_OFFSET pos) (set_bit_loop env (BIT_OFFSET pos) w)) (\<lambda>ws.
     Inr (bm\<lparr>words := ws\<rparr>)))"

definition bm_swap :: "bitmap_t \<Rightarrow> bitmap_t \<Rightarrow> bitmap_t \<times> bitmap_t" where
  "bm_swap a b = (let temp = words a; a = a\<lparr>words := words b\<rparr>; b = b\<lparr>words := temp\<rparr> in (a, b))"

section \<open>The set a bitmap stands for\<close>

definition bm_size :: "bitmap_t \<Rightarrow> nat" where
  "bm_size bm = 64 * length (words bm)"

definition bm_set :: "bitmap_t \<Rightarrow> nat set" where
  "bm_set bm = {p. p < bm_size bm \<and> bit (words bm ! (p div 64)) (p mod 64)}"

lemma finite_bm_set [simp]: "finite (bm_set bm)"
  by (rule finite_subset [of _ "{..<bm_size bm}"]) (auto simp: bm_set_def)

lemma BIT_OFFSET_eq: "BIT_OFFSET p = p mod 64"
proof -
  have m: "(0x3f :: nat) = mask 6" by (simp add: mask_eq_exp_minus_1)
  show ?thesis unfolding BIT_OFFSET_def m take_bit_eq_mask [symmetric] by (simp add: take_bit_eq_mod)
qed

lemma WORD_OFFSET_less: "p < bm_size bm \<Longrightarrow> p div 64 < length (words bm)"
  by (simp add: bm_size_def)

lemma mask_words:
  fixes p :: nat
  assumes "p < 2 ^ 32"
  shows "p AND 0xffffffc0 = 64 * (p div 64)"
proof -
  have m: "(0xffffffc0 :: nat) = push_bit 6 (mask 26)" by (simp add: mask_eq_exp_minus_1)
  have "take_bit 32 p = p" using assms by (simp add: take_bit_nat_eq_self)
  then have b: "i < 32" if "bit p i" for i using that by (metis bit_take_bit_iff)
  have "p AND push_bit 6 (mask 26) = push_bit 6 (drop_bit 6 p)"
    by (rule bit_eqI) (auto simp: bit_and_iff bit_push_bit_iff bit_mask_iff bit_drop_bit_eq dest: b)
  then show ?thesis unfolding m by (simp add: push_bit_eq_mult drop_bit_eq_div)
qed

lemma and_push_1: "(w AND push_bit b 1 \<noteq> (0 :: u64)) \<longleftrightarrow> b < 64 \<and> bit w b"
proof
  assume "w AND push_bit b 1 \<noteq> 0"
  then obtain i where "bit (w AND push_bit b 1) i" by (metis bit_0_eq bot_apply bot_bool_def bit_word_eqI bit_imp_le_length)
  then show "b < 64 \<and> bit w b" by (auto simp: bit_and_iff bit_exp_iff dest: bit_imp_le_length)
next
  assume "b < 64 \<and> bit w b"
  then have "bit (w AND push_bit b 1) b" by (simp add: bit_and_iff bit_exp_iff)
  then show "w AND push_bit b 1 \<noteq> 0" by (metis bit_0_eq bot_apply bot_bool_def)
qed

lemma skip_zeros_spec:
  "bit temp d \<Longrightarrow> (\<And>j. j < d \<Longrightarrow> \<not> bit temp j) \<Longrightarrow> d < fuel \<Longrightarrow> skip_zeros fuel temp nx = Inr (int (nx + d))"
proof (induction fuel arbitrary: temp nx d)
  case (Suc fuel)
  have odd: "temp AND 1 = 0 \<longleftrightarrow> \<not> bit temp 0" by (simp add: and_one_eq bit_0 even_iff_mod_2_eq_zero)
  show ?case
  proof (cases d)
    case 0
    then show ?thesis using Suc.prems(1) odd by simp
  next
    case (Suc e)
    have "skip_zeros fuel (drop_bit 1 temp) (nx + 1) = Inr (int (nx + 1 + e))"
      by (rule Suc.IH) (use Suc.prems Suc in \<open>auto simp: bit_drop_bit_eq\<close>)
    moreover have "\<not> bit temp 0" using Suc.prems(2) [of 0] Suc by simp
    ultimately show ?thesis using odd Suc by simp
  qed
qed simp

lemma word_least_bit:
  assumes "(w :: u64) \<noteq> 0"
  obtains d where "bit w d" "\<And>j. j < d \<Longrightarrow> \<not> bit w j" "d < 64"
proof -
  obtain i where "bit w i" using assms by (metis bit_0_eq bot_apply bot_bool_def bit_word_eqI)
  then have "bit w (LEAST i. bit w i)" by (rule LeastI)
  moreover have "(LEAST i. bit w i) < 64" using bit_imp_le_length [OF calculation] by simp
  moreover have "\<not> bit w j" if "j < (LEAST i. bit w i)" for j using that not_less_Least by blast
  ultimately show thesis using that by blast
qed

lemma next_word_spec:
  "next_word ws it nx = (if \<exists>i. it < i \<and> i < length ws \<and> ws ! i \<noteq> 0
     then let i = (LEAST i. it < i \<and> i < length ws \<and> ws ! i \<noteq> 0) in Some (ws ! i, nx + 64 * (i - it)) else None)"
proof (induction ws it nx rule: next_word.induct)
  case (1 ws it nx)
  let ?P = "\<lambda>it i. it < i \<and> i < length ws \<and> ws ! i \<noteq> 0"
  show ?case
  proof (cases "Suc it \<ge> length ws")
    case True
    then show ?thesis by (subst next_word.simps) auto
  next
    case False
    show ?thesis
    proof (cases "ws ! Suc it = 0")
      case True
      have P: "?P it i \<longleftrightarrow> ?P (Suc it) i" for i using True by (metis Suc_lessI Suc_lessD)
      have "i - it = Suc (i - Suc it)" if "?P (Suc it) i" for i using that by auto
      moreover have "?P (Suc it) (LEAST i. ?P (Suc it) i)" if "\<exists>i. ?P (Suc it) i" using that by (rule LeastI_ex)
      ultimately show ?thesis using 1 [OF refl False refl refl True] False True
        by (subst next_word.simps) (auto simp: P Let_def)
    next
      case nz: False
      then have ex: "\<exists>i. ?P it i" using False by (intro exI [of _ "Suc it"]) simp
      have "(LEAST i. ?P it i) = Suc it" using False nz by (intro Least_equality) auto
      then show ?thesis using False nz ex by (subst next_word.simps) (simp add: Let_def)
    qed
  qed
qed

lemma bit_word_less: "bit (w :: u64) d \<Longrightarrow> d < 64"
  using bit_imp_le_length by fastforce

lemma mem_bm_set:
  assumes "i < length (words bm)" and "bit (words bm ! i) d"
  shows "64 * i + d \<in> bm_set bm"
  using assms bit_word_less [OF assms(2)] by (simp add: bm_set_def bm_size_def)

text \<open>Finding the first element above a position, in the same word or in a later one.\<close>

lemma least_above:
  assumes "q \<in> bm_set bm" "p < q" and "\<And>r. r \<in> bm_set bm \<Longrightarrow> p < r \<Longrightarrow> q \<le> r"
  shows "(if {q \<in> bm_set bm. p < q} = {} then - 1 else int (Min {q \<in> bm_set bm. p < q})) = int q"
proof -
  have "Min {q \<in> bm_set bm. p < q} = q" by (rule Min_eqI) (use assms in auto)
  then show ?thesis using assms(1,2) by auto
qed

lemma next_bit_spec:
  assumes "bm_size bm \<le> 2 ^ 32" and "p < bm_size bm"
  shows "bm_get_next_bit bm p =
    Inr (if {q \<in> bm_set bm. p < q} = {} then - 1 else int (Min {q \<in> bm_set bm. p < q}))"
proof -
  let ?ws = "words bm" and ?i = "p div 64" and ?b = "p mod 64"
  have i: "?i < length ?ws" by (rule WORD_OFFSET_less [OF assms(2)])
  have p: "64 * ?i + ?b = p" by simp
  define temp where "temp = (if ?b \<noteq> 63 then drop_bit (?b + 1) (?ws ! ?i) else 0)"
  have bt: "bit temp d \<longleftrightarrow> bit (?ws ! ?i) (?b + 1 + d)" for d
    using bit_word_less [of "?ws ! ?i" "?b + 1 + d"] by (auto simp: temp_def bit_drop_bit_eq)
  have red: "bm_get_next_bit bm p = (if temp = 0 then
       (case next_word ?ws ?i (64 * ?i) of None \<Rightarrow> Inr (-1) | Some (temp, next) \<Rightarrow> skip_zeros 64 temp next)
     else skip_zeros 64 temp (p + 1))"
    using i assms by (simp add: bm_get_next_bit_def WORD_OFFSET_def BIT_OFFSET_eq mask_words temp_def Let_def)
  show ?thesis
  proof (cases "temp = 0")
    case False
    obtain d where d: "bit temp d" "\<And>j. j < d \<Longrightarrow> \<not> bit temp j" "d < 64" using word_least_bit [OF False] by blast
    have m: "p + 1 + d \<in> bm_set bm" using mem_bm_set [OF i, of "?b + 1 + d"] d(1) p by (simp add: bt add.assoc)
    have "p + 1 + d \<le> r" if r: "r \<in> bm_set bm" "p < r" for r
    proof (rule ccontr)
      assume "\<not> p + 1 + d \<le> r"
      then have j: "r = p + 1 + (r - p - 1)" "r - p - 1 < d" using r(2) by simp_all
      have "?b + 1 + d < 64" using bit_word_less d(1) bt by blast
      then have "64 * ?i + (?b + 1 + (r - p - 1)) = r" "?b + 1 + (r - p - 1) < 64" using j p by simp_all
      then have "r div 64 = ?i" "r mod 64 = ?b + 1 + (r - p - 1)" by (metis div_mult_self4 div_less add_0_right zero_neq_numeral, metis mod_mult_self4 mod_less)
      then show False using r(1) d(2) [OF j(2)] by (simp add: bm_set_def bt)
    qed
    then show ?thesis using least_above [OF m] skip_zeros_spec [OF d] False by (simp add: red)
  next
    case True
    then have none: "\<not> bit (?ws ! ?i) (?b + 1 + d)" for d using bt by (metis bit_0_eq bot_apply bot_bool_def)
    have later: "?i < r div 64 \<and> r div 64 < length ?ws \<and> ?ws ! (r div 64) \<noteq> 0" if r: "r \<in> bm_set bm" "p < r" for r
    proof -
      have "r div 64 \<noteq> ?i"
      proof
        assume "r div 64 = ?i"
        then have "r mod 64 = ?b + 1 + (r - p - 1)"
          using r(2) div_mult_mod_eq [of r 64] div_mult_mod_eq [of p 64] by linarith
        then show False using none r(1) \<open>r div 64 = ?i\<close> by (simp add: bm_set_def)
      qed
      moreover have "?i \<le> r div 64" using r(2) by (simp add: div_le_mono)
      moreover have "?ws ! (r div 64) \<noteq> 0" using r(1) by (auto simp: bm_set_def)
      ultimately show ?thesis using r(1) WORD_OFFSET_less [of r bm] by (auto simp: bm_set_def)
    qed
    let ?P = "\<lambda>i. ?i < i \<and> i < length ?ws \<and> ?ws ! i \<noteq> 0"
    show ?thesis
    proof (cases "\<exists>i. ?P i")
      case False
      then have "{q \<in> bm_set bm. p < q} = {}" using later by blast
      then show ?thesis using red True False by (simp add: next_word_spec)
    next
      case ex: True
      define k where "k = (LEAST i. ?P i)"
      have k: "?P k" unfolding k_def by (rule LeastI_ex [OF ex])
      have kl: "k \<le> j" if "?P j" for j unfolding k_def by (rule Least_le) (rule that)
      obtain d where d: "bit (?ws ! k) d" "\<And>j. j < d \<Longrightarrow> \<not> bit (?ws ! k) j" "d < 64" using word_least_bit k by blast
      have m: "64 * k + d \<in> bm_set bm" using mem_bm_set [of k bm d] d(1) k by simp
      have "64 + 64 * ?i \<le> 64 * k" using mult_le_mono2 [of "Suc ?i" k 64] k by simp
      moreover have "p mod 64 < 64" by simp
      ultimately have lt: "p < 64 * k + d" using p by linarith
      have "64 * k + d \<le> r" if r: "r \<in> bm_set bm" "p < r" for r
      proof -
        have "k \<le> r div 64" using kl later [OF r] by blast
        moreover have "d \<le> r mod 64" if "r div 64 = k" using d(2) [of "r mod 64"] r(1) that by (auto simp: bm_set_def not_less [symmetric])
        moreover have "64 + 64 * k \<le> 64 * (r div 64)" if "r div 64 \<noteq> k" using that \<open>k \<le> r div 64\<close> by simp
        moreover have "64 * (r div 64) + r mod 64 = r" by simp
        ultimately show ?thesis using d(3) by (cases "r div 64 = k") auto
      qed
      moreover have "next_word ?ws ?i (64 * ?i) = Some (?ws ! k, 64 * k)"
        using ex k by (simp add: next_word_spec k_def [symmetric] Let_def diff_mult_distrib2)
      ultimately show ?thesis using least_above [OF m lt] skip_zeros_spec [OF d] red True by simp
    qed
  qed
qed

lemma set_bit_loop_grows:
  assumes "\<forall>e \<in> set env. \<forall>x i. bit x i \<longrightarrow> bit (e x) i" and "b < 64"
  shows "bit (set_bit_loop env b loc) b \<and> (bit loc i \<longrightarrow> bit (set_bit_loop env b loc) i)"
  using assms
proof (induction env arbitrary: loc)
  case (Cons e env)
  then show ?case by (auto simp: int64_cas_def Let_def bit_or_iff bit_exp_iff)
qed (auto simp: int64_cas_def bit_or_iff bit_exp_iff)

lemma set_bit_atomic_spec:
  assumes "p < bm_size bm" and "\<forall>e \<in> set env. \<forall>x i. bit x i \<longrightarrow> bit (e x) i"
  shows "\<exists>bm'. bm_set_bit_atomic env bm p = Inr bm' \<and> bm_size bm' = bm_size bm \<and> insert p (bm_set bm) \<subseteq> bm_set bm'"
proof -
  let ?ws = "words bm" and ?i = "p div 64" and ?b = "p mod 64"
  let ?bm = "bm\<lparr>words := ?ws[?i := set_bit_loop env ?b (?ws ! ?i)]\<rparr>"
  have i: "?i < length ?ws" by (rule WORD_OFFSET_less [OF assms(1)])
  have "bm_set_bit_atomic env bm p = Inr ?bm" using i by (simp add: bm_set_bit_atomic_def WORD_OFFSET_def BIT_OFFSET_eq)
  moreover have "insert p (bm_set bm) \<subseteq> bm_set ?bm"
    using set_bit_loop_grows [OF assms(2), of ?b "?ws ! ?i"] assms(1) i
    by (auto simp: bm_set_def bm_size_def nth_list_update)
  ultimately show ?thesis by (simp add: bm_size_def)
qed

lemma set_bit_spec:
  assumes "p < bm_size bm"
  shows "\<exists>bm'. bm_set_bit bm p = Inr bm' \<and> bm_set_bit_atomic [] bm p = Inr bm' \<and>
    bm_size bm' = bm_size bm \<and> bm_set bm' = insert p (bm_set bm)"
proof -
  let ?ws = "words bm" and ?i = "p div 64" and ?b = "p mod 64"
  let ?w = "?ws ! ?i OR push_bit ?b 1" let ?bm = "bm\<lparr>words := ?ws[?i := ?w]\<rparr>"
  have i: "?i < length ?ws" by (rule WORD_OFFSET_less [OF assms])
  have "bit ?w d \<longleftrightarrow> bit (?ws ! ?i) d \<or> d = ?b" for d by (auto simp: bit_or_iff bit_exp_iff)
  moreover have "r = p \<longleftrightarrow> r div 64 = ?i \<and> r mod 64 = ?b" for r by (metis div_mult_mod_eq)
  ultimately have "bm_set ?bm = insert p (bm_set bm)"
    using i assms by (auto simp: bm_set_def bm_size_def nth_list_update)
  then show ?thesis using i
    by (simp add: bm_set_bit_def bm_set_bit_atomic_def int64_cas_def WORD_OFFSET_def BIT_OFFSET_eq bm_size_def)
qed

lemma get_bit_spec: "p < bm_size bm \<Longrightarrow> \<exists>w. bm_get_bit bm p = Inr w \<and> (w \<noteq> 0 \<longleftrightarrow> p \<in> bm_set bm)"
  using WORD_OFFSET_less [of p bm] and_push_1
  by (simp add: bm_get_bit_def WORD_OFFSET_def BIT_OFFSET_eq bm_set_def)

lemma init_spec: "n + 63 < 2 ^ 31 \<Longrightarrow> \<exists>bm. bm_init junk n = Inr bm \<and> bm_set bm = {} \<and> n \<le> bm_size bm"
  by (auto simp: bm_set_def bm_size_def bm_init_def bm_reset_def Let_def)

section \<open>Properties\<close>

text \<open>
  C34. A bitmap is a set of vertices. A new one (of a size that \<^verbatim>\<open>int\<close> can round up) is
  empty and large enough; for a bitmap of at
  most \<open>2 ^ 32\<close> bits (beyond, the mask \<^verbatim>\<open>0xffffffc0\<close> of \<^verbatim>\<open>bm_get_next_bit\<close> drops the
  upper half of the position), reading a bit tests membership, the next bit is the least element
  above a position or -1, and setting a bit inserts it, with and without the
  compare-and-swap loop. If other threads set bits of the word meanwhile, the loop still ends
  with the bit set and no bit lost.
\<close>

theorem bitmap_is_set:
  assumes "p < bm_size bm" and "bm_size bm \<le> 2 ^ 32" and "\<forall>e \<in> set env. \<forall>x i. bit x i \<longrightarrow> bit (e x) i"
  shows "(n + 63 < 2 ^ 31 \<longrightarrow> (\<exists>bm. bm_init junk n = Inr bm \<and> bm_set bm = {} \<and> n \<le> bm_size bm)) \<and>
    (\<exists>w. bm_get_bit bm p = Inr w \<and> (w \<noteq> 0 \<longleftrightarrow> p \<in> bm_set bm)) \<and>
    bm_get_next_bit bm p = Inr (if {q \<in> bm_set bm. p < q} = {} then - 1 else int (Min {q \<in> bm_set bm. p < q})) \<and>
    (\<exists>bm'. bm_set_bit bm p = Inr bm' \<and> bm_set_bit_atomic [] bm p = Inr bm' \<and> bm_set bm' = insert p (bm_set bm)) \<and>
    (\<exists>bm'. bm_set_bit_atomic env bm p = Inr bm' \<and> insert p (bm_set bm) \<subseteq> bm_set bm')"
proof (intro conjI)
  show "\<exists>w. bm_get_bit bm p = Inr w \<and> (w \<noteq> 0 \<longleftrightarrow> p \<in> bm_set bm)" by (rule get_bit_spec [OF assms(1)])
  show "\<exists>bm'. bm_set_bit bm p = Inr bm' \<and> bm_set_bit_atomic [] bm p = Inr bm' \<and> bm_set bm' = insert p (bm_set bm)"
    using set_bit_spec [OF assms(1)] by blast
  show "\<exists>bm'. bm_set_bit_atomic env bm p = Inr bm' \<and> insert p (bm_set bm) \<subseteq> bm_set bm'"
    using set_bit_atomic_spec [OF assms(1,3)] by blast
qed (rule impI init_spec next_bit_spec [OF assms(2,1)] | assumption)+

theorem bitmap_is_set_witness:
  "bm_get_next_bit \<lparr>words = [2, 0, 5]\<rparr> 1 = Inr 128"
proof -
  let ?bm = "\<lparr>words = [2, 0, 5]\<rparr> :: bitmap_t"
  have b2: "bit (2 :: u64) d \<longleftrightarrow> d = 1" for d using bit_exp_iff [of 1 d, where 'a = u64] by auto
  have q: "128 \<in> bm_set ?bm" using mem_bm_set [of 2 ?bm 0] by (simp add: bit_0)
  have least: "128 \<le> r" if r: "r \<in> bm_set ?bm" "1 < r" for r
  proof (rule ccontr)
    assume "\<not> 128 \<le> r"
    then consider "r div 64 = 0" "r mod 64 = r" | "r div 64 = 1" by fastforce
    then show False using r b2 [of r] by cases (auto simp: bm_set_def)
  qed
  have s: "(1 :: nat) < bm_size ?bm" "bm_size ?bm \<le> 2 ^ 32" by (simp_all add: bm_size_def)
  have "bm_get_next_bit ?bm 1 = Inr (if {q \<in> bm_set ?bm. 1 < q} = {} then - 1 else int (Min {q \<in> bm_set ?bm. 1 < q}))"
    using bitmap_is_set [OF s, of "[]"] by simp
  also have "(if {q \<in> bm_set ?bm. 1 < q} = {} then - 1 else int (Min {q \<in> bm_set ?bm. 1 < q})) = int 128"
    by (rule least_above [OF q]) (use least in simp_all)
  finally show ?thesis by simp
qed

end
