(* ===== verification/OmpQueue.thy ===== *)
theory OmpQueue
  imports Bitmap "HOL-Library.Multiset"
begin

text \<open>
  The teams of threads of the parallel breadth first search, and its conversions between the queue
  and the bitmap (\<^verbatim>\<open>graph500/omp-csr/omp-csr.c\<close>). An \<^verbatim>\<open>omp for\<close> loop whose iterations are
  commuting atomic operations takes a schedule of its iterations. Where threads race for more than that,
  each is a state of its own with the accesses to shared variables as its steps, and a run is the
  order in which the threads take their steps. The \<^verbatim>\<open>int\<close> \<^verbatim>\<open>my_in\<close> is a natural
  number: \<^verbatim>\<open>bm_init\<close> has already failed for graphs on which it could overflow.
\<close>

section \<open>Teams\<close>

text \<open>The iterations of a loop in the order in which they happen, each with the number of its thread.\<close>

type_synonym sched = "nat \<Rightarrow> nat \<Rightarrow> (nat \<times> nat) list"

definition par_for :: "sched \<Rightarrow> nat \<Rightarrow> nat \<Rightarrow> (nat \<Rightarrow> nat \<Rightarrow> 's \<Rightarrow> 's result) \<Rightarrow> 's \<Rightarrow> 's result" where
  "par_for sched a b body = foldE (\<lambda>(t, k). body t k) (sched a b)"

text \<open>Every iteration happens once, in a thread of the team.\<close>

definition legal_sched :: "nat \<Rightarrow> sched \<Rightarrow> bool" where
  "legal_sched nt sched \<longleftrightarrow> (\<forall>a b. mset (map snd (sched a b)) = mset [a..<b] \<and> (\<forall>(t, k) \<in> set (sched a b). t < nt))"

text \<open>
  Racing threads: \<open>turns\<close> says whose step is next. What \<open>turns\<close> leaves, the threads do one after
  the other. A thread that is done does not change, so \<open>bound\<close> only has to be large enough, and
  every complete run of the team is the one of some \<open>turns\<close>.
\<close>

definition run_team :: "nat \<Rightarrow> nat \<Rightarrow> nat list \<Rightarrow> (nat \<Rightarrow> 's \<Rightarrow> 's result) \<Rightarrow> 's \<Rightarrow> 's result" where
  "run_team nt bound turns step s =
     bindE (foldE step turns s) (foldE (\<lambda>tid. iterE bound (step tid)) [0..<nt])"

section \<open>The queue\<close>

definition THREAD_BUF_LEN :: nat where
  "THREAD_BUF_LEN = 16384"

text \<open>
  A thread empties its buffer \<^verbatim>\<open>local\<close> (the list of its first entries) in several steps:
  \<^verbatim>\<open>int64_fetch_add\<close> reserves cells of the queue, and then each cell is written. The cells that
  are reserved and not yet written are the copies of the thread.
\<close>

type_synonym vqueue = "nat list \<times> nat"

type_synonym copies = "(nat \<times> nat) list"

definition reserve :: "nat list \<Rightarrow> vqueue \<Rightarrow> copies \<times> vqueue" where
  "reserve local = (\<lambda>(vlist, q_in).
     let (my_in, q_in) = int64_fetch_add q_in (length local) in (zip [my_in..<my_in + length local] local, vlist, q_in))"

definition copy_cell :: "nat \<times> nat \<Rightarrow> vqueue \<Rightarrow> vqueue result" where
  "copy_cell = (\<lambda>(p, v) (vlist, q_in). bindE (arr_set vlist p v) (\<lambda>vlist. Inr (vlist, q_in)))"

definition fill_bitmap_from_queue :: "sched \<Rightarrow> nat list \<Rightarrow> nat \<Rightarrow> nat \<Rightarrow> bitmap_t \<Rightarrow> bitmap_t result" where
  "fill_bitmap_from_queue sched vlist q_out q_in =
     par_for sched q_out q_in (\<lambda>t q_index bm. bindE (arr_get vlist q_index) (\<lambda>v. bm_set_bit_atomic [] bm v))"

text \<open>A thread of \<^verbatim>\<open>fill_queue_from_bitmap\<close>: before the test of \<^verbatim>\<open>i < nv\<close>, in the loop, after it, at the end.\<close>

datatype fill_pc = Fill_start | Fill_scan | Fill_rest | Fill_done

record fill_thread =
  ft_pc :: fill_pc
  ft_i :: int
  ft_end :: nat
  ft_local :: "nat list"
  ft_copies :: copies

definition fill_chunk :: "nat \<Rightarrow> nat \<Rightarrow> nat \<Rightarrow> nat \<times> nat" where
  "fill_chunk nv num_threads thread_num =
     (let nodes_per_thread = (nv + num_threads - 1) div num_threads; i = nodes_per_thread * thread_num;
        i_end = i + nodes_per_thread in (i, if i_end \<ge> nv then nv else i_end))"

definition fill_start :: "nat \<Rightarrow> nat \<Rightarrow> bitmap_t \<Rightarrow> nat \<Rightarrow> fill_thread \<Rightarrow> fill_thread result" where
  "fill_start nv num_threads bm thread_num th =
     (let (i, i_end) = fill_chunk nv num_threads thread_num in
      if i < nv then
        bindE (bm_get_bit bm i) (\<lambda>w.
        bindE (bm_get_next_bit bm i) (\<lambda>next.
        Inr (th\<lparr>ft_pc := Fill_scan, ft_i := next, ft_end := i_end, ft_local := if w \<noteq> 0 then [i] else []\<rparr>)))
      else Inr (th\<lparr>ft_pc := Fill_rest\<rparr>))"

definition fill_scan :: "bitmap_t \<Rightarrow> fill_thread \<Rightarrow> vqueue \<Rightarrow> (fill_thread \<times> vqueue) result" where
  "fill_scan bm th q =
     (if ft_i th \<noteq> -1 \<and> ft_i th < int (ft_end th) then
        if length (ft_local th) \<ge> THREAD_BUF_LEN then Inl Out_of_bounds
        else let local = ft_local th @ [nat (ft_i th)] in
          bindE (bm_get_next_bit bm (nat (ft_i th))) (\<lambda>i.
          if length local = THREAD_BUF_LEN then
            let (cs, q) = reserve local q in Inr (th\<lparr>ft_i := i, ft_local := [], ft_copies := cs\<rparr>, q)
          else Inr (th\<lparr>ft_i := i, ft_local := local\<rparr>, q))
      else Inr (th\<lparr>ft_pc := Fill_rest\<rparr>, q))"

definition fill_step :: "nat \<Rightarrow> nat \<Rightarrow> bitmap_t \<Rightarrow> nat \<Rightarrow> fill_thread \<Rightarrow> vqueue \<Rightarrow> (fill_thread \<times> vqueue) result" where
  "fill_step nv num_threads bm thread_num th q =
     (case ft_copies th of
        c # cs \<Rightarrow> bindE (copy_cell c q) (\<lambda>q. Inr (th\<lparr>ft_copies := cs\<rparr>, q))
      | [] \<Rightarrow>
          (case ft_pc th of
             Fill_start \<Rightarrow> bindE (fill_start nv num_threads bm thread_num th) (\<lambda>th. Inr (th, q))
           | Fill_scan \<Rightarrow> fill_scan bm th q
           | Fill_rest \<Rightarrow>
               let (cs, q) = reserve (ft_local th) q in Inr (th\<lparr>ft_pc := Fill_done, ft_local := [], ft_copies := cs\<rparr>, q)
           | Fill_done \<Rightarrow> Inr (th, q)))"

definition fill_team :: "nat \<Rightarrow> nat \<Rightarrow> bitmap_t \<Rightarrow> nat \<Rightarrow> fill_thread list \<times> vqueue \<Rightarrow> (fill_thread list \<times> vqueue) result" where
  "fill_team nv num_threads bm tid = (\<lambda>(ths, q).
     if tid < length ths then
       bindE (fill_step nv num_threads bm tid (ths ! tid) q) (\<lambda>(th, q). Inr (ths[tid := th], q))
     else Inr (ths, q))"

definition new_fill_thread :: fill_thread where
  "new_fill_thread = \<lparr>ft_pc = Fill_start, ft_i = 0, ft_end = 0, ft_local = [], ft_copies = []\<rparr>"

text \<open>The new queue, with \<^verbatim>\<open>*out\<close> and \<^verbatim>\<open>*in\<close>. A thread takes at most \<open>2 * nv + 3\<close> steps.\<close>

definition fill_queue_from_bitmap :: "nat \<Rightarrow> nat \<Rightarrow> nat list \<Rightarrow> bitmap_t \<Rightarrow> nat list \<Rightarrow> (nat list \<times> nat \<times> nat) result" where
  "fill_queue_from_bitmap nv num_threads turns bm vlist =
     bindE (run_team num_threads (2 * nv + 3) turns (fill_team nv num_threads bm)
       (replicate num_threads new_fill_thread, vlist, 0)) (\<lambda>(ths, vlist, q_in).
     Inr (vlist, 0, q_in))"

section \<open>What a team keeps\<close>

text \<open>The numbers \<open>W\<close> bound the steps that are left to each thread.\<close>

locale team =
  fixes step :: "nat \<Rightarrow> 's \<Rightarrow> 's result" and rep :: "(nat \<Rightarrow> nat) \<Rightarrow> 's \<Rightarrow> bool"
  assumes step_rep: "rep W s \<Longrightarrow> \<exists>s'. step tid s = Inr s' \<and> rep (W(tid := W tid - 1)) s'"
    and rep_mono: "rep W s \<Longrightarrow> (\<And>t. W t \<le> W' t) \<Longrightarrow> rep W' s"
begin

lemma turns_rep: "rep W s \<Longrightarrow> \<exists>s'. foldE step turns s = Inr s' \<and> rep W s'"
proof (induction turns arbitrary: s)
  case (Cons tid turns)
  obtain s1 where s1: "step tid s = Inr s1" "rep (W(tid := W tid - 1)) s1" using step_rep [OF Cons.prems] by blast
  have "rep W s1" using s1(2) by (rule rep_mono) simp
  then show ?case using Cons.IH s1(1) by simp
qed simp

lemma thread_runs: "rep W s \<Longrightarrow> \<exists>s'. iterE n (step tid) s = Inr s' \<and> rep (W(tid := W tid - n)) s'"
proof (induction n arbitrary: W s)
  case (Suc n)
  obtain s1 where s1: "step tid s = Inr s1" "rep (W(tid := W tid - 1)) s1" using step_rep [OF Suc.prems] by blast
  have eq: "(W(tid := W tid - 1))(tid := (W(tid := W tid - 1)) tid - n) = W(tid := W tid - Suc n)" by (simp add: fun_eq_iff)
  show ?case using Suc.IH [OF s1(2)] s1(1) unfolding eq by simp
qed simp

lemma run_done:
  assumes "rep (\<lambda>_. b) s"
  shows "\<exists>s'. run_team nt b turns step s = Inr s' \<and> rep (\<lambda>t. if t < nt then 0 else b) s'"
proof -
  obtain s1 where s1: "foldE step turns s = Inr s1" "rep (\<lambda>_. b) s1" using turns_rep [OF assms] by blast
  have "\<exists>s'. foldE (\<lambda>tid. iterE b (step tid)) [0..<nt] s1 = Inr s' \<and> rep (\<lambda>t. if t < nt then 0 else b) s'"
  proof (rule foldE_upt_inv [where I = "\<lambda>n. rep (\<lambda>t. if t < n then 0 else b)"])
    fix n s assume r: "rep (\<lambda>t. if t < n then 0 else b) s"
    have "(\<lambda>t. if t < n then 0 else b)(n := (if n < n then 0 else b) - b) = (\<lambda>t. if t < Suc n then 0 else b)"
      by (auto simp: less_Suc_eq)
    then show "\<exists>s'. iterE b (step n) s = Inr s' \<and> rep (\<lambda>t. if t < Suc n then 0 else b) s'"
      using thread_runs [OF r, of b n] by metis
  qed (use s1(2) in simp_all)
  then show ?thesis using s1(1) by (simp add: run_team_def)
qed

end

lemma legal_snd:
  assumes "legal_sched nt sched" "(t, k) \<in> set (sched a b)"
  shows "a \<le> k" "k < b" "t < nt"
proof -
  have "k \<in> set (map snd (sched a b))" using assms(2) by force
  also have "set (map snd (sched a b)) = set [a..<b]" using assms(1) unfolding legal_sched_def by (metis set_mset_mset)
  finally show "a \<le> k" "k < b" by simp_all
  show "t < nt" using assms unfolding legal_sched_def by blast
qed

lemma legal_image: "legal_sched nt sched \<Longrightarrow> snd ` set (sched a b) = {a..<b}"
proof -
  assume "legal_sched nt sched"
  then have "set_mset (mset (map snd (sched a b))) = set_mset (mset [a..<b])" by (simp only: legal_sched_def)
  then show ?thesis by simp
qed

lemma mset_concat_update: "t < length ls \<Longrightarrow> mset (concat (ls[t := x])) + mset (ls ! t) = mset (concat ls) + mset x"
proof (induction ls arbitrary: t)
  case (Cons l ls)
  then show ?case by (cases t) (simp_all add: add.assoc)
qed simp

lemma mset_exchange:
  assumes "a + h = b + h'" and "q' + h' = q + h"
  shows "q' + a = q + (b :: 'a multiset)"
proof (rule multiset_eqI)
  fix x
  show "count (q' + a) x = count (q + b) x"
    using arg_cong [OF assms(1), of "\<lambda>m. count m x"] arg_cong [OF assms(2), of "\<lambda>m. count m x"] by simp
qed

lemma map_upt_update: "tid < nt \<Longrightarrow> length xs = nt \<Longrightarrow>
  map (\<lambda>t. f t (xs[tid := x] ! t)) [0..<nt] = (map (\<lambda>t. f t (xs ! t)) [0..<nt])[tid := f tid x]"
  by (rule nth_equalityI) (auto simp: nth_list_update)

section \<open>A queue with reserved cells\<close>

definition queued :: "nat \<Rightarrow> nat list \<Rightarrow> vqueue \<Rightarrow> bool" where
  "queued L qs = (\<lambda>(vlist, n). n = length qs \<and> take n vlist = qs \<and> length vlist = L)"

text \<open>The first \<open>n\<close> cells are reserved for \<open>qs\<close>; those of \<open>P\<close> are not yet written.\<close>

definition racing :: "nat \<Rightarrow> nat list \<Rightarrow> (nat \<times> nat) set \<Rightarrow> vqueue \<Rightarrow> bool" where
  "racing L qs P = (\<lambda>(vlist, n). n = length qs \<and> n \<le> L \<and> length vlist = L \<and>
     (\<forall>(p, v) \<in> P. p < n \<and> qs ! p = v) \<and> (\<forall>p<n. vlist ! p = qs ! p \<or> p \<in> fst ` P))"

lemma racing_queued: "racing L qs {} q \<longleftrightarrow> queued L qs q"
proof -
  have "take (length qs) xs = qs \<longleftrightarrow> length qs \<le> length xs \<and> (\<forall>p<length qs. xs ! p = qs ! p)" for xs
  proof
    assume t: "take (length qs) xs = qs"
    have "xs ! p = qs ! p" if "p < length qs" for p using that t by (metis nth_take)
    then show "length qs \<le> length xs \<and> (\<forall>p<length qs. xs ! p = qs ! p)"
      using arg_cong [OF t, of length] by simp
  qed (auto intro: nth_equalityI)
  then show ?thesis by (cases q) (auto simp: racing_def queued_def)
qed

lemma racing_reserve:
  assumes "racing L qs P (vlist, n)" and "length qs + length local \<le> L"
  obtains cs where "reserve local (vlist, n) = (cs, vlist, n + length local)" "length cs = length local" "\<forall>(p, v) \<in> set cs. length qs \<le> p"
    "racing L (qs @ local) (P \<union> set cs) (vlist, n + length local)"
proof
  let ?cs = "zip [n..<n + length local] local"
  show "reserve local (vlist, n) = (?cs, vlist, n + length local)" by (simp add: reserve_def int64_fetch_add_def Let_def)
  show "length ?cs = length local" by simp
  have n: "n = length qs" and P: "\<And>p v. (p, v) \<in> P \<Longrightarrow> p < n \<and> qs ! p = v" and old: "\<And>p. p < n \<Longrightarrow> vlist ! p = qs ! p \<or> p \<in> fst ` P"
    and len: "length vlist = L" using assms(1) by (auto simp: racing_def)
  show "\<forall>(p, v) \<in> set ?cs. length qs \<le> p" using n by (auto simp: in_set_zip)
  have img: "fst ` set ?cs = {n..<n + length local}"
    by (metis length_upt diff_add_inverse map_fst_zip set_map set_upt)
  have "p < n + length local \<and> (qs @ local) ! p = v" if "(p, v) \<in> P \<union> set ?cs" for p v
    using that P n by (auto simp: nth_append in_set_zip)
  moreover have "vlist ! p = (qs @ local) ! p \<or> p \<in> fst ` (P \<union> set ?cs)" if "p < n + length local" for p
    using that old [of p] n unfolding image_Un img by (auto simp: nth_append)
  ultimately show "racing L (qs @ local) (P \<union> set ?cs) (vlist, n + length local)"
    using assms(2) n len by (auto simp: racing_def)
qed

lemma racing_copy:
  assumes "racing L qs P q" and "P = insert c P'"
  shows "\<exists>q'. copy_cell c q = Inr q' \<and> snd q' = snd q \<and> racing L qs P' q'"
proof -
  obtain vlist n where q: "q = (vlist, n)" by (cases q)
  obtain p v where c: "c = (p, v)" by (cases c)
  have R: "n = length qs" "n \<le> L" "length vlist = L" "\<forall>(p, v) \<in> P. p < n \<and> qs ! p = v" "\<forall>p<n. vlist ! p = qs ! p \<or> p \<in> fst ` P"
    using assms(1) by (auto simp: racing_def q)
  have p: "p < n" "qs ! p = v" using R(4) assms(2) c by auto
  have "racing L qs P' (vlist[p := v], n)"
    using R p assms(2) c by (auto simp: racing_def nth_list_update)
  then show ?thesis using p R(2,3) by (auto simp: copy_cell_def c q)
qed

text \<open>A thread that takes a copy off its list, or makes a new one.\<close>

lemma copies_pop: "t < length cs \<Longrightarrow> cs ! t = x # c \<Longrightarrow> set (concat cs) = insert x (set (concat (cs[t := c])))"
proof -
  assume a: "t < length cs" "cs ! t = x # c"
  have "mset (concat cs) = add_mset x (mset (concat (cs[t := c])))" using mset_concat_update [OF a(1), of c] a(2) by simp
  then show ?thesis by (metis set_mset_add_mset_insert set_mset_mset)
qed

lemma copies_push: "t < length cs \<Longrightarrow> cs ! t = [] \<Longrightarrow> set (concat (cs[t := c])) = set (concat cs) \<union> set c"
proof -
  assume a: "t < length cs" "cs ! t = []"
  have "mset (concat (cs[t := c])) = mset (concat cs) + mset c" using mset_concat_update [OF a(1), of c] a(2) by simp
  then show ?thesis by (metis set_mset_mset set_mset_union)
qed

section \<open>The bits of a chunk\<close>

definition above :: "bitmap_t \<Rightarrow> nat \<Rightarrow> int" where
  "above bm lo = (if {q \<in> bm_set bm. lo \<le> q} = {} then - 1 else int (Min {q \<in> bm_set bm. lo \<le> q}))"

definition between :: "bitmap_t \<Rightarrow> nat \<Rightarrow> nat \<Rightarrow> nat list" where
  "between bm lo hi = sorted_list_of_set {p \<in> bm_set bm. lo \<le> p \<and> p < hi}"

lemma next_above: "bm_size bm \<le> 2 ^ 32 \<Longrightarrow> p < bm_size bm \<Longrightarrow> bm_get_next_bit bm p = Inr (above bm (Suc p))"
  using next_bit_spec by (simp add: above_def Suc_le_eq)

lemma above_between:
  "between bm lo hi = (if above bm lo \<noteq> -1 \<and> above bm lo < int hi
     then nat (above bm lo) # between bm (Suc (nat (above bm lo))) hi else [])"
proof (cases "{q \<in> bm_set bm. lo \<le> q} = {}")
  case True
  then have "{p \<in> bm_set bm. lo \<le> p \<and> p < hi} = {}" by auto
  then have "between bm lo hi = []" unfolding between_def by simp
  then show ?thesis using True by (simp add: above_def)
next
  case False
  define m where "m = Min {q \<in> bm_set bm. lo \<le> q}"
  have m: "m \<in> bm_set bm" "lo \<le> m" "\<And>q. q \<in> bm_set bm \<Longrightarrow> lo \<le> q \<Longrightarrow> m \<le> q"
    using Min_in [OF _ False] by (auto simp: m_def)
  have a: "above bm lo = int m" using False by (simp add: above_def m_def)
  show ?thesis
  proof (cases "m < hi")
    case True
    have "between bm lo hi = m # between bm (Suc m) hi"
    proof (rule strict_sorted_equal)
      show "sorted_wrt (<) (m # between bm (Suc m) hi)" by (auto simp: between_def)
      show "set (between bm lo hi) = set (m # between bm (Suc m) hi)"
        using m True by (fastforce simp: between_def Suc_le_eq le_less)
    qed (simp add: between_def)
    then show ?thesis using a True by simp
  next
    case False
    then have "{p \<in> bm_set bm. lo \<le> p \<and> p < hi} = {}" using m(3) by fastforce
    then have "between bm lo hi = []" unfolding between_def by simp
    then show ?thesis using a False by simp
  qed
qed

lemma between_append:
  assumes "lo \<le> mid" and "mid \<le> hi"
  shows "between bm lo mid @ between bm mid hi = between bm lo hi"
proof (rule strict_sorted_equal)
  show "sorted_wrt (<) (between bm lo mid @ between bm mid hi)" by (auto simp: between_def sorted_wrt_append)
  show "set (between bm lo mid @ between bm mid hi) = set (between bm lo hi)" using assms by (auto simp: between_def)
qed (simp add: between_def)

lemma between_empty: "hi \<le> lo \<Longrightarrow> between bm lo hi = []"
proof -
  assume "hi \<le> lo"
  then have "{p \<in> bm_set bm. lo \<le> p \<and> p < hi} = {}" by auto
  then show ?thesis unfolding between_def by simp
qed

lemma between_single: "between bm lo (Suc lo) = (if lo \<in> bm_set bm then [lo] else [])"
proof -
  have "{p \<in> bm_set bm. lo \<le> p \<and> p < Suc lo} = (if lo \<in> bm_set bm then {lo} else {})"
    by (auto simp: le_less_Suc_eq)
  then show ?thesis by (simp add: between_def)
qed

lemma above_ge: "- 1 \<le> above bm lo"
  by (simp add: above_def)

section \<open>Filling the queue\<close>

text \<open>The vertices a thread will still come across, the ones it holds, and a bound of its steps.\<close>

definition ahead :: "nat \<Rightarrow> nat \<Rightarrow> bitmap_t \<Rightarrow> nat \<Rightarrow> fill_thread \<Rightarrow> nat list" where
  "ahead nv nt bm tid th =
     (case ft_pc th of
        Fill_start \<Rightarrow> case_prod (between bm) (fill_chunk nv nt tid)
      | Fill_scan \<Rightarrow> (if ft_i th \<noteq> -1 \<and> ft_i th < int (ft_end th)
          then nat (ft_i th) # between bm (Suc (nat (ft_i th))) (ft_end th) else [])
      | _ \<Rightarrow> [])"

definition holds :: "nat \<Rightarrow> nat \<Rightarrow> bitmap_t \<Rightarrow> nat \<Rightarrow> fill_thread \<Rightarrow> nat list" where
  "holds nv nt bm tid th = ft_local th @ ahead nv nt bm tid th"

definition fill_ok :: "nat \<Rightarrow> fill_thread \<Rightarrow> bool" where
  "fill_ok nv th \<longleftrightarrow> (ft_pc th = Fill_start \<or> ft_pc th = Fill_done \<longrightarrow> ft_local th = []) \<and>
     (ft_pc th = Fill_scan \<longrightarrow> length (ft_local th) < THREAD_BUF_LEN \<and> -1 \<le> ft_i th \<and> ft_end th \<le> nv)"

definition fill_work :: "nat \<Rightarrow> nat \<Rightarrow> bitmap_t \<Rightarrow> nat \<Rightarrow> fill_thread \<Rightarrow> nat" where
  "fill_work nv nt bm tid th = length (ft_copies th) + length (ft_local th) + 2 * length (ahead nv nt bm tid th) +
     (case ft_pc th of Fill_start \<Rightarrow> 3 | Fill_scan \<Rightarrow> 2 | Fill_rest \<Rightarrow> 1 | Fill_done \<Rightarrow> 0)"

lemma fill_start_spec:
  assumes bm: "bm_size bm \<le> 2 ^ 32" "nv \<le> bm_size bm" and nt: "0 < nt" and pc: "ft_pc th = Fill_start" "fill_ok nv th"
  shows "\<exists>th'. fill_start nv nt bm tid th = Inr th' \<and> fill_ok nv th' \<and> ft_copies th' = ft_copies th \<and>
    holds nv nt bm tid th' = holds nv nt bm tid th \<and> fill_work nv nt bm tid th' < fill_work nv nt bm tid th"
proof -
  obtain lo hi where ch: "fill_chunk nv nt tid = (lo, hi)" by (cases "fill_chunk nv nt tid")
  let ?npt = "(nv + nt - 1) div nt"
  have lo: "lo = ?npt * tid" and hi: "hi = min nv (lo + ?npt)"
    using ch by (auto simp: fill_chunk_def Let_def min_def split: if_splits)
  show ?thesis
  proof (cases "lo < nv")
    case False
    then have "between bm lo hi = []" using hi by (intro between_empty) simp
    then show ?thesis using False pc ch
      by (auto simp: fill_start_def fill_ok_def holds_def ahead_def fill_work_def)
  next
    case True
    define l where "l = (if lo \<in> bm_set bm then [lo] else [])"
    have "nt \<le> nv + nt - 1" using True by simp
    then have "0 < ?npt" using nt by (simp add: div_greater_zero_iff)
    then have lh: "lo < hi" "hi \<le> nv" using True by (simp_all add: hi)
    obtain w where w: "bm_get_bit bm lo = Inr w" "w \<noteq> 0 \<longleftrightarrow> lo \<in> bm_set bm"
      using get_bit_spec [of lo bm] True bm(2) by auto
    have b: "between bm lo hi = l @ between bm (Suc lo) hi"
      using between_append [of lo "Suc lo" hi bm] lh by (simp add: between_single l_def)
    let ?th = "th\<lparr>ft_pc := Fill_scan, ft_i := above bm (Suc lo), ft_end := hi, ft_local := l\<rparr>"
    have "fill_start nv nt bm tid th = Inr ?th"
      using True w next_above [OF bm(1), of lo] bm(2) ch by (simp add: fill_start_def l_def)
    moreover have "fill_ok nv ?th" using lh above_ge by (simp add: fill_ok_def l_def THREAD_BUF_LEN_def)
    moreover have h: "holds nv nt bm tid ?th = holds nv nt bm tid th"
      using pc ch b above_between [of bm "Suc lo" hi] by (simp add: holds_def ahead_def fill_ok_def)
    moreover have "fill_work nv nt bm tid ?th < fill_work nv nt bm tid th"
      using pc arg_cong [OF h, of length] by (simp add: fill_work_def holds_def fill_ok_def)
    ultimately show ?thesis by (intro exI [of _ ?th]) simp
  qed
qed

lemma fill_scan_spec:
  assumes bm: "bm_size bm \<le> 2 ^ 32" "nv \<le> bm_size bm" and pc: "ft_pc th = Fill_scan" "fill_ok nv th" and cs: "ft_copies th = []"
    and r: "racing L qs P q" "length qs + length (holds nv nt bm tid th) \<le> L"
  shows "\<exists>th' q' qs'. fill_scan bm th q = Inr (th', q') \<and> fill_ok nv th' \<and> racing L qs' (P \<union> set (ft_copies th')) q' \<and>
    mset qs' + mset (holds nv nt bm tid th') = mset qs + mset (holds nv nt bm tid th) \<and>
    fill_work nv nt bm tid th' < fill_work nv nt bm tid th"
proof (cases "ft_i th \<noteq> -1 \<and> ft_i th < int (ft_end th)")
  case False
  let ?th = "th\<lparr>ft_pc := Fill_rest\<rparr>"
  have "fill_scan bm th q = Inr (?th, q)" using False by (auto simp: fill_scan_def)
  moreover have "ahead nv nt bm tid ?th = []" "ahead nv nt bm tid th = []" using False pc(1) by (simp_all add: ahead_def)
  ultimately show ?thesis using pc cs r(1)
    by (intro exI [of _ ?th] exI [of _ q] exI [of _ qs]) (simp add: fill_ok_def holds_def fill_work_def)
next
  case True
  define p where "p = nat (ft_i th)"
  obtain vlist n where q: "q = (vlist, n)" by (cases q)
  have ok: "length (ft_local th) < THREAD_BUF_LEN" "ft_end th \<le> nv" "ft_i th = int p" "p < ft_end th"
    using pc True by (auto simp: fill_ok_def p_def)
  have nx: "bm_get_next_bit bm p = Inr (above bm (Suc p))" using next_above [OF bm(1)] ok(2,4) bm(2) by simp
  have ah: "ahead nv nt bm tid th = p # between bm (Suc p) (ft_end th)" using pc(1) True by (simp add: ahead_def p_def)
  have ah': "ahead nv nt bm tid (th\<lparr>ft_i := above bm (Suc p), ft_local := l, ft_copies := c\<rparr>) = between bm (Suc p) (ft_end th)" for l c
    using pc(1) above_between [of bm "Suc p" "ft_end th"] by (simp add: ahead_def)
  show ?thesis
  proof (cases "length (ft_local th @ [p]) = THREAD_BUF_LEN")
    case full: True
    have room: "length qs + length (ft_local th @ [p]) \<le> L" using r(2) by (simp add: holds_def ah)
    obtain c where c: "reserve (ft_local th @ [p]) (vlist, n) = (c, vlist, n + length (ft_local th @ [p]))"
      "length c = length (ft_local th @ [p])" "racing L (qs @ ft_local th @ [p]) (P \<union> set c) (vlist, n + length (ft_local th @ [p]))"
      using racing_reserve [OF r(1) [unfolded q] room] by blast
    let ?th = "th\<lparr>ft_i := above bm (Suc p), ft_local := [], ft_copies := c\<rparr>"
    have "fill_scan bm th q = Inr (?th, vlist, n + length (ft_local th @ [p]))"
      using True ok(1) full nx c(1) by (simp add: fill_scan_def q p_def Let_def)
    moreover have "fill_ok nv ?th" using pc ok(2) above_ge by (simp add: fill_ok_def THREAD_BUF_LEN_def)
    ultimately show ?thesis using c(2,3) pc(1) cs
      by (intro exI [of _ ?th] exI [of _ "(vlist, n + length (ft_local th @ [p]))"] exI [of _ "qs @ ft_local th @ [p]"])
        (simp add: holds_def ah ah' fill_work_def)
  next
    case False
    let ?th = "th\<lparr>ft_i := above bm (Suc p), ft_local := ft_local th @ [p], ft_copies := []\<rparr>"
    have "?th = th\<lparr>ft_i := above bm (Suc p), ft_local := ft_local th @ [p]\<rparr>" using cs by (cases th) simp
    then have "fill_scan bm th q = Inr (?th, q)" using True ok(1) False nx by (simp add: fill_scan_def p_def Let_def)
    moreover have "fill_ok nv ?th" using pc ok(1,2) False above_ge by (simp add: fill_ok_def)
    ultimately show ?thesis using r(1) pc(1) cs
      by (intro exI [of _ ?th] exI [of _ q] exI [of _ qs]) (simp add: holds_def ah ah' fill_work_def)
  qed
qed

lemma fill_step_spec:
  assumes bm: "bm_size bm \<le> 2 ^ 32" "nv \<le> bm_size bm" and nt: "0 < nt" and ok: "fill_ok nv th"
    and t: "tid < length cs" "cs ! tid = ft_copies th"
    and r: "racing L qs (set (concat cs)) q" "length qs + length (holds nv nt bm tid th) \<le> L"
  shows "\<exists>th' q' qs'. fill_step nv nt bm tid th q = Inr (th', q') \<and> fill_ok nv th' \<and>
    racing L qs' (set (concat (cs[tid := ft_copies th']))) q' \<and>
    mset qs' + mset (holds nv nt bm tid th') = mset qs + mset (holds nv nt bm tid th) \<and>
    fill_work nv nt bm tid th' \<le> fill_work nv nt bm tid th - 1"
proof (cases "ft_copies th")
  case (Cons x c)
  obtain q' where q': "copy_cell x q = Inr q'" "racing L qs (set (concat (cs[tid := c]))) q'"
    using racing_copy [OF r(1) copies_pop [OF t(1), of x c]] t(2) Cons by auto
  let ?th = "th\<lparr>ft_copies := c\<rparr>"
  have "ahead nv nt bm tid ?th = ahead nv nt bm tid th" by (simp add: ahead_def cong: fill_pc.case_cong)
  then show ?thesis using q' Cons ok
    by (intro exI [of _ ?th] exI [of _ q'] exI [of _ qs]) (simp add: fill_step_def fill_ok_def holds_def fill_work_def)
next
  case Nil
  note push = copies_push [OF t(1) trans [OF t(2) Nil]]
  obtain vlist n where q: "q = (vlist, n)" by (cases q)
  have same: "cs[tid := []] = cs" using t Nil by (metis list_update_id)
  show ?thesis
  proof (cases "ft_pc th")
    case Fill_start
    obtain th' where th': "fill_start nv nt bm tid th = Inr th'" "fill_ok nv th'" "ft_copies th' = []"
      "holds nv nt bm tid th' = holds nv nt bm tid th" "fill_work nv nt bm tid th' < fill_work nv nt bm tid th"
      using fill_start_spec [OF bm nt Fill_start ok] Nil by auto
    then show ?thesis using Nil Fill_start r(1) same
      by (intro exI [of _ th'] exI [of _ q] exI [of _ qs]) (simp add: fill_step_def)
  next
    case Fill_scan
    show ?thesis using fill_scan_spec [OF bm Fill_scan ok Nil r] Nil Fill_scan unfolding push
      by (fastforce simp: fill_step_def)
  next
    case Fill_rest
    have room: "length qs + length (ft_local th) \<le> L" using r(2) by (simp add: holds_def)
    obtain c where c: "reserve (ft_local th) (vlist, n) = (c, vlist, n + length (ft_local th))"
      "length c = length (ft_local th)" "racing L (qs @ ft_local th) (set (concat cs) \<union> set c) (vlist, n + length (ft_local th))"
      using racing_reserve [OF r(1) [unfolded q] room] by blast
    let ?th = "th\<lparr>ft_pc := Fill_done, ft_local := [], ft_copies := c\<rparr>"
    show ?thesis using c Nil Fill_rest unfolding push
      by (intro exI [of _ ?th] exI [of _ "(vlist, n + length (ft_local th))"] exI [of _ "qs @ ft_local th"])
        (simp add: fill_step_def q fill_ok_def holds_def ahead_def fill_work_def push)
  next
    case Fill_done
    then show ?thesis using Nil r(1) ok same
      by (intro exI [of _ th] exI [of _ q] exI [of _ qs]) (simp add: fill_step_def fill_work_def fill_ok_def ahead_def)
  qed
qed

section \<open>The team that fills the queue\<close>

definition fill_rep :: "nat \<Rightarrow> nat \<Rightarrow> bitmap_t \<Rightarrow> nat \<Rightarrow> (nat \<Rightarrow> nat) \<Rightarrow> fill_thread list \<times> vqueue \<Rightarrow> bool" where
  "fill_rep nv nt bm L W = (\<lambda>(ths, q).
     bm_size bm \<le> 2 ^ 32 \<and> nv \<le> bm_size bm \<and> length (between bm 0 nv) \<le> L \<and> length ths = nt \<and>
     (\<forall>t<nt. fill_ok nv (ths ! t) \<and> fill_work nv nt bm t (ths ! t) \<le> W t) \<and>
     (\<exists>qs. racing L qs (set (concat (map ft_copies ths))) q \<and>
       mset qs + mset (concat (map (\<lambda>t. holds nv nt bm t (ths ! t)) [0..<nt])) = mset (between bm 0 nv)))"

interpretation filling: team "fill_team nv nt bm" "fill_rep nv nt bm L" for nv nt bm L
proof
  fix W s tid assume rep: "fill_rep nv nt bm L W s"
  obtain ths q qs where s: "s = (ths, q)" and bm: "bm_size bm \<le> 2 ^ 32" "nv \<le> bm_size bm" "length (between bm 0 nv) \<le> L"
    and len: "length ths = nt" and ok: "\<And>t. t < nt \<Longrightarrow> fill_ok nv (ths ! t)" "\<And>t. t < nt \<Longrightarrow> fill_work nv nt bm t (ths ! t) \<le> W t"
    and r: "racing L qs (set (concat (map ft_copies ths))) q"
    and ms: "mset qs + mset (concat (map (\<lambda>t. holds nv nt bm t (ths ! t)) [0..<nt])) = mset (between bm 0 nv)"
    using rep by (cases s) (auto simp: fill_rep_def)
  let ?H = "map (\<lambda>t. holds nv nt bm t (ths ! t)) [0..<nt]"
  show "\<exists>s'. fill_team nv nt bm tid s = Inr s' \<and> fill_rep nv nt bm L (W(tid := W tid - 1)) s'"
  proof (cases "tid < nt")
    case True
    have H: "?H ! tid = holds nv nt bm tid (ths ! tid)" "tid < length ?H" using True by simp_all
    have "length qs + length (holds nv nt bm tid (ths ! tid)) \<le> length (between bm 0 nv)"
      using arg_cong [OF ms, of size] arg_cong [OF mset_concat_update [OF H(2), of "[]"], of size] unfolding H(1) by simp
    then have room: "length qs + length (holds nv nt bm tid (ths ! tid)) \<le> L" using bm(3) by simp
    have t: "0 < nt" "tid < length (map ft_copies ths)" "map ft_copies ths ! tid = ft_copies (ths ! tid)" using True len by simp_all
    obtain th q' qs' where st: "fill_step nv nt bm tid (ths ! tid) q = Inr (th, q')" "fill_ok nv th"
      "racing L qs' (set (concat (map ft_copies (ths[tid := th])))) q'"
      "mset qs' + mset (holds nv nt bm tid th) = mset qs + mset (holds nv nt bm tid (ths ! tid))"
      "fill_work nv nt bm tid th \<le> fill_work nv nt bm tid (ths ! tid) - 1"
      using fill_step_spec [OF bm(1,2) t(1) ok(1) [OF True] t(2,3) r room] unfolding map_update by blast
    have "mset (concat (?H[tid := holds nv nt bm tid th])) + mset (holds nv nt bm tid (ths ! tid)) =
        mset (concat ?H) + mset (holds nv nt bm tid th)" using mset_concat_update [OF H(2)] unfolding H(1) .
    then have "mset qs' + mset (concat (?H[tid := holds nv nt bm tid th])) = mset qs + mset (concat ?H)"
      using st(4) by (rule mset_exchange)
    moreover have "?H[tid := holds nv nt bm tid th] = map (\<lambda>t. holds nv nt bm t (ths[tid := th] ! t)) [0..<nt]"
      using map_upt_update [OF True len, of "holds nv nt bm"] by simp
    ultimately have "mset qs' + mset (concat (map (\<lambda>t. holds nv nt bm t (ths[tid := th] ! t)) [0..<nt])) = mset (between bm 0 nv)"
      using ms by simp
    moreover have "fill_work nv nt bm tid th \<le> W tid - 1" using st(5) ok(2) [OF True] by simp
    ultimately have "fill_rep nv nt bm L (W(tid := W tid - 1)) (ths[tid := th], q')"
      using bm len ok st(2,3) unfolding fill_rep_def by (auto simp: nth_list_update)
    moreover have "fill_team nv nt bm tid s = Inr (ths[tid := th], q')" using True len st(1) by (simp add: fill_team_def s)
    ultimately show ?thesis by blast
  next
    case False
    then have "fill_rep nv nt bm L (W(tid := W tid - 1)) s" using rep by (auto simp: fill_rep_def s)
    then show ?thesis using False len by (simp add: fill_team_def s)
  qed
next
  fix W s W' assume "fill_rep nv nt bm L W s" "\<And>t. W t \<le> W' t"
  then show "fill_rep nv nt bm L W' s" unfolding fill_rep_def by (cases s) (use order_trans in blast)
qed

lemma chunks_all:
  assumes "0 < nt"
  shows "concat (map (\<lambda>t. case_prod (between bm) (fill_chunk nv nt t)) [0..<nt]) = between bm 0 nv"
proof -
  let ?npt = "(nv + nt - 1) div nt"
  have chunk: "case_prod (between bm) (fill_chunk nv nt t) = between bm (?npt * t) (min nv (?npt * Suc t))" for t
    by (simp add: fill_chunk_def Let_def min_def add.commute)
  have "concat (map (\<lambda>t. between bm (?npt * t) (min nv (?npt * Suc t))) [0..<k]) = between bm 0 (min nv (?npt * k))" for k
  proof (induction k)
    case (Suc k)
    let ?lo = "?npt * k" and ?hi = "min nv (?npt * Suc k)"
    have mid: "between bm ?lo ?hi = between bm (min nv ?lo) ?hi"
      by (cases "?lo \<le> nv") (simp_all add: between_empty min_def)
    have "between bm 0 (min nv ?lo) @ between bm (min nv ?lo) ?hi = between bm 0 ?hi" by (rule between_append) (auto simp: min_def)
    then show ?case using Suc.IH mid by simp
  qed (simp add: between_empty)
  moreover have "nv \<le> ?npt * nt"
    using div_mult_mod_eq [of "nv + nt - 1" nt] mod_less_divisor [OF assms, of "nv + nt - 1"] by linarith
  ultimately show ?thesis unfolding chunk by (simp add: min_def)
qed

lemma fill_work_0: "fill_ok nv th \<Longrightarrow> fill_work nv nt bm t th = 0 \<Longrightarrow> ft_copies th = [] \<and> holds nv nt bm t th = []"
  by (auto simp: fill_work_def fill_ok_def holds_def ahead_def split: fill_pc.splits)

text \<open>Whatever the turns, in the end the queue holds every vertex of the bitmap once.\<close>

lemma fill_queue_spec:
  assumes bm: "bm_size bm \<le> 2 ^ 32" "nv \<le> bm_size bm" and nt: "0 < nt" and len: "length (between bm 0 nv) \<le> length vlist"
  shows "\<exists>vlist' qs. fill_queue_from_bitmap nv nt turns bm vlist = Inr (vlist', 0, length qs) \<and>
    queued (length vlist) qs (vlist', length qs) \<and> mset qs = mset (between bm 0 nv)"
proof -
  let ?ths = "replicate nt new_fill_thread"
  have chunk: "holds nv nt bm t new_fill_thread = case_prod (between bm) (fill_chunk nv nt t)" for t
    by (simp add: holds_def ahead_def new_fill_thread_def)
  have H: "concat (map (\<lambda>t. holds nv nt bm t (?ths ! t)) [0..<nt]) = between bm 0 nv"
    unfolding chunks_all [OF nt, symmetric] by (intro arg_cong [of _ _ concat] map_cong) (simp_all add: chunk)
  have ln: "length (between bm a b) \<le> b - a" for a b
  proof -
    have "card {p \<in> bm_set bm. a \<le> p \<and> p < b} \<le> card {a..<b}" by (rule card_mono) auto
    then show ?thesis by (simp add: between_def)
  qed
  have "length (case_prod (between bm) (fill_chunk nv nt t)) \<le> nv" for t
    using ln [of "fst (fill_chunk nv nt t)" "snd (fill_chunk nv nt t)"] by (auto simp: fill_chunk_def Let_def split: if_splits)
  then have "fill_work nv nt bm t new_fill_thread \<le> 2 * nv + 3" for t by (simp add: fill_work_def ahead_def new_fill_thread_def)
  moreover have "fill_ok nv new_fill_thread" by (simp add: fill_ok_def new_fill_thread_def)
  moreover have "racing (length vlist) [] (set (concat (map ft_copies ?ths))) (vlist, 0)" by (auto simp: racing_def new_fill_thread_def)
  ultimately have "fill_rep nv nt bm (length vlist) (\<lambda>_. 2 * nv + 3) (?ths, vlist, 0)"
    using bm len H unfolding fill_rep_def prod.case by (intro conjI exI [of _ "[]"]) simp_all
  from filling.run_done [OF this, of nt turns] obtain ths q where
    run: "run_team nt (2 * nv + 3) turns (fill_team nv nt bm) (?ths, vlist, 0) = Inr (ths, q)"
    and rep: "fill_rep nv nt bm (length vlist) (\<lambda>t. if t < nt then 0 else 2 * nv + 3) (ths, q)" by (metis surj_pair)
  obtain qs where l: "length ths = nt" and r: "racing (length vlist) qs (set (concat (map ft_copies ths))) q"
    and ms: "mset qs + mset (concat (map (\<lambda>t. holds nv nt bm t (ths ! t)) [0..<nt])) = mset (between bm 0 nv)"
    and z: "\<And>t. t < nt \<Longrightarrow> ft_copies (ths ! t) = [] \<and> holds nv nt bm t (ths ! t) = []"
    using rep fill_work_0 by (fastforce simp: fill_rep_def)
  have "concat (map ft_copies ths) = []" using z l by (auto simp: in_set_conv_nth)
  then have qd: "queued (length vlist) qs q" using r by (simp add: racing_queued)
  have c: "concat (map (\<lambda>t. holds nv nt bm t (ths ! t)) [0..<nt]) = []" using z by auto
  have "mset qs = mset (between bm 0 nv)" using ms unfolding c by simp
  moreover obtain vlist' n where q: "q = (vlist', n)" by (cases q)
  moreover have "n = length qs" using qd by (simp add: queued_def q)
  ultimately show ?thesis using run qd by (auto simp: fill_queue_from_bitmap_def)
qed

lemma fill_bitmap_spec:
  assumes "legal_sched nt sched" and "\<forall>i < b. vlist ! i < bm_size bm" and "a \<le> b" and "b \<le> length vlist"
  shows "\<exists>bm'. fill_bitmap_from_queue sched vlist a b bm = Inr bm' \<and> bm_size bm' = bm_size bm \<and>
    bm_set bm' = bm_set bm \<union> set (drop a (take b vlist))"
proof -
  let ?f = "\<lambda>(t, k) bm. bindE (arr_get vlist k) (\<lambda>v. bm_set_bit_atomic [] bm v)"
  have run: "\<exists>bm'. foldE ?f ps bm = Inr bm' \<and> bm_size bm' = bm_size bm \<and> bm_set bm' = bm_set bm \<union> (!) vlist ` snd ` set ps"
    if "\<forall>(t, k) \<in> set ps. k < b" "\<forall>i < b. vlist ! i < bm_size bm" for ps bm
    using that
  proof (induction ps arbitrary: bm)
    case (Cons p ps)
    obtain t k where p: "p = (t, k)" by (cases p)
    then have k: "k < b" using Cons.prems by simp
    then obtain bm1 where bm1: "bm_set_bit_atomic [] bm (vlist ! k) = Inr bm1" "bm_size bm1 = bm_size bm"
      "bm_set bm1 = insert (vlist ! k) (bm_set bm)" using set_bit_spec Cons.prems(2) by blast
    obtain bm2 where "foldE ?f ps bm1 = Inr bm2" "bm_size bm2 = bm_size bm1" "bm_set bm2 = bm_set bm1 \<union> (!) vlist ` snd ` set ps"
      using Cons.IH [of bm1] Cons.prems bm1(2) by auto
    then show ?case using bm1 k assms(4) by (simp add: p)
  qed simp
  have "\<forall>(t, k) \<in> set (sched a b). k < b" using legal_snd [OF assms(1)] by blast
  moreover have "(!) vlist ` {a..<b} = set (drop a (take b vlist))"
  proof -
    have "drop a (take b vlist) = map ((!) vlist) [a..<b]" using assms(3,4) by (intro nth_equalityI) simp_all
    then show ?thesis by simp
  qed
  ultimately show ?thesis using run [of "sched a b" bm] assms(2) legal_image [OF assms(1), of a b]
    by (simp add: fill_bitmap_from_queue_def par_for_def)
qed

section \<open>Properties\<close>

text \<open>
  C35. Converting the queue into a bitmap and back: on a new bitmap, for every number of threads,
  every schedule of the first loop and every interleaving of the steps of the threads that fill the
  queue (each of which reserves cells and copies its buffer whenever it is full, and once more at
  the end), the queue afterwards holds the same vertices, each once, in an order that depends on the
  interleaving, \<^verbatim>\<open>*in\<close> is their number and \<^verbatim>\<open>*out\<close> is 0.
\<close>

theorem queue_bitmap_roundtrip:
  assumes "bm_init junk nv = Inr bm0" and "length vlist = nv" and "n \<le> nv" and "\<forall>i < n. vlist ! i < nv"
    and "0 < nt" and "legal_sched nt sched"
  shows "\<exists>bm vlist' qs. fill_bitmap_from_queue sched vlist 0 n bm0 = Inr bm \<and>
    fill_queue_from_bitmap nv nt turns bm vlist = Inr (vlist', 0, length qs) \<and>
    take (length qs) vlist' = qs \<and> distinct qs \<and> set qs = set (take n vlist)"
proof -
  have bm0: "bm_set bm0 = {}" "nv \<le> bm_size bm0" "bm_size bm0 \<le> 2 ^ 32"
    using assms(1) by (auto simp: bm_init_def bm_set_def bm_size_def bm_reset_def Let_def split: if_splits)
  obtain bm where bm: "fill_bitmap_from_queue sched vlist 0 n bm0 = Inr bm" "bm_size bm = bm_size bm0" "bm_set bm = set (take n vlist)"
    using fill_bitmap_spec [OF assms(6), of n vlist bm0 0] assms(2-4) bm0 by fastforce
  have "v < nv" if "v \<in> set (take n vlist)" for v using that assms(2-4) by (auto simp: in_set_conv_nth)
  then have "{p \<in> bm_set bm. 0 \<le> p \<and> p < nv} = set (take n vlist)" unfolding bm(3) by blast
  then have b: "between bm 0 nv = sorted_list_of_set (set (take n vlist))" by (simp add: between_def)
  have "card (set (take n vlist)) \<le> nv" using card_length [of "take n vlist"] assms(3) by simp
  then obtain vlist' qs where q: "fill_queue_from_bitmap nv nt turns bm vlist = Inr (vlist', 0, length qs)"
      "queued nv qs (vlist', length qs)" "mset qs = mset (sorted_list_of_set (set (take n vlist)))"
    using fill_queue_spec [of bm nv nt vlist turns] bm(2) bm0 assms(2,5) b by auto
  have "distinct qs" "set qs = set (take n vlist)"
    using mset_eq_imp_distinct_iff [OF q(3)] mset_eq_setD [OF q(3)] by simp_all
  then show ?thesis using bm(1) q(1,2) by (auto simp: queued_def)
qed

theorem queue_bitmap_roundtrip_witness:
  "\<exists>bm vlist' qs. fill_bitmap_from_queue (\<lambda>a b. map (Pair 1) (rev [a..<b])) [2, 0, 0] 0 2 \<lparr>words = [0]\<rparr> = Inr bm \<and>
    fill_queue_from_bitmap 3 2 [1, 1, 1, 0, 0, 1] bm [2, 0, 0] = Inr (vlist', 0, length qs) \<and>
    take (length qs) vlist' = qs \<and> distinct qs \<and> set qs = {0, 2}"
proof -
  have i: "bm_init (\<lambda>_. 7) 3 = Inr \<lparr>words = [0]\<rparr>" by (simp add: bm_init_def bm_reset_def)
  have n: "\<forall>j < 2. [2, 0, 0] ! j < (3 :: nat)" by (auto simp: less_2_cases_iff)
  have l: "legal_sched 2 (\<lambda>a b. map (Pair 1) (rev [a..<b]))" by (auto simp: legal_sched_def comp_def)
  have "set (take 2 [2, 0, 0]) = {0, 2 :: nat}" by auto
  then show ?thesis
    using queue_bitmap_roundtrip [OF i, of "[2, 0, 0]" 2 2 "\<lambda>a b. map (Pair 1) (rev [a..<b])" "[1, 1, 1, 0, 0, 1]"] n l by simp
qed

end
