(* ===== verification/OmpCsr.thy ===== *)
theory OmpCsr
  imports SeqCsr OmpQueue
begin

text \<open>
  The construction of the graph in the parallel implementation,
  \<^verbatim>\<open>graph500/omp-csr/omp-csr.c\<close>, for a team of any number of threads. An \<^verbatim>\<open>omp for\<close> loop
  whose iterations share cells takes a schedule: the iterations in the order in which they
  happen, each with the number of its thread. The iterations only meet in atomic operations, and
  nothing depends on the order. The iterations of the other loops touch different cells, so
  they are listed in order; phases between barriers follow one another.
\<close>

section \<open>Construction\<close>

text \<open>\<^verbatim>\<open>while (tmaxvtx > gmaxvtx) gmaxvtx = int64_casval (&maxvtx, gmaxvtx, tmaxvtx)\<close>.\<close>

fun cas_max :: "nat \<Rightarrow> int \<Rightarrow> int \<Rightarrow> int \<Rightarrow> int result" where
  "cas_max 0 tmaxvtx gmaxvtx maxvtx = Inl Out_of_fuel"
| "cas_max (Suc fuel) tmaxvtx gmaxvtx maxvtx =
     (if tmaxvtx > gmaxvtx then
        let (gmaxvtx, maxvtx) = int64_casval maxvtx gmaxvtx tmaxvtx in cas_max fuel tmaxvtx gmaxvtx maxvtx
      else Inr maxvtx)"

text \<open>A thread takes the maximum over its own iterations and then merges it.\<close>

definition omp_find_nv :: "nat \<Rightarrow> sched \<Rightarrow> packed_edge list \<Rightarrow> (int \<times> nat) result" where
  "omp_find_nv nt sched IJ =
     bindE (foldE (\<lambda>tid maxvtx.
       bindE (mapE (\<lambda>(t, k). arr_get IJ k) (filter (\<lambda>(t, k). t = tid) (sched 0 (length IJ)))) (\<lambda>mine.
       cas_max 3 (fold max_end mine (- 1)) maxvtx maxvtx)) [0..<nt] (- 1)) (\<lambda>maxvtx.
     Inr (maxvtx, nat (1 + maxvtx)))"

text \<open>Besides the offsets, the graph has the queue and two bitmaps.\<close>

record omp_graph = csr_graph +
  og_vlist :: "nat list"
  og_past :: bitmap_t
  og_next :: bitmap_t

definition omp_alloc_graph ::
  "(nat \<Rightarrow> bool) \<Rightarrow> (nat \<Rightarrow> u64) \<Rightarrow> nat \<Rightarrow> (nat list \<times> nat list \<times> bitmap_t \<times> bitmap_t) result" where
  "omp_alloc_graph granted junk nv =
     bindE (do_xmalloc_large granted ((2 * nv + 2) * 8)) (\<lambda>_.
     bindE (do_xmalloc_large granted (nv * 8)) (\<lambda>_.
     bindE (bm_init junk nv) (\<lambda>past.
     bindE (bm_init junk nv) (\<lambda>next.
     Inr (replicate (2 * nv + 2) 0, replicate nv 0, past, next)))))"

text \<open>The slice of the vertices that a thread of \<^verbatim>\<open>prefix_sum\<close> works on.\<close>

definition slice :: "nat \<Rightarrow> nat \<Rightarrow> nat \<Rightarrow> nat \<times> nat" where
  "slice nv nt tid =
     (let t1 = nv div nt; t2 = nv mod nt in
      (t1 * tid + (if tid < t2 then tid else t2), t1 * (tid + 1) + (if tid + 1 < t2 then tid + 1 else t2)))"

definition slice_sum :: "nat \<Rightarrow> nat \<Rightarrow> nat list \<Rightarrow> nat \<Rightarrow> nat list \<Rightarrow> nat list result" where
  "slice_sum nv nt xoff tid buf =
     (let (slice_begin, slice_end) = slice nv nt tid in
      bindE (arr_set buf tid 0) (
      foldE (\<lambda>k buf. bindE (arr_get buf tid) (\<lambda>s. bindE (arr_get xoff (XOFF k)) (\<lambda>d. arr_set buf tid (s + d))))
        [slice_begin..<slice_end]))"

definition slice_offsets :: "nat \<Rightarrow> nat \<Rightarrow> nat list \<Rightarrow> nat \<Rightarrow> nat list \<Rightarrow> nat list result" where
  "slice_offsets nv nt buf tid xoff =
     (let (slice_begin, slice_end) = slice nv nt tid in
      bindE (if tid \<noteq> 0 then arr_get buf (tid - 1) else Inr 0) (\<lambda>t1.
      bindE (foldE (\<lambda>k (xoff, t1).
        bindE (arr_get xoff (XOFF k)) (\<lambda>tmp.
        bindE (arr_set xoff (XOFF k) t1) (\<lambda>xoff.
        Inr (xoff, t1 + tmp)))) [slice_begin..<slice_end] (xoff, t1)) (\<lambda>(xoff, t1).
      Inr xoff)))"

definition prefix_sum :: "nat \<Rightarrow> nat \<Rightarrow> nat list \<Rightarrow> (nat list \<times> nat) result" where
  "prefix_sum nt nv xoff =
     bindE (foldE (slice_sum nv nt xoff) [0..<nt] (replicate nt 0)) (\<lambda>buf.
     bindE (foldE (\<lambda>k buf. bindE (arr_get buf k) (\<lambda>b. bindE (arr_get buf (k - 1)) (\<lambda>a. arr_set buf k (b + a)))) [1..<nt] buf) (\<lambda>buf.
     bindE (foldE (slice_offsets nv nt buf) [0..<nt] xoff) (\<lambda>xoff.
     bindE (arr_get buf (nt - 1)) (\<lambda>accum. Inr (xoff, accum)))))"

definition omp_setup_deg_off ::
  "(nat \<Rightarrow> bool) \<Rightarrow> nat \<Rightarrow> sched \<Rightarrow> packed_edge list \<Rightarrow> nat \<Rightarrow> nat list \<Rightarrow> (nat list \<times> int list) result" where
  "omp_setup_deg_off granted nt sched IJ nv xoff =
     bindE (foldE (\<lambda>k t. arr_set t k 0) [0..<2 * nv + 2] xoff) (\<lambda>xoff.
     bindE (par_for sched 0 (length IJ) (\<lambda>t k xoff. bindE (arr_get IJ k) (\<lambda>e. count_edge e xoff)) xoff) (\<lambda>xoff.
     bindE (foldE (\<lambda>k xoff. bindE (arr_get xoff (XOFF k)) (\<lambda>d.
       if d < MINVECT_SIZE then arr_set xoff (XOFF k) MINVECT_SIZE else Inr xoff)) [0..<nv] xoff) (\<lambda>xoff.
     bindE (prefix_sum nt nv xoff) (\<lambda>(xoff, accum).
     bindE (foldE (\<lambda>k xoff. bindE (arr_get xoff (XOFF k)) (arr_set xoff (XENDOFF k))) [0..<nv] xoff) (\<lambda>xoff.
     bindE (arr_set xoff (XOFF nv) accum) (\<lambda>xoff.
     bindE (do_xmalloc_large granted ((accum + MINVECT_SIZE) * 8)) (\<lambda>_.
     bindE (foldE (\<lambda>k t. arr_set t k (- 1)) [0..<accum + MINVECT_SIZE] (replicate (accum + MINVECT_SIZE) 0)) (\<lambda>xadjstore.
     Inr (xoff, xadjstore)))))))))"

definition omp_scatter_edge :: "nat \<Rightarrow> int \<Rightarrow> nat list \<times> int list \<Rightarrow> (nat list \<times> int list) result" where
  "omp_scatter_edge i j = (\<lambda>(xoff, xadjstore).
     bindE (arr_get xoff (XENDOFF i)) (\<lambda>p.
     let (pos, p) = int64_fetch_add p 1 in
     bindE (arr_set xoff (XENDOFF i) p) (\<lambda>xoff.
     bindE (arr_set xadjstore (MINVECT_SIZE + pos) j) (\<lambda>xadjstore.
     Inr (xoff, xadjstore)))))"

text \<open>\<^verbatim>\<open>pack_vtx_edges\<close> has the text of the sequential program.\<close>

definition omp_pack_vtx_edges :: "nat \<Rightarrow> nat list \<times> int list \<Rightarrow> (nat list \<times> int list) result" where
  "omp_pack_vtx_edges = pack_vtx_edges"

definition omp_gather_edges :: "sched \<Rightarrow> packed_edge list \<Rightarrow> nat \<Rightarrow> nat list \<times> int list \<Rightarrow> (nat list \<times> int list) result" where
  "omp_gather_edges sched IJ nv s =
     bindE (par_for sched 0 (length IJ) (\<lambda>t k s.
       bindE (arr_get IJ k) (\<lambda>e.
       let i = sint (get_v0_from_edge e); j = sint (get_v1_from_edge e) in
       if i \<ge> 0 \<and> j \<ge> 0 \<and> i \<noteq> j then
         bindE (omp_scatter_edge (nat i) j s) (omp_scatter_edge (nat j) i)
       else Inr s)) s)
     (foldE omp_pack_vtx_edges [0..<nv])"

definition omp_create_graph_from_edgelist ::
  "(nat \<Rightarrow> bool) \<Rightarrow> (nat \<Rightarrow> u64) \<Rightarrow> nat \<Rightarrow> sched \<Rightarrow> packed_edge list \<Rightarrow> omp_graph result" where
  "omp_create_graph_from_edgelist granted junk nt sched IJ =
     bindE (omp_find_nv nt sched IJ) (\<lambda>(maxvtx, nv).
     bindE (omp_alloc_graph granted junk nv) (\<lambda>(xoff, vlist, past, next).
     bindE (omp_setup_deg_off granted nt sched IJ nv xoff) (\<lambda>s.
     bindE (omp_gather_edges sched IJ nv s) (\<lambda>(xoff, xadjstore).
     Inr \<lparr>cs_maxvtx = maxvtx, cs_nv = nv, cs_xoff = xoff, cs_xadjstore = xadjstore,
       og_vlist = vlist, og_past = past, og_next = next\<rparr>))))"

section \<open>Any order of the iterations\<close>

definition in_order :: "sched \<Rightarrow> 'a list \<Rightarrow> 'a list" where
  "in_order sched xs = map (\<lambda>(t, k). xs ! k) (sched 0 (length xs))"

lemma mset_in_order:
  assumes "legal_sched nt sched"
  shows "mset (in_order sched xs) = mset xs"
proof -
  have "mset (in_order sched xs) = image_mset ((!) xs) (mset (map snd (sched 0 (length xs))))"
    by (simp add: in_order_def image_mset.compositionality comp_def case_prod_unfold)
  also have "\<dots> = image_mset ((!) xs) (mset [0..<length xs])" using assms by (simp add: legal_sched_def)
  also have "\<dots> = mset xs" by (metis map_nth mset_map)
  finally show ?thesis .
qed

lemma par_for_list:
  assumes "legal_sched nt sched"
  shows "par_for sched 0 (length xs) (\<lambda>t k s. bindE (arr_get xs k) (\<lambda>x. f x s)) s = foldE f (in_order sched xs) s"
proof -
  have "foldE (\<lambda>(t, k) s. bindE (arr_get xs k) (\<lambda>x. f x s)) l s = foldE f (map (\<lambda>(t, k). xs ! k) l) s"
    if "\<forall>(t, k) \<in> set l. k < length xs" for l
    using that
  proof (induction l arbitrary: s)
    case (Cons p l)
    then show ?case by (cases p; cases "f (xs ! snd p) s") auto
  qed simp
  moreover have "\<forall>(t, k) \<in> set (sched 0 (length xs)). k < length xs" using legal_snd [OF assms] by blast
  ultimately show ?thesis by (simp add: par_for_def in_order_def)
qed

text \<open>What the graph depends on is the multiset of its edges.\<close>

lemma mset_row_of: "mset es = mset fs \<Longrightarrow> mset (row_of es v) = mset (row_of fs v)"
proof -
  have "mset (row_of es v) = sum_mset (image_mset (\<lambda>e. mset (row_of [e] v)) (mset es))" for es
    by (induction es) simp_all
  then show "mset es = mset fs \<Longrightarrow> ?thesis" by metis
qed

lemma row_deg_perm: "mset es = mset fs \<Longrightarrow> row_deg es = row_deg fs"
  by (intro ext) (metis mset_row_of size_mset)

lemma num_vertices_perm:
  assumes "set es = set fs"
  shows "num_vertices es = num_vertices fs"
proof -
  have "fold max_end es m = Max (insert m ((\<lambda>e. max (int (end0 e)) (int (end1 e))) ` set es))" for es m
  proof (induction es arbitrary: m)
    case (Cons e es)
    let ?g = "\<lambda>e. max (int (end0 e)) (int (end1 e))"
    have "fold max_end (e # es) m = Max (insert (max m (?g e)) (?g ` set es))"
      unfolding max_end_eq [of e m, symmetric] using Cons [of "max_end e m"] by simp
    also have "\<dots> = Max (insert m (?g ` set (e # es)))"
      by (cases "?g ` set es = {}") (simp_all add: max.assoc max.left_commute)
    finally show ?case .
  qed simp
  then show ?thesis using assms by (simp add: num_vertices_def find_maxvtx_def)
qed

section \<open>The greatest vertex\<close>

lemma cas_max_eq: "cas_max 3 t m m = Inr (max m t)"
  by (simp add: numeral_3_eq_3 int64_casval_def)

lemma fold_max_end_append: "fold max_end es m = max m (fold max_end es (- 1))" if "- 1 \<le> m"
  using that
proof (induction es arbitrary: m)
  case (Cons e es)
  have "- 1 \<le> max_end e m" "- 1 \<le> max_end e (- 1)" using Cons.prems by (simp_all add: max_end_eq)
  show ?case using Cons.IH [OF \<open>- 1 \<le> max_end e m\<close>] Cons.IH [OF \<open>- 1 \<le> max_end e (- 1)\<close>] Cons.prems
    by (simp only: fold_simps comp_apply max_end_eq) linarith
qed simp

lemma omp_find_nv_eq:
  assumes "legal_sched nt sched"
  shows "omp_find_nv nt sched IJ = Inr (int (num_vertices IJ) - 1, num_vertices IJ)"
proof -
  let ?S = "sched 0 (length IJ)"
  let ?mine = "\<lambda>tid. map (\<lambda>(t, k). IJ ! k) (filter (\<lambda>(t, k). t = tid) ?S)"
  have mine: "mapE (\<lambda>(t, k). arr_get IJ k) (filter (\<lambda>(t, k). t = tid) ?S) = Inr (?mine tid)" for tid
    using legal_snd [OF assms] by (intro mapE_Inr) auto
  have "\<exists>m. foldE (\<lambda>tid maxvtx.
       bindE (mapE (\<lambda>(t, k). arr_get IJ k) (filter (\<lambda>(t, k). t = tid) ?S)) (\<lambda>mine.
       cas_max 3 (fold max_end mine (- 1)) maxvtx maxvtx)) [0..<nt] (- 1) = Inr m \<and>
       m = fold max_end (concat (map ?mine [0..<nt])) (- 1)"
  proof (rule foldE_upt_inv [where I = "\<lambda>tid m. m = fold max_end (concat (map ?mine [0..<tid])) (- 1)"])
    fix tid m assume m: "m = fold max_end (concat (map ?mine [0..<tid])) (- 1)"
    have "- 1 \<le> m" unfolding m using fold_max_end [of "- 1" "concat (map ?mine [0..<tid])"] by simp
    then show "\<exists>m'. bindE (mapE (\<lambda>(t, k). arr_get IJ k) (filter (\<lambda>(t, k). t = tid) ?S)) (\<lambda>mine.
         cas_max 3 (fold max_end mine (- 1)) m m) = Inr m' \<and> m' = fold max_end (concat (map ?mine [0..<Suc tid])) (- 1)"
      unfolding mine using fold_max_end_append [of m "?mine tid"] by (simp add: cas_max_eq m)
  qed simp_all
  moreover have "set (concat (map ?mine [0..<nt])) = set IJ"
  proof -
    have "set (concat (map ?mine [0..<nt])) = set (in_order sched IJ)"
      using legal_snd(3) [OF assms] by (fastforce simp: in_order_def)
    then show ?thesis using mset_in_order [OF assms] by (metis set_mset_mset)
  qed
  then have "int (num_vertices (concat (map ?mine [0..<nt]))) = int (num_vertices IJ)" using num_vertices_perm by metis
  then have "fold max_end (concat (map ?mine [0..<nt])) (- 1) = int (num_vertices IJ) - 1"
    using find_maxvtx_num [of "concat (map ?mine [0..<nt])"] by (simp add: find_maxvtx_def)
  ultimately show ?thesis by (simp add: omp_find_nv_def)
qed

section \<open>Prefix sums\<close>

text \<open>Where the slice of a thread starts; the one of the last thread ends at \<open>nv\<close>.\<close>

definition slice_start :: "nat \<Rightarrow> nat \<Rightarrow> nat \<Rightarrow> nat" where
  "slice_start nv nt t = nv div nt * t + min t (nv mod nt)"

lemma slice_eq: "slice nv nt tid = (slice_start nv nt tid, slice_start nv nt (Suc tid))"
  by (simp add: slice_def slice_start_def Let_def min_def)

lemma slice_start_ends: "slice_start nv nt 0 = 0" "0 < nt \<Longrightarrow> slice_start nv nt nt = nv"
proof -
  assume "0 < nt"
  then have "min nt (nv mod nt) = nv mod nt" by (simp add: less_imp_le)
  then show "slice_start nv nt nt = nv" by (simp add: slice_start_def)
qed (simp add: slice_start_def)

lemma slice_start_mono: "t \<le> u \<Longrightarrow> slice_start nv nt t \<le> slice_start nv nt u"
  unfolding slice_start_def by (intro add_mono mult_le_mono2) auto

lemma slice_start_le: "0 < nt \<Longrightarrow> t \<le> nt \<Longrightarrow> slice_start nv nt t \<le> nv"
  using slice_start_mono [of t nt nv nt] slice_start_ends(2) by simp

text \<open>The offsets below \<open>k\<close> are in place, the others are still degrees.\<close>

definition offs_upto :: "(nat \<Rightarrow> nat) \<Rightarrow> nat \<Rightarrow> nat \<Rightarrow> nat list \<Rightarrow> bool" where
  "offs_upto d nv k xoff \<longleftrightarrow> length xoff = 2 * nv + 2 \<and>
     (\<forall>v<nv. xoff ! XOFF v = (if v < k then row_off d v else max MINVECT_SIZE (d v)))"

lemma slice_sum_spec:
  assumes x: "offs_upto d nv 0 xoff" and t: "0 < nt" "tid < nt" "length buf = nt"
  shows "slice_sum nv nt xoff tid buf
    = Inr (buf[tid := row_off d (slice_start nv nt (Suc tid)) - row_off d (slice_start nv nt tid)])"
proof -
  let ?a = "slice_start nv nt tid" and ?b = "slice_start nv nt (Suc tid)"
  have ab: "?a \<le> ?b" "?b \<le> nv" using slice_start_mono [of tid "Suc tid"] slice_start_le t by simp_all
  have "\<exists>b'. foldE (\<lambda>k buf. bindE (arr_get buf tid) (\<lambda>s. bindE (arr_get xoff (XOFF k)) (\<lambda>d. arr_set buf tid (s + d))))
      [?a..<?b] (buf[tid := 0]) = Inr b' \<and> b' = buf[tid := row_off d ?b - row_off d ?a]"
  proof (rule foldE_upt_inv [where I = "\<lambda>k b'. b' = buf[tid := row_off d k - row_off d ?a]"])
    fix k b' assume k: "?a \<le> k" "k < ?b" "b' = buf[tid := row_off d k - row_off d ?a]"
    have "xoff ! XOFF k = max MINVECT_SIZE (d k)" "XOFF k < length xoff"
      using x k(2) ab(2) by (simp_all add: offs_upto_def)
    moreover have "row_off d ?a \<le> row_off d k" using k(1) by (rule row_off_mono)
    ultimately show "\<exists>b''. bindE (arr_get b' tid) (\<lambda>s. bindE (arr_get xoff (XOFF k)) (\<lambda>d. arr_set b' tid (s + d))) = Inr b'' \<and>
        b'' = buf[tid := row_off d (Suc k) - row_off d ?a]" using t k(3) by simp
  qed (use ab in simp_all)
  then show ?thesis using t by (simp add: slice_sum_def slice_eq)
qed

lemma slice_offsets_spec:
  assumes x: "offs_upto d nv (slice_start nv nt tid) xoff" and t: "0 < nt" "tid < nt"
    and buf: "buf = map (\<lambda>t. row_off d (slice_start nv nt (Suc t))) [0..<nt]"
  shows "\<exists>xoff'. slice_offsets nv nt buf tid xoff = Inr xoff' \<and> offs_upto d nv (slice_start nv nt (Suc tid)) xoff'"
proof -
  let ?a = "slice_start nv nt tid" and ?b = "slice_start nv nt (Suc tid)"
  have ab: "?a \<le> ?b" "?b \<le> nv" using slice_start_mono [of tid "Suc tid"] slice_start_le t by simp_all
  have t1: "(if tid \<noteq> 0 then arr_get buf (tid - 1) else Inr 0) = Inr (row_off d ?a)"
    using t buf by (cases tid) (simp_all add: slice_start_ends)
  have "\<exists>s. foldE (\<lambda>k (xoff, t1). bindE (arr_get xoff (XOFF k)) (\<lambda>tmp. bindE (arr_set xoff (XOFF k) t1) (\<lambda>xoff.
        Inr (xoff, t1 + tmp)))) [?a..<?b] (xoff, row_off d ?a) = Inr s \<and>
      (case s of (x, t1) \<Rightarrow> offs_upto d nv ?b x \<and> t1 = row_off d ?b)"
  proof (rule foldE_upt_inv [where I = "\<lambda>k (x, t1). offs_upto d nv k x \<and> t1 = row_off d k"])
    fix k s assume k: "?a \<le> k" "k < ?b" "case s of (x, t1) \<Rightarrow> offs_upto d nv k x \<and> t1 = row_off d k"
    obtain x where s: "s = (x, row_off d k)" "offs_upto d nv k x" using k(3) by (cases s) auto
    have kx: "k < nv" using k(2) ab(2) by simp
    then have "x ! XOFF k = max MINVECT_SIZE (d k)" "XOFF k < length x" using s(2) by (simp_all add: offs_upto_def)
    moreover have "offs_upto d nv (Suc k) (x[XOFF k := row_off d k])"
      using s(2) kx by (auto simp: offs_upto_def nth_list_update)
    ultimately show "\<exists>s'. (case s of (xoff, t1) \<Rightarrow> bindE (arr_get xoff (XOFF k)) (\<lambda>tmp. bindE (arr_set xoff (XOFF k) t1) (\<lambda>xoff.
        Inr (xoff, t1 + tmp)))) = Inr s' \<and> (case s' of (x, t1) \<Rightarrow> offs_upto d nv (Suc k) x \<and> t1 = row_off d (Suc k))"
      by (simp add: s(1))
  qed (use ab x in simp_all)
  then show ?thesis unfolding slice_offsets_def slice_eq Let_def prod.case t1 by auto
qed

lemma prefix_sum_spec:
  assumes x: "offs_upto d nv 0 xoff" and nt: "0 < nt"
  shows "\<exists>xoff'. prefix_sum nt nv xoff = Inr (xoff', row_off d nv) \<and> offs_upto d nv nv xoff'"
proof -
  let ?S = "slice_start nv nt" and ?r = "\<lambda>t. row_off d (slice_start nv nt (Suc t))"
  have mono: "row_off d (?S t) \<le> ?r t" for t by (intro row_off_mono slice_start_mono) simp
  have "\<exists>b. foldE (slice_sum nv nt xoff) [0..<nt] (replicate nt 0) = Inr b \<and>
      (length b = nt \<and> (\<forall>t<nt. b ! t = ?r t - row_off d (?S t)))"
  proof -
    have "\<exists>b. foldE (slice_sum nv nt xoff) [0..<nt] (replicate nt 0) = Inr b \<and>
        (length b = nt \<and> (\<forall>t<nt. t < nt \<longrightarrow> b ! t = ?r t - row_off d (?S t)))"
      by (rule foldE_upt_inv [where I = "\<lambda>k b. length b = nt \<and> (\<forall>t<nt. t < k \<longrightarrow> b ! t = ?r t - row_off d (?S t))"])
        (auto simp: slice_sum_spec [OF x nt] nth_list_update)
    then show ?thesis by blast
  qed
  then obtain b where b: "foldE (slice_sum nv nt xoff) [0..<nt] (replicate nt 0) = Inr b"
    "length b = nt" "\<forall>t<nt. b ! t = ?r t - row_off d (?S t)" by blast
  define I where "I k c \<longleftrightarrow> length c = nt \<and> (\<forall>t<nt. c ! t = (if t < k then ?r t else ?r t - row_off d (?S t)))" for k c
  have "\<exists>c. foldE (\<lambda>k buf. bindE (arr_get buf k) (\<lambda>b. bindE (arr_get buf (k - 1)) (\<lambda>a. arr_set buf k (b + a)))) [1..<nt] b = Inr c \<and>
      I nt c"
  proof (rule foldE_upt_inv)
    show "I 1 b" using b by (simp add: I_def slice_start_ends less_Suc_eq)
    fix k c assume k: "1 \<le> k" "k < nt" "I k c"
    then have "c ! (k - 1) = row_off d (?S k)" "c ! k = ?r k - row_off d (?S k)" "length c = nt" by (simp_all add: I_def)
    moreover have "I (Suc k) (c[k := ?r k])" using k by (auto simp: I_def nth_list_update)
    ultimately show "\<exists>c'. bindE (arr_get c k) (\<lambda>b. bindE (arr_get c (k - 1)) (\<lambda>a. arr_set c k (b + a))) = Inr c' \<and> I (Suc k) c'"
      using k mono [of k] by simp
  qed (use nt in simp)
  then obtain c where c: "foldE (\<lambda>k buf. bindE (arr_get buf k) (\<lambda>b. bindE (arr_get buf (k - 1)) (\<lambda>a. arr_set buf k (b + a)))) [1..<nt] b = Inr c"
    "I nt c" by blast
  then have cm: "c = map ?r [0..<nt]" by (intro nth_equalityI) (simp_all add: I_def)
  have "\<exists>x. foldE (slice_offsets nv nt c) [0..<nt] xoff = Inr x \<and> offs_upto d nv (?S nt) x"
    by (rule foldE_upt_inv [where I = "\<lambda>t. offs_upto d nv (?S t)"])
      (use x nt slice_offsets_spec [OF _ nt _ cm] in \<open>simp_all add: slice_start_ends\<close>)
  then obtain x where "foldE (slice_offsets nv nt c) [0..<nt] xoff = Inr x" "offs_upto d nv nv x"
    using slice_start_ends(2) [OF nt] by auto
  moreover have "arr_get c (nt - 1) = Inr (row_off d nv)" using nt slice_start_ends(2) [OF nt] by (simp add: cm)
  ultimately show ?thesis using b(1) c(1) unfolding prefix_sum_def by simp
qed

section \<open>The graph\<close>

lemma count_loop:
  assumes sched: "legal_sched nt sched" and nv: "nv = num_vertices IJ" and x: "length xoff = 2 * nv + 2" "\<forall>v<nv. xoff ! XOFF v = 0"
  shows "\<exists>xoff'. par_for sched 0 (length IJ) (\<lambda>t k xoff. bindE (arr_get IJ k) (\<lambda>e. count_edge e xoff)) xoff = Inr xoff' \<and>
    length xoff' = 2 * nv + 2 \<and> (\<forall>v<nv. xoff' ! XOFF v = row_deg IJ v)"
proof -
  let ?es = "in_order sched IJ"
  have es: "mset ?es = mset IJ" by (rule mset_in_order [OF sched])
  have "\<forall>e \<in> set ?es. end0 e < nv \<and> end1 e < nv" using ends_bound [of _ IJ] nv mset_eq_setD [OF es] by auto
  from count_edges [OF x(1) this] show ?thesis
    unfolding par_for_list [OF sched] using x row_deg_perm [OF es] by (metis add_0)
qed

lemma minvect_loop:
  assumes "length xoff = 2 * nv + 2" "\<forall>v<nv. xoff ! XOFF v = d v"
  shows "\<exists>xoff'. foldE (\<lambda>k xoff. bindE (arr_get xoff (XOFF k)) (\<lambda>d.
       if d < MINVECT_SIZE then arr_set xoff (XOFF k) MINVECT_SIZE else Inr xoff)) [0..<nv] xoff = Inr xoff' \<and> offs_upto d nv 0 xoff'"
proof -
  define I where "I k x \<longleftrightarrow> length x = 2 * nv + 2 \<and> (\<forall>v<nv. x ! XOFF v = (if v < k then max MINVECT_SIZE (d v) else d v))"
    for k and x :: "nat list"
  have "\<exists>x. foldE (\<lambda>k xoff. bindE (arr_get xoff (XOFF k)) (\<lambda>d.
      if d < MINVECT_SIZE then arr_set xoff (XOFF k) MINVECT_SIZE else Inr xoff)) [0..<nv] xoff = Inr x \<and> I nv x"
  proof (rule foldE_upt_inv)
    fix k x assume k: "k < nv" "I k x"
    then have x: "x ! XOFF k = d k" "XOFF k < length x" by (simp_all add: I_def)
    show "\<exists>x'. bindE (arr_get x (XOFF k)) (\<lambda>d. if d < MINVECT_SIZE then arr_set x (XOFF k) MINVECT_SIZE else Inr x) = Inr x' \<and> I (Suc k) x'"
      using k x by (auto simp: I_def nth_list_update less_Suc_eq)
  qed (use assms in \<open>simp_all add: I_def\<close>)
  then show ?thesis by (auto simp: I_def offs_upto_def)
qed

lemma omp_setup_rows:
  assumes sched: "legal_sched nt sched" and nt: "0 < nt" and nv: "nv = num_vertices IJ" and len: "length xoff = 2 * nv + 2"
  shows "\<exists>s. omp_setup_deg_off (\<lambda>_. True) nt sched IJ nv xoff = Inr s \<and> csr_rows (row_deg IJ) nv (\<lambda>_. []) s"
proof -
  obtain x1 where x1: "foldE (\<lambda>k t. arr_set t k 0) [0..<2 * nv + 2] xoff = Inr x1" "length x1 = length xoff"
    "\<forall>i. x1 ! i = (if 0 \<le> i \<and> i < 2 * nv + 2 then 0 else xoff ! i)"
    using foldE_fill [of "2 * nv + 2" xoff 0 0] len by auto
  obtain x2 where x2: "par_for sched 0 (length IJ) (\<lambda>t k xoff. bindE (arr_get IJ k) (\<lambda>e. count_edge e xoff)) x1 = Inr x2"
    "length x2 = 2 * nv + 2" "\<forall>v<nv. x2 ! XOFF v = row_deg IJ v"
    using count_loop [OF sched nv, of x1] x1(2,3) len by auto
  obtain x3 where x3: "foldE (\<lambda>k xoff. bindE (arr_get xoff (XOFF k)) (\<lambda>d.
       if d < MINVECT_SIZE then arr_set xoff (XOFF k) MINVECT_SIZE else Inr xoff)) [0..<nv] x2 = Inr x3"
    "offs_upto (row_deg IJ) nv 0 x3" using minvect_loop [OF x2(2,3)] by blast
  let ?a = "row_off (row_deg IJ) nv"
  obtain x4 where x4: "prefix_sum nt nv x3 = Inr (x4, ?a)" "offs_upto (row_deg IJ) nv nv x4"
    using prefix_sum_spec [OF x3(2) nt] by blast
  have l4: "length x4 = 2 * nv + 2" using x4(2) by (simp add: offs_upto_def)
  obtain x5 where x5: "foldE (\<lambda>k xoff. bindE (arr_get xoff (XOFF k)) (arr_set xoff (XENDOFF k))) [0..<nv] x4 = Inr x5"
    "length x5 = 2 * nv + 2" "\<forall>v<nv. x5 ! XOFF v = x4 ! XOFF v \<and> x5 ! XENDOFF v = x4 ! XOFF v"
    using endoff_loop [OF l4] l4 by auto
  obtain st where st: "foldE (\<lambda>k t. arr_set t k (- 1)) [0..<?a + MINVECT_SIZE] (replicate (?a + MINVECT_SIZE) (0 :: int)) = Inr st"
    "length st = ?a + MINVECT_SIZE"
    using foldE_fill [of "?a + MINVECT_SIZE" "replicate (?a + MINVECT_SIZE) (0 :: int)" "- 1" 0] by auto
  have "omp_setup_deg_off (\<lambda>_. True) nt sched IJ nv xoff = Inr (x5[XOFF nv := ?a], st)"
    unfolding omp_setup_deg_off_def x1(1) bindE.simps x2(1) x3(1) x4(1) prod.case x5(1)
    using st(1) x5(2) by (simp add: do_xmalloc_large_def)
  moreover have "csr_rows (row_deg IJ) nv (\<lambda>_. []) (x5[XOFF nv := ?a], st)"
    using x5(2,3) x4(2) st(2) by (simp add: csr_rows_def offs_upto_def nth_list_update)
  ultimately show ?thesis by blast
qed

lemma omp_scatter_edge_eq: "omp_scatter_edge = scatter_edge"
  by (intro ext) (simp add: omp_scatter_edge_def scatter_edge_def int64_fetch_add_def Let_def split: prod.splits)

lemma nbr_perm: "set es = set fs \<Longrightarrow> nbr es v w \<longleftrightarrow> nbr fs v w"
  by (simp add: nbr_def)

lemma omp_gather_rows:
  assumes sched: "legal_sched nt sched" and s: "csr_rows (row_deg IJ) (num_vertices IJ) (\<lambda>_. []) s"
  shows "\<exists>s' rows. omp_gather_edges sched IJ (num_vertices IJ) s = Inr s' \<and> csr_rows (row_deg IJ) (num_vertices IJ) rows s' \<and>
    (\<forall>v<num_vertices IJ. set (rows v) = {w. nbr IJ v w})"
proof -
  let ?es = "in_order sched IJ" and ?nv = "num_vertices IJ"
  have es: "mset ?es = mset IJ" by (rule mset_in_order [OF sched])
  have d: "row_deg ?es = row_deg IJ" "num_vertices ?es = ?nv" using row_deg_perm [OF es] num_vertices_perm [OF mset_eq_setD [OF es]] .
  obtain s1 where s1: "foldE gather_edge ?es s = Inr s1" "csr_rows (row_deg IJ) ?nv (row_of ?es) s1"
    using gather_all_rows [of ?es s, unfolded d] s by blast
  let ?rows = "\<lambda>v. if v < ?nv then remdups_adj (sort (row_of ?es v)) else row_of ?es v"
  obtain s2 where s2: "pack_edges ?nv s1 = Inr s2" "csr_rows (row_deg IJ) ?nv ?rows s2" using pack_all_rows [OF s1(2)] by blast
  have "par_for sched 0 (length IJ) (\<lambda>t k s. bindE (arr_get IJ k) (\<lambda>e. gather_edge e s)) s = Inr s1"
    unfolding par_for_list [OF sched] by (rule s1(1))
  then have "omp_gather_edges sched IJ ?nv s = Inr s2"
    using s2(1) unfolding omp_gather_edges_def omp_scatter_edge_eq omp_pack_vtx_edges_def gather_edge_def pack_edges_def by simp
  moreover have "\<forall>v<?nv. set (?rows v) = {w. nbr IJ v w}" using nbr_perm [OF mset_eq_setD [OF es]] by (simp add: set_row_of)
  ultimately show ?thesis using s2(2) by blast
qed

text \<open>What the search needs of the graph.\<close>

definition omp_graph_of :: "packed_edge list \<Rightarrow> omp_graph \<Rightarrow> bool" where
  "omp_graph_of IJ g \<longleftrightarrow> cs_maxvtx g = int (num_vertices IJ) - 1 \<and> cs_nv g = num_vertices IJ \<and>
     length (og_vlist g) = num_vertices IJ \<and>
     num_vertices IJ \<le> bm_size (og_past g) \<and> bm_size (og_past g) \<le> 2 ^ 32 \<and> bm_size (og_next g) = bm_size (og_past g) \<and>
     (\<exists>rows. csr_rows (row_deg IJ) (num_vertices IJ) rows (cs_xoff g, cs_xadjstore g) \<and>
       (\<forall>v<num_vertices IJ. set (rows v) = {w. nbr IJ v w}))"

lemma omp_create:
  assumes "legal_sched nt sched" and "0 < nt" and "num_vertices IJ + 63 < 2 ^ 31"
  shows "\<exists>g. omp_create_graph_from_edgelist (\<lambda>_. True) junk nt sched IJ = Inr g \<and> omp_graph_of IJ g"
proof -
  let ?nv = "num_vertices IJ"
  obtain bm where bm: "bm_init junk ?nv = Inr bm" "?nv \<le> bm_size bm" using init_spec assms(3) by blast
  then have "bm_size bm \<le> 2 ^ 32" using assms(3) by (auto simp: bm_init_def bm_size_def bm_reset_def Let_def)
  moreover obtain s1 where s1: "omp_setup_deg_off (\<lambda>_. True) nt sched IJ ?nv (replicate (2 * ?nv + 2) 0) = Inr s1"
    "csr_rows (row_deg IJ) ?nv (\<lambda>_. []) s1" using omp_setup_rows [OF assms(1,2) refl [of ?nv], of "replicate (2 * ?nv + 2) 0"] by (simp only: length_replicate) blast
  moreover obtain s2 rows where s2: "omp_gather_edges sched IJ ?nv s1 = Inr s2" "csr_rows (row_deg IJ) ?nv rows s2"
    "\<forall>v<?nv. set (rows v) = {w. nbr IJ v w}" using omp_gather_rows [OF assms(1) s1(2)] by blast
  ultimately show ?thesis using bm
    by (cases s2) (auto simp: omp_create_graph_from_edgelist_def omp_find_nv_eq [OF assms(1)] omp_alloc_graph_def do_xmalloc_large_def omp_graph_of_def)
qed

end
