(* ===== verification/Levels.thy ===== *)
theory Levels
  imports Bfs
begin

text \<open>
  Breadth first search level by level: the vertices at one distance, those up to a distance,
  and the partial trees a search holds between and during its steps. The order in which a step
  finds the vertices of the next level does not matter here, so the facts serve the top-down
  and the bottom-up step of the parallel search and any order of its iterations.
\<close>

section \<open>Levels\<close>

definition lev :: "packed_edge list \<Rightarrow> nat \<Rightarrow> nat \<Rightarrow> nat set" where
  "lev IJ src d = {v. is_dist IJ src v d}"

definition upto_lev :: "packed_edge list \<Rightarrow> nat \<Rightarrow> nat \<Rightarrow> nat set" where
  "upto_lev IJ src d = {v. \<exists>n\<le>d. is_dist IJ src v n}"

lemma walk_dist: "walk IJ src n v \<Longrightarrow> \<exists>m\<le>n. is_dist IJ src v m"
proof -
  assume w: "walk IJ src n v"
  then have "walk IJ src (LEAST m. walk IJ src m v) v" by (rule LeastI)
  then have "is_dist IJ src v (LEAST m. walk IJ src m v)" unfolding is_dist_def using not_less_Least by blast
  then show ?thesis using Least_le [of "\<lambda>m. walk IJ src m v", OF w] by blast
qed

lemma lev_0: "lev IJ src 0 = {src}"
  by (auto simp: lev_def is_dist_def)

lemma upto_lev_0: "upto_lev IJ src 0 = {src}"
  using lev_0 by (simp add: upto_lev_def lev_def)

lemma upto_lev_Suc: "upto_lev IJ src (Suc d) = upto_lev IJ src d \<union> lev IJ src (Suc d)"
  by (auto simp: upto_lev_def lev_def le_Suc_eq)

lemma lev_upto: "lev IJ src d \<subseteq> upto_lev IJ src d"
  by (auto simp: upto_lev_def lev_def)

lemma lev_Suc_new: "v \<in> lev IJ src (Suc d) \<Longrightarrow> v \<notin> upto_lev IJ src d"
  by (auto simp: upto_lev_def lev_def dest: is_dist_unique)

lemma src_upto: "src \<in> upto_lev IJ src d"
  by (auto simp: upto_lev_def is_dist_src)

lemma src_not_lev_Suc: "src \<notin> lev IJ src (Suc d)"
  by (simp add: lev_def is_dist_src)

text \<open>The next level: the new neighbors of this one.\<close>

lemma lev_SucI:
  assumes "v \<in> lev IJ src d" "nbr IJ v w" "w \<notin> upto_lev IJ src d"
  shows "w \<in> lev IJ src (Suc d)"
proof -
  have "walk IJ src (Suc d) w" using assms(1,2) by (auto simp: lev_def is_dist_def intro: walk_Suc)
  then obtain m where m: "m \<le> Suc d" "is_dist IJ src w m" using walk_dist by blast
  then have "\<not> m \<le> d" using assms(3) by (auto simp: upto_lev_def)
  then have "m = Suc d" using m(1) by simp
  then show ?thesis using m(2) by (simp add: lev_def)
qed

lemma lev_SucE:
  assumes "w \<in> lev IJ src (Suc d)"
  obtains v where "v \<in> lev IJ src d" "nbr IJ v w"
proof -
  have w: "is_dist IJ src w (Suc d)" using assms by (simp add: lev_def)
  then have "walk IJ src (Suc d) w" by (simp add: is_dist_def)
  then obtain v where v: "walk IJ src d v" "nbr IJ v w" by (rule walk_SucE)
  obtain m where m: "m \<le> d" "is_dist IJ src v m" using walk_dist [OF v(1)] by blast
  have "walk IJ src (Suc m) w" using m(2) v(2) by (auto simp: is_dist_def intro: walk_Suc)
  then have "Suc d \<le> Suc m" by (rule is_dist_le [OF w])
  then show thesis using that [of v] m v(2) by (simp add: lev_def)
qed

lemma upto_nbr:
  assumes "v \<in> upto_lev IJ src d" "v \<notin> lev IJ src d" "nbr IJ v w"
  shows "w \<in> upto_lev IJ src d"
proof -
  obtain n where n: "n \<le> d" "is_dist IJ src v n" using assms(1) by (auto simp: upto_lev_def)
  then have "n < d" using assms(2) by (cases "n = d") (auto simp: lev_def)
  moreover have "walk IJ src (Suc n) w" using n(2) assms(3) by (auto simp: is_dist_def intro: walk_Suc)
  then obtain m where "m \<le> Suc n" "is_dist IJ src w m" using walk_dist by blast
  ultimately show ?thesis by (auto simp: upto_lev_def intro!: exI [of _ m])
qed

lemma lev_bound:
  assumes "\<forall>v w. nbr IJ v w \<longrightarrow> w < nv" and "src < nv" and "v \<in> upto_lev IJ src d"
  shows "v < nv"
proof -
  obtain n where "walk IJ src n v" using assms(3) by (auto simp: upto_lev_def is_dist_def)
  then show ?thesis using assms(1,2) by (auto elim: walk.cases)
qed

lemma reachable_upto:
  assumes "lev IJ src d = {}"
  shows "reachable IJ src v \<longleftrightarrow> v \<in> upto_lev IJ src d"
proof
  assume "reachable IJ src v"
  then obtain k where "walk IJ src k v" by (auto simp: reachable_def)
  then obtain n where n: "is_dist IJ src v n" using walk_dist by blast
  have "lev IJ src m = {}" if "d \<le> m" for m
    using that
  proof (induction m rule: dec_induct)
    case (step m)
    then show ?case by (auto elim: lev_SucE)
  qed (rule assms)
  then have "n < d" using n by (force simp: lev_def not_le [symmetric])
  then show "v \<in> upto_lev IJ src d" using n unfolding upto_lev_def by (auto intro: less_imp_le)
qed (auto simp: upto_lev_def reachable_def is_dist_def)

section \<open>Partial trees\<close>

text \<open>The tree of a search that has visited the vertices \<open>V\<close>.\<close>

definition vis_tree :: "packed_edge list \<Rightarrow> nat \<Rightarrow> nat \<Rightarrow> nat set \<Rightarrow> int list \<Rightarrow> bool" where
  "vis_tree IJ nv src V tree \<longleftrightarrow> src < nv \<and> src \<in> V \<and> nv \<le> length tree \<and> tree ! src = int src \<and>
     (\<forall>v<nv. v \<noteq> src \<longrightarrow>
        (if v \<in> V then \<exists>p n. p < nv \<and> tree ! v = int p \<and> nbr IJ p v \<and> is_dist IJ src p n \<and> is_dist IJ src v (Suc n)
         else tree ! v = - 1))"

lemma vis_tree_new:
  assumes "vis_tree IJ nv src V tree" "v < nv"
  shows "tree ! v = - 1 \<longleftrightarrow> v \<notin> V" "v < length tree"
proof -
  have i: "src \<in> V" "nv \<le> length tree" "tree ! src = int src" "v \<noteq> src \<longrightarrow>
      (if v \<in> V then \<exists>p n. p < nv \<and> tree ! v = int p \<and> nbr IJ p v \<and> is_dist IJ src p n \<and> is_dist IJ src v (Suc n)
       else tree ! v = - 1)" using assms unfolding vis_tree_def by blast+
  show "tree ! v = - 1 \<longleftrightarrow> v \<notin> V" using i by (cases "v = src"; cases "v \<in> V") auto
  show "v < length tree" using i(2) assms(2) by simp
qed

lemma vis_tree_add:
  assumes "vis_tree IJ nv src V tree" and "v \<in> lev IJ src d" "nbr IJ v w" "w \<in> lev IJ src (Suc d)" and "v < nv" "w < nv"
  shows "vis_tree IJ nv src (insert w V) (tree[w := int v])"
proof -
  have "w \<noteq> src" using assms(4) src_not_lev_Suc by blast
  moreover have "nv \<le> length tree" using assms(1) by (simp add: vis_tree_def)
  moreover have "is_dist IJ src v d" "is_dist IJ src w (Suc d)" using assms(2,4) by (simp_all add: lev_def)
  ultimately show ?thesis using assms by (auto simp: vis_tree_def nth_list_update)
qed

lemma vis_tree_start:
  assumes "src < nv" "nv \<le> length tree" "tree ! src = int src" "\<And>v. v < nv \<Longrightarrow> v \<noteq> src \<Longrightarrow> tree ! v = - 1"
  shows "vis_tree IJ nv src (upto_lev IJ src 0) tree"
  using assms by (simp add: vis_tree_def upto_lev_0)

lemma vis_tree_done:
  assumes "vis_tree IJ nv src (upto_lev IJ src d) tree" "lev IJ src d = {}"
  shows "bfs_tree_of IJ nv src tree"
  using assms reachable_upto [OF assms(2)] unfolding vis_tree_def bfs_tree_of_def by presburger

section \<open>Progress\<close>

definition unvisited :: "packed_edge list \<Rightarrow> nat \<Rightarrow> nat \<Rightarrow> nat \<Rightarrow> nat" where
  "unvisited IJ nv src d = card ({..<nv} - upto_lev IJ src d)"

lemma unvisited_Suc:
  assumes "\<forall>v w. nbr IJ v w \<longrightarrow> w < nv" and "src < nv" and "lev IJ src (Suc d) \<noteq> {}"
  shows "unvisited IJ nv src (Suc d) < unvisited IJ nv src d"
proof -
  obtain v where v: "v \<in> lev IJ src (Suc d)" using assms(3) by blast
  then have "v \<in> {..<nv} - upto_lev IJ src d"
    using lev_Suc_new [OF v] lev_bound [OF assms(1,2)] lev_upto [of IJ src "Suc d"] v by blast
  moreover have "v \<notin> {..<nv} - upto_lev IJ src (Suc d)" using v upto_lev_Suc by blast
  moreover have "{..<nv} - upto_lev IJ src (Suc d) \<subseteq> {..<nv} - upto_lev IJ src d" using upto_lev_Suc by blast
  ultimately have "{..<nv} - upto_lev IJ src (Suc d) \<subset> {..<nv} - upto_lev IJ src d" by blast
  then show ?thesis unfolding unvisited_def by (intro psubset_card_mono) simp_all
qed

lemma unvisited_0: "src < nv \<Longrightarrow> unvisited IJ nv src 0 < nv"
  by (simp add: unvisited_def upto_lev_0)

lemma finite_lev:
  assumes "\<forall>v w. nbr IJ v w \<longrightarrow> w < nv" and "src < nv"
  shows "finite (upto_lev IJ src d)" "finite (lev IJ src d)"
proof -
  show "finite (upto_lev IJ src d)"
    by (rule finite_subset [of _ "{..<nv}"]) (use lev_bound [OF assms] in auto)
  then show "finite (lev IJ src d)" using lev_upto by (rule finite_subset [rotated])
qed

end
