(* ===== verification/OmpDown.thy ===== *)
theory OmpDown
  imports OmpCsr Levels
begin

text \<open>
  The top-down step of the parallel breadth first search, \<^verbatim>\<open>bfs_top_down_step\<close> of
  \<^verbatim>\<open>graph500/omp-csr/omp-csr.c\<close>. Here the threads race: two may see that a vertex has no parent
  before one of them claims it. Each thread is a state of its own, and a run is the order in which
  the threads take their steps: reading one entry of a row and testing the vertex is one step, the
  atomic claim is another.
\<close>

section \<open>The step\<close>

text \<open>
  The tree, the queue with \<^verbatim>\<open>*k2_p\<close>, and for each thread the buffer \<^verbatim>\<open>local\<close>, as the list of its
  first \<^verbatim>\<open>kbuf\<close> cells, and the copies it has reserved and not yet written.
\<close>

type_synonym down_state = "int list \<times> nat list \<times> nat \<times> nat list list \<times> copies list"

text \<open>\<^verbatim>\<open>if (int64_cas (&bfs_tree[j], -1, v))\<close>: claim the vertex and put it into the buffer.\<close>

definition claim_vertex :: "nat \<Rightarrow> nat \<Rightarrow> nat \<Rightarrow> int \<Rightarrow> down_state \<Rightarrow> down_state result" where
  "claim_vertex nv tid v j = (\<lambda>(bfs_tree, vlist, k2, locals, copies).
     bindE (arr_geti bfs_tree j) (\<lambda>t.
     let (ok, t) = int64_cas t (- 1) (int v) in
     bindE (arr_seti bfs_tree j t) (\<lambda>bfs_tree.
     if ok then
       bindE (arr_get locals tid) (\<lambda>local.
       if length local < THREAD_BUF_LEN then
         bindE (arr_set locals tid (local @ [nat j])) (\<lambda>locals. Inr (bfs_tree, vlist, k2, locals, copies))
       else
         let voff = k2; (cs, vlist, k2) = reserve local (vlist, k2) in
         bindE (assertE (voff + THREAD_BUF_LEN \<le> nv)) (\<lambda>_.
         bindE (arr_set copies tid cs) (\<lambda>copies.
         bindE (arr_set locals tid [nat j]) (\<lambda>locals. Inr (bfs_tree, vlist, k2, locals, copies)))))
     else Inr (bfs_tree, vlist, k2, locals, copies))))"

text \<open>The next cell of the copy loop.\<close>

definition down_copy :: "nat \<Rightarrow> nat \<times> nat \<Rightarrow> copies \<Rightarrow> copies list \<times> vqueue \<Rightarrow> (copies list \<times> vqueue) result" where
  "down_copy tid c cs = (\<lambda>(copies, q).
     bindE (copy_cell c q) (\<lambda>q. bindE (arr_set copies tid cs) (\<lambda>copies. Inr (copies, q))))"

text \<open>
  A thread: the iterations it still has to start, the variables \<^verbatim>\<open>v\<close>, \<^verbatim>\<open>vo\<close> and
  \<^verbatim>\<open>veo\<close> of the one it is in, and \<^verbatim>\<open>j\<close> when the test has found it without a parent.
\<close>

record down_thread =
  dt_ks :: "nat list"
  dt_v :: nat
  dt_vo :: nat
  dt_veo :: nat
  dt_j :: "int option"

definition thread_step :: "omp_graph \<Rightarrow> nat \<Rightarrow> down_thread \<Rightarrow> down_state \<Rightarrow> (down_thread \<times> down_state) result" where
  "thread_step g tid th = (\<lambda>(bfs_tree, vlist, k2, locals, copies).
     bindE (arr_get copies tid) (\<lambda>mine.
     let s = (bfs_tree, vlist, k2, locals, copies) in
     case mine of
       c # cs \<Rightarrow> bindE (down_copy tid c cs (copies, vlist, k2)) (\<lambda>(copies, vlist, k2). Inr (th, bfs_tree, vlist, k2, locals, copies))
     | [] \<Rightarrow>
         (case dt_j th of
            Some j \<Rightarrow>
              bindE (claim_vertex (cs_nv g) tid (dt_v th) j s) (\<lambda>s. Inr (th\<lparr>dt_j := None, dt_vo := dt_vo th + 1\<rparr>, s))
          | None \<Rightarrow>
              if dt_vo th < dt_veo th then
                bindE (arr_get (cs_xadjstore g) (MINVECT_SIZE + dt_vo th)) (\<lambda>j.
                bindE (arr_geti bfs_tree j) (\<lambda>t.
                if t = - 1 then Inr (th\<lparr>dt_j := Some j\<rparr>, s) else Inr (th\<lparr>dt_vo := dt_vo th + 1\<rparr>, s)))
              else
                (case dt_ks th of
                   [] \<Rightarrow> Inr (th, s)
                 | k # ks \<Rightarrow>
                     bindE (arr_get vlist k) (\<lambda>v.
                     bindE (arr_get (cs_xoff g) (XENDOFF v)) (\<lambda>veo.
                     bindE (arr_get (cs_xoff g) (XOFF v)) (\<lambda>vo.
                     Inr (\<lparr>dt_ks = ks, dt_v = v, dt_vo = vo, dt_veo = veo, dt_j = None\<rparr>, s))))))))"

definition team_step :: "omp_graph \<Rightarrow> nat \<Rightarrow> down_thread list \<times> down_state \<Rightarrow> (down_thread list \<times> down_state) result" where
  "team_step g tid = (\<lambda>(ths, s).
     if tid < length ths then bindE (thread_step g tid (ths ! tid) s) (\<lambda>(th, s). Inr (ths[tid := th], s)) else Inr (ths, s))"

definition start_thread :: "(nat \<times> nat) list \<Rightarrow> nat \<Rightarrow> down_thread" where
  "start_thread its tid =
     \<lparr>dt_ks = map snd (filter (\<lambda>(t, k). t = tid) its), dt_v = 0, dt_vo = 0, dt_veo = 0, dt_j = None\<rparr>"

text \<open>
  A step of a thread after the loop, \<^verbatim>\<open>if (kbuf)\<close>: it reserves cells for its buffer and writes them.
  The buffer counts as empty when the cells are reserved.
\<close>

type_synonym flush_state = "nat list list \<times> copies list \<times> vqueue"

definition top_down_flush :: "omp_graph \<Rightarrow> nat \<Rightarrow> flush_state \<Rightarrow> flush_state result" where
  "top_down_flush g tid = (\<lambda>(locals, copies, vlist, k2).
     if tid < length locals then
       bindE (arr_get copies tid) (\<lambda>mine.
       bindE (arr_get locals tid) (\<lambda>local.
       case mine of
         c # cs \<Rightarrow> bindE (down_copy tid c cs (copies, vlist, k2)) (\<lambda>(copies, q). Inr (locals, copies, q))
       | [] \<Rightarrow>
           if length local \<noteq> 0 then
             let voff = k2; (cs, q) = reserve local (vlist, k2) in
             bindE (assertE (voff + length local \<le> cs_nv g)) (\<lambda>_.
             bindE (arr_set copies tid cs) (\<lambda>copies.
             bindE (arr_set locals tid []) (\<lambda>locals. Inr (locals, copies, q))))
           else Inr (locals, copies, vlist, k2)))
     else Inr (locals, copies, vlist, k2))"

text \<open>
  \<open>sched\<close> says which thread has which iterations, \<open>turns\<close> whose step is next in the loop and
  \<open>turns'\<close> after it. An entry of a row takes a thread at most \<open>THREAD_BUF_LEN + 2\<close> steps.
\<close>

definition step_bound :: "omp_graph \<Rightarrow> nat \<Rightarrow> nat" where
  "step_bound g n = n * ((THREAD_BUF_LEN + 2) * length (cs_xadjstore g) + 1)"

definition bfs_top_down_step ::
  "nat \<Rightarrow> sched \<Rightarrow> nat list \<Rightarrow> nat list \<Rightarrow> omp_graph \<Rightarrow> int list \<times> nat list \<times> nat \<times> nat \<Rightarrow> (int list \<times> nat list \<times> nat \<times> nat) result" where
  "bfs_top_down_step nt sched turns turns' g = (\<lambda>(bfs_tree, vlist, k1, k2).
     let oldk2 = k2; ths = map (start_thread (sched k1 oldk2)) [0..<nt] in
     bindE (run_team nt (step_bound g (oldk2 - k1)) turns (team_step g)
       (ths, bfs_tree, vlist, k2, replicate nt [], replicate nt [])) (\<lambda>(ths, bfs_tree, vlist, k2, locals, copies).
     bindE (run_team nt (THREAD_BUF_LEN + 1) turns' (top_down_flush g) (locals, copies, vlist, k2)) (\<lambda>(locals, copies, vlist, k2).
     Inr (bfs_tree, vlist, oldk2, k2))))"

section \<open>What the step keeps\<close>

text \<open>The queue \<open>q\<close> holds visited vertices, and those from \<open>k1\<close> on are the frontier.\<close>

definition frontier :: "packed_edge list \<Rightarrow> nat \<Rightarrow> nat \<Rightarrow> nat list \<Rightarrow> nat \<Rightarrow> bool" where
  "frontier IJ src d q k1 \<longleftrightarrow> k1 \<le> length q \<and> distinct q \<and> set q \<subseteq> upto_lev IJ src d \<and> set (drop k1 q) = lev IJ src d"

definition search_pre :: "packed_edge list \<Rightarrow> omp_graph \<Rightarrow> nat \<Rightarrow> bool" where
  "search_pre IJ g src \<longleftrightarrow> omp_graph_of IJ g \<and> src < num_vertices IJ"

lemma search_preD:
  assumes "search_pre IJ g src"
  shows "cs_nv g = num_vertices IJ" "src < num_vertices IJ" "\<forall>v w. nbr IJ v w \<longrightarrow> w < num_vertices IJ"
    "\<exists>rows. csr_rows (row_deg IJ) (num_vertices IJ) rows (cs_xoff g, cs_xadjstore g) \<and>
       (\<forall>v<num_vertices IJ. set (rows v) = {w. nbr IJ v w})"
  using assms nbr_num_vertices by (auto simp: search_pre_def omp_graph_of_def)

text \<open>
  The vertices \<open>F\<close> found so far have a reserved cell of the queue behind \<open>q0\<close> or are in the buffer of a
  thread.
\<close>

definition down_rep :: "packed_edge list \<Rightarrow> omp_graph \<Rightarrow> nat \<Rightarrow> nat \<Rightarrow> nat list \<Rightarrow> nat \<Rightarrow> nat \<Rightarrow> nat set \<Rightarrow> down_state \<Rightarrow> bool" where
  "down_rep IJ g src d q0 k1 nt F = (\<lambda>(tree, vlist, k2, locals, copies).
     search_pre IJ g src \<and> frontier IJ src d q0 k1 \<and> F \<subseteq> lev IJ src (Suc d) \<and>
     vis_tree IJ (num_vertices IJ) src (upto_lev IJ src d \<union> F) tree \<and>
     length locals = nt \<and> (\<forall>l \<in> set locals. length l \<le> THREAD_BUF_LEN) \<and>
     length copies = nt \<and> (\<forall>(p, v) \<in> set (concat copies). length q0 \<le> p) \<and>
     (\<exists>r. racing (num_vertices IJ) (q0 @ r) (set (concat copies)) (vlist, k2) \<and> mset r + mset (concat locals) = mset_set F))"

lemma concat_length_ge: "t < length ls \<Longrightarrow> length (ls ! t) \<le> length (concat ls)"
proof (induction ls arbitrary: t)
  case (Cons l ls)
  then show ?case by (cases t) (auto intro: trans_le_add2)
qed simp

lemma level_room:
  assumes pre: "search_pre IJ g src" and "frontier IJ src d q0 k1" and "F \<subseteq> lev IJ src (Suc d)"
  shows "length q0 + card F \<le> num_vertices IJ" "finite F"
proof -
  note P = search_preD [OF pre]
  have q0: "distinct q0" "set q0 \<subseteq> upto_lev IJ src d" using assms(2) by (auto simp: frontier_def)
  show F: "finite F" using finite_lev(2) [OF P(3,2)] assms(3) by (rule finite_subset [rotated])
  have "set q0 \<inter> F = {}" using q0(2) assms(3) lev_Suc_new by blast
  then have "length q0 + card F = card (set q0 \<union> F)" using F q0(1) by (simp add: card_Un_disjoint distinct_card)
  also have "\<dots> \<le> card {..<num_vertices IJ}"
  proof (rule card_mono)
    show "set q0 \<union> F \<subseteq> {..<num_vertices IJ}"
      using lev_bound [OF P(3,2)] q0(2) assms(3) lev_upto [of IJ src "Suc d"] by blast
  qed simp
  finally show "length q0 + card F \<le> num_vertices IJ" by simp
qed

definition copies_of :: "down_state \<Rightarrow> copies list" where
  "copies_of = (\<lambda>(tree, vlist, k2, locals, copies). copies)"

lemma claim_rep:
  assumes rep: "down_rep IJ g src d q0 k1 nt F s" and t: "t < nt" and v: "v \<in> lev IJ src d" and w: "nbr IJ v w"
    and cp: "copies_of s ! t = []"
  shows "\<exists>s'. claim_vertex (cs_nv g) t v (int w) s = Inr s' \<and> down_rep IJ g src d q0 k1 nt (F \<union> ({w} - upto_lev IJ src d)) s' \<and>
    length (copies_of s' ! t) \<le> THREAD_BUF_LEN \<and> (\<forall>t'. t' \<noteq> t \<longrightarrow> copies_of s' ! t' = copies_of s ! t')"
proof -
  obtain tree vlist k2 locals copies r where s: "s = (tree, vlist, k2, locals, copies)" and pre: "search_pre IJ g src"
    and fr: "frontier IJ src d q0 k1" and F: "F \<subseteq> lev IJ src (Suc d)"
    and tree: "vis_tree IJ (num_vertices IJ) src (upto_lev IJ src d \<union> F) tree"
    and loc: "length locals = nt" "\<forall>l \<in> set locals. length l \<le> THREAD_BUF_LEN"
    and cps: "length copies = nt" "\<forall>(p, v) \<in> set (concat copies). length q0 \<le> p"
    and q: "racing (num_vertices IJ) (q0 @ r) (set (concat copies)) (vlist, k2)" "mset r + mset (concat locals) = mset_set F"
    using rep by (cases s) (auto simp: down_rep_def)
  note P = search_preD [OF pre]
  have wn: "w < num_vertices IJ" using P(3) w by blast
  have vn: "v < num_vertices IJ" using lev_bound [OF P(3,2)] lev_upto v by blast
  have ct: "t < length copies" "copies ! t = []" using t cps(1) cp by (simp_all add: s copies_of_def)
  note new = vis_tree_new [OF tree wn]
  show ?thesis
  proof (cases "w \<in> upto_lev IJ src d \<union> F")
    case True
    then have "F \<union> ({w} - upto_lev IJ src d) = F" by blast
    then show ?thesis using True new rep cp by (simp add: claim_vertex_def s int64_cas_def)
  next
    case False
    then have wl: "w \<in> lev IJ src (Suc d)" using lev_SucI [OF v w] by blast
    have F': "F \<union> ({w} - upto_lev IJ src d) = insert w F" "insert w F \<subseteq> lev IJ src (Suc d)" using False wl F by blast+
    have tree': "vis_tree IJ (num_vertices IJ) src (upto_lev IJ src d \<union> insert w F) (tree[w := int v])"
      using vis_tree_add [OF tree v w wl vn wn] by simp
    have ms: "mset_set (insert w F) = mset_set F + {#w#}" using level_room(2) [OF pre fr F] False by simp
    let ?l = "locals ! t"
    have t': "t < length locals" using t loc(1) by simp
    show ?thesis
    proof (cases "length ?l < THREAD_BUF_LEN")
      case True
      have "claim_vertex (cs_nv g) t v (int w) s = Inr (tree[w := int v], vlist, k2, locals[t := ?l @ [w]], copies)"
        using False new t' True by (simp add: claim_vertex_def s int64_cas_def)
      moreover have "mset r + mset (concat (locals[t := ?l @ [w]])) = mset_set (insert w F)"
        using mset_concat_update [OF t', of "?l @ [w]"] q(2) by (simp add: ms union_assoc [symmetric])
      moreover have "\<forall>l \<in> set (locals[t := ?l @ [w]]). length l \<le> THREAD_BUF_LEN"
        using loc(2) True set_update_subset_insert [of locals t "?l @ [w]"] by auto
      ultimately show ?thesis using pre fr F' tree' loc(1) cps q(1) ct unfolding F'(1) by (auto simp: down_rep_def copies_of_def s)
    next
      case full: False
      then have len: "length ?l = THREAD_BUF_LEN" using loc(2) t' nth_mem [OF t'] by fastforce
      have "length r + length (concat locals) = card F" using arg_cong [OF q(2), of size] by simp
      then have room: "length (q0 @ r) + length ?l \<le> num_vertices IJ"
        using level_room(1) [OF pre fr F] concat_length_ge [OF t'] by simp
      obtain cs where cs: "reserve ?l (vlist, k2) = (cs, vlist, k2 + length ?l)" "length cs = length ?l"
        "\<forall>(p, v) \<in> set cs. length (q0 @ r) \<le> p"
        "racing (num_vertices IJ) ((q0 @ r) @ ?l) (set (concat copies) \<union> set cs) (vlist, k2 + length ?l)"
        using racing_reserve [OF q(1) room] by metis
      have "k2 = length (q0 @ r)" using q(1) by (simp add: racing_def)
      then have "k2 + THREAD_BUF_LEN \<le> cs_nv g" using room len P(1) by simp
      then have c: "claim_vertex (cs_nv g) t v (int w) s = Inr (tree[w := int v], vlist, k2 + length ?l, locals[t := [w]], copies[t := cs])"
        using False new t' full cs(1) ct(1) by (simp add: claim_vertex_def s int64_cas_def Let_def)
      have "mset (r @ ?l) + mset (concat (locals[t := [w]])) = mset_set (insert w F)"
        using mset_concat_update [OF t', of "[w]"] q(2) by (simp add: ms add.assoc add.commute add.left_commute)
      moreover have "\<forall>l \<in> set (locals[t := [w]]). length l \<le> THREAD_BUF_LEN"
        using loc(2) set_update_subset_insert [of locals t "[w]"] by (auto simp: THREAD_BUF_LEN_def)
      moreover have "\<forall>(p, v) \<in> set (concat (copies[t := cs])). length q0 \<le> p"
        unfolding copies_push [OF ct] using cps(2) cs(3) by fastforce
      moreover have "racing (num_vertices IJ) (q0 @ r @ ?l) (set (concat (copies[t := cs]))) (vlist, k2 + length ?l)"
        using cs(4) unfolding copies_push [OF ct] by simp
      ultimately have "down_rep IJ g src d q0 k1 nt (insert w F) (tree[w := int v], vlist, k2 + length ?l, locals[t := [w]], copies[t := cs])"
        using pre fr F' tree' loc(1) cps(1) unfolding down_rep_def prod.case by (intro conjI exI [of _ "r @ ?l"]) simp_all
      then show ?thesis using c cs(2) len ct(1) unfolding F'(1) by (simp add: copies_of_def s)
    qed
  qed
qed

lemma copy_rep:
  assumes rep: "down_rep IJ g src d q0 k1 nt F (tree, vlist, k2, locals, copies)" and t: "t < nt" and c: "copies ! t = c # cs"
  shows "\<exists>vlist'. down_copy t c cs (copies, vlist, k2) = Inr (copies[t := cs], vlist', k2) \<and>
    down_rep IJ g src d q0 k1 nt F (tree, vlist', k2, locals, copies[t := cs])"
proof -
  have ct: "t < length copies" using t rep by (simp add: down_rep_def)
  obtain r where r: "racing (num_vertices IJ) (q0 @ r) (set (concat copies)) (vlist, k2)" "mset r + mset (concat locals) = mset_set F"
    using rep by (auto simp: down_rep_def)
  note pop = copies_pop [OF ct c]
  obtain vlist' where v: "copy_cell c (vlist, k2) = Inr (vlist', k2)"
    "racing (num_vertices IJ) (q0 @ r) (set (concat (copies[t := cs]))) (vlist', k2)" using racing_copy [OF r(1) pop] by auto
  have "\<forall>(p, v) \<in> set (concat (copies[t := cs])). length q0 \<le> p" using rep unfolding down_rep_def prod.case pop by blast
  then show ?thesis using v r(2) ct rep by (auto simp: down_copy_def down_rep_def)
qed

lemma racing_nth:
  assumes "racing L (q0 @ r) P (vlist, k2)" and "\<forall>(p, v) \<in> P. length q0 \<le> p" and "k < length q0"
  shows "arr_get vlist k = Inr (q0 ! k)"
proof -
  have "k \<notin> fst ` P" using assms(2,3) by force
  moreover have R: "k2 = length (q0 @ r)" "k2 \<le> length vlist" "\<forall>p<k2. vlist ! p = (q0 @ r) ! p \<or> p \<in> fst ` P"
    using assms(1) by (simp_all add: racing_def)
  moreover have "k < k2" using R(1) assms(3) by simp
  ultimately have "vlist ! k = (q0 @ r) ! k" by blast
  then show ?thesis using assms(3) R(1,2) by (simp add: nth_append)
qed

lemma queued_nth: "queued L q (vlist, k2) \<Longrightarrow> k < length q \<Longrightarrow> arr_get vlist k = Inr (q ! k)"
  by (rule racing_nth [of L q "[]" "{}"]) (simp_all add: racing_queued)

section \<open>The last flush\<close>

definition flush_rep :: "omp_graph \<Rightarrow> nat \<Rightarrow> nat list \<Rightarrow> nat multiset \<Rightarrow> (nat \<Rightarrow> nat) \<Rightarrow> flush_state \<Rightarrow> bool" where
  "flush_rep g nt q0 V W = (\<lambda>(locals, copies, q).
     length locals = nt \<and> length copies = nt \<and> length q0 + size V \<le> cs_nv g \<and>
     (\<forall>t<nt. length (copies ! t) + (if locals ! t = [] then 0 else length (locals ! t) + 1) \<le> W t) \<and>
     (\<exists>r. racing (cs_nv g) (q0 @ r) (set (concat copies)) q \<and> mset r + mset (concat locals) = V))"

interpretation flushing: team "top_down_flush g" "flush_rep g nt q0 V" for g nt q0 V
proof
  fix W s t assume rep: "flush_rep g nt q0 V W s"
  obtain locals copies vlist k2 r where s: "s = (locals, copies, vlist, k2)" and len: "length locals = nt" "length copies = nt"
    and V: "length q0 + size V \<le> cs_nv g" "mset r + mset (concat locals) = V"
    and W: "\<And>t. t < nt \<Longrightarrow> length (copies ! t) + (if locals ! t = [] then 0 else length (locals ! t) + 1) \<le> W t"
    and r: "racing (cs_nv g) (q0 @ r) (set (concat copies)) (vlist, k2)" using rep by (cases s) (auto simp: flush_rep_def)
  show "\<exists>s'. top_down_flush g t s = Inr s' \<and> flush_rep g nt q0 V (W(t := W t - 1)) s'"
  proof (cases "t < nt")
    case True
    then have t: "t < length locals" "t < length copies" using len by simp_all
    show ?thesis
    proof (cases "copies ! t")
      case (Cons c cs)
      obtain vlist' where v: "copy_cell c (vlist, k2) = Inr (vlist', k2)"
        "racing (cs_nv g) (q0 @ r) (set (concat (copies[t := cs]))) (vlist', k2)"
        using racing_copy [OF r copies_pop [OF t(2) Cons]] by auto
      have "flush_rep g nt q0 V (W(t := W t - 1)) (locals, copies[t := cs], vlist', k2)"
        using v(2) V W len W [OF True] Cons by (auto simp: flush_rep_def nth_list_update)
      then show ?thesis using v(1) Cons t by (simp add: top_down_flush_def s down_copy_def)
    next
      case Nil
      show ?thesis
      proof (cases "locals ! t = []")
        case empty: True
        have "flush_rep g nt q0 V (W(t := W t - 1)) s" using rep W Nil empty by (auto simp: flush_rep_def s)
        then show ?thesis using t Nil empty by (simp add: top_down_flush_def s)
      next
        case False
        let ?l = "locals ! t"
        have "length r + length ?l \<le> size V" using arg_cong [OF V(2), of size] concat_length_ge [OF t(1)] by simp
        then have room: "length (q0 @ r) + length ?l \<le> cs_nv g" using V(1) by simp
        obtain cs where cs: "reserve ?l (vlist, k2) = (cs, vlist, k2 + length ?l)" "length cs = length ?l"
          "racing (cs_nv g) ((q0 @ r) @ ?l) (set (concat copies) \<union> set cs) (vlist, k2 + length ?l)"
          using racing_reserve [OF r room] by metis
        have "k2 = length (q0 @ r)" using r by (simp add: racing_def)
        then have "k2 + length ?l \<le> cs_nv g" using room by simp
        then have st: "top_down_flush g t s = Inr (locals[t := []], copies[t := cs], vlist, k2 + length ?l)"
          using t Nil False cs(1) by (simp add: top_down_flush_def s Let_def)
        have "mset (r @ ?l) + mset (concat (locals[t := []])) = V"
          using mset_concat_update [OF t(1), of "[]"] V(2) by (simp add: ac_simps)
        moreover have "racing (cs_nv g) (q0 @ r @ ?l) (set (concat (copies[t := cs]))) (vlist, k2 + length ?l)"
          using cs(3) unfolding copies_push [OF t(2) Nil] by simp
        moreover have "length (copies[t := cs] ! t') + (if locals[t := []] ! t' = [] then 0 else length (locals[t := []] ! t') + 1) \<le>
            (W(t := W t - 1)) t'" if "t' < nt" for t'
          using W [OF that] False cs(2) Nil len that by (cases "t' = t") auto
        ultimately have "flush_rep g nt q0 V (W(t := W t - 1)) (locals[t := []], copies[t := cs], vlist, k2 + length ?l)"
          using V(1) len unfolding flush_rep_def prod.case by (intro conjI allI impI exI [of _ "r @ ?l"]) simp_all
        then show ?thesis using st by blast
      qed
    qed
  next
    case False
    then have "flush_rep g nt q0 V (W(t := W t - 1)) s" using rep by (auto simp: flush_rep_def s)
    then show ?thesis using False len by (simp add: top_down_flush_def s)
  qed
next
  fix W s W' assume "flush_rep g nt q0 V W s" "\<And>t. W t \<le> W' t"
  then show "flush_rep g nt q0 V W' s" unfolding flush_rep_def by (cases s) (use order_trans in blast)
qed

section \<open>Threads\<close>

definition thread_ok :: "packed_edge list \<Rightarrow> omp_graph \<Rightarrow> nat \<Rightarrow> nat \<Rightarrow> nat list \<Rightarrow> nat \<Rightarrow> down_thread \<Rightarrow> bool" where
  "thread_ok IJ g src d q0 k1 th \<longleftrightarrow> (\<forall>k \<in> set (dt_ks th). k1 \<le> k \<and> k < length q0) \<and>
     dt_veo th - dt_vo th \<le> length (cs_xadjstore g) \<and>
     (\<forall>i. dt_vo th \<le> i \<and> i < dt_veo th \<longrightarrow> MINVECT_SIZE + i < length (cs_xadjstore g) \<and>
        (\<exists>w. cs_xadjstore g ! (MINVECT_SIZE + i) = int w \<and> nbr IJ (dt_v th) w)) \<and>
     (dt_vo th < dt_veo th \<longrightarrow> dt_v th \<in> lev IJ src d) \<and>
     (\<forall>j. dt_j th = Some j \<longrightarrow> dt_vo th < dt_veo th \<and> cs_xadjstore g ! (MINVECT_SIZE + dt_vo th) = j)"

text \<open>The vertices a thread will still come across, and a bound of its steps.\<close>

definition todo :: "packed_edge list \<Rightarrow> omp_graph \<Rightarrow> nat list \<Rightarrow> down_thread \<Rightarrow> nat set" where
  "todo IJ g q0 th = (\<Union>k \<in> set (dt_ks th). {w. nbr IJ (q0 ! k) w}) \<union>
     {w. \<exists>i. dt_vo th \<le> i \<and> i < dt_veo th \<and> cs_xadjstore g ! (MINVECT_SIZE + i) = int w}"

definition work :: "omp_graph \<Rightarrow> down_thread \<Rightarrow> nat" where
  "work g th = step_bound g (length (dt_ks th)) + (THREAD_BUF_LEN + 2) * (dt_veo th - dt_vo th) - (if dt_j th = None then 0 else 1)"

lemma todo_done: "thread_ok IJ g src d q0 k1 th \<Longrightarrow> work g th = 0 \<Longrightarrow> todo IJ g q0 th = {}"
  by (cases "dt_j th") (auto simp: thread_ok_def work_def step_bound_def todo_def THREAD_BUF_LEN_def)

lemma todo_next:
  assumes "cs_xadjstore g ! (MINVECT_SIZE + dt_vo th) = int w"
  shows "todo IJ g q0 th \<subseteq> insert w (todo IJ g q0 (th\<lparr>dt_j := x, dt_vo := Suc (dt_vo th)\<rparr>))"
proof
  fix u assume "u \<in> todo IJ g q0 th"
  then consider k where "k \<in> set (dt_ks th)" "nbr IJ (q0 ! k) u"
    | i where "dt_vo th \<le> i" "i < dt_veo th" "cs_xadjstore g ! (MINVECT_SIZE + i) = int u" unfolding todo_def by blast
  then show "u \<in> insert w (todo IJ g q0 (th\<lparr>dt_j := x, dt_vo := Suc (dt_vo th)\<rparr>))"
  proof cases
    case 1
    then show ?thesis by (auto simp: todo_def)
  next
    case (2 i)
    show ?thesis
    proof (cases "i = dt_vo th")
      case True
      then show ?thesis using 2(3) assms by simp
    next
      case False
      then have "Suc (dt_vo th) \<le> i" using 2(1) by simp
      then show ?thesis using 2(2,3) by (auto simp: todo_def)
    qed
  qed
qed

lemma thread_ok_next: "thread_ok IJ g src d q0 k1 th \<Longrightarrow> thread_ok IJ g src d q0 k1 (th\<lparr>dt_j := None, dt_vo := Suc (dt_vo th)\<rparr>)"
  unfolding thread_ok_def by auto

lemma frontier_nth:
  assumes "frontier IJ src d q0 k1" and "k1 \<le> k" "k < length q0"
  shows "q0 ! k \<in> lev IJ src d"
proof -
  have "drop k1 q0 ! (k - k1) = q0 ! k" "k - k1 < length (drop k1 q0)" using assms(2,3) by simp_all
  then show ?thesis using assms(1) nth_mem unfolding frontier_def by metis
qed

text \<open>A thread that starts a row.\<close>

lemma row_thread:
  assumes pre: "search_pre IJ g src" and v: "v \<in> lev IJ src d" and ks: "\<forall>k \<in> set ks. k1 \<le> k \<and> k < length q0"
  defines "th \<equiv> \<lparr>dt_ks = ks, dt_v = v, dt_vo = cs_xoff g ! XOFF v, dt_veo = cs_xoff g ! XENDOFF v, dt_j = None\<rparr>"
  shows "XOFF v < length (cs_xoff g)" "XENDOFF v < length (cs_xoff g)" "thread_ok IJ g src d q0 k1 th"
    "todo IJ g q0 th = (\<Union>k \<in> set ks. {w. nbr IJ (q0 ! k) w}) \<union> {w. nbr IJ v w}"
proof -
  note P = search_preD [OF pre]
  have vn: "v < num_vertices IJ" using lev_bound [OF P(3,2)] lev_upto v by blast
  obtain rows where rows: "csr_rows (row_deg IJ) (num_vertices IJ) rows (cs_xoff g, cs_xadjstore g)"
    "set (rows v) = {w. nbr IJ v w}" using P(4) vn by blast
  note D = csr_rowsD [OF rows(1)]
  let ?o = "row_off (row_deg IJ) v"
  show "XOFF v < length (cs_xoff g)" "XENDOFF v < length (cs_xoff g)" using D(1) vn by simp_all
  have off: "cs_xoff g ! XOFF v = ?o" "cs_xoff g ! XENDOFF v = ?o + length (rows v)" using D(4,5) vn by simp_all
  have room: "?o + length (rows v) + MINVECT_SIZE \<le> length (cs_xadjstore g)"
    using D(2) D(3) [OF vn] row_off_room [OF vn, of "row_deg IJ"] by simp
  have entry: "cs_xadjstore g ! (MINVECT_SIZE + i) = int (rows v ! (i - ?o)) \<and> i - ?o < length (rows v)"
    if "?o \<le> i" "i < ?o + length (rows v)" for i
    using D(6) [OF vn, of "i - ?o"] that by simp
  then have nb: "\<exists>w. cs_xadjstore g ! (MINVECT_SIZE + i) = int w \<and> nbr IJ v w" if "?o \<le> i" "i < ?o + length (rows v)" for i
    using rows(2) nth_mem that by blast
  show "thread_ok IJ g src d q0 k1 th" using ks v room nb by (auto simp: thread_ok_def th_def off)
  have "{w. \<exists>i. ?o \<le> i \<and> i < ?o + length (rows v) \<and> cs_xadjstore g ! (MINVECT_SIZE + i) = int w} = {w. nbr IJ v w}"
  proof (intro equalityI subsetI)
    fix w assume "w \<in> {w. nbr IJ v w}"
    then obtain m where "m < length (rows v)" "rows v ! m = w" using rows(2) by (metis in_set_conv_nth)
    then show "w \<in> {w. \<exists>i. ?o \<le> i \<and> i < ?o + length (rows v) \<and> cs_xadjstore g ! (MINVECT_SIZE + i) = int w}"
      using D(6) [OF vn, of m] by (auto intro!: exI [of _ "?o + m"])
  qed (use nb in fastforce)
  then show "todo IJ g q0 th = (\<Union>k \<in> set ks. {w. nbr IJ (q0 ! k) w}) \<union> {w. nbr IJ v w}" by (simp add: todo_def th_def off)
qed

lemma thread_step_rep:
  assumes rep: "down_rep IJ g src d q0 k1 nt F s" and t: "t < nt" and ok: "thread_ok IJ g src d q0 k1 th"
  shows "\<exists>th' s' F'. thread_step g t th s = Inr (th', s') \<and> down_rep IJ g src d q0 k1 nt F' s' \<and> thread_ok IJ g src d q0 k1 th' \<and>
    F \<subseteq> F' \<and> todo IJ g q0 th \<inter> lev IJ src (Suc d) \<subseteq> F' \<union> todo IJ g q0 th' \<and>
    work g th' + length (copies_of s' ! t) \<le> work g th + length (copies_of s ! t) - 1 \<and>
    (\<forall>t'. t' \<noteq> t \<longrightarrow> copies_of s' ! t' = copies_of s ! t')"
proof -
  obtain tree vlist k2 locals copies r where s: "s = (tree, vlist, k2, locals, copies)" and pre: "search_pre IJ g src"
    and fr: "frontier IJ src d q0 k1" and tree: "vis_tree IJ (num_vertices IJ) src (upto_lev IJ src d \<union> F) tree"
    and cps: "length copies = nt" "\<forall>(p, v) \<in> set (concat copies). length q0 \<le> p"
    and q: "racing (num_vertices IJ) (q0 @ r) (set (concat copies)) (vlist, k2)"
    using rep by (cases s) (auto simp: down_rep_def)
  note P = search_preD [OF pre]
  have new: "\<not> w \<in> upto_lev IJ src d" if "w \<in> lev IJ src (Suc d)" for w using lev_Suc_new that by blast
  have ct: "t < length copies" using t cps(1) by simp
  show ?thesis
  proof (cases "copies ! t")
    case (Cons c cs)
    obtain vlist' where v: "down_copy t c cs (copies, vlist, k2) = Inr (copies[t := cs], vlist', k2)"
      "down_rep IJ g src d q0 k1 nt F (tree, vlist', k2, locals, copies[t := cs])" using copy_rep [OF rep [unfolded s] t Cons] by blast
    then show ?thesis using ct Cons ok
      by (intro exI [of _ th] exI [of _ "(tree, vlist', k2, locals, copies[t := cs])"] exI [of _ F])
        (auto simp: thread_step_def s copies_of_def)
  next
    case Nil
    have cp: "copies_of s ! t = []" using Nil by (simp add: copies_of_def s)
    show ?thesis
    proof (cases "dt_vo th < dt_veo th")
      case True
      obtain w where w: "cs_xadjstore g ! (MINVECT_SIZE + dt_vo th) = int w" "nbr IJ (dt_v th) w" "dt_v th \<in> lev IJ src d"
        "MINVECT_SIZE + dt_vo th < length (cs_xadjstore g)" using ok True unfolding thread_ok_def by blast
      let ?th = "th\<lparr>dt_j := None, dt_vo := Suc (dt_vo th)\<rparr>"
      note nx = todo_next [OF w(1), of IJ q0 None] and okn = thread_ok_next [OF ok]
      have d: "dt_veo th - dt_vo th = Suc (dt_veo th - Suc (dt_vo th))" using True by simp
      show ?thesis
      proof (cases "dt_j th")
        case (Some j)
        then have j: "j = int w" using ok w(1) by (simp add: thread_ok_def)
        obtain s' where s': "claim_vertex (cs_nv g) t (dt_v th) (int w) s = Inr s'"
          "down_rep IJ g src d q0 k1 nt (F \<union> ({w} - upto_lev IJ src d)) s'" "length (copies_of s' ! t) \<le> THREAD_BUF_LEN"
          "\<forall>t'. t' \<noteq> t \<longrightarrow> copies_of s' ! t' = copies_of s ! t'" using claim_rep [OF rep t w(3,2) cp] by blast
        have "thread_step g t th s = Inr (?th, s')" using Some j s'(1) ct Nil by (simp add: thread_step_def s)
        moreover have "work g ?th + length (copies_of s' ! t) \<le> work g th + length (copies_of s ! t) - 1"
          using Some d s'(3) by (simp add: work_def THREAD_BUF_LEN_def)
        ultimately show ?thesis using s'(2,4) okn nx new
          by (intro exI [of _ ?th] exI [of _ s'] exI [of _ "F \<union> ({w} - upto_lev IJ src d)"]) blast
      next
        case None
        have wn: "w < num_vertices IJ" using P(3) w by blast
        note tw = vis_tree_new [OF tree wn]
        show ?thesis
        proof (cases "tree ! w = - 1")
          case un: True
          have "thread_step g t th s = Inr (th\<lparr>dt_j := Some (int w)\<rparr>, s)"
            using None True w(1,4) tw(2) un ct Nil by (simp add: thread_step_def s)
          moreover have "thread_ok IJ g src d q0 k1 (th\<lparr>dt_j := Some (int w)\<rparr>)" using ok True w(1) by (simp add: thread_ok_def)
          moreover have "work g (th\<lparr>dt_j := Some (int w)\<rparr>) + length (copies_of s ! t) \<le> work g th + length (copies_of s ! t) - 1"
            using None d by (simp add: work_def)
          moreover have "todo IJ g q0 (th\<lparr>dt_j := Some (int w)\<rparr>) = todo IJ g q0 th" by (simp add: todo_def)
          ultimately show ?thesis using rep by (intro exI [of _ "th\<lparr>dt_j := Some (int w)\<rparr>"] exI [of _ s] exI [of _ F]) auto
        next
          case seen: False
          have same: "th\<lparr>dt_vo := Suc (dt_vo th)\<rparr> = ?th" using None by (cases th) simp
          have "thread_step g t th s = Inr (?th, s)" using None True w(1,4) tw(2) seen same ct Nil by (simp add: thread_step_def s)
          moreover have "work g ?th + length (copies_of s ! t) \<le> work g th + length (copies_of s ! t) - 1" using None d by (simp add: work_def)
          moreover have "w \<in> upto_lev IJ src d \<union> F" using seen tw(1) by blast
          ultimately show ?thesis using rep okn nx new by (intro exI [of _ ?th] exI [of _ s] exI [of _ F]) blast
        qed
      qed
    next
      case False
      then have j: "dt_j th = None" using ok by (cases "dt_j th") (simp_all add: thread_ok_def)
      show ?thesis
      proof (cases "dt_ks th")
        case Nil': Nil
        have "thread_step g t th s = Inr (th, s)" using False j Nil Nil' ct by (simp add: thread_step_def s)
        moreover have "work g th + length (copies_of s ! t) \<le> work g th + length (copies_of s ! t) - 1"
          using False Nil' cp by (simp add: work_def step_bound_def)
        ultimately show ?thesis using rep ok by (intro exI [of _ th] exI [of _ s] exI [of _ F]) blast
      next
        case (Cons k ks)
        have k: "k1 \<le> k" "k < length q0" and ks: "\<forall>k \<in> set ks. k1 \<le> k \<and> k < length q0"
          using ok by (simp_all add: thread_ok_def Cons)
        have vk: "arr_get vlist k = Inr (q0 ! k)" using racing_nth [OF q cps(2) k(2)] .
        let ?v = "q0 ! k"
        let ?th = "\<lparr>dt_ks = ks, dt_v = ?v, dt_vo = cs_xoff g ! XOFF ?v, dt_veo = cs_xoff g ! XENDOFF ?v, dt_j = None\<rparr>"
        note rt = row_thread [OF pre frontier_nth [OF fr k] ks]
        have "thread_step g t th s = Inr (?th, s)" using False j Cons vk rt(1,2) ct Nil by (simp add: thread_step_def s)
        moreover have "todo IJ g q0 th = todo IJ g q0 ?th" unfolding rt(4) using False by (auto simp: todo_def Cons)
        moreover have "work g ?th + length (copies_of s ! t) \<le> work g th + length (copies_of s ! t) - 1"
          using rt(3) j False cp by (simp add: work_def step_bound_def Cons thread_ok_def THREAD_BUF_LEN_def)
        ultimately show ?thesis using rep rt(3) by (intro exI [of _ ?th] exI [of _ s] exI [of _ F]) blast
      qed
    qed
  qed
qed

section \<open>The team\<close>

definition team_rep :: "packed_edge list \<Rightarrow> omp_graph \<Rightarrow> nat \<Rightarrow> nat \<Rightarrow> nat list \<Rightarrow> nat \<Rightarrow> nat \<Rightarrow> nat set \<Rightarrow> (nat \<Rightarrow> nat) \<Rightarrow> down_thread list \<times> down_state \<Rightarrow> bool" where
  "team_rep IJ g src d q0 k1 nt F W = (\<lambda>(ths, s). down_rep IJ g src d q0 k1 nt F s \<and> length ths = nt \<and>
     (\<forall>t<nt. thread_ok IJ g src d q0 k1 (ths ! t) \<and> work g (ths ! t) + length (copies_of s ! t) \<le> W t) \<and>
     lev IJ src (Suc d) \<subseteq> F \<union> (\<Union>t<nt. todo IJ g q0 (ths ! t)))"

lemma team_step_rep:
  assumes "team_rep IJ g src d q0 k1 nt F W s"
  shows "\<exists>s' F'. team_step g tid s = Inr s' \<and> team_rep IJ g src d q0 k1 nt F' (W(tid := W tid - 1)) s'"
proof -
  obtain ths s0 where s: "s = (ths, s0)" and rep: "down_rep IJ g src d q0 k1 nt F s0" and len: "length ths = nt"
    and ok: "\<And>t. t < nt \<Longrightarrow> thread_ok IJ g src d q0 k1 (ths ! t)" "\<And>t. t < nt \<Longrightarrow> work g (ths ! t) + length (copies_of s0 ! t) \<le> W t"
    and all: "lev IJ src (Suc d) \<subseteq> F \<union> (\<Union>t<nt. todo IJ g q0 (ths ! t))"
    using assms by (cases s) (auto simp: team_rep_def)
  show ?thesis
  proof (cases "tid < nt")
    case True
    obtain th' s' F' where st: "thread_step g tid (ths ! tid) s0 = Inr (th', s')" "down_rep IJ g src d q0 k1 nt F' s'"
      "thread_ok IJ g src d q0 k1 th'" "F \<subseteq> F'" "todo IJ g q0 (ths ! tid) \<inter> lev IJ src (Suc d) \<subseteq> F' \<union> todo IJ g q0 th'"
      "work g th' + length (copies_of s' ! tid) \<le> work g (ths ! tid) + length (copies_of s0 ! tid) - 1"
      "\<forall>t'. t' \<noteq> tid \<longrightarrow> copies_of s' ! t' = copies_of s0 ! t'" using thread_step_rep [OF rep True ok(1) [OF True]] by blast
    have cover: "v \<in> F' \<union> (\<Union>t<nt. todo IJ g q0 (ths[tid := th'] ! t))" if v: "v \<in> lev IJ src (Suc d)" for v
    proof (cases "v \<in> F'")
      case False
      then obtain t where t: "t < nt" "v \<in> todo IJ g q0 (ths ! t)" using all st(4) v by blast
      then have "v \<in> todo IJ g q0 (ths[tid := th'] ! t)" using st(5) v False len by (cases "t = tid") auto
      then show ?thesis using t(1) by blast
    qed simp
    have "thread_ok IJ g src d q0 k1 (ths[tid := th'] ! t) \<and>
        work g (ths[tid := th'] ! t) + length (copies_of s' ! t) \<le> (W(tid := W tid - 1)) t" if "t < nt" for t
      using st(3,6,7) ok [OF that] ok(2) [OF True] that len by (cases "t = tid") auto
    then have "team_rep IJ g src d q0 k1 nt F' (W(tid := W tid - 1)) (ths[tid := th'], s')"
      using st(2) len subsetI [OF cover] unfolding team_rep_def by simp
    moreover have "team_step g tid s = Inr (ths[tid := th'], s')" using True st(1) len by (simp add: team_step_def s)
    ultimately show ?thesis by blast
  next
    case False
    then have "team_rep IJ g src d q0 k1 nt F (W(tid := W tid - 1)) s" using assms by (auto simp: team_rep_def)
    then show ?thesis using False len by (auto simp: team_step_def s)
  qed
qed

interpretation down: team "team_step g" "\<lambda>W s. \<exists>F. team_rep IJ g src d q0 k1 nt F W s" for IJ g src d q0 k1 nt
proof
  fix W s tid assume "\<exists>F. team_rep IJ g src d q0 k1 nt F W s"
  then show "\<exists>s'. team_step g tid s = Inr s' \<and> (\<exists>F. team_rep IJ g src d q0 k1 nt F (W(tid := W tid - 1)) s')"
    using team_step_rep by blast
next
  fix W s W' assume "\<exists>F. team_rep IJ g src d q0 k1 nt F W s" "\<And>t. W t \<le> W' t"
  then show "\<exists>F. team_rep IJ g src d q0 k1 nt F W' s" unfolding team_rep_def by (cases s) (use order_trans in blast)
qed

lemma team_done:
  assumes "team_rep IJ g src d q0 k1 nt F W (ths, s)" and "\<And>t. t < nt \<Longrightarrow> W t = 0"
  shows "down_rep IJ g src d q0 k1 nt (lev IJ src (Suc d)) s" "t < nt \<Longrightarrow> copies_of s ! t = []"
proof -
  have W: "work g (ths ! t) = 0 \<and> copies_of s ! t = []" if "t < nt" for t using assms that by (fastforce simp: team_rep_def)
  then show "t < nt \<Longrightarrow> copies_of s ! t = []" by blast
  have "(\<Union>t<nt. todo IJ g q0 (ths ! t)) = {}" using assms(1) W todo_done by (fastforce simp: team_rep_def)
  then have "lev IJ src (Suc d) \<subseteq> F" "down_rep IJ g src d q0 k1 nt F s" using assms(1) by (auto simp: team_rep_def)
  moreover from this(2) have "F \<subseteq> lev IJ src (Suc d)" by (cases s) (simp add: down_rep_def)
  ultimately show "down_rep IJ g src d q0 k1 nt (lev IJ src (Suc d)) s" by (metis subset_antisym)
qed

text \<open>At the start every iteration belongs to a thread.\<close>

lemma team_start:
  assumes rep: "down_rep IJ g src d q0 k1 nt {} s" and sched: "legal_sched nt sched"
    and cp: "\<And>t. t < nt \<Longrightarrow> copies_of s ! t = []"
  shows "team_rep IJ g src d q0 k1 nt {} (\<lambda>_. step_bound g (length q0 - k1)) (map (start_thread (sched k1 (length q0))) [0..<nt], s)"
proof -
  let ?its = "sched k1 (length q0)"
  have fr: "frontier IJ src d q0 k1" using rep by (cases s) (simp add: down_rep_def)
  have ms: "mset (map snd ?its) = mset [k1..<length q0]" using sched by (simp add: legal_sched_def)
  have "length (map snd ?its) = length q0 - k1" using arg_cong [OF ms, of size] by simp
  then have l: "length (filter (\<lambda>(t, k). t = tid) ?its) \<le> length q0 - k1" for tid using length_filter_le by (metis length_map)
  have w: "work g (start_thread ?its tid) \<le> step_bound g (length q0 - k1)" for tid
    using mult_le_mono1 [OF l [of tid], of "(THREAD_BUF_LEN + 2) * length (cs_xadjstore g) + 1"] by (simp add: work_def start_thread_def step_bound_def)
  have ok: "thread_ok IJ g src d q0 k1 (start_thread ?its tid)" for tid
    using legal_snd [OF sched] by (fastforce simp: thread_ok_def start_thread_def)
  have "w \<in> (\<Union>t<nt. todo IJ g q0 (start_thread ?its t))" if wl: "w \<in> lev IJ src (Suc d)" for w
  proof -
    obtain v where v: "v \<in> lev IJ src d" "nbr IJ v w" using wl by (rule lev_SucE)
    then have "v \<in> set (drop k1 q0)" using fr by (simp add: frontier_def)
    then obtain i where "i < length q0 - k1" "v = q0 ! (k1 + i)" by (auto simp: in_set_conv_nth)
    then have "k1 + i \<in> set (map snd ?its)" using mset_eq_setD [OF ms] by simp
    then obtain t where t: "(t, k1 + i) \<in> set ?its" by auto
    then have "t < nt" using legal_snd(3) [OF sched] by blast
    moreover have "w \<in> todo IJ g q0 (start_thread ?its t)"
      using t v(2) \<open>v = q0 ! (k1 + i)\<close> by (force simp: todo_def start_thread_def)
    ultimately show ?thesis by blast
  qed
  then show ?thesis using rep ok w cp by (auto simp: team_rep_def)
qed

lemma top_down_step:
  assumes pre: "search_pre IJ g src" and fr: "frontier IJ src d q0 k1" and tree: "vis_tree IJ (num_vertices IJ) src (upto_lev IJ src d) tree"
    and q: "queued (num_vertices IJ) q0 (vlist, k2)" and sched: "legal_sched nt sched"
  shows "\<exists>tree' vlist' k2' q. bfs_top_down_step nt sched turns turns' g (tree, vlist, k1, k2) = Inr (tree', vlist', length q0, k2') \<and>
    vis_tree IJ (num_vertices IJ) src (upto_lev IJ src (Suc d)) tree' \<and> queued (num_vertices IJ) q (vlist', k2') \<and>
    frontier IJ src (Suc d) q (length q0)"
proof -
  note P = search_preD [OF pre]
  let ?L = "lev IJ src (Suc d)" and ?ths = "map (start_thread (sched k1 (length q0))) [0..<nt]"
  let ?s0 = "(tree, vlist, k2, replicate nt [], replicate nt [])"
  have k2: "k2 = length q0" using q by (simp add: queued_def)
  have "down_rep IJ g src d q0 k1 nt {} ?s0"
    using pre fr tree q by (auto simp: down_rep_def racing_queued intro!: exI [of _ "[]"])
  moreover have "copies_of ?s0 ! t = []" if "t < nt" for t using that by (simp add: copies_of_def)
  ultimately have "\<exists>F. team_rep IJ g src d q0 k1 nt F (\<lambda>_. step_bound g (length q0 - k1)) (?ths, ?s0)" using team_start [OF _ sched] by blast
  from down.run_done [OF this, of nt turns] obtain ths tree1 vlist1 k21 locals copies F where
    s1: "run_team nt (step_bound g (length q0 - k1)) turns (team_step g) (?ths, ?s0) = Inr (ths, tree1, vlist1, k21, locals, copies)"
      "team_rep IJ g src d q0 k1 nt F (\<lambda>t. if t < nt then 0 else step_bound g (length q0 - k1)) (ths, tree1, vlist1, k21, locals, copies)"
    by (metis prod_cases6)
  note D = team_done [OF s1(2)]
  have cps: "copies ! t = []" if "t < nt" for t using D(2) that by (simp add: copies_of_def)
  from D(1) obtain r where tree1: "vis_tree IJ (num_vertices IJ) src (upto_lev IJ src (Suc d)) tree1" and loc: "length locals = nt" "length copies = nt"
    "\<forall>l \<in> set locals. length l \<le> THREAD_BUF_LEN"
    and q1: "racing (num_vertices IJ) (q0 @ r) (set (concat copies)) (vlist1, k21)" "mset r + mset (concat locals) = mset_set ?L"
    by (auto simp: down_rep_def upto_lev_Suc)
  have room: "length q0 + size (mset_set ?L) \<le> cs_nv g" using level_room(1) [OF pre fr, of ?L] P(1) by simp
  have "length (copies ! t) + (if locals ! t = [] then 0 else length (locals ! t) + 1) \<le> THREAD_BUF_LEN + 1" if "t < nt" for t
    using that loc cps nth_mem by fastforce
  then have "flush_rep g nt q0 (mset_set ?L) (\<lambda>_. THREAD_BUF_LEN + 1) (locals, copies, vlist1, k21)"
    using loc q1 room P(1) unfolding flush_rep_def by auto
  from flushing.run_done [OF this, of nt turns'] obtain locals' copies' vlist2 k22 where
    s2: "run_team nt (THREAD_BUF_LEN + 1) turns' (top_down_flush g) (locals, copies, vlist1, k21) = Inr (locals', copies', vlist2, k22)"
      "flush_rep g nt q0 (mset_set ?L) (\<lambda>t. if t < nt then 0 else THREAD_BUF_LEN + 1) (locals', copies', vlist2, k22)"
    by (metis prod_cases4)
  then obtain r' where l': "length locals' = nt" "length copies' = nt" and z: "\<And>t. t < nt \<Longrightarrow> copies' ! t = [] \<and> locals' ! t = []"
    and q2: "racing (num_vertices IJ) (q0 @ r') (set (concat copies')) (vlist2, k22)" "mset r' + mset (concat locals') = mset_set ?L"
    unfolding flush_rep_def P(1) by (auto split: if_splits)
  have e: "concat copies' = []" "concat locals' = []" using l' z by (auto simp: in_set_conv_nth)
  have q2': "queued (num_vertices IJ) (q0 @ r') (vlist2, k22)" and ms: "mset r' = mset_set ?L"
    using q2 unfolding e by (simp_all add: racing_queued)
  have fin: "finite ?L" by (rule finite_lev [OF P(3,2)])
  have set: "set r' = ?L" using arg_cong [OF ms, of set_mset] fin by simp
  have "distinct r'" using ms fin by (metis count_mset_set(1) count_mset_set(3) distinct_count_atmost_1 set)
  then have "frontier IJ src (Suc d) (q0 @ r') (length q0)"
    using fr set lev_Suc_new unfolding frontier_def upto_lev_Suc by fastforce
  moreover have "bfs_top_down_step nt sched turns turns' g (tree, vlist, k1, k2) = Inr (tree1, vlist2, length q0, k22)"
    unfolding bfs_top_down_step_def using s1(1) s2(1) by (simp add: Let_def k2)
  ultimately show ?thesis using tree1 q2' by blast
qed

end
