(* ===== verification/OmpSearch.thy ===== *)
theory OmpSearch
  imports OmpDown "HOL-Library.Signed_Division"
begin

text \<open>
  The breadth first search of the parallel implementation, \<^verbatim>\<open>graph500/omp-csr/omp-csr.c\<close>: it
  goes from the queue to the neighbors while the frontier has few edges, and from the vertices
  without a parent to the bitmap of the frontier otherwise.

  Every thread holds its own \<^verbatim>\<open>edges_to_check\<close>. After a top-down step no barrier separates
  \<^verbatim>\<open>edges_to_check -= scout_count\<close> from the \<^verbatim>\<open>omp single\<close> in which another thread sets the shared
  \<^verbatim>\<open>scout_count\<close> to 0, so a thread may subtract 0: those are the late threads of a run. Threads
  with different counts may choose different directions, and then they meet different work-sharing
  constructs, which is undefined. \<^verbatim>\<open>awake_count\<close> has the same value in all threads.
\<close>

section \<open>Constants\<close>

text \<open>
  What one round of the search does not decide itself: the schedules of the loop of the top-down
  step (or of \<^verbatim>\<open>fill_bitmap_from_queue\<close>) and of the bottom-up steps, counted by the fuel they have left,
  the turns of the racing threads in the top-down loop, in its last flush and in
  \<^verbatim>\<open>fill_queue_from_bitmap\<close>, and which threads are late.
\<close>

record run =
  r_sched :: sched
  r_up :: "nat \<Rightarrow> sched"
  r_turns :: "nat list"
  r_flush :: "nat list"
  r_fill :: "nat list"
  r_late :: "nat \<Rightarrow> bool"

definition legal_run :: "nat \<Rightarrow> run \<Rightarrow> bool" where
  "legal_run nt r \<longleftrightarrow> legal_sched nt (r_sched r) \<and> (\<forall>n. legal_sched nt (r_up r n))"

definition race_free :: "nat \<Rightarrow> run \<Rightarrow> bool" where
  "race_free nt r \<longleftrightarrow> (\<forall>t<nt. \<not> r_late r t)"

definition ALPHA :: int where
  "ALPHA = 14"

definition BETA :: nat where
  "BETA = 24"

section \<open>Bottom-up\<close>

text \<open>The tree, \<^verbatim>\<open>next\<close> and \<^verbatim>\<open>awake_count\<close>.\<close>

type_synonym up_state = "int list \<times> bitmap_t \<times> int"

function bottom_up_scan :: "omp_graph \<Rightarrow> bitmap_t \<Rightarrow> nat \<Rightarrow> nat \<Rightarrow> nat \<Rightarrow> up_state \<Rightarrow> up_state result" where
  "bottom_up_scan g past i vo veo (bfs_tree, next, awake_count) =
     (if vo < veo then
        bindE (arr_get (cs_xadjstore g) (MINVECT_SIZE + vo)) (\<lambda>j.
        bindE (if j \<ge> 0 then bm_get_bit past (nat j) else Inl Out_of_bounds) (\<lambda>w.
        if w \<noteq> 0 then
          bindE (arr_set bfs_tree i j) (\<lambda>bfs_tree.
          bindE (bm_set_bit_atomic [] next i) (\<lambda>next.
          Inr (bfs_tree, next, awake_count + 1)))
        else bottom_up_scan g past i (vo + 1) veo (bfs_tree, next, awake_count)))
      else Inr (bfs_tree, next, awake_count))"
  by pat_completeness auto

termination
  by (relation "measure (\<lambda>(g, past, i, vo, veo, s). veo - vo)") simp_all

declare bottom_up_scan.simps [simp del]

definition bottom_up_vertex :: "omp_graph \<Rightarrow> bitmap_t \<Rightarrow> nat \<Rightarrow> nat \<Rightarrow> up_state \<Rightarrow> up_state result" where
  "bottom_up_vertex g past tid i = (\<lambda>(bfs_tree, next, awake_count).
     bindE (arr_get bfs_tree i) (\<lambda>t.
     if t = - 1 then
       bindE (arr_get (cs_xoff g) (XOFF i)) (\<lambda>vo.
       bindE (arr_get (cs_xoff g) (XENDOFF i)) (\<lambda>veo.
       bottom_up_scan g past i vo veo (bfs_tree, next, awake_count)))
     else Inr (bfs_tree, next, awake_count)))"

definition bfs_bottom_up_step ::
  "sched \<Rightarrow> omp_graph \<Rightarrow> int list \<times> bitmap_t \<times> bitmap_t \<Rightarrow> ((int list \<times> bitmap_t \<times> bitmap_t) \<times> int) result" where
  "bfs_bottom_up_step sched g = (\<lambda>(bfs_tree, past, next).
     let (past, next) = bm_swap past next; next = bm_reset next in
     bindE (par_for sched 0 (cs_nv g) (bottom_up_vertex g past) (bfs_tree, next, 0)) (\<lambda>(bfs_tree, next, awake_count).
     Inr ((bfs_tree, past, next), awake_count)))"

text \<open>\<^verbatim>\<open>do ... while (awake_count > down_cutoff)\<close>.\<close>

fun bottom_up_loop ::
  "nat \<Rightarrow> (nat \<Rightarrow> sched) \<Rightarrow> omp_graph \<Rightarrow> int \<Rightarrow> int list \<times> bitmap_t \<times> bitmap_t \<Rightarrow>
     ((int list \<times> bitmap_t \<times> bitmap_t) \<times> int) result" where
  "bottom_up_loop 0 sched g down_cutoff s = Inl Out_of_fuel"
| "bottom_up_loop (Suc fuel) sched g down_cutoff s =
     bindE (bfs_bottom_up_step (sched fuel) g s) (\<lambda>(s, awake_count).
     if awake_count > down_cutoff then bottom_up_loop fuel sched g down_cutoff s else Inr (s, awake_count))"

section \<open>The search\<close>

text \<open>The number of edges in the frontier.\<close>

definition scout_edges :: "omp_graph \<Rightarrow> nat list \<Rightarrow> nat \<Rightarrow> nat \<Rightarrow> int result" where
  "scout_edges g vlist k1 k2 =
     foldE (\<lambda>i scout_count.
       bindE (arr_get vlist i) (\<lambda>v.
       bindE (arr_get (cs_xoff g) (XENDOFF v)) (\<lambda>b.
       bindE (arr_get (cs_xoff g) (XOFF v)) (\<lambda>a.
       Inr (scout_count + (int b - int a)))))) [k1..<k2] 0"

text \<open>The entry \<open>t\<close> of \<open>st_edges\<close> is \<^verbatim>\<open>edges_to_check\<close> of thread \<open>t\<close>.\<close>

record search_state =
  st_tree :: "int list"
  st_vlist :: "nat list"
  st_k1 :: nat
  st_k2 :: nat
  st_past :: bitmap_t
  st_next :: bitmap_t
  st_scout :: int
  st_edges :: "int list"
  st_awake :: int

definition subtract_scout :: "run \<Rightarrow> int \<Rightarrow> int list \<Rightarrow> int list" where
  "subtract_scout r scout_count = map (\<lambda>(t, e). e - (if r_late r t then 0 else scout_count)) \<circ> enumerate 0"

definition search_top_down :: "nat \<Rightarrow> run \<Rightarrow> omp_graph \<Rightarrow> search_state \<Rightarrow> search_state result" where
  "search_top_down nt r g s =
     bindE (bfs_top_down_step nt (r_sched r) (r_turns r) (r_flush r) g (st_tree s, st_vlist s, st_k1 s, st_k2 s)) (\<lambda>(bfs_tree, vlist, k1, k2).
     Inr (s\<lparr>st_tree := bfs_tree, st_vlist := vlist, st_k1 := k1, st_k2 := k2,
       st_edges := subtract_scout r (st_scout s) (st_edges s), st_awake := int k2 - int k1\<rparr>))"

definition search_bottom_up :: "nat \<Rightarrow> nat \<Rightarrow> run \<Rightarrow> omp_graph \<Rightarrow> search_state \<Rightarrow> search_state result" where
  "search_bottom_up fuel nt r g s =
     (let down_cutoff = int (cs_nv g div BETA) in
      bindE (fill_bitmap_from_queue (r_sched r) (st_vlist s) (st_k1 s) (st_k2 s) (st_next s)) (\<lambda>next.
      bindE (bottom_up_loop fuel (r_up r) g down_cutoff (st_tree s, st_past s, next)) (\<lambda>((bfs_tree, past, next), awake_count).
      bindE (fill_queue_from_bitmap (cs_nv g) nt (r_fill r) next (st_vlist s)) (\<lambda>(vlist, k1, k2).
      Inr (s\<lparr>st_tree := bfs_tree, st_vlist := vlist, st_k1 := k1, st_k2 := k2, st_past := past, st_next := next,
        st_awake := awake_count\<rparr>)))))"

text \<open>The direction each thread chooses; they all have to choose the same one.\<close>

definition directions :: "search_state \<Rightarrow> bool list" where
  "directions s = map (\<lambda>edges_to_check. st_scout s < (edges_to_check - st_scout s) sdiv ALPHA) (st_edges s)"

definition search_round :: "nat \<Rightarrow> nat \<Rightarrow> run \<Rightarrow> omp_graph \<Rightarrow> search_state \<Rightarrow> search_state result" where
  "search_round fuel nt r g s =
     (if \<forall>down \<in> set (directions s). down then search_top_down nt r g s
      else if \<forall>down \<in> set (directions s). \<not> down then search_bottom_up fuel nt r g s
      else Inl Undefined)"

fun search_while :: "nat \<Rightarrow> nat \<Rightarrow> (nat \<Rightarrow> run) \<Rightarrow> omp_graph \<Rightarrow> search_state \<Rightarrow> search_state result" where
  "search_while 0 nt sched g s = Inl Out_of_fuel"
| "search_while (Suc fuel) nt sched g s =
     (if st_awake s \<noteq> 0 then
        bindE (search_round fuel nt (sched fuel) g s) (\<lambda>s.
        bindE (scout_edges g (st_vlist s) (st_k1 s) (st_k2 s)) (\<lambda>scout_count.
        search_while fuel nt sched g (s\<lparr>st_scout := scout_count\<rparr>)))
      else Inr s)"

text \<open>The queue and the bitmaps are globals, so the search returns the graph with the new ones.\<close>

definition omp_make_bfs_tree ::
  "nat \<Rightarrow> nat \<Rightarrow> (nat \<Rightarrow> run) \<Rightarrow> omp_graph \<Rightarrow> int list \<Rightarrow> nat \<Rightarrow> (int \<times> int list \<times> omp_graph) result" where
  "omp_make_bfs_tree fuel nt sched g bfs_tree srcvtx =
     bindE (arr_set (og_vlist g) 0 srcvtx) (\<lambda>vlist.
     bindE (arr_set bfs_tree srcvtx (int srcvtx)) (\<lambda>bfs_tree.
     bindE (arr_get (cs_xoff g) (XENDOFF srcvtx)) (\<lambda>b.
     bindE (arr_get (cs_xoff g) (XOFF srcvtx)) (\<lambda>a.
     bindE (arr_get (cs_xoff g) (XOFF (cs_nv g))) (\<lambda>edges_to_check.
     bindE (foldE (\<lambda>k t. arr_set t k (- 1)) [0..<srcvtx] bfs_tree) (\<lambda>bfs_tree.
     bindE (foldE (\<lambda>k t. arr_set t k (- 1)) [srcvtx + 1..<cs_nv g] bfs_tree) (\<lambda>bfs_tree.
     bindE (search_while fuel nt sched g \<lparr>st_tree = bfs_tree, st_vlist = vlist, st_k1 = 0, st_k2 = 1,
       st_past = bm_reset (og_past g), st_next = bm_reset (og_next g), st_scout = int b - int a,
       st_edges = replicate nt (int edges_to_check), st_awake = 1\<rparr>) (\<lambda>s.
     Inr (cs_maxvtx g, st_tree s, g\<lparr>og_vlist := st_vlist s, og_past := st_past s, og_next := st_next s\<rparr>)))))))))"

section \<open>Loops of a step\<close>

text \<open>
  What the two kinds of step share: each iteration adds the vertices it finds to the ones found so far,
  whatever was found before it.
\<close>

locale omp_loop =
  fixes nt a b :: nat and visit :: "nat \<Rightarrow> nat \<Rightarrow> 's \<Rightarrow> 's result" and rep :: "nat set \<Rightarrow> 's \<Rightarrow> bool" and found :: "nat \<Rightarrow> nat set"
  assumes visit_rep: "t < nt \<Longrightarrow> a \<le> k \<Longrightarrow> k < b \<Longrightarrow> rep F s \<Longrightarrow> \<exists>s'. visit t k s = Inr s' \<and> rep (F \<union> found k) s'"
begin

lemma loop_rep:
  assumes sched: "legal_sched nt sched" and rep: "rep F s"
  shows "\<exists>s'. par_for sched a b visit s = Inr s' \<and> rep (F \<union> (\<Union>k \<in> {a..<b}. found k)) s'"
proof -
  have run: "\<exists>s'. foldE (\<lambda>(t, k). visit t k) ps s = Inr s' \<and> rep (F \<union> (\<Union>k \<in> snd ` set ps. found k)) s'"
    if "\<forall>(t, k) \<in> set ps. t < nt \<and> a \<le> k \<and> k < b" for ps
    using that rep
  proof (induction ps arbitrary: F s)
    case (Cons p ps)
    obtain t k where p: "p = (t, k)" by (cases p)
    obtain s1 where s1: "visit t k s = Inr s1" "rep (F \<union> found k) s1" using visit_rep [of t k F s] Cons.prems p by auto
    obtain s2 where "foldE (\<lambda>(t, k). visit t k) ps s1 = Inr s2" "rep (F \<union> found k \<union> (\<Union>k \<in> snd ` set ps. found k)) s2"
      using Cons.IH [OF _ s1(2)] Cons.prems(1) by auto
    then show ?case using s1(1) by (simp add: p Un_assoc)
  qed simp
  have "snd ` set (sched a b) = set_mset (mset (map snd (sched a b)))" by simp
  also have "\<dots> = {a..<b}" using sched by (simp add: legal_sched_def)
  finally have img: "snd ` set (sched a b) = {a..<b}" .
  have "\<forall>(t, k) \<in> set (sched a b). t < nt \<and> a \<le> k \<and> k < b" using legal_snd [OF sched] by blast
  from run [OF this] show ?thesis unfolding img par_for_def .
qed

end

section \<open>The bottom-up step\<close>

lemma scan_spec:
  assumes rows: "csr_rows d nv rows (cs_xoff g, cs_xadjstore g)" and i: "i < nv" "i < length tree"
    and past: "\<forall>w \<in> set (rows i). w < bm_size past" and "next": "bm_set_bit_atomic [] next i = Inr next'"
    and m: "m \<le> length (rows i)"
  shows "bottom_up_scan g past i (row_off d i + m) (row_off d i + length (rows i)) (tree, next, awake) =
    Inr (case find (\<lambda>w. w \<in> bm_set past) (drop m (rows i)) of
           None \<Rightarrow> (tree, next, awake) | Some w \<Rightarrow> (tree[i := int w], next', awake + 1))"
  using m
proof (induction m rule: inc_induct)
  case base
  then show ?case by (subst bottom_up_scan.simps) simp
next
  case (step m)
  note D = csr_rowsD [OF rows]
  let ?w = "rows i ! m"
  have "MINVECT_SIZE + (row_off d i + m) < length (cs_xadjstore g)"
    using D(2) D(3) [OF i(1)] row_off_room [OF i(1), of d] step.hyps by simp
  then have a: "arr_get (cs_xadjstore g) (MINVECT_SIZE + (row_off d i + m)) = Inr (int ?w)" using D(6) [OF i(1) step.hyps(2)] by simp
  obtain b where b: "bm_get_bit past ?w = Inr b" "b \<noteq> 0 \<longleftrightarrow> ?w \<in> bm_set past"
    using get_bit_spec past nth_mem [OF step.hyps(2)] by blast
  have dr: "drop m (rows i) = ?w # drop (Suc m) (rows i)" using step.hyps by (simp add: Cons_nth_drop_Suc)
  show ?case
    by (subst bottom_up_scan.simps) (use step a b i(2) "next" in \<open>simp add: dr\<close>)
qed

definition up_rep :: "packed_edge list \<Rightarrow> omp_graph \<Rightarrow> nat \<Rightarrow> nat \<Rightarrow> bitmap_t \<Rightarrow> nat set \<Rightarrow> up_state \<Rightarrow> bool" where
  "up_rep IJ g src d past F = (\<lambda>(tree, next, awake).
     search_pre IJ g src \<and> bm_size past = bm_size (og_past g) \<and> bm_size next = bm_size (og_past g) \<and>
     lev IJ src d \<subseteq> bm_set past \<and> bm_set past \<subseteq> upto_lev IJ src d \<and> F \<subseteq> lev IJ src (Suc d) \<and>
     vis_tree IJ (num_vertices IJ) src (upto_lev IJ src d \<union> F) tree \<and> bm_set next = F \<and> awake = int (card F))"

interpretation up: omp_loop nt 0 "num_vertices IJ" "bottom_up_vertex g past" "up_rep IJ g src d past"
  "\<lambda>i. {i} \<inter> lev IJ src (Suc d)" for nt IJ g src d past
proof
  fix t i F s assume i: "i < num_vertices IJ" and rep: "up_rep IJ g src d past F s"
  obtain tree "next" where s: "s = (tree, next, int (card F))" and pre: "search_pre IJ g src"
    and size: "bm_size past = bm_size (og_past g)" "bm_size next = bm_size (og_past g)"
    and past: "lev IJ src d \<subseteq> bm_set past" "bm_set past \<subseteq> upto_lev IJ src d" and F: "F \<subseteq> lev IJ src (Suc d)"
    and tree: "vis_tree IJ (num_vertices IJ) src (upto_lev IJ src d \<union> F) tree" and bm: "bm_set next = F"
    using rep by (cases s) (auto simp: up_rep_def)
  note P = search_preD [OF pre] and new = vis_tree_new [OF tree i]
  have big: "num_vertices IJ \<le> bm_size (og_past g)" using pre by (simp add: search_pre_def omp_graph_of_def)
  obtain rows where rows: "csr_rows (row_deg IJ) (num_vertices IJ) rows (cs_xoff g, cs_xadjstore g)"
    "set (rows i) = {w. nbr IJ i w}" using P(4) i by blast
  show "\<exists>s'. bottom_up_vertex g past t i s = Inr s' \<and> up_rep IJ g src d past (F \<union> {i} \<inter> lev IJ src (Suc d)) s'"
  proof (cases "i \<in> upto_lev IJ src d \<union> F")
    case True
    then have "F \<union> {i} \<inter> lev IJ src (Suc d) = F" using lev_Suc_new by blast
    then show ?thesis using True new rep by (simp add: bottom_up_vertex_def s)
  next
    case False
    obtain next' where n: "bm_set_bit_atomic [] next i = Inr next'" "bm_size next' = bm_size next" "bm_set next' = insert i F"
      using set_bit_spec [of i "next"] i big size(2) bm by auto
    have "\<forall>w \<in> set (rows i). w < bm_size past" using rows(2) P(3) size(1) big by fastforce
    then have sc: "bottom_up_vertex g past t i s = Inr (case find (\<lambda>w. w \<in> bm_set past) (rows i) of
        None \<Rightarrow> s | Some w \<Rightarrow> (tree[i := int w], next', int (card F) + 1))"
      using scan_spec [OF rows(1) i new(2) _ n(1), of past 0] False new csr_rowsD(1,4,5) [OF rows(1)] i
      unfolding s by (simp add: bottom_up_vertex_def)
    show ?thesis
    proof (cases "find (\<lambda>w. w \<in> bm_set past) (rows i)")
      case None
      have "i \<notin> lev IJ src (Suc d)"
      proof
        assume "i \<in> lev IJ src (Suc d)"
        then obtain v where "v \<in> lev IJ src d" "nbr IJ v i" by (rule lev_SucE)
        then show False using None past(1) rows(2) nbr_sym by (auto simp: find_None_iff)
      qed
      then show ?thesis using sc None rep by simp
    next
      case (Some w)
      then obtain m where "m < length (rows i)" "rows i ! m = w" "w \<in> bm_set past" by (auto simp: find_Some_iff)
      then have w: "w \<in> bm_set past" "nbr IJ w i" using rows(2) nth_mem nbr_sym by blast+
      have wl: "w \<in> lev IJ src d" using upto_nbr [of w IJ src d i] w past(2) False by blast
      then have il: "i \<in> lev IJ src (Suc d)" using lev_SucI [OF _ w(2)] False by blast
      have wn: "w < num_vertices IJ" using lev_bound [OF P(3,2)] w(1) past(2) by blast
      have fin: "finite F" using finite_lev(2) [OF P(3,2)] F by (rule finite_subset [rotated])
      have "vis_tree IJ (num_vertices IJ) src (upto_lev IJ src d \<union> insert i F) (tree[i := int w])"
        using vis_tree_add [OF tree wl w(2) il wn i] by simp
      moreover have "F \<union> {i} \<inter> lev IJ src (Suc d) = insert i F" using il by blast
      moreover have "int (card F) + 1 = int (card (insert i F))" using fin False by simp
      ultimately show ?thesis using sc Some pre size n past F il by (simp add: up_rep_def)
    qed
  qed
qed

text \<open>The bitmap of the frontier may hold older vertices, which have no new neighbor.\<close>

definition up_level :: "packed_edge list \<Rightarrow> omp_graph \<Rightarrow> nat \<Rightarrow> nat \<Rightarrow> int list \<times> bitmap_t \<times> bitmap_t \<Rightarrow> bool" where
  "up_level IJ g src d = (\<lambda>(tree, past, next).
     bm_size past = bm_size (og_past g) \<and> bm_size next = bm_size (og_past g) \<and>
     lev IJ src d \<subseteq> bm_set next \<and> bm_set next \<subseteq> upto_lev IJ src d \<and>
     vis_tree IJ (num_vertices IJ) src (upto_lev IJ src d) tree)"

lemma reset_spec: "bm_set (bm_reset bm) = {}" "bm_size (bm_reset bm) = bm_size bm"
  by (auto simp: bm_reset_def bm_set_def bm_size_def)

lemma bottom_up_step:
  assumes pre: "search_pre IJ g src" and up: "up_level IJ g src d s" and sched: "legal_sched nt sched"
  shows "\<exists>tree' past' next'. bfs_bottom_up_step sched g s = Inr ((tree', past', next'), int (card (lev IJ src (Suc d)))) \<and>
    up_level IJ g src (Suc d) (tree', past', next') \<and> bm_set next' = lev IJ src (Suc d)"
proof -
  obtain tree past "next" where s: "s = (tree, past, next)" by (cases s)
  note P = search_preD [OF pre]
  let ?L = "lev IJ src (Suc d)"
  have "up_rep IJ g src d next {} (tree, bm_reset past, 0)"
    using up pre by (auto simp: up_rep_def up_level_def s reset_spec)
  moreover have "(\<Union>i \<in> {0..<num_vertices IJ}. {i} \<inter> ?L) = ?L" using lev_bound [OF P(3,2)] lev_upto [of IJ src "Suc d"] by auto
  ultimately obtain tree' next' where
    "par_for sched 0 (num_vertices IJ) (bottom_up_vertex g next) (tree, bm_reset past, 0) = Inr (tree', next', int (card ?L))"
    "up_rep IJ g src d next ?L (tree', next', int (card ?L))"
    using up.loop_rep [OF sched, of IJ g src d "next" "{}" "(tree, bm_reset past, 0)"] by (auto simp: up_rep_def)
  moreover have "bm_swap past next = (next, past)" by (simp add: bm_swap_def)
  ultimately show ?thesis using lev_upto [of IJ src "Suc d"]
    by (auto simp: bfs_bottom_up_step_def s P(1) up_level_def up_rep_def upto_lev_Suc intro!: exI [of _ tree'] exI [of _ "next"] exI [of _ next'])
qed

lemma bottom_up_levels:
  assumes pre: "search_pre IJ g src" and sched: "\<And>n. legal_sched nt (sched n)" and cutoff: "0 \<le> cutoff"
    and "up_level IJ g src d s" and "unvisited IJ (num_vertices IJ) src d < fuel"
  shows "\<exists>tree' past' next' d'. bottom_up_loop fuel sched g cutoff s = Inr ((tree', past', next'), int (card (lev IJ src d'))) \<and>
    up_level IJ g src d' (tree', past', next') \<and> bm_set next' = lev IJ src d' \<and>
    (lev IJ src d' \<noteq> {} \<longrightarrow> unvisited IJ (num_vertices IJ) src d' < unvisited IJ (num_vertices IJ) src d)"
  using assms(4,5)
proof (induction fuel arbitrary: d s)
  case (Suc fuel)
  note P = search_preD [OF pre]
  let ?L = "lev IJ src (Suc d)"
  obtain tree' past' next' where st: "bfs_bottom_up_step (sched fuel) g s = Inr ((tree', past', next'), int (card ?L))"
    "up_level IJ g src (Suc d) (tree', past', next')" "bm_set next' = ?L" using bottom_up_step [OF pre Suc.prems(1) sched] by blast
  note less = unvisited_Suc [OF P(3,2), of d]
  show ?case
  proof (cases "int (card ?L) > cutoff")
    case True
    then have "?L \<noteq> {}" using cutoff by auto
    then have l: "unvisited IJ (num_vertices IJ) src (Suc d) < unvisited IJ (num_vertices IJ) src d" by (rule less)
    then have "unvisited IJ (num_vertices IJ) src (Suc d) < fuel" using Suc.prems(2) by simp
    from Suc.IH [OF st(2) this] obtain tree'' past'' next'' d' where
      "bottom_up_loop fuel sched g cutoff (tree', past', next') = Inr ((tree'', past'', next''), int (card (lev IJ src d')))"
      "up_level IJ g src d' (tree'', past'', next'')" "bm_set next'' = lev IJ src d'"
      "lev IJ src d' \<noteq> {} \<longrightarrow> unvisited IJ (num_vertices IJ) src d' < unvisited IJ (num_vertices IJ) src (Suc d)" by (elim exE conjE) (rule that)
    moreover have "bottom_up_loop (Suc fuel) sched g cutoff s = bottom_up_loop fuel sched g cutoff (tree', past', next')"
      using st(1) True by simp
    ultimately show ?thesis using l by (metis less_trans)
  next
    case False
    then show ?thesis using st less by (intro exI [of _ tree'] exI [of _ past'] exI [of _ next'] exI [of _ "Suc d"]) auto
  qed
qed simp

section \<open>The search\<close>

definition search_rep :: "packed_edge list \<Rightarrow> omp_graph \<Rightarrow> nat \<Rightarrow> nat \<Rightarrow> search_state \<Rightarrow> bool" where
  "search_rep IJ g src d s \<longleftrightarrow> vis_tree IJ (num_vertices IJ) src (upto_lev IJ src d) (st_tree s) \<and>
     (\<exists>q. queued (num_vertices IJ) q (st_vlist s, st_k2 s) \<and> frontier IJ src d q (st_k1 s)) \<and>
     bm_size (st_past s) = bm_size (og_past g) \<and> bm_size (st_next s) = bm_size (og_past g) \<and>
     bm_set (st_next s) \<subseteq> upto_lev IJ src d \<and> (st_awake s = 0 \<longleftrightarrow> lev IJ src d = {})"

lemma search_top_down_rep:
  assumes pre: "search_pre IJ g src" and rep: "search_rep IJ g src d s" and sched: "legal_run nt r"
  shows "\<exists>s'. search_top_down nt r g s = Inr s' \<and> search_rep IJ g src (Suc d) s' \<and> st_edges s' = subtract_scout r (st_scout s) (st_edges s)"
proof -
  obtain q0 where q0: "queued (num_vertices IJ) q0 (st_vlist s, st_k2 s)" "frontier IJ src d q0 (st_k1 s)"
    "vis_tree IJ (num_vertices IJ) src (upto_lev IJ src d) (st_tree s)" using rep by (auto simp: search_rep_def)
  obtain tree' vlist' k2' q where st:
    "bfs_top_down_step nt (r_sched r) (r_turns r) (r_flush r) g (st_tree s, st_vlist s, st_k1 s, st_k2 s) = Inr (tree', vlist', length q0, k2')"
    "vis_tree IJ (num_vertices IJ) src (upto_lev IJ src (Suc d)) tree'" "queued (num_vertices IJ) q (vlist', k2')"
    "frontier IJ src (Suc d) q (length q0)" using top_down_step [OF pre q0(2,3,1)] sched unfolding legal_run_def by blast
  have k2: "k2' = length q" "length q0 \<le> length q" "set (drop (length q0) q) = lev IJ src (Suc d)"
    using st(3,4) by (simp_all add: queued_def frontier_def)
  then have "int k2' - int (length q0) = 0 \<longleftrightarrow> lev IJ src (Suc d) = {}" by (auto simp flip: k2(3))
  then show ?thesis using st rep by (auto simp: search_top_down_def search_rep_def upto_lev_Suc)
qed

lemma search_bottom_up_rep:
  assumes pre: "search_pre IJ g src" and rep: "search_rep IJ g src d s" and sched: "legal_run nt r" and nt: "0 < nt"
    and fuel: "unvisited IJ (num_vertices IJ) src d < fuel"
  shows "\<exists>s' d'. search_bottom_up fuel nt r g s = Inr s' \<and> search_rep IJ g src d' s' \<and> st_edges s' = st_edges s \<and>
    (lev IJ src d' \<noteq> {} \<longrightarrow> unvisited IJ (num_vertices IJ) src d' < unvisited IJ (num_vertices IJ) src d)"
proof -
  note P = search_preD [OF pre]
  let ?nv = "num_vertices IJ"
  have g: "?nv \<le> bm_size (og_past g)" "bm_size (og_past g) \<le> 2 ^ 32" using pre by (simp_all add: search_pre_def omp_graph_of_def)
  obtain q0 where q0: "queued ?nv q0 (st_vlist s, st_k2 s)" "frontier IJ src d q0 (st_k1 s)"
    "vis_tree IJ ?nv src (upto_lev IJ src d) (st_tree s)" using rep by (auto simp: search_rep_def)
  have size: "bm_size (st_past s) = bm_size (og_past g)" "bm_size (st_next s) = bm_size (og_past g)"
    "bm_set (st_next s) \<subseteq> upto_lev IJ src d" using rep by (auto simp: search_rep_def)
  have k2: "take (st_k2 s) (st_vlist s) = q0" "st_k2 s = length q0" "length (st_vlist s) = ?nv" using q0(1) by (auto simp: queued_def)
  have fr: "st_k1 s \<le> length q0" "set q0 \<subseteq> upto_lev IJ src d" "set (drop (st_k1 s) q0) = lev IJ src d"
    using q0(2) by (simp_all add: frontier_def)
  have len: "st_k2 s \<le> length (st_vlist s)" using arg_cong [OF k2(1), of length] k2(2) by simp
  have "st_vlist s ! i < bm_size (st_next s)" if "i < st_k2 s" for i
  proof -
    have "st_vlist s ! i \<in> set q0" using that len nth_mem [of i q0] k2(1,2) by (metis nth_take)
    then show ?thesis using fr(2) lev_bound [OF P(3,2)] g(1) size(2) by fastforce
  qed
  then obtain next1 where n1: "fill_bitmap_from_queue (r_sched r) (st_vlist s) (st_k1 s) (st_k2 s) (st_next s) = Inr next1"
    "bm_size next1 = bm_size (st_next s)" "bm_set next1 = bm_set (st_next s) \<union> lev IJ src d"
    using fill_bitmap_spec [of nt "r_sched r" "st_k2 s" "st_vlist s" "st_next s" "st_k1 s"] sched [unfolded legal_run_def] len fr(1,3) k2(1,2) by auto
  have lv: "up_level IJ g src d (st_tree s, st_past s, next1)"
    using n1 size q0(3) lev_upto by (auto simp: up_level_def)
  have up_sched: "\<And>n. legal_sched nt (r_up r n)" using sched by (simp add: legal_run_def)
  from bottom_up_levels [where sched = "r_up r" and cutoff = "int (?nv div BETA)", OF pre up_sched of_nat_0_le_iff lv fuel] obtain tree' past' next' d' where
    lp: "bottom_up_loop fuel (r_up r) g (int (?nv div BETA)) (st_tree s, st_past s, next1) = Inr ((tree', past', next'), int (card (lev IJ src d')))"
    and up: "up_level IJ g src d' (tree', past', next')" and n': "bm_set next' = lev IJ src d'"
    and less: "lev IJ src d' \<noteq> {} \<longrightarrow> unvisited IJ ?nv src d' < unvisited IJ ?nv src d" by (elim exE conjE) (rule that)
  have fin: "finite (lev IJ src d')" by (rule finite_lev [OF P(3,2)])
  have sub: "lev IJ src d' \<subseteq> {..<?nv}" using lev_bound [OF P(3,2)] lev_upto by blast
  have "{p \<in> bm_set next'. 0 \<le> p \<and> p < ?nv} = lev IJ src d'" using sub n' by auto
  then have b: "between next' 0 ?nv = sorted_list_of_set (lev IJ src d')" by (simp add: between_def)
  have "card (lev IJ src d') \<le> ?nv" using card_mono [OF _ sub] by simp
  then obtain vlist' q where q': "fill_queue_from_bitmap ?nv nt (r_fill r) next' (st_vlist s) = Inr (vlist', 0, length q)"
    "queued ?nv q (vlist', length q)" "mset q = mset (sorted_list_of_set (lev IJ src d'))"
    using fill_queue_spec [of next' ?nv nt "st_vlist s" "r_fill r"] up g nt b k2(3) by (auto simp: up_level_def)
  have "distinct q" "set q = lev IJ src d'" using mset_eq_imp_distinct_iff [OF q'(3)] mset_eq_setD [OF q'(3)] fin by simp_all
  then have "frontier IJ src d' q 0" using lev_upto by (simp add: frontier_def)
  moreover have "int (card (lev IJ src d')) = 0 \<longleftrightarrow> lev IJ src d' = {}" using fin by simp
  ultimately show ?thesis using n1(1) lp q' up less n' lev_upto [of IJ src d']
    by (auto simp: search_bottom_up_def search_rep_def up_level_def P(1) Let_def intro!: exI [of _ d'])
qed

lemma scout_total:
  assumes pre: "search_pre IJ g src" and q: "queued (num_vertices IJ) q (vlist, k2)" and fr: "frontier IJ src d q k1"
  shows "\<exists>c. scout_edges g vlist k1 k2 = Inr c"
proof -
  note P = search_preD [OF pre]
  obtain rows where rows: "csr_rows (row_deg IJ) (num_vertices IJ) rows (cs_xoff g, cs_xadjstore g)" using P(4) by blast
  have "\<exists>c. scout_edges g vlist k1 k2 = Inr c \<and> True"
    unfolding scout_edges_def
  proof (rule foldE_upt_inv [where I = "\<lambda>_ _. True"])
    fix i c assume i: "i < k2"
    then have il: "i < length q" using q by (simp add: queued_def)
    then have "q ! i < num_vertices IJ" using fr lev_bound [OF P(3,2)] nth_mem unfolding frontier_def by blast
    then show "\<exists>c'. bindE (arr_get vlist i) (\<lambda>v. bindE (arr_get (cs_xoff g) (XENDOFF v)) (\<lambda>b.
        bindE (arr_get (cs_xoff g) (XOFF v)) (\<lambda>a. Inr (c + (int b - int a))))) = Inr c' \<and> True"
      using queued_nth [OF q il] csr_rowsD(1) [OF rows] by simp
  qed (use q fr in \<open>auto simp: queued_def frontier_def\<close>)
  then show ?thesis by simp
qed

lemma search_rep_scout: "search_rep IJ g src d (s\<lparr>st_scout := c\<rparr>) \<longleftrightarrow> search_rep IJ g src d s"
  by (simp add: search_rep_def)

text \<open>
  A round finds a level with new vertices or none, and then the search stops; or the threads
  disagree. They agree as long as they have the same count, which no late thread has changed.
\<close>

definition agreed :: "nat \<Rightarrow> search_state \<Rightarrow> bool" where
  "agreed nt s \<longleftrightarrow> (\<exists>e. st_edges s = replicate nt e)"

lemma agreed_scout: "agreed nt (s\<lparr>st_scout := c\<rparr>) \<longleftrightarrow> agreed nt s"
  by (simp add: agreed_def)

lemma agreed_subtract:
  assumes "agreed nt s" and "race_free nt r"
  shows "\<exists>e. subtract_scout r (st_scout s) (st_edges s) = replicate nt e"
proof -
  obtain e where "st_edges s = replicate nt e" using assms(1) by (auto simp: agreed_def)
  then have "subtract_scout r (st_scout s) (st_edges s) = replicate nt (e - st_scout s)"
    using assms(2) by (intro nth_equalityI) (simp_all add: subtract_scout_def nth_enumerate_eq race_free_def)
  then show ?thesis ..
qed

lemma search_round_rep:
  assumes pre: "search_pre IJ g src" and rep: "search_rep IJ g src d s" and sched: "legal_run nt r" and nt: "0 < nt"
    and new: "lev IJ src d \<noteq> {}" and fuel: "unvisited IJ (num_vertices IJ) src d < fuel"
  shows "search_round fuel nt r g s = Inl Undefined \<and> \<not> agreed nt s \<or>
    (\<exists>s' d'. search_round fuel nt r g s = Inr s' \<and> search_rep IJ g src d' s' \<and> (agreed nt s \<and> race_free nt r \<longrightarrow> agreed nt s') \<and>
      (lev IJ src d' \<noteq> {} \<longrightarrow> unvisited IJ (num_vertices IJ) src d' < unvisited IJ (num_vertices IJ) src d))"
proof -
  note P = search_preD [OF pre]
  consider (down) "\<forall>down \<in> set (directions s). down"
    | (up) "\<not> (\<forall>down \<in> set (directions s). down)" "\<forall>down \<in> set (directions s). \<not> down"
    | (mixed) "\<not> (\<forall>down \<in> set (directions s). down)" "\<not> (\<forall>down \<in> set (directions s). \<not> down)" by blast
  then show ?thesis
  proof cases
    case down
    then have "search_round fuel nt r g s = search_top_down nt r g s" unfolding search_round_def by (rule if_P)
    moreover obtain s' where s': "search_top_down nt r g s = Inr s'" "search_rep IJ g src (Suc d) s'"
      "st_edges s' = subtract_scout r (st_scout s) (st_edges s)" using search_top_down_rep [OF pre rep sched] by blast
    moreover have "agreed nt s \<and> race_free nt r \<longrightarrow> agreed nt s'" using agreed_subtract [of nt s r] s'(3) by (simp add: agreed_def)
    ultimately show ?thesis using unvisited_Suc [OF P(3,2), of d] by auto
  next
    case up
    have "search_round fuel nt r g s = search_bottom_up fuel nt r g s"
      unfolding search_round_def if_not_P [OF up(1)] by (rule if_P [OF up(2)])
    then show ?thesis using search_bottom_up_rep [OF pre rep sched nt fuel] unfolding agreed_def by metis
  next
    case mixed
    have "\<not> agreed nt s"
    proof
      assume "agreed nt s"
      then obtain e where "st_edges s = replicate nt e" by (auto simp: agreed_def)
      then have "directions s = replicate nt (st_scout s < (e - st_scout s) sdiv ALPHA)" by (simp add: directions_def)
      then show False using mixed by (auto split: if_splits)
    qed
    moreover have "search_round fuel nt r g s = Inl Undefined"
      unfolding search_round_def if_not_P [OF mixed(1)] if_not_P [OF mixed(2)] ..
    ultimately show ?thesis by blast
  qed
qed

lemma search_while_done:
  assumes pre: "search_pre IJ g src" and sched: "\<And>n. legal_run nt (sched n)" and nt: "0 < nt"
    and "search_rep IJ g src d s" and "0 < fuel" and "lev IJ src d \<noteq> {} \<longrightarrow> unvisited IJ (num_vertices IJ) src d + 1 < fuel"
  shows "search_while fuel nt sched g s = Inl Undefined \<and> \<not> (agreed nt s \<and> (\<forall>n. race_free nt (sched n))) \<or>
    (\<exists>s' d'. search_while fuel nt sched g s = Inr s' \<and> search_rep IJ g src d' s' \<and> lev IJ src d' = {})"
  using assms(4-6)
proof (induction fuel arbitrary: d s)
  case (Suc fuel)
  show ?case
  proof (cases "lev IJ src d = {}")
    case True
    then have "st_awake s = 0" using Suc.prems(1) by (simp add: search_rep_def)
    then show ?thesis using True Suc.prems(1) by (intro disjI2 exI [of _ s] exI [of _ d]) simp
  next
    case False
    then have aw: "st_awake s \<noteq> 0" and fu: "unvisited IJ (num_vertices IJ) src d < fuel"
      using Suc.prems by (simp_all add: search_rep_def)
    consider (undef) "search_round fuel nt (sched fuel) g s = Inl Undefined" "\<not> agreed nt s"
      | (step) s1 d1 where "search_round fuel nt (sched fuel) g s = Inr s1" "search_rep IJ g src d1 s1"
        "agreed nt s \<and> race_free nt (sched fuel) \<longrightarrow> agreed nt s1"
        "lev IJ src d1 \<noteq> {} \<longrightarrow> unvisited IJ (num_vertices IJ) src d1 < unvisited IJ (num_vertices IJ) src d"
      using search_round_rep [OF pre Suc.prems(1) sched [of fuel] nt False fu] by blast
    then show ?thesis
    proof cases
      case undef
      then show ?thesis using aw by simp
    next
      case (step s1 d1)
      obtain q where "queued (num_vertices IJ) q (st_vlist s1, st_k2 s1)" "frontier IJ src d1 q (st_k1 s1)"
        using step(2) by (auto simp: search_rep_def)
      then obtain c where c: "scout_edges g (st_vlist s1) (st_k1 s1) (st_k2 s1) = Inr c" using scout_total [OF pre] by blast
      have w: "search_while (Suc fuel) nt sched g s = search_while fuel nt sched g (s1\<lparr>st_scout := c\<rparr>)"
        unfolding search_while.simps step(1) using aw c by simp
      have "search_while fuel nt sched g (s1\<lparr>st_scout := c\<rparr>) = Inl Undefined \<and>
          \<not> (agreed nt (s1\<lparr>st_scout := c\<rparr>) \<and> (\<forall>n. race_free nt (sched n))) \<or>
        (\<exists>s' d'. search_while fuel nt sched g (s1\<lparr>st_scout := c\<rparr>) = Inr s' \<and> search_rep IJ g src d' s' \<and> lev IJ src d' = {})"
        by (rule Suc.IH [of d1]) (use step fu in \<open>auto simp: search_rep_scout\<close>)
      then show ?thesis using step(3) unfolding w agreed_scout by blast
    qed
  qed
qed simp

lemma omp_search:
  assumes g: "omp_graph_of IJ g" and src: "src < num_vertices IJ" and sched: "\<And>n. legal_run nt (sched n)" and nt: "0 < nt"
    and len: "num_vertices IJ \<le> length tree" and fuel: "num_vertices IJ < fuel"
  shows "omp_make_bfs_tree fuel nt sched g tree src = Inl Undefined \<and> \<not> (\<forall>n. race_free nt (sched n)) \<or>
    (\<exists>tree' g'. omp_make_bfs_tree fuel nt sched g tree src = Inr (int (num_vertices IJ) - 1, tree', g') \<and>
      bfs_tree_of IJ (num_vertices IJ) src tree' \<and> omp_graph_of IJ g')"
proof -
  let ?nv = "num_vertices IJ"
  have pre: "search_pre IJ g src" using g src by (simp add: search_pre_def)
  note P = search_preD [OF pre]
  have vl: "length (og_vlist g) = ?nv" and mx: "cs_maxvtx g = int ?nv - 1"
    and bm: "?nv \<le> bm_size (og_past g)" "bm_size (og_next g) = bm_size (og_past g)" using g by (simp_all add: omp_graph_of_def)
  obtain rows where rows: "csr_rows (row_deg IJ) ?nv rows (cs_xoff g, cs_xadjstore g)" using P(4) by blast
  let ?t = "tree[src := int src]"
  obtain t1 where t1: "foldE (\<lambda>k t. arr_set t k (- 1)) [0..<src] ?t = Inr t1" "length t1 = length tree"
    "\<forall>i. t1 ! i = (if 0 \<le> i \<and> i < src then - 1 else ?t ! i)" using foldE_fill [of src ?t "- 1" 0] src len by auto
  obtain t2 where t2: "foldE (\<lambda>k t. arr_set t k (- 1)) [src + 1..<?nv] t1 = Inr t2" "length t2 = length t1"
    "\<forall>i. t2 ! i = (if src + 1 \<le> i \<and> i < ?nv then - 1 else t1 ! i)" using foldE_fill [of ?nv t1 "- 1" "src + 1"] t1(2) len by auto
  have tree2: "vis_tree IJ ?nv src (upto_lev IJ src 0) t2"
    by (rule vis_tree_start) (use src len t1 t2 in auto)
  define s0 where "s0 = \<lparr>st_tree = t2, st_vlist = (og_vlist g)[0 := src], st_k1 = 0, st_k2 = 1,
    st_past = bm_reset (og_past g), st_next = bm_reset (og_next g),
    st_scout = int (cs_xoff g ! XENDOFF src) - int (cs_xoff g ! XOFF src), st_edges = replicate nt (int (cs_xoff g ! XOFF ?nv)), st_awake = 1\<rparr>"
  have "take 1 ((og_vlist g)[0 := src]) = [src]" using vl src by (simp add: take_Suc_conv_app_nth)
  then have "search_rep IJ g src 0 s0"
    using tree2 vl bm by (auto simp: s0_def search_rep_def reset_spec queued_def frontier_def upto_lev_0 lev_0 intro!: exI [of _ "[src]"])
  moreover have "agreed nt s0" by (auto simp: s0_def agreed_def)
  ultimately consider (undef) "search_while fuel nt sched g s0 = Inl Undefined" "\<not> (\<forall>n. race_free nt (sched n))"
    | (tree) s d where "search_while fuel nt sched g s0 = Inr s" "search_rep IJ g src d s" "lev IJ src d = {}"
    using search_while_done [where sched = sched, OF pre sched nt, of 0 s0 fuel] unvisited_0 [OF src, of IJ] fuel by fastforce
  note cases = this
  have x: "XENDOFF src < length (cs_xoff g)" "XOFF src < length (cs_xoff g)" "XOFF ?nv < length (cs_xoff g)"
    using csr_rowsD(1) [OF rows] src by simp_all
  have run: "omp_make_bfs_tree fuel nt sched g tree src = bindE (search_while fuel nt sched g s0) (\<lambda>s.
      Inr (int ?nv - 1, st_tree s, g\<lparr>og_vlist := st_vlist s, og_past := st_past s, og_next := st_next s\<rparr>))"
    unfolding omp_make_bfs_tree_def P(1) using src len vl x t1(1) t2(1) mx by (simp add: s0_def)
  from cases show ?thesis
  proof cases
    case undef
    then show ?thesis by (simp add: run)
  next
    case (tree s d)
    have "bfs_tree_of IJ ?nv src (st_tree s)" using vis_tree_done tree(2,3) by (auto simp: search_rep_def)
    moreover have "omp_graph_of IJ (g\<lparr>og_vlist := st_vlist s, og_past := st_past s, og_next := st_next s\<rparr>)"
      using g tree(2) by (auto simp: omp_graph_of_def search_rep_def queued_def)
    ultimately show ?thesis using tree(1) by (simp add: run)
  qed
qed

section \<open>Properties\<close>

text \<open>
  C33. For a team of any size, any assignment and order of the iterations of the loops, any
  interleaving of the threads that race in the top-down steps and in the filling of the queue, and
  any late threads, the parallel construction succeeds, and a search of the hybrid algorithm
  finishes without an access out of bounds, a failed assertion or an overflow of the queue and
  returns a breadth first tree of the edge list, or the behaviour is undefined because threads
  choose different directions; and this last only happens in a run in which a thread reads
  \<^verbatim>\<open>scout_count\<close> after another has reset it. The graph a search leaves (with the queue and the
  bitmaps it used) serves the next search as well, here for a second root.
\<close>

theorem omp_bfs_correct:
  assumes "\<And>n. legal_run nt (sched n)" and "\<And>n. legal_run nt (sched' n)" and "legal_sched nt sched0" and "0 < nt"
    and "num_vertices IJ + 63 < 2 ^ 31" and "root < num_vertices IJ" and "root' < num_vertices IJ"
    and "num_vertices IJ \<le> length tree" and "num_vertices IJ < fuel"
  shows "\<exists>g. omp_create_graph_from_edgelist (\<lambda>_. True) junk nt sched0 IJ = Inr g \<and>
    (omp_make_bfs_tree fuel nt sched g tree root = Inl Undefined \<and> \<not> (\<forall>n. race_free nt (sched n)) \<or>
      (\<exists>tree' g'. omp_make_bfs_tree fuel nt sched g tree root = Inr (int (num_vertices IJ) - 1, tree', g') \<and>
        bfs_tree_of IJ (num_vertices IJ) root tree' \<and>
        (omp_make_bfs_tree fuel nt sched' g' tree' root' = Inl Undefined \<and> \<not> (\<forall>n. race_free nt (sched' n)) \<or>
          (\<exists>tree'' g''. omp_make_bfs_tree fuel nt sched' g' tree' root' = Inr (int (num_vertices IJ) - 1, tree'', g'') \<and>
            bfs_tree_of IJ (num_vertices IJ) root' tree''))))"
proof -
  obtain g where g: "omp_create_graph_from_edgelist (\<lambda>_. True) junk nt sched0 IJ = Inr g" "omp_graph_of IJ g"
    using omp_create [OF assms(3-5)] by blast
  note first = omp_search [where sched = sched, OF g(2) assms(6,1,4,8,9)]
  have second: "omp_make_bfs_tree fuel nt sched' g' tree' root' = Inl Undefined \<and> \<not> (\<forall>n. race_free nt (sched' n)) \<or>
      (\<exists>tree'' g''. omp_make_bfs_tree fuel nt sched' g' tree' root' = Inr (int (num_vertices IJ) - 1, tree'', g'') \<and>
        bfs_tree_of IJ (num_vertices IJ) root' tree'')"
    if "omp_graph_of IJ g'" "bfs_tree_of IJ (num_vertices IJ) root tree'" for g' tree'
  proof -
    have "num_vertices IJ \<le> length tree'" using that(2) by (simp add: bfs_tree_of_def)
    then show ?thesis using omp_search [where sched = sched', OF that(1) assms(7,2,4) _ assms(9)] by blast
  qed
  then show ?thesis using g(1) first by blast
qed

text \<open>Two threads that take alternate iterations, the second thread first.\<close>

definition alternate :: sched where
  "alternate a b = map (\<lambda>k. (1, k)) (filter odd [a..<b]) @ map (\<lambda>k. (0, k)) (filter even [a..<b])"

lemma alternate_legal: "legal_sched 2 alternate"
proof -
  have "mset (map snd (alternate a b)) = mset [a..<b]" for a b
  proof -
    have "mset (map snd (alternate a b)) = filter_mset odd (mset [a..<b]) + filter_mset (\<lambda>k. \<not> odd k) (mset [a..<b])"
      by (simp only: alternate_def map_append map_map comp_def snd_conv map_ident mset_append mset_filter not_not)
    also have "\<dots> = mset [a..<b]" by (rule multiset_partition [symmetric])
    finally show ?thesis .
  qed
  moreover have "\<forall>(t, k) \<in> set (alternate a b). t < 2" for a b by (auto simp: alternate_def)
  ultimately show ?thesis unfolding legal_sched_def by blast
qed

text \<open>A run with these schedules in which no thread is late.\<close>

definition alternate_run :: run where
  "alternate_run = \<lparr>r_sched = alternate, r_up = (\<lambda>_. alternate), r_turns = [1, 0, 0], r_flush = [1, 0], r_fill = [1, 1, 0], r_late = (\<lambda>_. False)\<rparr>"

lemma alternate_run_ok: "legal_run 2 alternate_run" "race_free 2 alternate_run"
  using alternate_legal by (simp_all add: legal_run_def race_free_def alternate_run_def)

theorem omp_bfs_correct_witness:
  "\<exists>g g' g'' tree' tree''. omp_create_graph_from_edgelist (\<lambda>_. True) (\<lambda>_. 5) 2 alternate [write_edge 0 1, write_edge 1 2, write_edge 3 3] = Inr g \<and>
    omp_make_bfs_tree 5 2 (\<lambda>_. alternate_run) g [7, 7, 7, 7] 0 = Inr (3, tree', g') \<and>
    bfs_tree_of [write_edge 0 1, write_edge 1 2, write_edge 3 3] 4 0 tree' \<and>
    omp_make_bfs_tree 5 2 (\<lambda>_. alternate_run) g' tree' 2 = Inr (3, tree'', g'') \<and>
    bfs_tree_of [write_edge 0 1, write_edge 1 2, write_edge 3 3] 4 2 tree''"
proof -
  have "num_vertices [write_edge 0 1, write_edge 1 2, write_edge 3 3] = 4"
    by (simp add: num_vertices_def find_maxvtx_def max_end_eq end0_def end1_def write_edge_def)
  then show ?thesis
    using omp_bfs_correct [of 2 "\<lambda>_. alternate_run" "\<lambda>_. alternate_run" alternate "[write_edge 0 1, write_edge 1 2, write_edge 3 3]"
        0 2 "[7, 7, 7, 7]" 5 "\<lambda>_. 5"] alternate_legal alternate_run_ok by auto
qed

end
