(* ===== verification/Driver.thy ===== *)
theory Driver
  imports OmpSearch
begin

text \<open>
  The driver of Graph500, \<^verbatim>\<open>graph500/graph500.c\<close>: generate or read the edge list, build the
  graph, choose the roots and search from each. The search is linked in, one of three files, so
  the driver is a client of the interface \<open>bfs_program\<close>. \<^verbatim>\<open>run_bfs\<close> ends with
  \<^verbatim>\<open>exit(0)\<close>; the model returns what the searches computed, in order.
\<close>

section \<open>The program\<close>

text \<open>Whether the compiler has OpenMP switched on.\<close>

definition NBFS_max :: "bool \<Rightarrow> nat" where
  "NBFS_max openmp = (if openmp then 64 else 4)"

text \<open>
  What the options leave in the globals. \<open>o_dumpname\<close>: was a file given, can it be opened, and the
  edges it holds; \<open>o_rootname\<close>: was a file given, can it be opened, and the numbers it holds.
\<close>

record options =
  o_SCALE :: nat
  o_edgefactor :: nat
  o_use_RMAT :: bool
  o_dumpname :: "packed_edge list option option"
  o_rootname :: "int list option option"

text \<open>
  What the run depends on besides: the allocator, the arithmetic and the table of the generator,
  the conversion of two random numbers to a vertex (\<^verbatim>\<open>mrg_get_double_orig\<close> and a product, in
  floating point), the edges of the R-MAT generator (floating point), the value of the variable
  \<^verbatim>\<open>t\<close>, which is never set, the contents of new memory, the environment variable
  \<^verbatim>\<open>SEED\<close> and whether the two signal files can be opened.
\<close>

record run_env =
  e_granted :: "nat \<Rightarrow> bool"
  e_ops :: mod_ops
  e_tbl :: "mrg_transition_matrix list list"
  e_challenge :: "nat \<Rightarrow> u64 \<Rightarrow> u64 \<Rightarrow> nat"
  e_rmat :: "nat \<Rightarrow> nat \<Rightarrow> packed_edge list"
  e_t :: int
  e_junk :: "nat \<Rightarrow> int"
  e_seed :: "int option"
  e_ready :: bool
  e_done :: bool

definition userseed :: "int option \<Rightarrow> u64" where
  "userseed env = (let seed = (case env of None \<Rightarrow> - 1 | Some s \<Rightarrow> s) in of_int (if seed < 0 then 0xDECAFBAD else seed))"

definition set_adj :: "packed_edge \<Rightarrow> int list \<Rightarrow> int list result" where
  "set_adj e has_adj =
     (let i = sint (get_v0_from_edge e); j = sint (get_v1_from_edge e) in
      if i \<noteq> j then bindE (arr_seti has_adj j 1) (\<lambda>has_adj. arr_seti has_adj i 1) else Inr has_adj)"

definition find_adj :: "nat \<Rightarrow> packed_edge list \<Rightarrow> (int list \<times> nat) result" where
  "find_adj nvtx_scale IJ =
     bindE (foldE (\<lambda>k has_adj. arr_set has_adj k 0) [0..<nvtx_scale] (replicate nvtx_scale 0)) (\<lambda>has_adj.
     bindE (foldE set_adj IJ has_adj) (\<lambda>has_adj.
     bindE (foldE (\<lambda>k n. bindE (arr_get has_adj k) (\<lambda>h. Inr (if h \<noteq> 0 then n + 1 else n))) [0..<nvtx_scale] 0) (\<lambda>nvtx_connected.
     Inr (has_adj, nvtx_connected))))"

text \<open>The loop that samples: \<open>n\<close> is \<^verbatim>\<open>nvtx_scale - k\<close>.\<close>

type_synonym sample_state = "int list \<times> nat \<times> mrg_state"

fun sample_roots :: "run_env \<Rightarrow> nat \<Rightarrow> nat \<Rightarrow> int list \<Rightarrow> nat \<Rightarrow> sample_state \<Rightarrow> sample_state result" where
  "sample_roots env nvtx_scale NBFS has_adj 0 s = Inr s"
| "sample_roots env nvtx_scale NBFS has_adj (Suc n) (bfs_root, m, st) =
     (if m < NBFS then
        bindE (mrg_get_uint_orig (e_ops env) st) (\<lambda>(a, st).
        bindE (mrg_get_uint_orig (e_ops env) st) (\<lambda>(b, st).
        let challenge = e_challenge env nvtx_scale a b in
        bindE (arr_get has_adj challenge) (\<lambda>h.
        if h \<noteq> 0 then
          let i = length (takeWhile (\<lambda>r. r \<noteq> int challenge) (take m bfs_root)) in
          if i = m then
            bindE (arr_set bfs_root m (int challenge)) (\<lambda>bfs_root.
            sample_roots env nvtx_scale NBFS has_adj n (bfs_root, m + 1, st))
          else sample_roots env nvtx_scale NBFS has_adj n (bfs_root, m, st)
        else sample_roots env nvtx_scale NBFS has_adj n (bfs_root, m, st))))
      else Inr (bfs_root, m, st))"

text \<open>\<^verbatim>\<open>bfs_root\<close> and \<^verbatim>\<open>NBFS\<close> after the choice of the roots.\<close>

definition choose_roots ::
  "run_env \<Rightarrow> int list option option \<Rightarrow> nat \<Rightarrow> nat \<Rightarrow> packed_edge list \<Rightarrow> mrg_state \<Rightarrow> (int list \<times> nat) result" where
  "choose_roots env rootname NBFS nvtx_scale IJ st =
     (let bfs_root = replicate NBFS 0 in
      case rootname of
        None \<Rightarrow>
          bindE (find_adj nvtx_scale IJ) (\<lambda>(has_adj, nvtx_connected).
          bindE (sample_roots env nvtx_scale NBFS has_adj nvtx_scale (bfs_root, 0, st)) (\<lambda>(bfs_root, m, st).
          if e_t env \<ge> int nvtx_connected \<and> m < NBFS then
            if m > 0 then Inr (bfs_root, m) else Inl (Exit 1)
          else Inr (bfs_root, NBFS)))
      | Some None \<Rightarrow> Inl (Exit 1)
      | Some (Some rs) \<Rightarrow> if length rs < NBFS then Inl (Exit 1) else Inr (take NBFS rs, NBFS))"

type_synonym bfs_log = "(int \<times> int \<times> int list) list"

definition search_root ::
  "('g \<Rightarrow> int list \<Rightarrow> nat \<Rightarrow> (int \<times> int list \<times> 'g) result) \<Rightarrow> 'g \<Rightarrow> int list \<Rightarrow> int \<Rightarrow> (int \<times> int list \<times> 'g) result" where
  "search_root search g bfs_tree root = (if root < 0 then Inl Out_of_bounds else search g bfs_tree (nat root))"

definition run_bfs ::
  "(packed_edge list \<Rightarrow> 'g result) \<Rightarrow> ('g \<Rightarrow> int list \<Rightarrow> nat \<Rightarrow> (int \<times> int list \<times> 'g) result) \<Rightarrow>
     run_env \<Rightarrow> int list option option \<Rightarrow> nat \<Rightarrow> nat \<Rightarrow> packed_edge list \<Rightarrow> mrg_state \<Rightarrow> bfs_log result" where
  "run_bfs create search env rootname NBFS nvtx_scale IJ st =
     bindE (create IJ) (\<lambda>g.
     bindE (do_xmalloc_large (e_granted env) (nvtx_scale * 8)) (\<lambda>_.
     bindE (do_xmalloc_large (e_granted env) (nvtx_scale * 4)) (\<lambda>_.
     let bfs_tree = map (e_junk env) [0..<nvtx_scale] in
     bindE (choose_roots env rootname NBFS nvtx_scale IJ st) (\<lambda>(bfs_root, NBFS).
     bindE (arr_get bfs_root 0) (\<lambda>root.
     bindE (search_root search g bfs_tree root) (\<lambda>(max_bfsvtx, bfs_tree, g).
     bindE (if e_ready env then Inr () else Inl (Exit (- 1))) (\<lambda>_.
     bindE (foldE (\<lambda>m (g, bfs_tree, log).
       bindE (arr_get bfs_root m) (\<lambda>root.
       bindE (assertE (root < int nvtx_scale)) (\<lambda>_.
       bindE (search_root search g bfs_tree root) (\<lambda>(max_bfsvtx, bfs_tree, g).
       Inr (g, bfs_tree, log @ [(root, max_bfsvtx, bfs_tree)]))))) [0..<NBFS] (g, bfs_tree, [])) (\<lambda>(g, bfs_tree, log).
     bindE (if e_done env then Inr () else Inl (Exit (- 1))) (\<lambda>_.
     Inr log)))))))))"

text \<open>
  Where the number of bytes of the edge list wraps, the block is shorter than what the generators
  write. With a dump file, \<^verbatim>\<open>nedge\<close> still has its initial value 0 when the number of bytes to
  read is computed.
\<close>

definition graph500_real_main ::
  "(packed_edge list \<Rightarrow> 'g result) \<Rightarrow> ('g \<Rightarrow> int list \<Rightarrow> nat \<Rightarrow> (int \<times> int list \<times> 'g) result) \<Rightarrow>
     nat \<Rightarrow> run_env \<Rightarrow> bool \<Rightarrow> options \<Rightarrow> bfs_log result" where
  "graph500_real_main create search fuel env openmp opts =
     (if o_SCALE opts \<ge> 63 then Inl Undefined
      else
        let nvtx_scale = 2 ^ o_SCALE opts in
        bindE (init_random (e_seed env)) (\<lambda>st.
        if nvtx_scale * o_edgefactor opts \<ge> 2 ^ 63 then Inl Undefined
        else
          let desired_nedge = nvtx_scale * o_edgefactor opts in
          bindE (assertE (desired_nedge \<ge> nvtx_scale)) (\<lambda>_.
          bindE (assertE (desired_nedge \<ge> o_edgefactor opts)) (\<lambda>_.
          bindE (case o_dumpname opts of
              None \<Rightarrow>
                if desired_nedge * sizeof_packed_edge \<ge> 2 ^ 64 then
                  bindE (do_xmalloc_large (e_granted env) (desired_nedge * sizeof_packed_edge mod 2 ^ 64)) (\<lambda>_. Inl Out_of_bounds)
                else if o_use_RMAT opts then
                  bindE (do_xmalloc_large (e_granted env) (desired_nedge * sizeof_packed_edge)) (\<lambda>_.
                  Inr (e_rmat env desired_nedge (o_SCALE opts)))
                else
                  bindE (make_graph (e_granted env) fuel (e_ops env) (e_tbl env) (o_SCALE opts) desired_nedge
                    (userseed (e_seed env)) (userseed (e_seed env))) (\<lambda>(nedge, IJ). Inr IJ)
            | Some None \<Rightarrow> Inl (Exit 1)
            | Some (Some es) \<Rightarrow> let nedge = 0 in if length es < nedge then Inl (Exit 1) else Inr (take nedge es)) (\<lambda>IJ.
          run_bfs create search env (o_rootname opts) (NBFS_max openmp) nvtx_scale IJ st)))))"

section \<open>The roots\<close>

lemma draw_valid:
  assumes "valid_state st"
  shows "\<exists>v st'. mrg_get_uint_orig ops64 st = Inr (v, st') \<and> unat v < 2 ^ 31 - 1 \<and> valid_state st'"
proof -
  obtain z where z: "st = st_of z" using assms by (rule valid_stateE)
  have "valid_state (st_of (A_step z))" by (rule valid_st_of)
  then show ?thesis unfolding z by (simp add: mrg_get_uint_orig_def m64.orig_step_correct valid_state_def in_field_unat)
qed

lemma num_vertices_le:
  assumes "\<forall>e \<in> set IJ. end0 e < N \<and> end1 e < N"
  shows "num_vertices IJ \<le> N"
proof -
  have "fold max_end es m < int N \<or> fold max_end es m = m" if "set es \<subseteq> set IJ" "m < int N \<or> m = - 1" for es m
    using that
  proof (induction es arbitrary: m)
    case (Cons e es)
    have "max_end e m < int N" using Cons.prems assms by (auto simp: max_end_eq)
    then show ?case using Cons.IH [of "max_end e m"] Cons.prems by auto
  qed simp
  from this [of IJ "- 1"] have "find_maxvtx IJ < int N \<or> find_maxvtx IJ = - 1" by (simp add: find_maxvtx_def)
  then show ?thesis by (auto simp: num_vertices_def)
qed

definition has_nbr :: "packed_edge list \<Rightarrow> nat \<Rightarrow> bool" where
  "has_nbr IJ v \<longleftrightarrow> (\<exists>w. nbr IJ v w)"

lemma has_nbr_Nil: "\<not> has_nbr [] v"
  by (simp add: has_nbr_def)

lemma has_nbr_bound: "has_nbr IJ v \<Longrightarrow> v < num_vertices IJ"
  unfolding has_nbr_def using nbr_sym nbr_num_vertices by blast

lemma set_adj_all:
  assumes "\<forall>e \<in> set es. end0 e < length h \<and> end1 e < length h"
  shows "\<exists>h'. foldE set_adj es h = Inr h' \<and> length h' = length h \<and>
    (\<forall>v<length h. h' ! v \<noteq> 0 \<longleftrightarrow> h ! v \<noteq> 0 \<or> has_nbr es v)"
  using assms
proof (induction es arbitrary: h)
  case (Cons e es)
  have e: "end0 e < length h" "end1 e < length h" using Cons.prems by auto
  have c: "has_nbr (e # es) v \<longleftrightarrow> has_nbr es v \<or> end0 e \<noteq> end1 e \<and> (v = end0 e \<or> v = end1 e)" for v
    unfolding has_nbr_def nbr_Cons by metis
  define h1 where "h1 = (if end0 e \<noteq> end1 e then h[end1 e := 1, end0 e := 1] else h)"
  have l: "length h1 = length h" by (simp add: h1_def)
  have s: "set_adj e h = Inr h1" using e by (simp add: h1_def set_adj_def get_v_int Let_def)
  have h1: "h1 ! v \<noteq> 0 \<longleftrightarrow> h ! v \<noteq> 0 \<or> end0 e \<noteq> end1 e \<and> (v = end0 e \<or> v = end1 e)" for v
    using e by (simp add: h1_def nth_list_update)
  obtain h' where "foldE set_adj es h1 = Inr h'" "length h' = length h" "\<forall>v<length h. h' ! v \<noteq> 0 \<longleftrightarrow> h1 ! v \<noteq> 0 \<or> has_nbr es v"
    using Cons.IH [of h1, unfolded l] Cons.prems by auto
  then show ?case using s unfolding c h1 by (intro exI [of _ h']) auto
qed (simp add: has_nbr_Nil)

lemma find_adj_spec:
  assumes "\<forall>e \<in> set IJ. end0 e < N \<and> end1 e < N"
  shows "\<exists>h c. find_adj N IJ = Inr (h, c) \<and> length h = N \<and> c \<le> N \<and> (\<forall>v<N. h ! v \<noteq> 0 \<longleftrightarrow> has_nbr IJ v)"
proof -
  obtain h0 where h0: "foldE (\<lambda>k has_adj. arr_set has_adj k 0) [0..<N] (replicate N (0 :: int)) = Inr h0" "length h0 = N"
    "\<forall>i. h0 ! i = (if 0 \<le> i \<and> i < N then 0 else replicate N 0 ! i)" using foldE_fill [of N "replicate N (0 :: int)" 0 0] by auto
  obtain h where h: "foldE set_adj IJ h0 = Inr h" "length h = N" "\<forall>v<N. h ! v \<noteq> 0 \<longleftrightarrow> has_nbr IJ v"
    using set_adj_all [of IJ h0] assms h0(2,3) by auto
  have "\<exists>c. foldE (\<lambda>k n. bindE (arr_get h k) (\<lambda>h. Inr (if h \<noteq> 0 then n + 1 else n))) [0..<N] (0 :: nat) = Inr c \<and> c \<le> N"
    by (rule foldE_upt_inv [where I = "\<lambda>k c. c \<le> k"]) (use h(2) in auto)
  then show ?thesis using h0(1) h by (auto simp: find_adj_def)
qed

text \<open>The first \<open>m\<close> roots are distinct vertices with an edge, and the others are still 0.\<close>

definition roots_ok :: "packed_edge list \<Rightarrow> nat \<Rightarrow> int list \<Rightarrow> bool" where
  "roots_ok IJ NBFS rs \<longleftrightarrow> length rs \<le> NBFS \<and> distinct rs \<and> (\<forall>r \<in> set rs. \<exists>v. r = int v \<and> has_nbr IJ v)"

definition sampling :: "packed_edge list \<Rightarrow> nat \<Rightarrow> sample_state \<Rightarrow> bool" where
  "sampling IJ NBFS = (\<lambda>(bfs_root, m, st). length bfs_root = NBFS \<and> m \<le> NBFS \<and> valid_state st \<and> roots_ok IJ NBFS (take m bfs_root) \<and>
     drop m bfs_root = replicate (NBFS - m) 0)"

lemma take_while_all: "length (takeWhile (\<lambda>r. r \<noteq> x) (take m rs)) = m \<longleftrightarrow> x \<notin> set (take m rs)" if "m \<le> length rs" for x rs
proof -
  have "length (takeWhile (\<lambda>r. r \<noteq> x) (take m rs)) = length (take m rs) \<longleftrightarrow> takeWhile (\<lambda>r. r \<noteq> x) (take m rs) = take m rs"
    by (metis takeWhile_eq_take take_all order_refl)
  then show ?thesis using that by (auto simp: takeWhile_eq_all_conv)
qed

lemma sample_roots_spec:
  assumes ops: "e_ops env = ops64"
    and ch: "\<And>a b. unat a < 2 ^ 31 - 1 \<Longrightarrow> unat b < 2 ^ 31 - 1 \<Longrightarrow> e_challenge env N a b < N"
    and h: "length h = N" "\<forall>v<N. h ! v \<noteq> 0 \<longleftrightarrow> has_nbr IJ v"
    and "sampling IJ NBFS s"
  shows "\<exists>s'. sample_roots env N NBFS h n s = Inr s' \<and> sampling IJ NBFS s'"
  using assms(5)
proof (induction n arbitrary: s)
  case (Suc n)
  obtain rs m st where s: "s = (rs, m, st)" by (cases s)
  have len: "length rs = NBFS" "m \<le> NBFS" "valid_state st" "roots_ok IJ NBFS (take m rs)"
    "drop m rs = replicate (NBFS - m) 0" using Suc.prems by (auto simp: s sampling_def)
  show ?case
  proof (cases "m < NBFS")
    case True
    obtain a st1 where a: "mrg_get_uint_orig ops64 st = Inr (a, st1)" "unat a < 2 ^ 31 - 1" "valid_state st1"
      using draw_valid [OF len(3)] by blast
    obtain b st2 where b: "mrg_get_uint_orig ops64 st1 = Inr (b, st2)" "unat b < 2 ^ 31 - 1" "valid_state st2"
      using draw_valid [OF a(3)] by blast
    define c where "c = e_challenge env N a b"
    have c: "c < N" unfolding c_def by (rule ch [OF a(2) b(2)])
    have next_same: "sampling IJ NBFS (rs, m, st2)" using len b(3) by (simp add: sampling_def)
    have new: "sampling IJ NBFS (rs[m := int c], m + 1, st2)" if "h ! c \<noteq> 0" "int c \<notin> set (take m rs)"
    proof -
      have "take (m + 1) (rs[m := int c]) = take m rs @ [int c]" using True len(1) by (simp add: take_Suc_conv_app_nth)
      moreover have "has_nbr IJ c" using h(2) c that(1) by blast
      moreover have "drop (m + 1) (rs[m := int c]) = replicate (NBFS - (m + 1)) 0"
        using arg_cong [OF len(5), of "drop 1"] by (simp add: drop_update_cancel)
      ultimately show ?thesis using that(2) len True b(3) by (auto simp: sampling_def roots_ok_def)
    qed
    have "sample_roots env N NBFS h (Suc n) s = (if h ! c \<noteq> 0 \<and> int c \<notin> set (take m rs)
        then sample_roots env N NBFS h n (rs[m := int c], m + 1, st2) else sample_roots env N NBFS h n (rs, m, st2))"
      using True a(1) b(1) c h(1) len(1) take_while_all [of m rs "int c"] by (simp add: s ops Let_def flip: c_def)
    then show ?thesis using Suc.IH [OF next_same] Suc.IH [OF new] by simp
  next
    case False
    then show ?thesis using Suc.prems by (simp add: s)
  qed
qed simp

definition env_ok :: "run_env \<Rightarrow> nat \<Rightarrow> bool" where
  "env_ok env N \<longleftrightarrow> e_granted env = (\<lambda>_. True) \<and> e_ops env = ops64 \<and> dump_mrg_powers ops64 = Inr (e_tbl env) \<and>
     e_ready env \<and> e_done env \<and>
     (\<forall>a b. unat a < 2 ^ 31 - 1 \<longrightarrow> unat b < 2 ^ 31 - 1 \<longrightarrow> e_challenge env N a b < N)"

text \<open>
  The roots of a run: the sampled ones, and then the vertex 0 as often as roots are missing, if the
  unset variable \<^verbatim>\<open>t\<close> is less than the number of vertices with an edge.
\<close>

definition roots_of_run :: "run_env \<Rightarrow> packed_edge list \<Rightarrow> nat \<Rightarrow> nat \<Rightarrow> int list \<Rightarrow> bool" where
  "roots_of_run env IJ NBFS N rs \<longleftrightarrow> rs \<noteq> [] \<and>
     (\<exists>m\<le>length rs. roots_ok IJ NBFS (take m rs) \<and> drop m rs = replicate (length rs - m) 0 \<and> (int N \<le> e_t env \<longrightarrow> m = length rs))"

lemma choose_roots_sampled:
  assumes env: "env_ok env N" and ends: "\<forall>e \<in> set IJ. end0 e < N \<and> end1 e < N" and st: "valid_state st" and "0 < NBFS"
  shows "choose_roots env None NBFS N IJ st = Inl (Exit 1) \<or>
    (\<exists>rs n. choose_roots env None NBFS N IJ st = Inr (rs, n) \<and> n \<le> length rs \<and> roots_of_run env IJ NBFS N (take n rs))"
proof -
  obtain h c where h: "find_adj N IJ = Inr (h, c)" "length h = N" "c \<le> N" "\<forall>v<N. h ! v \<noteq> 0 \<longleftrightarrow> has_nbr IJ v"
    using find_adj_spec [OF ends] by blast
  have "sampling IJ NBFS (replicate NBFS 0, 0, st)" using st by (simp add: sampling_def roots_ok_def)
  then obtain rs m st' where s: "sample_roots env N NBFS h N (replicate NBFS 0, 0, st) = Inr (rs, m, st')"
    "sampling IJ NBFS (rs, m, st')"
    using sample_roots_spec [OF _ _ h(2,4), of env NBFS "(replicate NBFS 0, 0, st)" N] env by (auto simp: env_ok_def)
  have m: "length rs = NBFS" "m \<le> NBFS" "roots_ok IJ NBFS (take m rs)" "drop m rs = replicate (NBFS - m) 0"
    using s(2) by (auto simp: sampling_def)
  show ?thesis
  proof (cases "e_t env \<ge> int c \<and> m < NBFS")
    case True
    have "roots_of_run env IJ NBFS N (take m rs)" if "m \<noteq> 0"
      using that m assms(4) by (auto simp: roots_of_run_def intro!: exI [of _ m])
    then show ?thesis using True h(1) s(1) m(1) by (cases "m = 0") (simp_all add: choose_roots_def)
  next
    case False
    then have "int N \<le> e_t env \<longrightarrow> m = NBFS" using h(3) m(2) by auto
    then have "roots_of_run env IJ NBFS N (take NBFS rs)"
      using m assms(4) by (auto simp: roots_of_run_def intro!: exI [of _ m])
    moreover have "choose_roots env None NBFS N IJ st = Inr (rs, NBFS)" using False h(1) s(1) by (auto simp: choose_roots_def)
    ultimately show ?thesis using m(1) by auto
  qed
qed

lemma num_vertices_pos: "IJ \<noteq> [] \<Longrightarrow> 0 < num_vertices IJ"
  using ends_bound [of "hd IJ" IJ] by (cases IJ) auto

lemma roots_of_run_bound: "roots_of_run env IJ NBFS N rs \<Longrightarrow> IJ \<noteq> [] \<Longrightarrow> r \<in> set rs \<Longrightarrow> \<exists>v. r = int v \<and> v < num_vertices IJ"
proof -
  assume r: "roots_of_run env IJ NBFS N rs" "IJ \<noteq> []" "r \<in> set rs"
  then obtain m where m: "roots_ok IJ NBFS (take m rs)" "drop m rs = replicate (length rs - m) 0" by (auto simp: roots_of_run_def)
  have "r \<in> set (take m rs) \<union> set (drop m rs)" using r(3) by (metis append_take_drop_id set_append)
  then consider "r \<in> set (take m rs)" | "r = 0" using m(2) by auto
  then show ?thesis using m(1) has_nbr_bound num_vertices_pos [OF r(2)] by cases (auto simp: roots_ok_def)
qed

section \<open>The interface of a search program\<close>

text \<open>
  What the driver calls and relies on: from an edge list that fits, \<open>create\<close> makes a graph, and a
  search on the graph returns a breadth first tree and leaves a graph for the next search. If the
  threads of the program can race (\<open>racy\<close>), the behaviour of a search may be undefined.
\<close>

locale bfs_program =
  fixes create :: "packed_edge list \<Rightarrow> 'g result" and search :: "'g \<Rightarrow> int list \<Rightarrow> nat \<Rightarrow> (int \<times> int list \<times> 'g) result"
    and built :: "packed_edge list \<Rightarrow> 'g \<Rightarrow> bool" and fits :: "packed_edge list \<Rightarrow> bool" and racy :: bool
  assumes create_built: "fits IJ \<Longrightarrow> \<exists>g. create IJ = Inr g \<and> built IJ g"
    and search_tree: "built IJ g \<Longrightarrow> src < num_vertices IJ \<Longrightarrow> num_vertices IJ \<le> length tree \<Longrightarrow>
      search g tree src = Inl Undefined \<and> racy \<or>
      (\<exists>tree' g'. search g tree src = Inr (int (num_vertices IJ) - 1, tree', g') \<and>
        bfs_tree_of IJ (num_vertices IJ) src tree' \<and> built IJ g')"

text \<open>The log of a run: a tree for every root.\<close>

definition log_ok :: "packed_edge list \<Rightarrow> bfs_log \<Rightarrow> bool" where
  "log_ok IJ log \<longleftrightarrow> (\<forall>(root, max_bfsvtx, tree) \<in> set log.
     max_bfsvtx = int (num_vertices IJ) - 1 \<and> bfs_tree_of IJ (num_vertices IJ) (nat root) tree)"

definition run_outcome :: "run_env \<Rightarrow> nat \<Rightarrow> nat \<Rightarrow> packed_edge list \<Rightarrow> mrg_state \<Rightarrow> bfs_log result \<Rightarrow> bool" where
  "run_outcome env NBFS N IJ st r \<longleftrightarrow>
     (case choose_roots env None NBFS N IJ st of
        Inl e \<Rightarrow> e = Exit 1 \<and> r = Inl e
      | Inr (rs, n) \<Rightarrow> roots_of_run env IJ NBFS N (take n rs) \<and>
          (\<exists>log. r = Inr log \<and> map fst log = take n rs \<and> log_ok IJ log))"

lemma foldE_upt_inv_or:
  assumes "I a s" and "a \<le> b"
    and "\<And>i s. a \<le> i \<Longrightarrow> i < b \<Longrightarrow> I i s \<Longrightarrow> f i s = Inl e \<and> P \<or> (\<exists>s'. f i s = Inr s' \<and> I (Suc i) s')"
  shows "foldE f [a..<b] s = Inl e \<and> P \<or> (\<exists>s'. foldE f [a..<b] s = Inr s' \<and> I b s')"
  using assms(2,3)
proof (induction b rule: dec_induct)
  case base
  then show ?case using assms(1) by simp
next
  case (step n)
  then consider "foldE f [a..<n] s = Inl e" P | s' where "foldE f [a..<n] s = Inr s'" "I n s'" by fastforce
  then show ?case
  proof cases
    case 1
    then show ?thesis using step.hyps by (simp add: foldE_append)
  next
    case (2 s')
    then show ?thesis using step.prems [OF step.hyps(1) _ 2(2)] step.hyps by (cases "f n s'") (auto simp: foldE_append)
  qed
qed

lemma edge_in_ends: "edge_in n e \<Longrightarrow> end0 e < 2 ^ n \<and> end1 e < 2 ^ n"
proof -
  have v: "unat w < 2 ^ n" if "(ucast w :: u64) \<in> vertices n" for w :: u32
  proof -
    have "unat (ucast w :: u64) = take_bit n (unat (ucast w :: u64))"
      using arg_cong [OF vertices_take_bit [OF that], of unat] by (simp add: unsigned_take_bit_eq)
    then have "unat (ucast w :: u64) < 2 ^ n" by (metis take_bit_nat_less_exp)
    moreover have "unat w < 2 ^ 32" using unsigned_less [of w] by simp
    then have "unat (ucast w :: u64) = unat w" by (simp add: unsigned_ucast_eq take_bit_nat_eq_self)
    ultimately show ?thesis by simp
  qed
  then show "edge_in n e \<Longrightarrow> ?thesis" by (auto simp: edge_in_def get_v0_from_edge_def get_v1_from_edge_def end0_def end1_def)
qed

context bfs_program begin

lemma search_from:
  assumes "built IJ g" and "v < num_vertices IJ" and "num_vertices IJ \<le> length tree"
  shows "search_root search g tree (int v) = Inl Undefined \<and> racy \<or>
    (\<exists>tree' g'. search_root search g tree (int v) = Inr (int (num_vertices IJ) - 1, tree', g') \<and>
      bfs_tree_of IJ (num_vertices IJ) v tree' \<and> built IJ g' \<and> num_vertices IJ \<le> length tree')"
proof -
  have "num_vertices IJ \<le> length tree'" if "bfs_tree_of IJ (num_vertices IJ) v tree'" for tree'
    using that by (simp add: bfs_tree_of_def)
  then show ?thesis using search_tree [OF assms] by (auto simp: search_root_def)
qed

lemma search_all:
  assumes roots: "\<And>r. r \<in> set (take n rs) \<Longrightarrow> \<exists>v. r = int v \<and> v < num_vertices IJ" and "n \<le> length rs" and nv: "num_vertices IJ \<le> N"
    and "built IJ g" and "num_vertices IJ \<le> length tree"
  defines "f \<equiv> \<lambda>m (g, bfs_tree, log).
       bindE (arr_get rs m) (\<lambda>root.
       bindE (assertE (root < int N)) (\<lambda>_.
       bindE (search_root search g bfs_tree root) (\<lambda>(max_bfsvtx, bfs_tree, g).
       Inr (g, bfs_tree, log @ [(root, max_bfsvtx, bfs_tree)]))))"
  shows "foldE f [0..<n] (g, tree, []) = Inl Undefined \<and> racy \<or>
    (\<exists>g' tree' log. foldE f [0..<n] (g, tree, []) = Inr (g', tree', log) \<and> map fst log = take n rs \<and> log_ok IJ log)"
proof -
  define I where "I k = (\<lambda>(g, tree, log). built IJ g \<and> num_vertices IJ \<le> length (tree :: int list) \<and> map fst log = take k rs \<and> log_ok IJ log)" for k
  have "foldE f [0..<n] (g, tree, []) = Inl Undefined \<and> racy \<or> (\<exists>s. foldE f [0..<n] (g, tree, []) = Inr s \<and> I n s)"
  proof (rule foldE_upt_inv_or)
    show "I 0 (g, tree, [])" using assms(4,5) by (simp add: I_def log_ok_def)
    fix k s assume k: "k < n" "I k s"
    obtain g tree log where s: "s = (g, tree, log)" by (cases s)
    have "rs ! k \<in> set (take n rs)" using k(1) assms(2) by (auto simp: in_set_conv_nth intro!: exI [of _ k])
    then obtain v where v: "rs ! k = int v" "v < num_vertices IJ" using roots by blast
    have f: "f k s = bindE (search_root search g tree (int v)) (\<lambda>(max_bfsvtx, bfs_tree, g). Inr (g, bfs_tree, log @ [(int v, max_bfsvtx, bfs_tree)]))"
      using k(1) assms(2) v nv by (simp add: f_def s)
    show "f k s = Inl Undefined \<and> racy \<or> (\<exists>s'. f k s = Inr s' \<and> I (Suc k) s')"
      using search_from [OF _ v(2), of g tree] k assms(2) v(1) unfolding f
      by (auto simp: I_def s log_ok_def take_Suc_conv_app_nth)
  qed simp
  then show ?thesis by (auto simp: I_def)
qed

lemma run_searches:
  assumes fits: "fits IJ" and env: "env_ok env N" and ends: "\<forall>e \<in> set IJ. end0 e < N \<and> end1 e < N" and st: "valid_state st" and "0 < NBFS"
    and IJ: "IJ \<noteq> []"
  defines "r \<equiv> run_bfs create search env None NBFS N IJ st"
  shows "r = Inl Undefined \<and> racy \<or> run_outcome env NBFS N IJ st r"
proof -
  obtain g where g: "create IJ = Inr g" "built IJ g" using create_built [OF fits] by blast
  have nv: "num_vertices IJ \<le> N" by (rule num_vertices_le [OF ends])
  have e: "e_granted env = (\<lambda>_. True)" "e_ready env" "e_done env" using env by (simp_all add: env_ok_def)
  consider (exit) "choose_roots env None NBFS N IJ st = Inl (Exit 1)"
    | (roots) rs n where "choose_roots env None NBFS N IJ st = Inr (rs, n)" "n \<le> length rs" "roots_of_run env IJ NBFS N (take n rs)"
    using choose_roots_sampled [OF env ends st assms(5)] by blast
  then show ?thesis
  proof cases
    case exit
    then show ?thesis using g(1) e by (simp add: r_def run_outcome_def run_bfs_def do_xmalloc_large_def Let_def)
  next
    case (roots rs n)
    note bound = roots_of_run_bound [OF roots(3) IJ]
    have n: "0 < n" "rs \<noteq> []" using roots(3) by (auto simp: roots_of_run_def)
    then have "rs ! 0 \<in> set (take n rs)" using roots(2) by (auto simp: in_set_conv_nth intro!: exI [of _ 0])
    then obtain v where v: "rs ! 0 = int v" "v < num_vertices IJ" using bound by blast
    let ?loop = "\<lambda>(g, tree). foldE (\<lambda>m (g, bfs_tree, log).
       bindE (arr_get rs m) (\<lambda>root.
       bindE (assertE (root < int N)) (\<lambda>_.
       bindE (search_root search g bfs_tree root) (\<lambda>(max_bfsvtx, bfs_tree, g).
       Inr (g, bfs_tree, log @ [(root, max_bfsvtx, bfs_tree)]))))) [0..<n] (g, tree, [])"
    have r: "r = bindE (search_root search g (map (e_junk env) [0..<N]) (int v)) (\<lambda>(max_bfsvtx, bfs_tree, g).
        bindE (?loop (g, bfs_tree)) (\<lambda>(g, bfs_tree, log). Inr log))"
      using g(1) e roots(1) v(1) n by (simp add: r_def run_bfs_def do_xmalloc_large_def Let_def)
    consider (undef) "search_root search g (map (e_junk env) [0..<N]) (int v) = Inl Undefined" racy
      | (tree) tree1 g1 where "search_root search g (map (e_junk env) [0..<N]) (int v) = Inr (int (num_vertices IJ) - 1, tree1, g1)"
        "built IJ g1" "num_vertices IJ \<le> length tree1" using search_from [OF g(2) v(2), of "map (e_junk env) [0..<N]"] nv by auto
    then show ?thesis
    proof cases
      case undef
      then show ?thesis by (simp add: r)
    next
      case (tree tree1 g1)
      show ?thesis using search_all [OF bound roots(2) nv tree(2,3)] roots(1,3) unfolding r tree(1)
        by (auto simp: run_outcome_def)
    qed
  qed
qed

lemma main_searches:
  fixes openmp :: bool
  assumes env: "env_ok env (2 ^ n)" and opts: "o_SCALE opts = n" "0 < n" "n < 63" "0 < o_edgefactor opts" "2 ^ n * o_edgefactor opts < 2 ^ 58"
      "\<not> o_use_RMAT opts" "o_dumpname opts = None" "o_rootname opts = None"
    and fuel: "10 \<le> fuel" and fits: "\<And>IJ. num_vertices IJ \<le> 2 ^ n \<Longrightarrow> fits IJ"
    and st: "init_random (e_seed env) = Inr st" "valid_state st"
    and IJ: "make_graph (\<lambda>_. True) fuel ops64 (e_tbl env) n (2 ^ n * o_edgefactor opts) (userseed (e_seed env)) (userseed (e_seed env)) = Inr (M, IJ)"
      "list_all (edge_in n) IJ" "IJ \<noteq> []"
  defines "r \<equiv> graph500_real_main create search fuel env openmp opts"
  shows "r = Inl Undefined \<and> racy \<or> run_outcome env (NBFS_max openmp) (2 ^ n) IJ st r"
proof -
  have ends: "\<forall>e \<in> set IJ. end0 e < 2 ^ n \<and> end1 e < 2 ^ n" using IJ(2) edge_in_ends by (auto simp: list_all_iff)
  have "graph500_real_main create search fuel env openmp opts = run_bfs create search env None (NBFS_max openmp) (2 ^ n) IJ st"
    using opts st(1) IJ(1) env by (simp add: graph500_real_main_def env_ok_def Let_def not_le sizeof_packed_edge_def)
  moreover have "0 < NBFS_max openmp" by (simp add: NBFS_max_def)
  ultimately show ?thesis unfolding r_def using run_searches [OF fits [OF num_vertices_le [OF ends]] env ends st(2) _ IJ(3)] by simp
qed

end

section \<open>The three programs\<close>

text \<open>
  Each search is linked with the driver as one program. The fuel is what the graph needs; the
  sequential searches leave the graph as it was.
\<close>

definition list_search_program :: "list_graph \<Rightarrow> int list \<Rightarrow> nat \<Rightarrow> (int \<times> int list \<times> list_graph) result" where
  "list_search_program g tree src =
     bindE (list_make_bfs_tree (\<lambda>_. True) (2 * length (lg_IJ g) + nat (lg_maxvtx g + 1) + 2) g tree src) (\<lambda>(max_vtx, tree).
     Inr (max_vtx, tree, g))"

definition csr_search_program :: "csr_graph \<Rightarrow> int list \<Rightarrow> nat \<Rightarrow> (int \<times> int list \<times> csr_graph) result" where
  "csr_search_program g tree src =
     bindE (csr_make_bfs_tree (\<lambda>_. True) (cs_nv g + 1) g tree src) (\<lambda>(max_vtx, tree). Inr (max_vtx, tree, g))"

text \<open>The parallel program counts its searches, so that each of them has its own runs \<open>sched k\<close>.\<close>

definition omp_create_program ::
  "(nat \<Rightarrow> u64) \<Rightarrow> nat \<Rightarrow> sched \<Rightarrow> packed_edge list \<Rightarrow> (nat \<times> omp_graph) result" where
  "omp_create_program junk nt sched0 IJ =
     bindE (omp_create_graph_from_edgelist (\<lambda>_. True) junk nt sched0 IJ) (\<lambda>g. Inr (0, g))"

definition omp_search_program ::
  "nat \<Rightarrow> (nat \<Rightarrow> nat \<Rightarrow> run) \<Rightarrow> nat \<times> omp_graph \<Rightarrow> int list \<Rightarrow> nat \<Rightarrow> (int \<times> int list \<times> nat \<times> omp_graph) result" where
  "omp_search_program nt sched = (\<lambda>(k, g) tree src.
     bindE (omp_make_bfs_tree (cs_nv g + 1) nt (sched k) g tree src) (\<lambda>(max_vtx, tree, g). Inr (max_vtx, tree, k + 1, g)))"

interpretation seq_list: bfs_program "list_create_graph_from_edgelist (\<lambda>_. True)" list_search_program
  "\<lambda>IJ g. g = list_graph_of IJ" "\<lambda>_. True" False
proof
  fix IJ g src and tree :: "int list"
  assume g: "g = list_graph_of IJ" and "src < num_vertices IJ" "num_vertices IJ \<le> length tree"
  then show "list_search_program g tree src = Inl Undefined \<and> False \<or>
      (\<exists>tree' g'. list_search_program g tree src = Inr (int (num_vertices IJ) - 1, tree', g') \<and>
        bfs_tree_of IJ (num_vertices IJ) src tree' \<and> g' = list_graph_of IJ)"
    using list_search [of src IJ tree "2 * length IJ + num_vertices IJ + 2"]
    by (auto simp: list_search_program_def list_graph_of(2,3))
qed (simp add: list_graph_of(1))

interpretation seq_csr: bfs_program "csr_create_graph_from_edgelist (\<lambda>_. True)" csr_search_program
  "\<lambda>IJ g. g = csr_graph_of IJ" "\<lambda>_. True" False
proof
  fix IJ g src and tree :: "int list"
  assume g: "g = csr_graph_of IJ" and "src < num_vertices IJ" "num_vertices IJ \<le> length tree"
  then show "csr_search_program g tree src = Inl Undefined \<and> False \<or>
      (\<exists>tree' g'. csr_search_program g tree src = Inr (int (num_vertices IJ) - 1, tree', g') \<and>
        bfs_tree_of IJ (num_vertices IJ) src tree' \<and> g' = csr_graph_of IJ)"
    using csr_search [of src IJ tree "num_vertices IJ + 1"] by (auto simp: csr_search_program_def csr_graph_of(3))
qed (simp add: csr_graph_of(1))

text \<open>A team of \<open>nt\<close> threads with legal schedules.\<close>

definition legal_team :: "nat \<Rightarrow> (nat \<Rightarrow> nat \<Rightarrow> run) \<Rightarrow> bool" where
  "legal_team nt sched \<longleftrightarrow> 0 < nt \<and> (\<forall>k n. legal_run nt (sched k n))"

interpretation omp_csr: bfs_program "omp_create_program junk nt sched0" "omp_search_program nt sched"
  "\<lambda>IJ (k, g). omp_graph_of IJ g \<and> legal_team nt sched"
  "\<lambda>IJ. num_vertices IJ + 63 < 2 ^ 31 \<and> legal_team nt sched \<and> legal_sched nt sched0" "\<not> (\<forall>k n. race_free nt (sched k n))"
  for junk nt sched0 sched
proof
  fix IJ assume "num_vertices IJ + 63 < 2 ^ 31 \<and> legal_team nt sched \<and> legal_sched nt sched0"
  then show "\<exists>g. omp_create_program junk nt sched0 IJ = Inr g \<and> (case g of (k, g) \<Rightarrow> omp_graph_of IJ g \<and> legal_team nt sched)"
    using omp_create [of nt sched0 IJ junk] by (auto simp: omp_create_program_def legal_team_def)
next
  fix IJ src and g :: "nat \<times> omp_graph" and tree :: "int list"
  assume "case g of (k, g) \<Rightarrow> omp_graph_of IJ g \<and> legal_team nt sched"
    and src: "src < num_vertices IJ" and len: "num_vertices IJ \<le> length tree"
  then obtain k g' where g: "g = (k, g')" "omp_graph_of IJ g'" "legal_team nt sched" by (cases g) auto
  have "cs_nv g' = num_vertices IJ" using g(2) by (simp add: omp_graph_of_def)
  then show "omp_search_program nt sched g tree src = Inl Undefined \<and> \<not> (\<forall>k n. race_free nt (sched k n)) \<or>
      (\<exists>tree' g'. omp_search_program nt sched g tree src = Inr (int (num_vertices IJ) - 1, tree', g') \<and>
        bfs_tree_of IJ (num_vertices IJ) src tree' \<and> (case g' of (k, g) \<Rightarrow> omp_graph_of IJ g \<and> legal_team nt sched))"
    using omp_search [where sched = "sched k" and nt = nt and fuel = "num_vertices IJ + 1", OF g(2) src _ _ len] g(3)
    by (auto simp: omp_search_program_def g(1) legal_team_def)
qed

section \<open>Properties\<close>

text \<open>
  C37. The benchmark with a generated graph of fewer than \<open>2 ^ 58\<close> edges (so that no number of bytes
  wraps), for scales up to 30 and with memory for every allocation: all three programs generate the
  same edge list and either find no vertex with an edge among their samples and exit with status 1,
  or return a breadth first tree of the generated edges for every root. The roots are the sampled
  ones, distinct vertices with an edge, followed, only if the unset variable \<^verbatim>\<open>t\<close> is less than the
  number of vertices, by the vertex 0 in place of the missing ones. No assertion fails and no access is out of
  bounds. The parallel program does so for any team, schedules and interleavings; only if one thread reads
  \<^verbatim>\<open>scout_count\<close> after another has reset it, its behaviour may be undefined instead.
\<close>

theorem driver_searches:
  assumes "env_ok env (2 ^ n)" and "o_SCALE opts = n" "0 < n" "n \<le> 30" "0 < o_edgefactor opts" "2 ^ n * o_edgefactor opts < 2 ^ 58"
    and "\<not> o_use_RMAT opts" "o_dumpname opts = None" "o_rootname opts = None" and "10 \<le> fuel"
    and "legal_team nt sched" "legal_sched nt sched0"
  shows "\<exists>M IJ st. make_graph (\<lambda>_. True) fuel ops64 (e_tbl env) n (2 ^ n * o_edgefactor opts) (userseed (e_seed env)) (userseed (e_seed env))
      = Inr (M, IJ) \<and> init_random (e_seed env) = Inr st \<and>
    run_outcome env 4 (2 ^ n) IJ st
      (graph500_real_main (list_create_graph_from_edgelist (\<lambda>_. True)) list_search_program fuel env False opts) \<and>
    run_outcome env 4 (2 ^ n) IJ st
      (graph500_real_main (csr_create_graph_from_edgelist (\<lambda>_. True)) csr_search_program fuel env False opts) \<and>
    (graph500_real_main (omp_create_program junk nt sched0) (omp_search_program nt sched) fuel env True opts = Inl Undefined \<and>
       \<not> (\<forall>k n. race_free nt (sched k n)) \<or>
     run_outcome env 64 (2 ^ n) IJ st
       (graph500_real_main (omp_create_program junk nt sched0) (omp_search_program nt sched) fuel env True opts))"
proof -
  let ?M = "2 ^ n * o_edgefactor opts" and ?u = "userseed (e_seed env)"
  have n: "n < 63" using assms(4) by simp
  have tbl: "power_table (e_tbl env)" using m64.dump_correct assms(1) by (auto simp: env_ok_def)
  obtain IJ where IJ: "make_graph (\<lambda>_. True) fuel ops64 (e_tbl env) n ?M ?u ?u = Inr (?M, IJ)" "list_all (edge_in n) IJ" "length IJ = ?M"
    using make_graph_ok [where granted = "\<lambda>_. True", OF tbl assms(3) n TrueI assms(10)] by blast
  have ne: "IJ \<noteq> []" using IJ(3) assms(5) by auto
  obtain st where st: "init_random (e_seed env) = Inr st" "valid_state st"
    unfolding init_random_def Let_def using make_mrg_seed1_valid by blast
  have "(2 :: nat) ^ n \<le> 2 ^ 30" using assms(4) by (rule power_increasing) simp
  then have fits: "num_vertices IJ + 63 < 2 ^ 31" if "num_vertices IJ \<le> 2 ^ n" for IJ using that by simp
  note run = assms(1-3) n assms(5-10)
  have b: "NBFS_max False = 4" "NBFS_max True = 64" by (simp_all add: NBFS_max_def)
  have l: "run_outcome env (NBFS_max False) (2 ^ n) IJ st
      (graph500_real_main (list_create_graph_from_edgelist (\<lambda>_. True)) list_search_program fuel env False opts)"
    using seq_list.main_searches [OF run TrueI st IJ(1,2) ne] by blast
  have c: "run_outcome env (NBFS_max False) (2 ^ n) IJ st
      (graph500_real_main (csr_create_graph_from_edgelist (\<lambda>_. True)) csr_search_program fuel env False opts)"
    using seq_csr.main_searches [OF run TrueI st IJ(1,2) ne] by blast
  have o: "graph500_real_main (omp_create_program junk nt sched0) (omp_search_program nt sched) fuel env True opts = Inl Undefined \<and>
       \<not> (\<forall>k n. race_free nt (sched k n)) \<or>
     run_outcome env (NBFS_max True) (2 ^ n) IJ st
       (graph500_real_main (omp_create_program junk nt sched0) (omp_search_program nt sched) fuel env True opts)"
    by (rule omp_csr.main_searches [OF run _ st IJ(1,2) ne]) (use assms(11,12) fits in blast)
  show ?thesis using IJ(1) st(1) l c o unfolding b by blast
qed

text \<open>An environment that meets the hypotheses, for scale 4.\<close>

definition sample_env :: "nat \<Rightarrow> run_env" where
  "sample_env N = \<lparr>e_granted = (\<lambda>_. True), e_ops = ops64, e_tbl = projr (dump_mrg_powers ops64), e_challenge = (\<lambda>N a b. unat a mod N),
     e_rmat = (\<lambda>_ _. []), e_t = int N, e_junk = (\<lambda>_. 9), e_seed = None, e_ready = True, e_done = True\<rparr>"

lemma sample_env_ok: "0 < N \<Longrightarrow> env_ok (sample_env N) N"
  using m64.dump_correct by (auto simp: env_ok_def sample_env_def)

theorem driver_searches_witness:
  "\<exists>M IJ st. make_graph (\<lambda>_. True) 10 ops64 (e_tbl (sample_env (2 ^ 4))) 4 (2 ^ 4 * 16) (userseed None) (userseed None) = Inr (M, IJ) \<and>
    init_random None = Inr st \<and>
    run_outcome (sample_env (2 ^ 4)) 4 (2 ^ 4) IJ st
      (graph500_real_main (list_create_graph_from_edgelist (\<lambda>_. True)) list_search_program 10 (sample_env (2 ^ 4)) False
        \<lparr>o_SCALE = 4, o_edgefactor = 16, o_use_RMAT = False, o_dumpname = None, o_rootname = None\<rparr>) \<and>
    run_outcome (sample_env (2 ^ 4)) 4 (2 ^ 4) IJ st
      (graph500_real_main (csr_create_graph_from_edgelist (\<lambda>_. True)) csr_search_program 10 (sample_env (2 ^ 4)) False
        \<lparr>o_SCALE = 4, o_edgefactor = 16, o_use_RMAT = False, o_dumpname = None, o_rootname = None\<rparr>) \<and>
    run_outcome (sample_env (2 ^ 4)) 64 (2 ^ 4) IJ st
      (graph500_real_main (omp_create_program (\<lambda>_. 5) 2 alternate) (omp_search_program 2 (\<lambda>_ _. alternate_run)) 10
        (sample_env (2 ^ 4)) True
        \<lparr>o_SCALE = 4, o_edgefactor = 16, o_use_RMAT = False, o_dumpname = None, o_rootname = None\<rparr>)"
proof -
  let ?o = "\<lparr>o_SCALE = 4, o_edgefactor = 16, o_use_RMAT = False, o_dumpname = None, o_rootname = None\<rparr>"
  have e: "env_ok (sample_env (2 ^ 4)) (2 ^ 4)" by (rule sample_env_ok) simp
  have s: "e_seed (sample_env (2 ^ 4)) = None" by (simp add: sample_env_def)
  have o: "o_SCALE ?o = 4" "o_edgefactor ?o = 16" "\<not> o_use_RMAT ?o" "o_dumpname ?o = None" "o_rootname ?o = None" by simp_all
  have l: "legal_team 2 (\<lambda>_ _. alternate_run)" using alternate_run_ok by (simp add: legal_team_def)
  show ?thesis
    using driver_searches [OF e o(1), of 10 2 "\<lambda>_ _. alternate_run" alternate "\<lambda>_. 5", unfolded o(2) s, OF _ _ _ _ o(3,4,5) _ l alternate_legal]
      alternate_run_ok(2) by (simp only: s) simp
qed

text \<open>
  C38. With \<^verbatim>\<open>-o\<close> and a file that can be read, whatever edges it holds, the program with compressed rows never
  searches: \<^verbatim>\<open>nedge\<close> is 0, the edge list is empty, no root is found, and, depending on the
  unset variable \<^verbatim>\<open>t\<close>, it exits with status 1 or writes outside its empty queue.
\<close>

theorem dump_never_searches:
  assumes "e_granted env = (\<lambda>_. True)" and "e_ops env = ops64"
    and "\<And>a b. unat a < 2 ^ 31 - 1 \<Longrightarrow> unat b < 2 ^ 31 - 1 \<Longrightarrow> e_challenge env (2 ^ o_SCALE opts) a b < 2 ^ o_SCALE opts"
    and "o_SCALE opts < 63" "0 < o_edgefactor opts" "2 ^ o_SCALE opts * o_edgefactor opts < 2 ^ 63"
    and "o_dumpname opts = Some (Some es)" "o_rootname opts = None"
  shows "\<exists>e \<in> {Exit 1, Out_of_bounds}.
    graph500_real_main (csr_create_graph_from_edgelist (\<lambda>_. True)) csr_search_program fuel env openmp opts = Inl e"
proof -
  let ?N = "2 ^ o_SCALE opts :: nat" and ?B = "NBFS_max openmp" and ?g = "csr_graph_of []"
  have nv: "num_vertices [] = 0" by (simp add: num_vertices_def find_maxvtx_def)
  obtain st where st: "init_random (e_seed env) = Inr st" "valid_state st"
    unfolding init_random_def Let_def using make_mrg_seed1_valid by blast
  obtain h c where h: "find_adj ?N [] = Inr (h, c)" "length h = ?N" "\<forall>v<?N. h ! v \<noteq> 0 \<longleftrightarrow> has_nbr [] v"
    using find_adj_spec [of "[]" ?N] by auto
  have "sampling [] ?B (replicate ?B 0, 0, st)" using st(2) by (simp add: sampling_def roots_ok_def)
  then obtain rs m st' where s: "sample_roots env ?N ?B h ?N (replicate ?B 0, 0, st) = Inr (rs, m, st')" "sampling [] ?B (rs, m, st')"
    using sample_roots_spec [OF assms(2,3) h(2,3), of ?B "(replicate ?B 0, 0, st)" ?N] by (metis prod_cases3)
  have m: "m = 0" "length rs = ?B" using s(2) has_nbr_Nil by (cases rs; cases m; auto simp: sampling_def roots_ok_def)+
  have B: "0 < ?B" by (simp add: NBFS_max_def)
  have ch: "choose_roots env None ?B ?N [] st = (if e_t env \<ge> int c then Inl (Exit 1) else Inr (rs, ?B))"
    using h(1) s(1) m(1) B by (simp add: choose_roots_def)
  have search: "search_root csr_search_program ?g t r = Inl Out_of_bounds" for t r
    by (simp add: search_root_def csr_search_program_def csr_make_bfs_tree_def csr_graph_of(3) nv do_xmalloc_large_def arr_set_def)
  have "graph500_real_main (csr_create_graph_from_edgelist (\<lambda>_. True)) csr_search_program fuel env openmp opts
      = run_bfs (csr_create_graph_from_edgelist (\<lambda>_. True)) csr_search_program env None ?B ?N [] st"
    using assms st(1) by (simp add: graph500_real_main_def Let_def not_le)
  also have "\<dots> = Inl (if e_t env \<ge> int c then Exit 1 else Out_of_bounds)"
    using ch search m(2) B by (simp add: run_bfs_def csr_graph_of(1) do_xmalloc_large_def assms(1) Let_def)
  finally show ?thesis by simp
qed

theorem dump_never_searches_witness:
  "graph500_real_main (csr_create_graph_from_edgelist (\<lambda>_. True)) csr_search_program 10 (sample_env (2 ^ 4)) False
     \<lparr>o_SCALE = 4, o_edgefactor = 16, o_use_RMAT = False, o_dumpname = Some (Some [write_edge 0 1]), o_rootname = None\<rparr> \<in> {Inl (Exit 1), Inl Out_of_bounds}"
proof -
  let ?o = "\<lparr>o_SCALE = 4, o_edgefactor = 16, o_use_RMAT = False, o_dumpname = Some (Some [write_edge 0 1]), o_rootname = None\<rparr>"
  show ?thesis using dump_never_searches [of "sample_env (2 ^ 4)" ?o "[write_edge 0 1]" 10 False] by (auto simp: sample_env_def)
qed

end
