(* ===== verification/Options.thy ===== *)
theory Options
  imports Prelude
begin

text \<open>
  The command line of Graph500, \<^verbatim>\<open>graph500/options.c\<close>. \<^verbatim>\<open>getopt\<close> splits it; its
  answers, a list of option characters with their arguments, are the input. The probabilities are
  floating point numbers, a type of their own with the operations the code uses.
\<close>

section \<open>The code\<close>

text \<open>\<^verbatim>\<open>strtol (s, NULL, 10)\<close>: the number, and whether it sets \<^verbatim>\<open>errno\<close>.\<close>

definition is_space :: "char \<Rightarrow> bool" where
  "is_space c \<longleftrightarrow> c = CHR '' '' \<or> (9 \<le> (of_char c :: nat) \<and> (of_char c :: nat) \<le> 13)"

definition is_digit :: "char \<Rightarrow> bool" where
  "is_digit c \<longleftrightarrow> 48 \<le> (of_char c :: nat) \<and> (of_char c :: nat) \<le> 57"

definition digits_value :: "string \<Rightarrow> int" where
  "digits_value s = fold (\<lambda>c n. 10 * n + (of_char c - 48)) (takeWhile is_digit s) 0"

definition strtol :: "string \<Rightarrow> int \<times> bool" where
  "strtol s =
     (let s = dropWhile is_space s;
          n = (case s of
                 [] \<Rightarrow> 0
               | c # cs \<Rightarrow> if c = CHR ''-'' then - digits_value cs else if c = CHR ''+'' then digits_value cs else digits_value s) in
      if n > 2 ^ 63 - 1 then (2 ^ 63 - 1, True) else if n < - (2 ^ 63) then (- (2 ^ 63), True) else (n, False))"

text \<open>
  Floating point and the rest of the library: \<^verbatim>\<open>strtod\<close> with its \<^verbatim>\<open>errno\<close>, \<open>x < 0\<close>,
  \<open>1.0 - (x + y + z)\<close>, and \<^verbatim>\<open>long double\<close> conversion, addition and division; whether
  \<^verbatim>\<open>strdup\<close> finds memory.
\<close>

record ('d, 'l) library =
  l_strtod :: "string \<Rightarrow> 'd \<times> bool"
  l_neg :: "'d \<Rightarrow> bool"
  l_rest :: "'d \<Rightarrow> 'd \<Rightarrow> 'd \<Rightarrow> 'd"
  l_extend :: "'d \<Rightarrow> 'l"
  l_add :: "'l \<Rightarrow> 'd \<Rightarrow> 'l"
  l_div :: "'d \<Rightarrow> 'l \<Rightarrow> 'd"
  l_strdup :: "string \<Rightarrow> bool"

text \<open>The globals and the local variables \<^verbatim>\<open>err\<close>, \<^verbatim>\<open>nset\<close> and \<^verbatim>\<open>whichset\<close>.\<close>

record 'd opt_state =
  g_VERBOSE :: bool
  g_use_RMAT :: bool
  g_dumpname :: "string option"
  g_rootname :: "string option"
  g_A :: 'd
  g_B :: 'd
  g_C :: 'd
  g_D :: 'd
  g_SCALE :: int
  g_edgefactor :: int
  l_err :: int
  l_nset :: nat
  l_whichset :: nat

definition option_defaults :: "bool \<Rightarrow> 'd \<Rightarrow> 'd \<Rightarrow> 'd \<Rightarrow> 'd \<Rightarrow> 'd opt_state" where
  "option_defaults verbose a b c d = \<lparr>g_VERBOSE = verbose, g_use_RMAT = False, g_dumpname = None, g_rootname = None,
     g_A = a, g_B = b, g_C = c, g_D = d, g_SCALE = 14, g_edgefactor = 16, l_err = 0, l_nset = 0, l_whichset = 0\<rparr>"

text \<open>What the cases of the four probabilities do after the assignment.\<close>

definition probability_set :: "('d, 'l) library \<Rightarrow> nat \<Rightarrow> 'd \<Rightarrow> bool \<Rightarrow> 'd opt_state \<Rightarrow> 'd opt_state" where
  "probability_set L flag x errno s =
     (let s = (if l_whichset s AND flag \<noteq> 0 then s\<lparr>l_err := - 1\<rparr> else s);
          s = (if errno then s\<lparr>l_err := - 1\<rparr> else s);
          s = (if l_neg L x then s\<lparr>l_err := - 1\<rparr> else s) in
      s\<lparr>l_whichset := l_whichset s OR flag, l_nset := l_nset s + 1\<rparr>)"

definition get_option :: "('d, 'l) library \<Rightarrow> char \<times> string \<Rightarrow> 'd opt_state \<Rightarrow> 'd opt_state result" where
  "get_option L = (\<lambda>(c, optarg) s.
     if c = CHR ''v'' then Inl (Exit 0)
     else if c = CHR ''h'' \<or> c = CHR ''?'' then Inl (Exit 0)
     else if c = CHR ''V'' then Inr (s\<lparr>g_VERBOSE := True\<rparr>)
     else if c = CHR ''R'' then Inr (s\<lparr>g_use_RMAT := True\<rparr>)
     else if c = CHR ''o'' then
       Inr (if l_strdup L optarg then s\<lparr>g_dumpname := Some optarg\<rparr> else s\<lparr>g_dumpname := None, l_err := 1\<rparr>)
     else if c = CHR ''r'' then
       Inr (if l_strdup L optarg then s\<lparr>g_rootname := Some optarg\<rparr> else s\<lparr>g_rootname := None, l_err := 1\<rparr>)
     else if c = CHR ''s'' then
       (let (n, errno) = strtol optarg; s = s\<lparr>g_SCALE := n\<rparr>; s = (if errno then s\<lparr>l_err := - 1\<rparr> else s) in
        Inr (if n \<le> 0 then s\<lparr>l_err := - 1\<rparr> else s))
     else if c = CHR ''e'' then
       (let (n, errno) = strtol optarg; s = s\<lparr>g_edgefactor := n\<rparr>; s = (if errno then s\<lparr>l_err := - 1\<rparr> else s) in
        Inr (if n \<le> 0 then s\<lparr>l_err := - 1\<rparr> else s))
     else if c = CHR ''A'' \<or> c = CHR ''a'' then
       (let (x, errno) = l_strtod L optarg in Inr (probability_set L 1 x errno (s\<lparr>g_A := x\<rparr>)))
     else if c = CHR ''B'' \<or> c = CHR ''b'' then
       (let (x, errno) = l_strtod L optarg in Inr (probability_set L 2 x errno (s\<lparr>g_B := x\<rparr>)))
     else if c = CHR ''C'' \<or> c = CHR ''c'' then
       (let (x, errno) = l_strtod L optarg in Inr (probability_set L 4 x errno (s\<lparr>g_C := x\<rparr>)))
     else if c = CHR ''D'' \<or> c = CHR ''d'' then
       (let (x, errno) = l_strtod L optarg in Inr (probability_set L 8 x errno (s\<lparr>g_D := x\<rparr>)))
     else Inr (s\<lparr>l_err := - 1\<rparr>))"

text \<open>After the loop: three probabilities determine the fourth. \<^verbatim>\<open>abort\<close> is a failed assertion here.\<close>

definition fill_probability :: "('d, 'l) library \<Rightarrow> 'd opt_state \<Rightarrow> 'd opt_state result" where
  "fill_probability L s =
     bindE
       (if l_whichset s = 4 + 2 + 1 then Inr (s\<lparr>g_D := l_rest L (g_A s) (g_B s) (g_C s)\<rparr>)
        else if l_whichset s = 8 + 2 + 1 then Inr (s\<lparr>g_C := l_rest L (g_A s) (g_B s) (g_D s)\<rparr>)
        else if l_whichset s = 8 + 4 + 1 then Inr (s\<lparr>g_B := l_rest L (g_A s) (g_C s) (g_D s)\<rparr>)
        else if l_whichset s = 8 + 4 + 2 then Inr (s\<lparr>g_A := l_rest L (g_B s) (g_C s) (g_D s)\<rparr>)
        else Inl Assertion) (\<lambda>s.
     if l_neg L (g_A s) \<or> l_neg L (g_B s) \<or> l_neg L (g_C s) \<or> l_neg L (g_D s) then Inl (Exit 1) else Inr s)"

definition normalize_probabilities :: "('d, 'l) library \<Rightarrow> 'd opt_state \<Rightarrow> 'd opt_state" where
  "normalize_probabilities L s =
     (let sum = l_add L (l_add L (l_add L (l_extend L (g_A s)) (g_B s)) (g_C s)) (g_D s);
          a = l_div L (g_A s) sum; b = l_div L (g_B s) sum; c = l_div L (g_C s) sum in
      s\<lparr>g_A := a, g_B := b, g_C := c, g_D := l_rest L a b c\<rparr>)"

definition get_options :: "('d, 'l) library \<Rightarrow> (char \<times> string) list \<Rightarrow> 'd opt_state \<Rightarrow> 'd opt_state result" where
  "get_options L args s =
     bindE (foldE (get_option L) args s) (\<lambda>s.
     if l_err s \<noteq> 0 then Inl (Exit 1)
     else if l_nset s = 3 then fill_probability L s
     else if l_nset s > 0 then Inr (normalize_probabilities L s)
     else Inr s)"

section \<open>What the options leave\<close>

text \<open>As long as there is no error, every probability was set at most once.\<close>

definition flags :: "nat set" where
  "flags = {1, 2, 4, 8}"

definition opts_ok :: "'d opt_state \<Rightarrow> bool" where
  "opts_ok s \<longleftrightarrow> l_err s = 0 \<longrightarrow> 0 < g_SCALE s \<and> 0 < g_edgefactor s \<and> g_SCALE s < 2 ^ 63 \<and> g_edgefactor s < 2 ^ 63 \<and>
     l_whichset s < 16 \<and> l_nset s = card {f \<in> flags. l_whichset s AND f \<noteq> 0}"

lemma mask_cases:
  assumes "(n :: nat) < 16"
  shows "n \<in> {0, 1, 2, 3, 4, 5, 6, 7, 8, 9, 10, 11, 12, 13, 14, 15}"
  using assms by (simp add: less_eq_Suc_le numeral_eq_Suc le_Suc_eq)

lemma flag_set:
  assumes "f \<in> flags" and "n < 16" and "n AND f = 0"
  shows "n OR f < 16 \<and> card {e \<in> flags. (n OR f) AND e \<noteq> 0} = Suc (card {e \<in> flags. n AND e \<noteq> 0})"
  using mask_cases [OF assms(2)] assms(1,3) by (auto simp: flags_def Collect_disj_eq conj_disj_distribR cong: conj_cong)

lemma probability_set_ok: "f \<in> flags \<Longrightarrow> opts_ok s \<Longrightarrow> opts_ok (probability_set L f x errno s)"
  using flag_set [of f "l_whichset s"] by (auto simp: opts_ok_def probability_set_def Let_def)

lemma strtol_bound: "fst (strtol t) < 2 ^ 63"
  by (simp add: strtol_def Let_def)

definition help_option :: "char \<times> string \<Rightarrow> bool" where
  "help_option p \<longleftrightarrow> fst p \<in> {CHR ''v'', CHR ''h'', CHR ''?''}"

text \<open>The value an option leaves: that of its last occurrence.\<close>

definition scale_after :: "char \<times> string \<Rightarrow> int \<Rightarrow> int" where
  "scale_after p n = (if fst p = CHR ''s'' then fst (strtol (snd p)) else n)"

definition edgefactor_after :: "char \<times> string \<Rightarrow> int \<Rightarrow> int" where
  "edgefactor_after p n = (if fst p = CHR ''e'' then fst (strtol (snd p)) else n)"

lemma probability_set_sel [simp]:
  "g_SCALE (probability_set L f x errno s) = g_SCALE s" "g_edgefactor (probability_set L f x errno s) = g_edgefactor s"
  by (simp_all add: probability_set_def Let_def)

lemma flags_mem [simp]: "Suc 0 \<in> flags" "2 \<in> flags" "4 \<in> flags" "8 \<in> flags"
  by (simp_all add: flags_def)

lemma opts_ok_upd [simp]:
  "opts_ok (s\<lparr>g_VERBOSE := v\<rparr>) = opts_ok s" "opts_ok (s\<lparr>g_use_RMAT := v\<rparr>) = opts_ok s" "opts_ok (s\<lparr>g_dumpname := n\<rparr>) = opts_ok s"
  "opts_ok (s\<lparr>g_rootname := n\<rparr>) = opts_ok s" "opts_ok (s\<lparr>g_A := x\<rparr>) = opts_ok s" "opts_ok (s\<lparr>g_B := x\<rparr>) = opts_ok s"
  "opts_ok (s\<lparr>g_C := x\<rparr>) = opts_ok s" "opts_ok (s\<lparr>g_D := x\<rparr>) = opts_ok s"
  by (simp_all add: opts_ok_def)

lemma get_option_cases:
  assumes "opts_ok s"
  shows "help_option p \<and> get_option L p s = Inl (Exit 0) \<or>
    \<not> help_option p \<and> (\<exists>s'. get_option L p s = Inr s' \<and> opts_ok s' \<and>
      g_SCALE s' = scale_after p (g_SCALE s) \<and> g_edgefactor s' = edgefactor_after p (g_edgefactor s))"
proof -
  obtain c t where p: "p = (c, t)" by (cases p)
  obtain n e where n: "strtol t = (n, e)" by (cases "strtol t")
  obtain x f where x: "l_strtod L t = (x, f)" by (cases "l_strtod L t")
  have b: "n < 2 ^ 63" using strtol_bound [of t] by (simp add: n)
  have num: "opts_ok (let s' = s\<lparr>g_SCALE := n\<rparr>; s' = (if e then s'\<lparr>l_err := - 1\<rparr> else s') in if n \<le> 0 then s'\<lparr>l_err := - 1\<rparr> else s')"
    "opts_ok (let s' = s\<lparr>g_edgefactor := n\<rparr>; s' = (if e then s'\<lparr>l_err := - 1\<rparr> else s') in if n \<le> 0 then s'\<lparr>l_err := - 1\<rparr> else s')"
    using assms b by (simp_all add: opts_ok_def Let_def)
  have bad: "opts_ok (s\<lparr>l_err := - 1\<rparr>)" "opts_ok (s\<lparr>g_dumpname := None, l_err := 1\<rparr>)" "opts_ok (s\<lparr>g_rootname := None, l_err := 1\<rparr>)"
    by (simp_all add: opts_ok_def)
  show ?thesis
    using assms num bad
    by (simp add: get_option_def p n x help_option_def scale_after_def edgefactor_after_def probability_set_ok Let_def)
qed

lemma get_all_options:
  assumes "opts_ok s"
  shows "list_ex help_option args \<and> foldE (get_option L) args s = Inl (Exit 0) \<or>
    \<not> list_ex help_option args \<and> (\<exists>s'. foldE (get_option L) args s = Inr s' \<and> opts_ok s' \<and>
      g_SCALE s' = fold scale_after args (g_SCALE s) \<and> g_edgefactor s' = fold edgefactor_after args (g_edgefactor s))"
  using assms
proof (induction args arbitrary: s)
  case (Cons p args)
  consider "help_option p" "get_option L p s = Inl (Exit 0)"
    | s' where "\<not> help_option p" "get_option L p s = Inr s'" "opts_ok s'" "g_SCALE s' = scale_after p (g_SCALE s)"
        "g_edgefactor s' = edgefactor_after p (g_edgefactor s)" using get_option_cases [OF Cons.prems, of p L] by blast
  then show ?case
  proof cases
    case (2 s')
    then show ?thesis using Cons.IH [OF 2(3)] by simp
  qed simp
qed simp

text \<open>Three probabilities without an error are three different ones, so \<^verbatim>\<open>abort\<close> is not reached.\<close>

lemma three_flags:
  assumes "n < 16" and "card {f \<in> flags. n AND f \<noteq> 0} = 3"
  shows "n \<in> {4 + 2 + 1, 8 + 2 + 1, 8 + 4 + 1, 8 + 4 + 2}"
  using mask_cases [OF assms(1)] assms(2) by (auto simp: flags_def Collect_disj_eq conj_disj_distribR cong: conj_cong)

lemma fill_probability_cases:
  assumes "opts_ok s" "l_err s = 0" "l_nset s = 3"
  shows "fill_probability L s = Inl (Exit 1) \<or>
    (\<exists>s'. fill_probability L s = Inr s' \<and> g_SCALE s' = g_SCALE s \<and> g_edgefactor s' = g_edgefactor s)"
proof -
  have "l_whichset s \<in> {4 + 2 + 1, 8 + 2 + 1, 8 + 4 + 1, 8 + 4 + 2}"
    using three_flags [of "l_whichset s"] assms by (simp add: opts_ok_def)
  then show ?thesis by (elim insertE emptyE) (simp_all add: fill_probability_def)
qed

section \<open>Property\<close>

text \<open>
  C36. Every command line has one of three outcomes. With \<^verbatim>\<open>-v\<close>, \<^verbatim>\<open>-h\<close> or an unknown
  option the program exits with status 0. Otherwise it exits with 1, or it returns and the scale and the
  edge factor are those of the last \<^verbatim>\<open>-s\<close> and \<^verbatim>\<open>-e\<close> (or 14 and 16), positive numbers
  of 64 bits. The call of \<^verbatim>\<open>abort\<close> is never reached.
\<close>

theorem options_outcome:
  "case get_options L args (option_defaults verbose a b c d) of
     Inl e \<Rightarrow> e = (if list_ex help_option args then Exit 0 else Exit 1)
   | Inr s \<Rightarrow> \<not> list_ex help_option args \<and>
       g_SCALE s = fold scale_after args 14 \<and> g_edgefactor s = fold edgefactor_after args 16 \<and>
       0 < g_SCALE s \<and> g_SCALE s < 2 ^ 63 \<and> 0 < g_edgefactor s \<and> g_edgefactor s < 2 ^ 63"
proof -
  have ok: "opts_ok (option_defaults verbose a b c d)" by (simp add: opts_ok_def option_defaults_def flags_def)
  have d: "g_SCALE (option_defaults verbose a b c d) = 14" "g_edgefactor (option_defaults verbose a b c d) = 16"
    by (simp_all add: option_defaults_def)
  consider "list_ex help_option args" "foldE (get_option L) args (option_defaults verbose a b c d) = Inl (Exit 0)"
    | s where "\<not> list_ex help_option args" "foldE (get_option L) args (option_defaults verbose a b c d) = Inr s" "opts_ok s"
        "g_SCALE s = fold scale_after args 14" "g_edgefactor s = fold edgefactor_after args 16"
    using get_all_options [OF ok, of args L] unfolding d by blast
  then show ?thesis
  proof cases
    case 1
    then show ?thesis by (simp add: get_options_def)
  next
    case (2 s)
    have pos: "l_err s = 0 \<Longrightarrow> 0 < g_SCALE s \<and> g_SCALE s < 2 ^ 63 \<and> 0 < g_edgefactor s \<and> g_edgefactor s < 2 ^ 63"
      using 2(3) by (simp add: opts_ok_def)
    show ?thesis
    proof (cases "l_err s = 0 \<and> l_nset s = 3")
      case True
      then show ?thesis using fill_probability_cases [OF 2(3), of L] 2 pos by (auto simp: get_options_def)
    next
      case False
      then show ?thesis using 2 pos by (auto simp: get_options_def normalize_probabilities_def Let_def)
    qed
  qed
qed

end
