(* ===== verification/XsGrid.thy ===== *)
theory XsGrid
  imports Prelude "HOL-Library.Multiset"
begin

text \<open>
  The cross section lookup of XSBench (\<^verbatim>\<open>xsbench/src/CalculateXS.c\<close>,
  \<^verbatim>\<open>GridInit.c\<close>, \<^verbatim>\<open>Materials.c\<close>): the two binary searches, the
  sorting of the nuclide grids, the unionized energy grid with its pointers, the hash grid, and
  the micro and macro lookups over the hard coded materials. A \<^verbatim>\<open>double\<close> is an element
  of a linear order (every energy of the program is a quotient in the unit interval, never a
  NaN), and its arithmetic is a parameter, the record \<open>fp_ops\<close>: the results hold for any
  rounding. Array indices are natural numbers; the code keeps them in \<^verbatim>\<open>int\<close> and
  \<^verbatim>\<open>long\<close>, which hold them for grids below \<open>2 ^ 31\<close> points.
\<close>

section \<open>Data\<close>

record 'e nuclide_grid_point =
  ng_energy :: 'e
  total_xs :: 'e
  elastic_xs :: 'e
  absorbtion_xs :: 'e
  fission_xs :: 'e
  nu_fission_xs :: 'e

text \<open>A cell that no store has reached yet is \<open>None\<close>.\<close>

record 'e grid_point =
  gp_energy :: "'e option"
  xs_ptrs :: "nat option list"

record 'e fp_ops =
  fp_add :: "'e \<Rightarrow> 'e \<Rightarrow> 'e"
  fp_sub :: "'e \<Rightarrow> 'e \<Rightarrow> 'e"
  fp_mul :: "'e \<Rightarrow> 'e \<Rightarrow> 'e"
  fp_div :: "'e \<Rightarrow> 'e \<Rightarrow> 'e"
  fp_of_long :: "nat \<Rightarrow> 'e"
  fp_trunc :: "'e \<Rightarrow> nat"

definition UNIONIZED :: nat where "UNIONIZED = 0"
definition NUCLIDE :: nat where "NUCLIDE = 1"
definition HASH :: nat where "HASH = 2"

definition initialised :: "'a option \<Rightarrow> 'a result" where
  "initialised v = (case v of None \<Rightarrow> Inl Undefined | Some x \<Rightarrow> Inr x)"

lemma initialised_simps [simp]: "initialised (Some x) = Inr x" "initialised None = Inl Undefined"
  by (simp_all add: initialised_def)

section \<open>Binary searches\<close>

text \<open>The loop both searches run, on the energies \<open>rd\<close> reads.\<close>

function search_loop :: "(nat \<Rightarrow> 'e result) \<Rightarrow> 'e::linorder \<Rightarrow> nat \<Rightarrow> nat \<Rightarrow> nat result" where
  "search_loop rd quarry lowerLimit upperLimit =
    (if 1 < upperLimit - lowerLimit then
       (let examinationPoint = lowerLimit + (upperLimit - lowerLimit) div 2 in
        bindE (rd examinationPoint) (\<lambda>e.
          if quarry < e then search_loop rd quarry lowerLimit examinationPoint
          else search_loop rd quarry examinationPoint upperLimit))
     else Inr lowerLimit)"
  by pat_completeness auto

termination
  by (relation "measure (\<lambda>(_, _, lo, hi). hi - lo)") auto

declare search_loop.simps [simp del]

definition grid_search :: "nat \<Rightarrow> 'e::linorder \<Rightarrow> 'e grid_point list \<Rightarrow> nat result" where
  "grid_search n quarry A =
    search_loop (\<lambda>i. bindE (arr_get A i) (\<lambda>p. initialised (gp_energy p))) quarry 0 (n - 1)"

definition grid_search_nuclide ::
    "nat \<Rightarrow> 'e::linorder \<Rightarrow> 'e nuclide_grid_point list \<Rightarrow> nat \<Rightarrow> nat \<Rightarrow> nat result" where
  "grid_search_nuclide n quarry A low high =
    search_loop (\<lambda>i. bindE (arr_get A i) (\<lambda>p. Inr (ng_energy p))) quarry low high"

section \<open>Building the grids\<close>

definition NGP_compare ::
    "'e::linorder nuclide_grid_point \<Rightarrow> 'e nuclide_grid_point \<Rightarrow> int" where
  "NGP_compare i j = (if ng_energy j < ng_energy i then 1
    else if ng_energy i < ng_energy j then - 1 else 0)"

text \<open>
  \<^verbatim>\<open>qsort\<close> is not stable, so the order of points of equal energy is its own choice: it
  is a parameter \<open>qs\<close>, of which the C standard promises this.
\<close>

type_synonym 'a qsort_fun = "('a \<Rightarrow> 'a \<Rightarrow> int) \<Rightarrow> 'a list \<Rightarrow> 'a list"

definition qsort_sorts :: "'e::linorder nuclide_grid_point qsort_fun \<Rightarrow> bool" where
  "qsort_sorts qs \<longleftrightarrow> (\<forall>xs. mset (qs NGP_compare xs) = mset xs \<and>
     sorted_wrt (\<lambda>a b. NGP_compare a b \<le> 0) (qs NGP_compare xs))"

definition sort_nuclide_grids :: "'e::linorder nuclide_grid_point qsort_fun \<Rightarrow>
    'e nuclide_grid_point list list \<Rightarrow> 'e nuclide_grid_point list list" where
  "sort_nuclide_grids qs nuclide_grids = map (qs NGP_compare) nuclide_grids"

text \<open>
  The rows of the nuclide matrix lie one after another in one block, which is copied, sorted and
  read back; \<open>mem\<close> says whether the last allocation succeeds.
\<close>

definition generate_energy_grid :: "'e::linorder nuclide_grid_point qsort_fun \<Rightarrow> bool \<Rightarrow> nat \<Rightarrow>
    'e nuclide_grid_point list list \<Rightarrow> 'e grid_point list result" where
  "generate_energy_grid qs mem n_isotopes nuclide_grids =
    (let n_grid_sorted = qs NGP_compare (concat nuclide_grids) in
     if mem then
       Inr (map (\<lambda>p. \<lparr>gp_energy = Some (ng_energy p), xs_ptrs = replicate n_isotopes None\<rparr>)
              n_grid_sorted)
     else Inl (Exit 1))"

text \<open>
  The pointers of the unionized grid: \<open>idx_low\<close> and \<open>energy_high\<close> keep, for each
  nuclide, the interval the scan has reached.
\<close>

type_synonym 'e ptr_state = "nat list \<times> 'e list \<times> 'e grid_point list"

definition set_grid_ptr :: "nat \<Rightarrow> 'e::linorder nuclide_grid_point list list \<Rightarrow> nat \<Rightarrow> nat \<Rightarrow>
    'e ptr_state \<Rightarrow> 'e ptr_state result" where
  "set_grid_ptr n_gridpoints nuclide_grids e i st =
    (case st of (idx_low, energy_high, energy_grid) \<Rightarrow>
       bindE (arr_get energy_grid e) (\<lambda>gp.
       bindE (initialised (gp_energy gp)) (\<lambda>unionized_energy.
       bindE (arr_get energy_high i) (\<lambda>high.
       bindE (arr_get idx_low i) (\<lambda>k.
         if unionized_energy < high \<or> k + 2 = n_gridpoints then
           bindE (arr_set (xs_ptrs gp) i (Some k)) (\<lambda>ptrs.
           Inr (idx_low, energy_high, energy_grid[e := gp\<lparr>xs_ptrs := ptrs\<rparr>]))
         else
           bindE (arr_set (xs_ptrs gp) i (Some (k + 1))) (\<lambda>ptrs.
           bindE (arr_get nuclide_grids i) (\<lambda>g.
           bindE (arr_get g (k + 2)) (\<lambda>p.
           Inr (idx_low[i := k + 1], energy_high[i := ng_energy p],
                energy_grid[e := gp\<lparr>xs_ptrs := ptrs\<rparr>])))))))))"

definition set_grid_ptrs :: "'e::linorder grid_point list \<Rightarrow> 'e nuclide_grid_point list list \<Rightarrow>
    nat \<Rightarrow> nat \<Rightarrow> 'e grid_point list result" where
  "set_grid_ptrs energy_grid nuclide_grids n_isotopes n_gridpoints =
    bindE (mapE (\<lambda>i. bindE (arr_get nuclide_grids i) (\<lambda>g.
             bindE (arr_get g 1) (\<lambda>p. Inr (ng_energy p)))) [0..<n_isotopes]) (\<lambda>energy_high.
    bindE (foldE (\<lambda>e. foldE (set_grid_ptr n_gridpoints nuclide_grids e) [0..<n_isotopes])
             [0..<n_isotopes * n_gridpoints]
             (replicate n_isotopes 0, energy_high, energy_grid)) (\<lambda>(idx_low, energy_high, grid).
    Inr grid))"

text \<open>The iterations of the parallel loop write different rows, so their order is immaterial.\<close>

definition generate_hash_table :: "'e::linorder fp_ops \<Rightarrow> 'e nuclide_grid_point list list \<Rightarrow>
    nat \<Rightarrow> nat \<Rightarrow> nat \<Rightarrow> 'e grid_point list result" where
  "generate_hash_table ops nuclide_grids n_isotopes n_gridpoints hash_bins =
    (let du = fp_div ops (fp_of_long ops 1) (fp_of_long ops hash_bins) in
     mapE (\<lambda>e. let energy = fp_mul ops (fp_of_long ops e) du in
       bindE (mapE (\<lambda>i. bindE (arr_get nuclide_grids i) (\<lambda>g.
                grid_search_nuclide n_gridpoints energy g 0 (n_gridpoints - 1))) [0..<n_isotopes])
         (\<lambda>ptrs. Inr \<lparr>gp_energy = None, xs_ptrs = map Some ptrs\<rparr>))
       [0..<hash_bins])"

section \<open>Lookups\<close>

text \<open>\<^verbatim>\<open>energy_grid[idx].xs_ptrs[nuc]\<close>, and the step back from the last point.\<close>

definition xs_ptr :: "'e grid_point list \<Rightarrow> nat \<Rightarrow> nat \<Rightarrow> nat result" where
  "xs_ptr energy_grid idx nuc = bindE (arr_get energy_grid idx) (\<lambda>gp.
     bindE (arr_get (xs_ptrs gp) nuc) initialised)"

definition low_of :: "nat \<Rightarrow> nat \<Rightarrow> nat result" where
  "low_of n_gridpoints idx =
    (if Suc idx = n_gridpoints then if idx = 0 then Inl Out_of_bounds else Inr (idx - 1)
     else Inr idx)"

definition low_nuclide :: "'e::linorder \<Rightarrow> nat \<Rightarrow> 'e nuclide_grid_point list \<Rightarrow> nat result" where
  "low_nuclide p_energy n_gridpoints g =
    bindE (grid_search_nuclide n_gridpoints p_energy g 0 (n_gridpoints - 1)) (low_of n_gridpoints)"

definition low_unionized :: "'e grid_point list \<Rightarrow> nat \<Rightarrow> nat \<Rightarrow> nat \<Rightarrow> nat result" where
  "low_unionized energy_grid idx nuc n_gridpoints =
    bindE (xs_ptr energy_grid idx nuc) (low_of n_gridpoints)"

definition low_hash :: "'e::linorder \<Rightarrow> 'e grid_point list \<Rightarrow> nat \<Rightarrow> nat \<Rightarrow> nat \<Rightarrow> nat \<Rightarrow>
    'e nuclide_grid_point list \<Rightarrow> nat result" where
  "low_hash p_energy energy_grid idx nuc n_gridpoints hash_bins g =
    bindE (xs_ptr energy_grid idx nuc) (\<lambda>u_low.
    bindE (if Suc idx = hash_bins then Inr (n_gridpoints - 1)
           else bindE (xs_ptr energy_grid (idx + 1) nuc) (\<lambda>k. Inr (k + 1))) (\<lambda>u_high.
    bindE (arr_get g u_low) (\<lambda>p_low.
    bindE (arr_get g u_high) (\<lambda>p_high.
    bindE (if p_energy \<le> ng_energy p_low then Inr 0
           else if ng_energy p_high \<le> p_energy then Inr (n_gridpoints - 1)
           else grid_search_nuclide n_gridpoints p_energy g u_low u_high)
      (low_of n_gridpoints)))))"

definition interpolate :: "'e fp_ops \<Rightarrow> 'e \<Rightarrow> 'e nuclide_grid_point \<Rightarrow> 'e nuclide_grid_point \<Rightarrow>
    'e list" where
  "interpolate ops p_energy low high =
    (let f = fp_div ops (fp_sub ops (ng_energy high) p_energy)
               (fp_sub ops (ng_energy high) (ng_energy low));
         xs = (\<lambda>sel. fp_sub ops (sel high) (fp_mul ops f (fp_sub ops (sel high) (sel low))))
     in [xs total_xs, xs elastic_xs, xs absorbtion_xs, xs fission_xs, xs nu_fission_xs])"

definition calculate_micro_xs :: "'e::linorder fp_ops \<Rightarrow> 'e \<Rightarrow> nat \<Rightarrow> nat \<Rightarrow> 'e grid_point list \<Rightarrow>
    'e nuclide_grid_point list list \<Rightarrow> nat \<Rightarrow> nat \<Rightarrow> nat \<Rightarrow> 'e list result" where
  "calculate_micro_xs ops p_energy nuc n_gridpoints energy_grid nuclide_grids idx grid_type
      hash_bins =
    bindE (arr_get nuclide_grids nuc) (\<lambda>g.
    bindE (if grid_type = NUCLIDE then low_nuclide p_energy n_gridpoints g
           else if grid_type = UNIONIZED then low_unionized energy_grid idx nuc n_gridpoints
           else low_hash p_energy energy_grid idx nuc n_gridpoints hash_bins g) (\<lambda>low.
    bindE (arr_get g low) (\<lambda>p_low.
    bindE (arr_get g (low + 1)) (\<lambda>p_high.
    Inr (interpolate ops p_energy p_low p_high)))))"

text \<open>
  The index \<^verbatim>\<open>-1\<close> that the nuclide grid search leaves in \<^verbatim>\<open>idx\<close> is never
  read; it is 0 here.
\<close>

definition calculate_macro_xs :: "'e::linorder fp_ops \<Rightarrow> 'e \<Rightarrow> nat \<Rightarrow> nat \<Rightarrow> nat \<Rightarrow> nat list \<Rightarrow>
    'e list list \<Rightarrow> 'e grid_point list \<Rightarrow> 'e nuclide_grid_point list list \<Rightarrow> nat list list \<Rightarrow>
    nat \<Rightarrow> nat \<Rightarrow> 'e list result" where
  "calculate_macro_xs ops p_energy mat n_isotopes n_gridpoints num_nucs concs energy_grid
      nuclide_grids mats grid_type hash_bins =
    bindE (if grid_type = UNIONIZED then
             grid_search (n_isotopes * n_gridpoints) p_energy energy_grid
           else if grid_type = HASH then
             Inr (fp_trunc ops (fp_div ops p_energy
               (fp_div ops (fp_of_long ops 1) (fp_of_long ops hash_bins))))
           else Inr 0) (\<lambda>idx.
    bindE (arr_get num_nucs mat) (\<lambda>num.
    foldE (\<lambda>j macro_xs_vector.
        bindE (arr_get mats mat) (\<lambda>ms. bindE (arr_get ms j) (\<lambda>p_nuc.
        bindE (arr_get concs mat) (\<lambda>cs. bindE (arr_get cs j) (\<lambda>conc.
        bindE (calculate_micro_xs ops p_energy p_nuc n_gridpoints energy_grid nuclide_grids idx
                 grid_type hash_bins) (\<lambda>xs_vector.
        Inr (map2 (\<lambda>m x. fp_add ops m (fp_mul ops x conc)) macro_xs_vector xs_vector)))))))
      [0..<num] (replicate 5 (fp_of_long ops 0))))"

section \<open>Materials\<close>

definition load_num_nucs :: "nat \<Rightarrow> nat list" where
  "load_num_nucs n_isotopes =
    (if n_isotopes = 68 then 34 else 321) # [5, 4, 4, 27, 21, 21, 21, 21, 21, 9, 9]"

definition mats0_Sml :: "nat list" where
  "mats0_Sml = [58, 59, 60, 61, 40, 42, 43, 44, 45, 46, 1, 2, 3, 7,
     8, 9, 10, 29, 57, 47, 48, 0, 62, 15, 33, 34, 52, 53, 54, 55, 56, 18, 23, 41]"

definition mats0_Lrg :: "nat list" where
  "mats0_Lrg = mats0_Sml @ map (\<lambda>i. 68 + i) [0..<321 - 34]"

definition mats5 :: "nat list" where
  "mats5 = [24, 41, 4, 5, 19, 20, 21, 22, 35, 36, 37, 38, 39, 25,
     49, 50, 51, 11, 12, 13, 14]"

definition load_mats :: "nat list \<Rightarrow> nat \<Rightarrow> nat list list" where
  "load_mats num_nucs n_isotopes =
    map2 take num_nucs
      [if n_isotopes = 68 then mats0_Sml else mats0_Lrg,
       [63, 64, 65, 66, 67],
       [24, 41, 4, 5],
       [24, 41, 4, 5],
       [19, 20, 21, 22, 35, 36, 37, 38, 39, 25, 27, 28, 29,
        30, 31, 32, 26, 49, 50, 51, 11, 12, 13, 14, 6, 16, 17],
       mats5, mats5, mats5, mats5, mats5,
       [24, 41, 4, 5, 63, 64, 65, 66, 67],
       [24, 41, 4, 5, 63, 64, 65, 66, 67]]"

text \<open>The concentrations, row by row; \<open>draw k\<close> is the \<open>k\<close>-th number drawn.\<close>

definition load_concs :: "(nat \<Rightarrow> 'e) \<Rightarrow> nat list \<Rightarrow> 'e list list" where
  "load_concs draw num_nucs =
    map (\<lambda>i. map (\<lambda>j. draw (sum_list (take i num_nucs) + j)) [0..<num_nucs ! i]) [0..<12]"

end
