(* ===== verification/XsLookup.thy ===== *)
theory XsLookup
  imports XsGrid
begin

text \<open>
  Correctness of the XSBench lookup: both binary searches bracket the energy, the scan that sets
  the pointers of the unionized grid ends in the bracketing interval of every nuclide, and the
  three grid types give the same cross sections.
\<close>

section \<open>Binary search\<close>

lemma search_loop_returns:
  assumes "\<And>i. lo < i \<Longrightarrow> i < hi \<Longrightarrow> rd i = Inr (f i)"
  shows "\<exists>k. search_loop rd q lo hi = Inr k \<and> lo \<le> k \<and> (lo < hi \<longrightarrow> k < hi) \<and>
    (k = lo \<or> f k \<le> q) \<and> (Suc k < hi \<longrightarrow> q < f (Suc k))"
  using assms
proof (induction rd q lo hi rule: search_loop.induct)
  case (1 rd q lo hi)
  define m where "m = lo + (hi - lo) div 2"
  show ?case
  proof (cases "1 < hi - lo")
    case False
    then show ?thesis by (subst search_loop.simps) auto
  next
    case True
    have m: "lo < m" "m < hi" using True by (auto simp: m_def)
    have rd: "rd m = Inr (f m)" using 1(3) m by blast
    show ?thesis
    proof (cases "q < f m")
      case less: True
      obtain k where "search_loop rd q lo m = Inr k" "lo \<le> k" "k < m"
          "k = lo \<or> f k \<le> q" "Suc k < m \<longrightarrow> q < f (Suc k)"
        using 1(1) [OF True m_def less] 1(3) m by (metis less_trans)
      moreover have "search_loop rd q lo hi = search_loop rd q lo m"
        using True rd less m_def by (subst search_loop.simps) (simp add: Let_def)
      ultimately show ?thesis using m less
        by (metis less_trans linorder_neqE_nat not_less_eq less_SucI)
    next
      case more: False
      obtain k where "search_loop rd q m hi = Inr k" "m \<le> k" "k < hi"
          "k = m \<or> f k \<le> q" "Suc k < hi \<longrightarrow> q < f (Suc k)"
        using 1(2) [OF True m_def more] 1(3) m by (metis less_trans)
      moreover have "search_loop rd q lo hi = search_loop rd q m hi"
        using True rd more m_def by (subst search_loop.simps) (simp add: Let_def)
      ultimately show ?thesis using m more by (metis less_imp_le_nat not_less order_trans)
    qed
  qed
qed

text \<open>The interval a lookup has to find: the last one that starts at or below the energy.\<close>

definition bracket :: "'e::linorder list \<Rightarrow> 'e \<Rightarrow> nat \<Rightarrow> bool" where
  "bracket es p k \<longleftrightarrow> Suc k < length es \<and> (k = 0 \<or> es ! k \<le> p) \<and>
    (Suc (Suc k) < length es \<longrightarrow> p < es ! Suc k)"

lemma bracket_unique:
  assumes "sorted es" "bracket es p k" "bracket es p k'"
  shows "k = k'"
proof -
  have no: False if b: "bracket es p a" "bracket es p b" and lt: "a < b" for a b
  proof -
    have "p < es ! Suc a" "es ! b \<le> p" using b lt by (auto simp: bracket_def)
    moreover have "es ! Suc a \<le> es ! b"
      using assms(1) b lt by (intro sorted_nth_mono) (auto simp: bracket_def)
    ultimately show False by simp
  qed
  show ?thesis using no [of k k'] no [of k' k] assms by (meson linorder_neqE_nat)
qed

abbreviation energies :: "'e nuclide_grid_point list \<Rightarrow> 'e list" where
  "energies g \<equiv> map ng_energy g"

lemma grid_search_nuclide_brackets:
  assumes "length g = n" "2 \<le> n"
  shows "\<exists>k. grid_search_nuclide n p g 0 (n - 1) = Inr k \<and> bracket (energies g) p k"
proof -
  have "\<exists>k. search_loop (\<lambda>i. bindE (arr_get g i) (\<lambda>p. Inr (ng_energy p))) p 0 (n - 1) = Inr k \<and>
      0 \<le> k \<and> (0 < n - 1 \<longrightarrow> k < n - 1) \<and> (k = 0 \<or> energies g ! k \<le> p) \<and>
      (Suc k < n - 1 \<longrightarrow> p < energies g ! Suc k)"
    by (rule search_loop_returns) (use assms in auto)
  then show ?thesis using assms by (force simp: bracket_def grid_search_nuclide_def)
qed

lemma grid_search_brackets:
  assumes "map gp_energy A = map Some U" "length U = n" "2 \<le> n"
  shows "\<exists>k. grid_search n p A = Inr k \<and> bracket U p k"
proof -
  have len: "length A = n" using assms by (metis length_map)
  have rd: "gp_energy (A ! i) = Some (U ! i)" if "i < n" for i
    using assms that len by (metis nth_map)
  have "\<exists>k. search_loop (\<lambda>i. bindE (arr_get A i) (\<lambda>p. initialised (gp_energy p))) p 0 (n - 1)
        = Inr k \<and>
      0 \<le> k \<and> (0 < n - 1 \<longrightarrow> k < n - 1) \<and> (k = 0 \<or> U ! k \<le> p) \<and>
      (Suc k < n - 1 \<longrightarrow> p < U ! Suc k)"
    by (rule search_loop_returns) (use len rd in auto)
  then show ?thesis using assms by (force simp: bracket_def grid_search_def)
qed

lemma low_of_bracket: "bracket es p k \<Longrightarrow> length es = n \<Longrightarrow> low_of n k = Inr k"
  by (simp add: low_of_def bracket_def)

section \<open>The scan of the unionized grid\<close>

definition scan_step :: "'e::linorder list \<Rightarrow> 'e \<Rightarrow> nat \<Rightarrow> nat" where
  "scan_step es x k = (if x < es ! Suc k \<or> k + 2 = length es then k else Suc k)"

lemma fold_scan_brackets:
  assumes "sorted es" "sorted xs" "\<forall>x \<in> set xs. x \<le> p" "k = 0 \<or> es ! k \<le> p"
    "Suc k < length es" "filter_mset (\<lambda>e. e \<le> p) (mset (drop (Suc k) (butlast es))) \<subseteq># mset xs"
  shows "bracket es p (fold (scan_step es) xs k)"
  using assms(2-)
proof (induction xs arbitrary: k)
  case Nil
  have "p < es ! Suc k" if "Suc (Suc k) < length es"
  proof -
    have "Suc k < length (butlast es)" using that by simp
    then have "butlast es ! Suc k \<in> set (drop (Suc k) (butlast es))"
      by (subst Cons_nth_drop_Suc [symmetric]) simp_all
    moreover have "butlast es ! Suc k = es ! Suc k" using that by (simp add: nth_butlast)
    moreover have "\<forall>e \<in> set (drop (Suc k) (butlast es)). \<not> e \<le> p"
      using Nil.prems by (simp add: filter_empty_conv flip: mset_filter)
    ultimately show ?thesis by auto
  qed
  then show ?case using Nil.prems by (simp add: bracket_def)
next
  case (Cons x xs)
  let ?rest = "\<lambda>k. filter_mset (\<lambda>e. e \<le> p) (mset (drop (Suc k) (butlast es)))"
  show ?case
  proof (cases "Suc (Suc k) < length es \<and> es ! Suc k \<le> x")
    case True
    let ?y = "es ! Suc k"
    have sc: "scan_step es x k = Suc k" using True by (auto simp: scan_step_def)
    have yp: "?y \<le> p" using True Cons.prems(2) by auto
    have "drop (Suc k) (butlast es) = butlast es ! Suc k # drop (Suc (Suc k)) (butlast es)"
      using True by (intro Cons_nth_drop_Suc [symmetric]) auto
    moreover have "butlast es ! Suc k = ?y" using True by (intro nth_butlast) auto
    ultimately have dr: "?rest k = add_mset ?y (?rest (Suc k))" using yp by simp
    have "?y \<in># mset (x # xs)"
      using Cons.prems(5) unfolding dr by (meson mset_subset_eqD union_single_eq_member)
    then have "x \<le> ?y" using Cons.prems(1) by auto
    then have "x = ?y" using True by simp
    then have "?rest (Suc k) \<subseteq># mset xs" using Cons.prems(5) unfolding dr by simp
    then show ?thesis using Cons.IH [of "Suc k"] Cons.prems True yp sc by simp
  next
    case False
    have sc: "scan_step es x k = k" using False Cons.prems(4) by (auto simp: scan_step_def)
    have "x \<notin># ?rest k"
    proof
      assume "x \<in># ?rest k"
      then obtain i where i: "i < length (drop (Suc k) (butlast es))"
          "drop (Suc k) (butlast es) ! i = x" by (auto simp: in_set_conv_nth)
      then have "es ! (Suc k + i) = x" "Suc k + i < length es - 1" by (auto simp: nth_butlast)
      moreover then have "es ! Suc k \<le> es ! (Suc k + i)"
        using assms(1) by (intro sorted_nth_mono) auto
      ultimately show False using False by auto
    qed
    then have "?rest k \<subseteq># mset xs" using Cons.prems(5)
      by (metis diff_single_trivial mset.simps(2) subset_eq_diff_conv add_mset_add_single
          diff_union_cancelR add.commute)
    then show ?thesis using Cons.IH [of k] Cons.prems sc by simp
  qed
qed

text \<open>
  The points up to the index a search of the unionized grid returns hold every point of the
  nuclide below the energy, except its last.
\<close>

lemma sorted_last: "sorted xs \<Longrightarrow> x \<in> set xs \<Longrightarrow> x \<le> last xs"
  by (induction xs) auto

lemma mset_butlast_subset:
  assumes "sorted es" "sorted U" "es \<noteq> []" "mset es \<subseteq># mset U"
  shows "mset (butlast es) \<subseteq># mset (butlast U)"
proof -
  have U: "U \<noteq> []" using assms by auto
  have es: "mset es = add_mset (last es) (mset (butlast es))"
    using assms(3) by (metis add.commute append_butlast_last_id mset.simps(2) mset_append
        mset_single_iff_right add_mset_add_single)
  have Us: "mset U = add_mset (last U) (mset (butlast U))"
    using U by (metis append_butlast_last_id mset_append mset.simps add_mset_add_single)
  show ?thesis
  proof (cases "last U \<in># mset es")
    case False
    then have "mset es \<subseteq># mset (butlast U)"
      using assms(4) unfolding Us
      by (metis diff_single_trivial subset_eq_diff_conv add_mset_add_single)
    then show ?thesis unfolding es by (meson mset_subset_eq_add_right subset_mset.order_trans
      mset_subset_eq_insertD subset_mset.less_imp_le)
  next
    case True
    have "last es \<in> set U" using assms by (metis last_in_set mset_subset_eqD set_mset_mset)
    then have "last es \<le> last U" using assms(2) by (rule sorted_last [rotated])
    moreover have "last U \<le> last es" using True assms(1) by (intro sorted_last) simp_all
    ultimately have "last es = last U" by simp
    then show ?thesis using assms(4) unfolding es Us by simp
  qed
qed

lemma union_scan_brackets:
  assumes "sorted es" "sorted U" "2 \<le> length es" "mset es \<subseteq># mset U" "bracket U p e" "U ! 0 \<le> p"
  shows "bracket es p (fold (scan_step es) (take (Suc e) U) 0)"
proof (rule fold_scan_brackets)
  have e: "Suc e < length U" "U ! e \<le> p" using assms(5,6) by (auto simp: bracket_def)
  show "\<forall>x \<in> set (take (Suc e) U). x \<le> p"
  proof
    fix x assume "x \<in> set (take (Suc e) U)"
    then obtain i where "i < Suc e" "x = U ! i" by (auto simp: in_set_conv_nth)
    then show "x \<le> p" using assms(2) e by (metis Suc_lessD less_Suc_eq_le order_trans sorted_nth_mono)
  qed
  show "sorted (take (Suc e) U)" using assms(2) by (simp add: sorted_wrt_take)
  show "filter_mset (\<lambda>x. x \<le> p) (mset (drop (Suc 0) (butlast es))) \<subseteq># mset (take (Suc e) U)"
  proof -
    have sub: "filter_mset (\<lambda>x. x \<le> p) (mset (drop (Suc 0) (butlast es)))
        \<subseteq># filter_mset (\<lambda>x. x \<le> p) (mset (butlast es))"
      by (intro multiset_filter_mono) (metis append_take_drop_id mset_append mset_subset_eq_add_right)
    have bl: "mset (butlast es) \<subseteq># mset (butlast U)"
      using assms by (intro mset_butlast_subset) auto
    show ?thesis
    proof (cases "Suc (Suc e) < length U")
      case False
      then have "length U - 1 = Suc e" using e by linarith
      then have "take (Suc e) U = butlast U" by (simp add: butlast_conv_take)
      then show ?thesis using sub bl
        by (metis multiset_filter_subset subset_mset.order_trans)
    next
      case True
      then have gt: "p < U ! Suc e" using assms(5) by (simp add: bracket_def)
      have "\<forall>x \<in> set (drop (Suc e) U). \<not> x \<le> p"
      proof
        fix x assume "x \<in> set (drop (Suc e) U)"
        then obtain i where "i < length (drop (Suc e) U)" "x = U ! (Suc e + i)"
          by (auto simp: in_set_conv_nth)
        then have "U ! Suc e \<le> x" using assms(2) by (auto intro!: sorted_nth_mono)
        then show "\<not> x \<le> p" using gt by auto
      qed
      then have "filter_mset (\<lambda>x. x \<le> p) (mset (drop (Suc e) U)) = {#}"
        by (simp add: filter_empty_conv flip: mset_filter)
      then have "filter_mset (\<lambda>x. x \<le> p) (mset U) = filter_mset (\<lambda>x. x \<le> p) (mset (take (Suc e) U))"
        by (metis append_take_drop_id filter_union_mset mset_append add.right_neutral)
      moreover have "filter_mset (\<lambda>x. x \<le> p) (mset (butlast es)) \<subseteq># filter_mset (\<lambda>x. x \<le> p) (mset U)"
        using bl assms(4) by (intro multiset_filter_mono)
          (metis append_butlast_last_id butlast.simps(1) mset_append mset_subset_eq_add_left
            subset_mset.order_trans)
      ultimately show ?thesis using sub
        by (metis multiset_filter_subset subset_mset.order_trans)
    qed
  qed
qed (use assms in auto)

end
