(* ===== verification/XsPtrs.thy ===== *)
theory XsPtrs
  imports XsLookup
begin

text \<open>
  The loop that sets the pointers of the unionized grid runs one \<open>scan_step\<close> per nuclide, and
  the index of each grid type brackets the energy in the nuclide's grid.
\<close>

section \<open>The pointers of the unionized grid\<close>

lemma fold_scan_bound: "Suc k < length es \<Longrightarrow> Suc (fold (scan_step es) xs k) < length es"
  by (induction xs arbitrary: k) (auto simp: scan_step_def)

abbreviation scan_at :: "'e::linorder nuclide_grid_point list list \<Rightarrow> 'e list \<Rightarrow> nat \<Rightarrow> nat \<Rightarrow> nat" where
  "scan_at grids U i e \<equiv> fold (scan_step (energies (grids ! i))) (take e U) 0"

definition ptrs_inv :: "'e::linorder nuclide_grid_point list list \<Rightarrow> 'e list \<Rightarrow> nat \<Rightarrow> nat \<Rightarrow> nat \<Rightarrow>
    'e ptr_state \<Rightarrow> bool" where
  "ptrs_inv grids U n_iso e m st = (case st of (idx_low, energy_high, G) \<Rightarrow>
     length idx_low = n_iso \<and> length energy_high = n_iso \<and> length G = length U \<and>
     (\<forall>j < length U. gp_energy (G ! j) = Some (U ! j) \<and> length (xs_ptrs (G ! j)) = n_iso) \<and>
     (\<forall>i < n_iso. idx_low ! i = scan_at grids U i (if i < m then Suc e else e) \<and>
        energy_high ! i = energies (grids ! i) ! Suc (idx_low ! i)) \<and>
     (\<forall>j < e. \<forall>i < n_iso. xs_ptrs (G ! j) ! i = Some (scan_at grids U i (Suc j))) \<and>
     (\<forall>i < m. xs_ptrs (G ! e) ! i = Some (scan_at grids U i (Suc e))))"

lemma set_grid_ptr_step:
  assumes inv: "ptrs_inv grids U n_iso e m st" and lt: "e < length U" "m < n_iso"
    and len: "length grids = n_iso" "\<forall>g \<in> set grids. length g = n" "2 \<le> n"
  shows "\<exists>st'. set_grid_ptr n grids e m st = Inr st' \<and> ptrs_inv grids U n_iso e (Suc m) st'"
proof -
  obtain idx_low energy_high G where st: "st = (idx_low, energy_high, G)" by (cases st)
  let ?es = "energies (grids ! m)" and ?k = "scan_at grids U m e"
  note I = inv [unfolded ptrs_inv_def st prod.case]
  have g: "length (grids ! m) = n" using lt len by simp
  have k: "idx_low ! m = ?k" "energy_high ! m = ?es ! Suc ?k" using I lt by auto
  have kn: "Suc ?k < n" using fold_scan_bound [of 0 ?es] g len(3) by simp
  have next_k: "scan_at grids U m (Suc e) = scan_step ?es (U ! e) ?k"
    using lt by (simp add: take_Suc_conv_app_nth)
  show ?thesis
  proof (cases "U ! e < ?es ! Suc ?k \<or> ?k + 2 = n")
    case True
    then have "scan_at grids U m (Suc e) = ?k" using g next_k by (simp add: scan_step_def)
    then show ?thesis using I lt True k st
      by (auto simp: set_grid_ptr_def ptrs_inv_def nth_list_update less_Suc_eq)
  next
    case False
    then have "scan_at grids U m (Suc e) = Suc ?k" using g next_k by (simp add: scan_step_def)
    then show ?thesis using I lt False k st kn g len
      by (auto simp: set_grid_ptr_def ptrs_inv_def nth_list_update less_Suc_eq)
  qed
qed

lemma set_grid_ptrs_scans:
  assumes len: "length grids = n_iso" "\<forall>g \<in> set grids. length g = n" "2 \<le> n"
    and G: "map gp_energy G = map Some U" "\<forall>p \<in> set G. length (xs_ptrs p) = n_iso"
    and U: "length U = n_iso * n"
  shows "\<exists>G'. set_grid_ptrs G grids n_iso n = Inr G' \<and> map gp_energy G' = map Some U \<and>
    (\<forall>e < length U. \<forall>i < n_iso. xs_ptr G' e i = Inr (scan_at grids U i (Suc e)))"
proof -
  define high where "high = map (\<lambda>i. energies (grids ! i) ! 1) [0..<n_iso]"
  have lenG: "length G = length U" using G by (metis length_map)
  have eG: "gp_energy (G ! j) = Some (U ! j)" if "j < length U" for j
    using G(1) lenG that by (metis nth_map)
  have h: "mapE (\<lambda>i. bindE (arr_get grids i) (\<lambda>g. bindE (arr_get g 1) (\<lambda>p. Inr (ng_energy p))))
      [0..<n_iso] = Inr high"
    unfolding high_def by (rule mapE_Inr) (use len in auto)
  have start: "ptrs_inv grids U n_iso 0 0 (replicate n_iso 0, high, G)"
    using lenG eG G(2) by (auto simp: ptrs_inv_def high_def)
  have "\<exists>st. foldE (\<lambda>e. foldE (set_grid_ptr n grids e) [0..<n_iso]) [0..<n_iso * n]
      (replicate n_iso 0, high, G) = Inr st \<and> ptrs_inv grids U n_iso (n_iso * n) 0 st"
  proof (rule foldE_upt_inv [where I = "\<lambda>e. ptrs_inv grids U n_iso e 0", OF start])
    fix e st assume e: "e < n_iso * n" and I: "ptrs_inv grids U n_iso e 0 st"
    have "\<exists>st'. foldE (set_grid_ptr n grids e) [0..<n_iso] st = Inr st' \<and>
        ptrs_inv grids U n_iso e n_iso st'"
      by (rule foldE_upt_inv [where I = "ptrs_inv grids U n_iso e", OF I]) (use set_grid_ptr_step [OF _ _ _ len] e U in auto)
    moreover have "ptrs_inv grids U n_iso (Suc e) 0 st'" if "ptrs_inv grids U n_iso e n_iso st'" for st'
      using that by (auto simp: ptrs_inv_def less_Suc_eq split: prod.splits)
    ultimately show "\<exists>st'. foldE (set_grid_ptr n grids e) [0..<n_iso] st = Inr st' \<and>
        ptrs_inv grids U n_iso (Suc e) 0 st'" by blast
  qed simp
  then obtain il eh G' where run: "foldE (\<lambda>e. foldE (set_grid_ptr n grids e) [0..<n_iso])
        [0..<n_iso * n] (replicate n_iso 0, high, G) = Inr (il, eh, G')"
      and I: "ptrs_inv grids U n_iso (n_iso * n) 0 (il, eh, G')" using prod_cases3 by metis
  have "set_grid_ptrs G grids n_iso n = Inr G'" using h run by (simp add: set_grid_ptrs_def)
  moreover have "map gp_energy G' = map Some U"
    using I U by (intro nth_equalityI) (auto simp: ptrs_inv_def)
  ultimately show ?thesis using I U by (auto simp: ptrs_inv_def xs_ptr_def)
qed

section \<open>Sorting\<close>

lemma qsort_energies:
  assumes "qsort_sorts qs"
  shows "mset (qs NGP_compare g) = mset g" "sorted (energies (qs NGP_compare g))"
    "length (qs NGP_compare g) = length g" "set (qs NGP_compare g) = set g"
proof -
  show m: "mset (qs NGP_compare g) = mset g" using assms by (simp add: qsort_sorts_def)
  show "length (qs NGP_compare g) = length g" using m by (metis size_mset)
  show "set (qs NGP_compare g) = set g" using m by (metis set_mset_mset)
  have "sorted_wrt (\<lambda>a b. NGP_compare a b \<le> 0) (qs NGP_compare g)"
    using assms by (simp add: qsort_sorts_def)
  then show "sorted (energies (qs NGP_compare g))"
    by (simp add: sorted_map) (rule sorted_wrt_mono_rel, auto simp: NGP_compare_def split: if_splits)
qed

section \<open>Lookups\<close>

text \<open>What every lookup has to compute for one nuclide, and for a material.\<close>

definition brackets_low :: "'e::linorder \<Rightarrow> 'e nuclide_grid_point list \<Rightarrow> nat result \<Rightarrow> bool" where
  "brackets_low p g low \<longleftrightarrow> (\<exists>k. low = Inr k \<and> bracket (energies g) p k)"

lemma low_nuclide_brackets:
  "length g = n \<Longrightarrow> 2 \<le> n \<Longrightarrow> brackets_low p g (low_nuclide p n g)"
  using grid_search_nuclide_brackets [of g n p] low_of_bracket [of "energies g" p _ n]
  by (auto simp: brackets_low_def low_nuclide_def)

lemma low_unionized_brackets:
  assumes "xs_ptr G idx nuc = Inr k" "bracket (energies g) p k" "length g = n"
  shows "brackets_low p g (low_unionized G idx nuc n)"
  using assms low_of_bracket [of "energies g" p k n] by (simp add: brackets_low_def low_unionized_def)

text \<open>
  The hash grid searches between the pointers of two bins. The energies \<open>b0\<close> and \<open>b1\<close>
  are the bounds of the bin.
\<close>

lemma low_hash_brackets:
  assumes len: "length g = n" "2 \<le> n" and sg: "sorted (energies g)"
    and lo: "xs_ptr G idx nuc = Inr k0" "bracket (energies g) b0 k0" "b0 \<le> p"
    and hi: "Suc idx \<noteq> bins \<Longrightarrow> xs_ptr G (Suc idx) nuc = Inr k1 \<and> bracket (energies g) b1 k1 \<and> p < b1"
    and ne: "\<forall>pt \<in> set g. ng_energy pt \<noteq> p"
  shows "brackets_low p g (low_hash p G idx nuc n bins g)"
proof -
  let ?es = "energies g"
  define u where "u = (if Suc idx = bins then n - 1 else Suc k1)"
  have u_ptr: "(if Suc idx = bins then Inr (n - 1) else bindE (xs_ptr G (idx + 1) nuc) (\<lambda>k. Inr (k + 1)))
      = Inr u" using hi by (simp add: u_def)
  have u: "u < n" and u_last: "?es ! u \<le> p \<Longrightarrow> u = n - 1"
    using hi len by (force simp: u_def bracket_def)+
  have k0: "Suc k0 < n" "k0 = 0 \<or> ?es ! k0 \<le> p" using lo(2,3) len by (auto simp: bracket_def)
  have nep: "?es ! i \<noteq> p" if "i < n" for i using ne that len by simp
  have mono: "i \<le> j \<Longrightarrow> j < n \<Longrightarrow> ?es ! i \<le> ?es ! j" for i j
    using sg len by (intro sorted_nth_mono) auto
  define lower where "lower = (if p \<le> ?es ! k0 then Inr 0 else if ?es ! u \<le> p then Inr (n - 1)
    else grid_search_nuclide n p g k0 u)"
  have eq: "low_hash p G idx nuc n bins g = bindE lower (low_of n)"
    using lo(1) u_ptr u k0 len unfolding low_hash_def lower_def by simp
  consider "p < ?es ! k0" | "?es ! k0 < p" "?es ! u \<le> p" | "?es ! k0 < p" "p < ?es ! u"
    using nep [of k0] k0 by force
  then show ?thesis
  proof cases
    case 1
    then have "k0 = 0" using k0 by auto
    then have "bracket ?es p 0" using 1 mono [of 0 "Suc 0"] len by (auto simp: bracket_def)
    moreover have "lower = Inr 0" unfolding lower_def using 1 by (metis less_imp_le)
    ultimately show ?thesis using low_of_bracket [of ?es p 0 n] len
      by (simp add: eq brackets_low_def)
  next
    case 2
    then have "u = n - 1" using u_last by simp
    moreover have "?es ! (n - 2) \<le> ?es ! (n - 1)" using len by (intro mono) auto
    ultimately have "?es ! (n - 2) \<le> p" using 2 by (metis order_trans)
    then have "bracket ?es p (n - 2)" using len by (simp only: bracket_def length_map) auto
    moreover have "low_of n (n - 1) = Inr (n - 2)" using len by (auto simp: low_of_def)
    moreover have "lower = Inr (n - 1)" unfolding lower_def using 2 by (metis not_less)
    ultimately show ?thesis by (simp add: eq brackets_low_def)
  next
    case 3
    have lt: "k0 < u" using 3 mono [of u k0] k0 by (meson leD le_less_trans less_trans not_less order_trans Suc_lessD)
    have "\<exists>k. search_loop (\<lambda>i. bindE (arr_get g i) (\<lambda>p. Inr (ng_energy p))) p k0 u = Inr k \<and>
        k0 \<le> k \<and> (k0 < u \<longrightarrow> k < u) \<and> (k = k0 \<or> ?es ! k \<le> p) \<and> (Suc k < u \<longrightarrow> p < ?es ! Suc k)"
      by (rule search_loop_returns) (use u len in auto)
    then obtain k where k: "grid_search_nuclide n p g k0 u = Inr k" "k < u" "?es ! k \<le> p"
        "Suc k < u \<longrightarrow> p < ?es ! Suc k"
      using lt 3 unfolding grid_search_nuclide_def by (metis less_imp_le)
    have "p < ?es ! Suc k" using k 3 by (metis Suc_lessI)
    then have "bracket ?es p k" using k u len by (simp add: bracket_def)
    moreover have "lower = Inr k" unfolding lower_def using 3 k(1) by (metis not_le)
    ultimately show ?thesis using low_of_bracket [of ?es p k n] len
      by (simp add: eq brackets_low_def)
  qed
qed

end
