(* ===== verification/XsMain.thy ===== *)
theory XsMain
  imports XsPtrs
begin

text \<open>
  The XSBench programs as a whole: the hard coded materials name only nuclides that exist, the
  macroscopic lookup computes the sums over the bracketing intervals, and the unionized grid and
  the hash grid agree with the search of every nuclide grid.
\<close>

section \<open>The materials\<close>

lemma material_shape:
  assumes "mat < 12"
  shows "length (load_mats (load_num_nucs n_iso) n_iso ! mat) = load_num_nucs n_iso ! mat"
proof -
  have "\<forall>mat \<in> set [0..<12].
      length (load_mats (load_num_nucs n_iso) n_iso ! mat) = load_num_nucs n_iso ! mat"
    by (simp add: load_mats_def load_num_nucs_def mats0_Sml_def mats0_Lrg_def mats5_def upt_rec [of _ "12"])
  then show ?thesis using assms by simp
qed

lemma mats_rows: "length (load_num_nucs n_iso) = 12"
    "length (load_mats (load_num_nucs n_iso) n_iso) = 12"
  by (simp_all add: load_num_nucs_def load_mats_def)

lemma material_nuclides:
  assumes "n_iso = 68 \<or> 355 \<le> n_iso" "mat < 12"
    "nuc \<in> set (load_mats (load_num_nucs n_iso) n_iso ! mat)"
  shows "nuc < n_iso"
proof -
  have "\<forall>ms \<in> set (load_mats (load_num_nucs n_iso) n_iso). \<forall>x \<in> set ms. x < n_iso"
    using assms(1)
    by (auto simp: load_mats_def load_num_nucs_def mats0_Sml_def mats0_Lrg_def mats5_def
        dest!: in_set_takeD)
  then show ?thesis using assms(2,3) mats_rows(2) [of n_iso] by (metis nth_mem)
qed

lemma load_concs_shape:
  "length (load_concs draw nn) = 12"
  "mat < 12 \<Longrightarrow> length (load_concs draw nn ! mat) = nn ! mat"
  by (simp_all add: load_concs_def)

section \<open>Micro and macro lookups\<close>

lemma calculate_micro_xs_bracket:
  assumes "nuc < length grids" "length (grids ! nuc) = n" "bracket (energies (grids ! nuc)) p k"
    "(if gt = NUCLIDE then low_nuclide p n (grids ! nuc)
      else if gt = UNIONIZED then low_unionized G idx nuc n
      else low_hash p G idx nuc n bins (grids ! nuc)) = Inr k"
  shows "calculate_micro_xs ops p nuc n G grids idx gt bins =
    Inr (interpolate ops p (grids ! nuc ! k) (grids ! nuc ! Suc k))"
  using assms by (simp add: calculate_micro_xs_def bracket_def)

text \<open>The cross sections a material must get, from the bracketing intervals.\<close>

lemma foldE_cong: "(\<And>x s. x \<in> set xs \<Longrightarrow> f x s = g x s) \<Longrightarrow> foldE f xs s = foldE g xs s"
proof (induction xs arbitrary: s)
  case (Cons x xs)
  then show ?case by (cases "g x s") simp_all
qed simp

definition macro_loop :: "'e::linorder fp_ops \<Rightarrow> 'e list \<Rightarrow> nat list \<Rightarrow> (nat \<Rightarrow> 'e list) \<Rightarrow> 'e list" where
  "macro_loop ops cs ms micro = fold (\<lambda>j v.
     map2 (\<lambda>m x. fp_add ops m (fp_mul ops x (cs ! j))) v (micro (ms ! j)))
     [0..<length ms] (replicate 5 (fp_of_long ops 0))"

definition reference_xs :: "'e::linorder fp_ops \<Rightarrow> (nat \<Rightarrow> 'e) \<Rightarrow> nat \<Rightarrow>
    'e nuclide_grid_point list list \<Rightarrow> 'e \<Rightarrow> nat \<Rightarrow> 'e list" where
  "reference_xs ops draw n_iso grids p mat =
    macro_loop ops (load_concs draw (load_num_nucs n_iso) ! mat)
      (load_mats (load_num_nucs n_iso) n_iso ! mat)
      (\<lambda>nuc. let k = THE k. bracket (energies (grids ! nuc)) p k
        in interpolate ops p (grids ! nuc ! k) (grids ! nuc ! Suc k))"

lemma calculate_macro_xs_loop:
  assumes mat: "mat < 12" "n_iso = 68 \<or> 355 \<le> n_iso" and len: "length grids = n_iso"
      "\<forall>g \<in> set grids. length g = n"
    and srt: "\<forall>g \<in> set grids. sorted (energies g)"
    and idx: "(if gt = UNIONIZED then grid_search (n_iso * n) p G
      else if gt = HASH then Inr (fp_trunc ops (fp_div ops p
        (fp_div ops (fp_of_long ops 1) (fp_of_long ops bins)))) else Inr 0) = Inr idx"
    and low: "\<And>nuc. nuc < n_iso \<Longrightarrow> brackets_low p (grids ! nuc)
      (if gt = NUCLIDE then low_nuclide p n (grids ! nuc)
       else if gt = UNIONIZED then low_unionized G idx nuc n
       else low_hash p G idx nuc n bins (grids ! nuc))"
  shows "calculate_macro_xs ops p mat n_iso n (load_num_nucs n_iso)
      (load_concs draw (load_num_nucs n_iso)) G grids (load_mats (load_num_nucs n_iso) n_iso) gt bins =
    Inr (reference_xs ops draw n_iso grids p mat)"
proof -
  let ?nn = "load_num_nucs n_iso"
  let ?ms = "load_mats ?nn n_iso ! mat" and ?cs = "load_concs draw ?nn ! mat"
  let ?micro = "\<lambda>nuc. let k = THE k. bracket (energies (grids ! nuc)) p k
        in interpolate ops p (grids ! nuc ! k) (grids ! nuc ! Suc k)"
  have micro: "calculate_micro_xs ops p nuc n G grids idx gt bins = Inr (?micro nuc)"
    if nuc: "nuc < n_iso" for nuc
  proof -
    obtain k where k: "(if gt = NUCLIDE then low_nuclide p n (grids ! nuc)
        else if gt = UNIONIZED then low_unionized G idx nuc n
        else low_hash p G idx nuc n bins (grids ! nuc)) = Inr k"
      and b: "bracket (energies (grids ! nuc)) p k"
      using low [OF nuc] unfolding brackets_low_def by blast
    have "(THE k. bracket (energies (grids ! nuc)) p k) = k"
      using b bracket_unique srt nuc len by (metis nth_mem the_equality)
    then show ?thesis using calculate_micro_xs_bracket [OF _ _ b k] nuc len
      by (simp add: Let_def)
  qed
  have ms: "length ?ms = ?nn ! mat" using material_shape mat by blast
  have nuc: "?ms ! j < n_iso" if "j < length ?ms" for j
    using material_nuclides [OF mat(2,1)] that by simp
  define step where "step j v = map2 (\<lambda>m x. fp_add ops m (fp_mul ops x (?cs ! j))) v
    (?micro (?ms ! j))" for j v
  have "calculate_macro_xs ops p mat n_iso n ?nn (load_concs draw ?nn) G grids
      (load_mats ?nn n_iso) gt bins =
    foldE (\<lambda>j v. Inr (step j v)) [0..<?nn ! mat] (replicate 5 (fp_of_long ops 0))"
    unfolding calculate_macro_xs_def idx using mat mats_rows [of n_iso] load_concs_shape [where draw = draw and nn = ?nn] ms nuc
    by (auto simp: micro step_def simp del: mapE.simps intro!: foldE_cong)
  also have "\<dots> = Inr (fold step [0..<?nn ! mat] (replicate 5 (fp_of_long ops 0)))"
    using foldE_Inr [of _ "\<lambda>_. True" "\<lambda>j v. Inr (step j v)" step] by simp
  finally show ?thesis unfolding reference_xs_def macro_loop_def ms step_def by (simp add: ms)
qed

section \<open>Agreement of the grid types\<close>

lemma grids_sorted:
  assumes "qsort_sorts qs" "length grids = n_iso" "\<forall>g \<in> set grids. length g = n"
  shows "length (sort_nuclide_grids qs grids) = n_iso"
    "\<forall>g \<in> set (sort_nuclide_grids qs grids). length g = n \<and> sorted (energies g)"
  using assms by (auto simp: sort_nuclide_grids_def qsort_energies)

lemma unionized_grid:
  assumes qs: "qsort_sorts qs" and len: "length grids = n_iso" "\<forall>g \<in> set grids. length g = n" "2 \<le> n"
  obtains U G G' where "generate_energy_grid qs True n_iso grids = Inr G"
    "set_grid_ptrs G grids n_iso n = Inr G'" "map gp_energy G' = map Some U"
    "length U = n_iso * n" "sorted U" "mset U = mset (energies (concat grids))"
    "\<And>e i. e < length U \<Longrightarrow> i < n_iso \<Longrightarrow> xs_ptr G' e i = Inr (scan_at grids U i (Suc e))"
proof -
  define S where "S = qs NGP_compare (concat grids)"
  define G where "G = map (\<lambda>p. \<lparr>gp_energy = Some (ng_energy p), xs_ptrs = replicate n_iso None\<rparr>) S"
  have cl: "length (concat grids) = n_iso * n" using len(1,2)
    by (induction grids arbitrary: n_iso) auto
  have U: "length (energies S) = n_iso * n" "sorted (energies S)"
    "mset (energies S) = mset (energies (concat grids))"
    using qsort_energies [OF qs, of "concat grids"] cl by (simp_all add: S_def)
  have "map gp_energy G = map Some (energies S)" "\<forall>p \<in> set G. length (xs_ptrs p) = n_iso"
    by (auto simp: G_def)
  then obtain G' where "set_grid_ptrs G grids n_iso n = Inr G'" "map gp_energy G' = map Some (energies S)"
      "\<forall>e < length (energies S). \<forall>i < n_iso. xs_ptr G' e i = Inr (scan_at grids (energies S) i (Suc e))"
    using set_grid_ptrs_scans [OF len _ _ U(1)] by blast
  moreover have "generate_energy_grid qs True n_iso grids = Inr G"
    by (simp add: generate_energy_grid_def Let_def G_def S_def)
  ultimately show ?thesis using that U by blast
qed

lemma nuclide_in_union:
  assumes "g \<in> set grids" shows "mset (energies g) \<subseteq># mset (energies (concat grids))"
proof -
  obtain as bs where "grids = as @ g # bs" using assms by (meson split_list)
  then show ?thesis by (simp add: mset_subset_eq_add_left)
qed

lemma grid_types: "UNIONIZED \<noteq> NUCLIDE" "NUCLIDE \<noteq> UNIONIZED" "NUCLIDE \<noteq> HASH"
    "HASH \<noteq> NUCLIDE" "HASH \<noteq> UNIONIZED" "UNIONIZED \<noteq> HASH"
  by (simp_all add: UNIONIZED_def NUCLIDE_def HASH_def)

lemma nuclide_lookup:
  assumes "qsort_sorts qs" "length grids = n_iso" "\<forall>g \<in> set grids. length g = n" "2 \<le> n"
    "n_iso = 68 \<or> 355 \<le> n_iso" "mat < 12"
  shows "calculate_macro_xs ops p mat n_iso n (load_num_nucs n_iso)
      (load_concs draw (load_num_nucs n_iso)) G (sort_nuclide_grids qs grids)
      (load_mats (load_num_nucs n_iso) n_iso) NUCLIDE bins =
    Inr (reference_xs ops draw n_iso (sort_nuclide_grids qs grids) p mat)"
proof -
  note SG = grids_sorted [OF assms(1-3)]
  have "brackets_low p (sort_nuclide_grids qs grids ! i) (low_nuclide p n (sort_nuclide_grids qs grids ! i))"
    if "i < n_iso" for i
    by (rule low_nuclide_brackets) (use SG that assms(4) in auto)
  then show ?thesis using SG
    by (intro calculate_macro_xs_loop [OF assms(6,5) SG(1), where idx = 0]) (simp_all add: grid_types)
qed

text \<open>
  C39. The unionized energy grid changes no result. For any arithmetic, any order in which
  \<^verbatim>\<open>qsort\<close> leaves points of equal energy, any of the twelve materials and any energy
  at or above the lowest grid point, building the unionized grid succeeds, and the macroscopic
  lookup through its pointers returns exactly what the lookup by a search of every nuclide grid
  returns; both stay inside their arrays.
\<close>

theorem xs_unionized_agrees:
  assumes "qsort_sorts qs" "length grids = n_iso" "\<forall>g \<in> set grids. length g = n" "2 \<le> n"
    "n_iso = 68 \<or> 355 \<le> n_iso" "mat < 12" "\<exists>g \<in> set grids. \<exists>pt \<in> set g. ng_energy pt \<le> p"
  shows "\<exists>G G' v. generate_energy_grid qs True n_iso (sort_nuclide_grids qs grids) = Inr G \<and>
    set_grid_ptrs G (sort_nuclide_grids qs grids) n_iso n = Inr G' \<and>
    calculate_macro_xs ops p mat n_iso n (load_num_nucs n_iso)
      (load_concs draw (load_num_nucs n_iso)) G' (sort_nuclide_grids qs grids)
      (load_mats (load_num_nucs n_iso) n_iso) UNIONIZED bins = Inr v \<and>
    calculate_macro_xs ops p mat n_iso n (load_num_nucs n_iso)
      (load_concs draw (load_num_nucs n_iso)) [] (sort_nuclide_grids qs grids)
      (load_mats (load_num_nucs n_iso) n_iso) NUCLIDE bins = Inr v"
proof -
  let ?SG = "sort_nuclide_grids qs grids"
  note SG = grids_sorted [OF assms(1-3)]
  obtain U G G' where G: "generate_energy_grid qs True n_iso ?SG = Inr G"
      "set_grid_ptrs G ?SG n_iso n = Inr G'" "map gp_energy G' = map Some U"
    and U: "length U = n_iso * n" "sorted U" "mset U = mset (energies (concat ?SG))"
    and ptr: "\<And>e i. e < length U \<Longrightarrow> i < n_iso \<Longrightarrow> xs_ptr G' e i = Inr (scan_at ?SG U i (Suc e))"
    using unionized_grid [OF assms(1) SG(1) _ assms(4)] SG(2) by metis
  have n2: "2 \<le> n_iso * n" using assms(4,5) by (cases n_iso) auto
  obtain e where e: "grid_search (n_iso * n) p G' = Inr e" "bracket U p e"
    using grid_search_brackets [OF G(3) U(1) n2] by blast
  have "set U = ng_energy ` set (concat ?SG)" using U(3) by (metis list.set_map set_mset_mset)
  also have "\<dots> = ng_energy ` \<Union> (set ` set grids)"
    by (simp add: sort_nuclide_grids_def qsort_energies(4) [OF assms(1)])
  finally have "\<exists>x \<in> set U. x \<le> p" using assms(7) by auto
  then have U0: "U ! 0 \<le> p" using U(2)
    by (metis in_set_conv_nth le0 order_trans sorted_nth_mono)
  have low_U: "brackets_low p (?SG ! nuc) (low_unionized G' e nuc n)" if nuc: "nuc < n_iso" for nuc
  proof (rule low_unionized_brackets)
    have g: "?SG ! nuc \<in> set ?SG" using nuc SG(1) by simp
    show "length (?SG ! nuc) = n" using g SG(2) by blast
    show "xs_ptr G' e nuc = Inr (scan_at ?SG U nuc (Suc e))"
      using ptr nuc e(2) by (simp add: bracket_def)
    show "bracket (energies (?SG ! nuc)) p (scan_at ?SG U nuc (Suc e))"
      using g SG(2) U(2) assms(4) e(2) U0 nuclide_in_union [OF g] U(3)
      by (intro union_scan_brackets) auto
  qed
  have "calculate_macro_xs ops p mat n_iso n (load_num_nucs n_iso)
      (load_concs draw (load_num_nucs n_iso)) G' ?SG
      (load_mats (load_num_nucs n_iso) n_iso) UNIONIZED bins = Inr (reference_xs ops draw n_iso ?SG p mat)"
    using SG e(1) low_U
    by (intro calculate_macro_xs_loop [OF assms(6,5) SG(1), where idx = e]) (simp_all add: grid_types)
  then show ?thesis using G(1,2) nuclide_lookup [OF assms(1-6)] by blast
qed

text \<open>A witness instance: hundredths as fixed point numbers, and a stable sort.\<close>

definition fixed_ops :: "int fp_ops" where
  "fixed_ops = \<lparr>fp_add = (+), fp_sub = (-), fp_mul = (\<lambda>a b. a * b div 100),
     fp_div = (\<lambda>a b. a * 100 div b), fp_of_long = (\<lambda>k. 100 * int k), fp_trunc = (\<lambda>a. nat (a div 100))\<rparr>"

definition sample_point :: "int \<Rightarrow> int nuclide_grid_point" where
  "sample_point e = \<lparr>ng_energy = e, total_xs = e * e, elastic_xs = 2, absorbtion_xs = 3,
     fission_xs = 4, nu_fission_xs = 5\<rparr>"

definition sample_grids :: "int nuclide_grid_point list list" where
  "sample_grids = replicate 68 [sample_point 60, sample_point 10]"

lemma sort_key_qsort: "qsort_sorts (\<lambda>_. sort_key ng_energy)"
  unfolding qsort_sorts_def
proof (intro allI conjI)
  fix xs :: "'a nuclide_grid_point list"
  have "sorted (map ng_energy (sort_key ng_energy xs))" by simp
  then show "sorted_wrt (\<lambda>a b. NGP_compare a b \<le> 0) (sort_key ng_energy xs)"
    unfolding sorted_map by (rule sorted_wrt_mono_rel [rotated]) (auto simp: NGP_compare_def)
qed simp

lemma xs_unionized_agrees_witness:
  "\<exists>G G' v. generate_energy_grid (\<lambda>_. sort_key ng_energy) True 68
      (sort_nuclide_grids (\<lambda>_. sort_key ng_energy) sample_grids) = Inr G \<and>
    set_grid_ptrs G (sort_nuclide_grids (\<lambda>_. sort_key ng_energy) sample_grids) 68 2 = Inr G' \<and>
    calculate_macro_xs fixed_ops 30 3 68 2 (load_num_nucs 68) (load_concs int (load_num_nucs 68)) G'
      (sort_nuclide_grids (\<lambda>_. sort_key ng_energy) sample_grids)
      (load_mats (load_num_nucs 68) 68) UNIONIZED 4 = Inr v \<and>
    calculate_macro_xs fixed_ops 30 3 68 2 (load_num_nucs 68) (load_concs int (load_num_nucs 68)) []
      (sort_nuclide_grids (\<lambda>_. sort_key ng_energy) sample_grids)
      (load_mats (load_num_nucs 68) 68) NUCLIDE 4 = Inr v"
  by (rule xs_unionized_agrees [OF sort_key_qsort])
    (auto simp: sample_grids_def sample_point_def)

section \<open>The hash grid\<close>

lemma generate_hash_table_brackets:
  fixes grids :: "'e::linorder nuclide_grid_point list list" and ops :: "'e fp_ops"
  assumes len: "length grids = n_iso" "\<forall>g \<in> set grids. length g = n" "2 \<le> n"
    and du: "du = fp_div ops (fp_of_long ops 1) (fp_of_long ops bins)"
  shows "\<exists>G. generate_hash_table ops grids n_iso n bins = Inr G \<and>
    (\<forall>e < bins. \<forall>i < n_iso. \<exists>k. xs_ptr G e i = Inr k \<and>
      bracket (energies (grids ! i)) (fp_mul ops (fp_of_long ops e) du) k)"
proof -
  let ?b = "\<lambda>e. fp_mul ops (fp_of_long ops e) du"
  define K where "K e i = projr (grid_search_nuclide n (?b e) (grids ! i) 0 (n - 1))" for e i
  have K: "grid_search_nuclide n (?b e) (grids ! i) 0 (n - 1) = Inr (K e i)"
    "bracket (energies (grids ! i)) (?b e) (K e i)" if "i < n_iso" for e i
    using grid_search_nuclide_brackets [of "grids ! i" n "?b e"] that len by (auto simp: K_def)
  have row: "mapE (\<lambda>i. bindE (arr_get grids i) (\<lambda>g.
      grid_search_nuclide n (?b e) g 0 (n - 1))) [0..<n_iso] = Inr (map (K e) [0..<n_iso])" for e
    by (rule mapE_Inr) (use len K in auto)
  define G :: "'e grid_point list" where "G = map (\<lambda>e. \<lparr>gp_energy = None, xs_ptrs = map Some (map (K e) [0..<n_iso])\<rparr>) [0..<bins]"
  have "generate_hash_table ops grids n_iso n bins = Inr G"
    unfolding generate_hash_table_def Let_def du [symmetric] G_def
    by (rule mapE_Inr) (simp add: row del: One_nat_def)
  moreover have "xs_ptr G e i = Inr (K e i)" if "e < bins" "i < n_iso" for e i
    using that by (simp add: xs_ptr_def G_def)
  ultimately show ?thesis using K(2) by blast
qed

text \<open>
  C40. The hash grid changes no result either, for an energy that is no grid point itself and
  that the rounded arithmetic puts into the bin it lies in: the macroscopic lookup between the
  pointers of two neighbouring bins returns exactly what the search of whole nuclide grids returns.
\<close>

theorem xs_hash_agrees:
  assumes "qsort_sorts qs" "length grids = n_iso" "\<forall>g \<in> set grids. length g = n" "2 \<le> n"
    "n_iso = 68 \<or> 355 \<le> n_iso" "mat < 12"
    and du: "du = fp_div ops (fp_of_long ops 1) (fp_of_long ops bins)"
    and idx: "idx = fp_trunc ops (fp_div ops p du)" "idx < bins"
    and bin: "fp_mul ops (fp_of_long ops idx) du \<le> p"
      "Suc idx < bins \<longrightarrow> p < fp_mul ops (fp_of_long ops (Suc idx)) du"
    and ne: "\<forall>g \<in> set grids. \<forall>pt \<in> set g. ng_energy pt \<noteq> p"
  shows "\<exists>G v. generate_hash_table ops (sort_nuclide_grids qs grids) n_iso n bins = Inr G \<and>
    calculate_macro_xs ops p mat n_iso n (load_num_nucs n_iso)
      (load_concs draw (load_num_nucs n_iso)) G (sort_nuclide_grids qs grids)
      (load_mats (load_num_nucs n_iso) n_iso) HASH bins = Inr v \<and>
    calculate_macro_xs ops p mat n_iso n (load_num_nucs n_iso)
      (load_concs draw (load_num_nucs n_iso)) [] (sort_nuclide_grids qs grids)
      (load_mats (load_num_nucs n_iso) n_iso) NUCLIDE bins = Inr v"
proof -
  let ?SG = "sort_nuclide_grids qs grids"
  note SG = grids_sorted [OF assms(1-3)]
  obtain G where G: "generate_hash_table ops ?SG n_iso n bins = Inr G"
    and ptr: "\<And>e i. e < bins \<Longrightarrow> i < n_iso \<Longrightarrow> \<exists>k. xs_ptr G e i = Inr k \<and>
      bracket (energies (?SG ! i)) (fp_mul ops (fp_of_long ops e) du) k"
    using generate_hash_table_brackets [OF SG(1) _ assms(4) du] SG(2) by blast
  have low_H: "brackets_low p (?SG ! nuc) (low_hash p G idx nuc n bins (?SG ! nuc))"
    if nuc: "nuc < n_iso" for nuc
  proof -
    have g: "?SG ! nuc \<in> set ?SG" using nuc SG(1) by simp
    obtain k0 where k0: "xs_ptr G idx nuc = Inr k0"
        "bracket (energies (?SG ! nuc)) (fp_mul ops (fp_of_long ops idx) du) k0"
      using ptr [OF idx(2) nuc] by blast
    obtain k1 where k1: "Suc idx \<noteq> bins \<Longrightarrow> xs_ptr G (Suc idx) nuc = Inr k1 \<and>
        bracket (energies (?SG ! nuc)) (fp_mul ops (fp_of_long ops (Suc idx)) du) k1 \<and>
        p < fp_mul ops (fp_of_long ops (Suc idx)) du"
      using ptr [OF _ nuc, of "Suc idx"] idx(2) bin(2) by (metis Suc_lessI)
    have "\<forall>pt \<in> set (?SG ! nuc). ng_energy pt \<noteq> p"
    proof -
      obtain g' where "g' \<in> set grids" "?SG ! nuc = qs NGP_compare g'"
        using g by (auto simp: sort_nuclide_grids_def)
      then show ?thesis using ne by (simp add: qsort_energies(4) [OF assms(1)])
    qed
    then show ?thesis using low_hash_brackets [OF _ assms(4) _ k0 bin(1) k1] g SG(2) by blast
  qed
  have "calculate_macro_xs ops p mat n_iso n (load_num_nucs n_iso)
      (load_concs draw (load_num_nucs n_iso)) G ?SG
      (load_mats (load_num_nucs n_iso) n_iso) HASH bins = Inr (reference_xs ops draw n_iso ?SG p mat)"
    using SG idx(1) du low_H
    by (intro calculate_macro_xs_loop [OF assms(6,5) SG(1), where idx = idx]) (simp_all add: grid_types)
  then show ?thesis using G nuclide_lookup [OF assms(1-6)] by blast
qed

lemma xs_hash_agrees_witness:
  "\<exists>G v. generate_hash_table fixed_ops
      (sort_nuclide_grids (\<lambda>_. sort_key ng_energy) sample_grids) 68 2 4 = Inr G \<and>
    calculate_macro_xs fixed_ops 30 3 68 2 (load_num_nucs 68) (load_concs int (load_num_nucs 68)) G
      (sort_nuclide_grids (\<lambda>_. sort_key ng_energy) sample_grids)
      (load_mats (load_num_nucs 68) 68) HASH 4 = Inr v \<and>
    calculate_macro_xs fixed_ops 30 3 68 2 (load_num_nucs 68) (load_concs int (load_num_nucs 68)) []
      (sort_nuclide_grids (\<lambda>_. sort_key ng_energy) sample_grids)
      (load_mats (load_num_nucs 68) 68) NUCLIDE 4 = Inr v"
  by (rule xs_hash_agrees [OF sort_key_qsort _ _ _ _ _ refl refl])
    (auto simp: sample_grids_def sample_point_def fixed_ops_def)

text \<open>
  The excluded case is a fault: at an energy that is both a grid point and the start of a bin,
  the lookup takes the first interval of the grid and extrapolates.
\<close>

lemma hash_misses_bin_start:
  fixes g defines "g \<equiv> map sample_point [5, 10, 25, 60]"
  shows "bindE (generate_hash_table fixed_ops [g] 1 4 4) (\<lambda>G. low_hash 25 G 1 0 4 4 g) = Inr 0"
    "low_nuclide 25 4 g = Inr 2"
    "bindE (generate_hash_table fixed_ops [g] 1 4 4) (\<lambda>G.
       calculate_micro_xs fixed_ops 25 0 4 G [g] 1 HASH 4) = Inr [325, 2, 3, 4, 5]"
    "calculate_micro_xs fixed_ops 25 0 4 [] [g] 0 NUCLIDE 4 = Inr [625, 2, 3, 4, 5]"
  unfolding g_def by code_simp+

end
