(* ===== verification/Ptdump.thy ===== *)
theory Ptdump
  imports Prelude
begin

text \<open>
  The page table dump of the launcher \<^verbatim>\<open>common/main-ptdump.c\<close> with the interface of its
  kernel module, \<^verbatim>\<open>common/ptdump.h\<close>: the packing of command words, the CRC-32 checksum, and
  the report written from a dump. What the module answers is an argument of the model.
\<close>

section \<open>Command words\<close>

definition PTDUMP_IOCTL_MKCMD :: "u32 \<Rightarrow> u32 \<Rightarrow> u32 \<Rightarrow> u32" where
  "PTDUMP_IOCTL_MKCMD cmd ptstart ptend =
     (cmd AND 0xff) OR push_bit 8 (ptstart AND 0x1ff) OR push_bit 17 (ptend AND 0x1ff)"

definition PTDUMP_IOCTL_EXCMD :: "u32 \<Rightarrow> u32" where
  "PTDUMP_IOCTL_EXCMD x = x AND 0xff"

definition PTDUMP_IOCTL_EXPTSTART :: "u32 \<Rightarrow> u32" where
  "PTDUMP_IOCTL_EXPTSTART x = drop_bit 8 x AND 0x1ff"

definition PTDUMP_IOCTL_EXPTEND :: "u32 \<Rightarrow> u32" where
  "PTDUMP_IOCTL_EXPTEND x = drop_bit 17 x AND 0x1ff"

definition PTDUMP_IOCTL_MKARGBUF :: "u64 \<Rightarrow> u64 \<Rightarrow> u64" where
  "PTDUMP_IOCTL_MKARGBUF buf bits = (buf AND 0xffffffffffff) OR push_bit 48 (bits AND 0xff)"

definition PTDUMP_IOCTL_EXBUF :: "u64 \<Rightarrow> u64" where
  "PTDUMP_IOCTL_EXBUF arg = arg AND 0xffffffffffff"

definition PTDUMP_IOCTL_EXBITS :: "u64 \<Rightarrow> u64" where
  "PTDUMP_IOCTL_EXBITS arg = drop_bit 48 arg AND 0xff"

definition PTDUMP_TABLE_EXLEVEL :: "u64 \<Rightarrow> u32" where
  "PTDUMP_TABLE_EXLEVEL base = ucast (drop_bit 48 base)"

definition PTDUMP_TABLE_EXBASE :: "u64 \<Rightarrow> u64" where
  "PTDUMP_TABLE_EXBASE base = base AND 0xffffffffffff"

definition PTDUMP_TABLE_MKBASE :: "u64 \<Rightarrow> u64 \<Rightarrow> u64" where
  "PTDUMP_TABLE_MKBASE base level = push_bit 48 (level AND 0xff) OR (base AND 0xffffffffffff)"

lemma masks: "(0xff :: 'a::len word) = mask 8" "(0x1ff :: 'a word) = mask 9" "(0xffffffffffff :: 'a word) = mask 48"
  by (simp_all add: mask_eq_exp_minus_1)

lemmas bitwise = bit_and_iff bit_or_iff bit_xor_iff bit_push_bit_iff bit_drop_bit_eq bit_mask_iff bit_take_bit_iff
  bit_unsigned_iff bit_not_iff

section \<open>CRC-32\<close>

definition crc32_step :: "u32 \<Rightarrow> u32" where
  "crc32_step r = (if r AND 1 \<noteq> 0 then 0 else 0xEDB88320) XOR drop_bit 1 r"

definition crc32_for_byte :: "u32 \<Rightarrow> u32" where
  "crc32_for_byte r = (crc32_step ^^ 8) r XOR 0xFF000000"

definition crc32_byte :: "u32 list \<Rightarrow> u8 \<Rightarrow> u32 \<Rightarrow> u32" where
  "crc32_byte table b crc = table ! unat (ucast crc XOR b :: u8) XOR drop_bit 8 crc"

text \<open>The table is a static array that the first call fills; it is part of the state.\<close>

definition crc32 :: "u8 list \<Rightarrow> u32 list \<times> u32 \<Rightarrow> u32 list \<times> u32" where
  "crc32 data = (\<lambda>(table, crc).
     let table = (if table ! 0 = 0 then map (\<lambda>i. crc32_for_byte (of_nat i)) [0..<256] else table) in
     (table, fold (crc32_byte table) data crc))"

text \<open>The checksum by polynomial division, one bit at a time.\<close>

definition crc_bit :: "u32 \<Rightarrow> u32" where
  "crc_bit s = (if s AND 1 \<noteq> 0 then 0xEDB88320 else 0) XOR drop_bit 1 s"

definition crc_byte :: "u8 \<Rightarrow> u32 \<Rightarrow> u32" where
  "crc_byte b s = (crc_bit ^^ 8) (s XOR ucast b)"

lemma and_1_odd: "(r AND 1 \<noteq> 0) = odd (r :: u32)"
  by (simp add: and_one_eq odd_iff_mod_2_eq_one)

lemma crc_bit_xor: "crc_bit (x XOR y) = crc_bit x XOR crc_bit y"
proof -
  have "odd (x XOR y) = (odd x \<noteq> odd y)" by (simp add: even_xor_iff)
  then show ?thesis unfolding crc_bit_def and_1_odd
    by (cases "odd x"; cases "odd y") (simp_all add: drop_bit_xor ac_simps)
qed

lemma crc_bits_xor: "(crc_bit ^^ n) (x XOR y) = (crc_bit ^^ n) x XOR (crc_bit ^^ n) y"
  by (induction n) (simp_all add: crc_bit_xor)

lemma crc_bits_high: "take_bit n x = 0 \<Longrightarrow> (crc_bit ^^ n) x = drop_bit n x"
proof (induction n arbitrary: x)
  case (Suc n)
  have ev: "even x" using Suc.prems by (metis even_take_bit_eq even_zero nat.distinct(1))
  then have "crc_bit x = drop_bit 1 x" by (simp add: crc_bit_def and_1_odd)
  moreover have "take_bit n (drop_bit 1 x) = 0"
  proof -
    have "take_bit n (drop_bit 1 x) = drop_bit 1 (take_bit (Suc n) x)" by (simp add: take_bit_drop_bit)
    then show ?thesis using Suc.prems by simp
  qed
  ultimately show ?case using Suc.IH [of "drop_bit 1 x"] by (simp add: funpow_Suc_right del: funpow.simps)
qed simp

lemma crc32_step_mask: "k < 32 \<Longrightarrow> crc32_step (s XOR mask (Suc k)) = crc_bit s XOR mask k"
proof -
  assume k: "k < 32"
  have "odd (s XOR mask (Suc k)) = (\<not> odd s)" by (simp add: even_xor_iff even_mask_iff)
  moreover have "drop_bit 1 (s XOR mask (Suc k)) = drop_bit 1 s XOR mask k"
    by (rule bit_word_eqI) (use k in \<open>auto simp: bitwise\<close>)
  ultimately show ?thesis unfolding crc32_step_def crc_bit_def and_1_odd by (cases "odd s") (simp_all add: ac_simps)
qed

lemma crc32_steps_mask: "k \<le> 32 \<Longrightarrow> (crc32_step ^^ k) (s XOR mask k) = (crc_bit ^^ k) s"
proof (induction k arbitrary: s)
  case (Suc k)
  then show ?case by (simp add: funpow_Suc_right crc32_step_mask del: funpow.simps mask_Suc_exp)
qed simp

lemma crc32_for_byte_eq: "crc32_for_byte r = (crc_bit ^^ 8) (r XOR 0xFF) XOR 0xFF000000"
  using crc32_steps_mask [of 8 "r XOR 0xFF"] by (simp add: crc32_for_byte_def masks(1) [symmetric] xor.assoc)

lemma crc_byte_split:
  "crc_byte b s = (crc_bit ^^ 8) (ucast (ucast s XOR b :: u8)) XOR drop_bit 8 s"
proof -
  let ?lo = "ucast (ucast s XOR b :: u8) :: u32" and ?hi = "push_bit 8 (drop_bit 8 s) :: u32"
  have "s XOR ucast b = ?lo XOR ?hi" by (rule bit_word_eqI) (auto simp: bitwise dest: bit_imp_le_length)
  moreover have "(crc_bit ^^ 8) ?hi = drop_bit 8 ?hi" by (rule crc_bits_high) (rule bit_word_eqI, auto simp: bitwise)
  moreover have "drop_bit 8 ?hi = drop_bit 8 s" by (rule bit_word_eqI) (auto simp: bitwise dest: bit_imp_le_length)
  ultimately show ?thesis by (simp add: crc_byte_def crc_bits_xor)
qed

lemma not_drop_8: "drop_bit 8 (NOT c) = NOT (drop_bit 8 c) XOR (0xFF000000 :: u32)"
proof -
  have m: "(0xFF000000 :: u32) = push_bit 24 (mask 8)" by (simp add: mask_eq_exp_minus_1)
  show ?thesis unfolding m by (rule bit_word_eqI) (auto simp: bitwise dest: bit_imp_le_length)
qed

abbreviation crc32_table :: "u32 list" where
  "crc32_table \<equiv> map (\<lambda>i. crc32_for_byte (of_nat i)) [0..<256]"

lemma crc32_table_nth: "crc32_table ! unat (x :: u8) = crc32_for_byte (ucast x)"
proof -
  have "unat x < 256" using unsigned_less [of x] by simp
  then show ?thesis by (simp add: of_nat_unat)
qed

lemma crc32_byte_eq: "NOT (crc32_byte crc32_table b c) = crc_byte b (NOT c)"
proof -
  have x: "ucast (ucast (NOT c) XOR b :: u8) = (ucast (ucast c XOR b :: u8) :: u32) XOR 0xFF"
    unfolding masks by (rule bit_word_eqI) (auto simp: bitwise)
  have n: "NOT ((p XOR f) XOR d) = p XOR (NOT d XOR f)" for p f d :: u32 by (rule bit_word_eqI) (auto simp: bitwise)
  show ?thesis unfolding crc_byte_split x crc32_byte_def crc32_table_nth unfolding crc32_for_byte_eq not_drop_8 by (rule n)
qed

lemma crc32_table_0: "crc32_table ! 0 \<noteq> 0"
proof -
  have "crc32_table ! 0 = crc32_for_byte 0" by simp
  also have "\<dots> = 0xD202EF8D"
    by (simp add: crc32_for_byte_def numeral_eq_Suc crc32_step_def del: of_nat_Suc) code_simp
  finally show ?thesis by simp
qed

section \<open>The report\<close>

record ptdump_table =
  pt_base :: u64
  pt_vbase :: u64
  pt_entries :: "u64 list"

record ptdump =
  pd_processid :: u32
  pd_num_tables :: nat
  pd_num_migrations :: nat
  pd_table :: "ptdump_table list"

record ptranges =
  pr_processid :: u32
  pml4_base :: u64
  pml4_limit :: u64
  pt_base' :: u64
  pt_limit :: u64
  code_base :: u64
  code_limit :: u64
  data_base :: u64
  data_limit :: u64
  kernel_base :: u64
  kernel_limit :: u64

record ptcrc32 =
  pc_processid :: u32
  pc_pml4 :: u32
  pc_pdpt :: u32
  pc_pdir :: u32
  pc_pt :: u32
  pc_data :: u32
  pc_table :: u32

definition PTABLE_BASE_MASK :: "u64 \<Rightarrow> u64" where
  "PTABLE_BASE_MASK x = x AND 0xfffffffff000"

text \<open>\<^verbatim>\<open>%0wlx\<close>: hexadecimal digits, padded with zeros to the width \<open>w\<close>.\<close>

definition hex_digit :: "nat \<Rightarrow> char" where
  "hex_digit d = ''0123456789abcdef'' ! d"

fun hex :: "nat \<Rightarrow> string" where
  "hex n = (if n < 16 then [hex_digit n] else hex (n div 16) @ [hex_digit (n mod 16)])"

declare hex.simps [simp del]

definition pad_hex :: "nat \<Rightarrow> 'a::len word \<Rightarrow> string" where
  "pad_hex w x = (let ds = hex (unat x) in replicate (w - length ds) (CHR ''0'') @ ds)"

text \<open>
  The loops over the tables of one level: the entries that are present (bit 0) and, for the
  2M frames, huge (bit 7), with the no-execute bit 63 as asked for.
\<close>

definition entry_selected :: "bool \<Rightarrow> bool \<Rightarrow> u64 \<Rightarrow> bool" where
  "entry_selected huge nx e \<longleftrightarrow> e AND 0x1 \<noteq> 0 \<and> (huge \<longrightarrow> e AND push_bit 7 1 \<noteq> 0) \<and> (e AND push_bit 63 1 \<noteq> 0) = nx"

definition dump_entry :: "nat \<Rightarrow> nat \<Rightarrow> bool \<Rightarrow> bool \<Rightarrow> ptdump_table \<Rightarrow> nat \<Rightarrow> string \<Rightarrow> string result" where
  "dump_entry w sh huge nx t j out =
     bindE (arr_get (pt_entries t) j) (\<lambda>e.
     Inr (if entry_selected huge nx e then out @ pad_hex w (drop_bit sh (PTABLE_BASE_MASK e)) @ '' '' else out))"

definition dump_table :: "nat \<Rightarrow> nat \<Rightarrow> u32 \<Rightarrow> bool \<Rightarrow> bool \<Rightarrow> ptdump \<Rightarrow> nat \<Rightarrow> string \<Rightarrow> string result" where
  "dump_table w sh level huge nx d i out =
     bindE (arr_get (pd_table d) i) (\<lambda>t.
     if PTDUMP_TABLE_EXLEVEL (pt_base t) \<noteq> level then Inr out
     else foldE (dump_entry w sh huge nx t) [0..<512] out)"

definition dump_frames :: "nat \<Rightarrow> nat \<Rightarrow> u32 \<Rightarrow> bool \<Rightarrow> bool \<Rightarrow> ptdump \<Rightarrow> string \<Rightarrow> string result" where
  "dump_frames w sh level huge nx d out = foldE (dump_table w sh level huge nx d) [0..<pd_num_tables d] out"

definition dump_bases :: "ptdump \<Rightarrow> string \<Rightarrow> string result" where
  "dump_bases d out = foldE (\<lambda>i out.
     bindE (arr_get (pd_table d) i) (\<lambda>t.
     Inr (out @ pad_hex 9 (drop_bit 12 (PTABLE_BASE_MASK (pt_base t))) @ '' ''))) [0..<pd_num_tables d] out"

definition newline :: string where
  "newline = [CHR 0x0A]"

definition dump_full :: "ptdump \<Rightarrow> string \<Rightarrow> string result" where
  "dump_full d out =
     bindE (dump_bases d (out @ ''<ptables>'')) (\<lambda>out.
     bindE (dump_frames 9 12 1 False False d (out @ ''</ptables>'' @ newline @ ''<codeframes4k>'')) (\<lambda>out.
     bindE (dump_frames 9 12 1 False True d (out @ ''</codeframes4k>'' @ newline @ ''<dataframes4k>'')) (\<lambda>out.
     bindE (dump_frames 7 21 2 True False d (out @ ''</dataframes4k>'' @ newline @ ''<codeframes2M>'')) (\<lambda>out.
     bindE (dump_frames 7 21 2 True True d (out @ ''</codeframes2M>'' @ newline @ ''<dataframes2M>'')) (\<lambda>out.
     Inr (out @ ''</dataframes2M>'' @ newline))))))"

definition range_line :: "string \<Rightarrow> u64 \<Rightarrow> u64 \<Rightarrow> string" where
  "range_line tag lo hi = ''<'' @ tag @ ''>0x'' @ pad_hex 12 lo @ ''..0x'' @ pad_hex 12 hi @ ''</'' @ tag @ ''>'' @ newline"

definition dump_ranges :: "int \<times> ptranges \<Rightarrow> string" where
  "dump_ranges = (\<lambda>(res, r).
     if res = 0 then
       ''<ptranges>'' @ newline @ range_line ''l4'' (pml4_base r) (pml4_limit r) @
       range_line ''table'' (pt_base' r) (pt_limit r) @ range_line ''data'' (data_base r) (data_limit r) @
       range_line ''code'' (code_base r) (code_limit r) @ range_line ''kernel'' (kernel_base r) (kernel_limit r) @
       ''</ptranges>'' @ newline
     else ''<ptranges>INVALID</ptranges>'' @ newline)"

definition dump_crcs :: "int \<times> ptcrc32 \<Rightarrow> string" where
  "dump_crcs = (\<lambda>(res, c).
     if res = 0 then
       ''<crc><l4>0x'' @ pad_hex 8 (pc_pml4 c) @ ''</l4><l3>0x'' @ pad_hex 8 (pc_pdpt c) @ ''</l3><l2>0x'' @
       pad_hex 8 (pc_pdir c) @ ''</l2><l1>0x'' @ pad_hex 8 (pc_pt c) @ ''</l1><d>0x'' @ pad_hex 8 (pc_data c) @
       ''</d></crc>'' @ newline
     else ''<crc>INVALID</crc>'' @ newline)"

text \<open>
  \<^verbatim>\<open>do res = ioctl(...) while (res != 0)\<close> on the answers of the kernel module: the buffer
  after the first answer 0, or no result when none comes.
\<close>

fun await_dump :: "(int \<times> ptdump) list \<Rightarrow> ptdump result" where
  "await_dump [] = Inl Out_of_fuel"
| "await_dump ((res, d) # answers) = (if res \<noteq> 0 then await_dump answers else Inr d)"

definition dump_page_tables ::
  "bool \<Rightarrow> bool \<Rightarrow> (int \<times> ptdump) list \<Rightarrow> int \<times> ptranges \<Rightarrow> int \<times> ptcrc32 \<Rightarrow> string result" where
  "dump_page_tables opt_dump_pt_full opt_dump_pt_crc answers ranges crcs =
     (let out = ''<pagetables>'' @ newline in
      bindE
        (if opt_dump_pt_full then bindE (await_dump answers) (\<lambda>d. dump_full d out)
         else if opt_dump_pt_crc then Inr (out @ dump_ranges ranges @ dump_crcs crcs)
         else Inr (out @ ''Page table dumping disabled.'' @ newline)) (\<lambda>out.
      Inr (out @ ''</pagetables>'' @ newline)))"

section \<open>Reading the report\<close>

definition hex_val :: "char \<Rightarrow> nat" where
  "hex_val c = (if c \<in> set ''abcdef'' then of_char c - 87 else of_char c - 48)"

fun read_words :: "nat \<Rightarrow> string \<Rightarrow> nat list" where
  "read_words acc [] = []"
| "read_words acc (c # cs) = (if c = CHR '' '' then acc # read_words 0 cs else read_words (16 * acc + hex_val c) cs)"

definition hex_words :: "nat \<Rightarrow> 'a::len word list \<Rightarrow> string" where
  "hex_words w fs = concat (map (\<lambda>f. pad_hex w f @ '' '') fs)"

lemma hex_digit_all: "list_all (\<lambda>d. hex_val (hex_digit d) = d \<and> hex_digit d \<noteq> CHR '' '') [0..<16]"
  by (simp add: upt_rec hex_val_def hex_digit_def)

lemma hex_digit_val: "d < 16 \<Longrightarrow> hex_val (hex_digit d) = d \<and> hex_digit d \<noteq> CHR '' ''"
  using hex_digit_all by (simp add: list_all_iff)

lemma hex_chars: "CHR '' '' \<notin> set (hex n)"
proof (induction n rule: hex.induct)
  case (1 n)
  then show ?case using hex_digit_val [of n] hex_digit_val [of "n mod 16"] by (subst hex.simps) auto
qed

lemma fold_hex: "fold (\<lambda>c v. 16 * v + hex_val c) (hex n) 0 = n"
proof (induction n rule: hex.induct)
  case (1 n)
  show ?case
  proof (cases "n < 16")
    case True
    then show ?thesis using hex_digit_val [of n] by (subst hex.simps) simp
  next
    case False
    then show ?thesis using 1 hex_digit_val [of "n mod 16"] by (subst hex.simps) simp
  qed
qed

lemma read_word: "CHR '' '' \<notin> set ds \<Longrightarrow>
    read_words a (ds @ CHR '' '' # rest) = fold (\<lambda>c v. 16 * v + hex_val c) ds a # read_words 0 rest"
  by (induction ds arbitrary: a) auto

lemma fold_zeros: "fold (\<lambda>c v. 16 * v + hex_val c) (replicate k (CHR ''0'')) 0 = 0"
  by (induction k) (simp_all add: hex_val_def)

lemma read_hex_words: "read_words 0 (hex_words w fs) = map unat fs"
proof (induction fs)
  case (Cons f fs)
  let ?z = "replicate (w - length (hex (unat f))) (CHR ''0'')"
  have "hex_words w (f # fs) = (?z @ hex (unat f)) @ CHR '' '' # hex_words w fs" by (simp add: hex_words_def pad_hex_def Let_def)
  moreover have "CHR '' '' \<notin> set (?z @ hex (unat f))" using hex_chars by simp
  moreover have "fold (\<lambda>c v. 16 * v + hex_val c) (?z @ hex (unat f)) 0 = unat f"
    using fold_zeros [of "w - length (hex (unat f))"] fold_hex [of "unat f"] by (simp only: fold_append comp_apply)
  ultimately show ?case using Cons read_word [of "?z @ hex (unat f)"] by simp
qed (simp add: hex_words_def)

definition dump_ok :: "ptdump \<Rightarrow> bool" where
  "dump_ok d \<longleftrightarrow> pd_num_tables d \<le> length (pd_table d) \<and> (\<forall>t \<in> set (pd_table d). length (pt_entries t) = 512)"

definition level_entries :: "u32 \<Rightarrow> ptdump \<Rightarrow> u64 list" where
  "level_entries level d = concat (map pt_entries
     (filter (\<lambda>t. PTDUMP_TABLE_EXLEVEL (pt_base t) = level) (take (pd_num_tables d) (pd_table d))))"

definition frames :: "nat \<Rightarrow> u32 \<Rightarrow> bool \<Rightarrow> bool \<Rightarrow> ptdump \<Rightarrow> u64 list" where
  "frames sh level huge nx d =
     map (\<lambda>e. drop_bit sh (PTABLE_BASE_MASK e)) (filter (entry_selected huge nx) (level_entries level d))"

lemma foldE_emit:
  assumes "\<And>i out. i < n \<Longrightarrow> f i out = Inr (out @ g (xs ! i))" and "n \<le> length xs"
  shows "foldE f [0..<n] out = Inr (out @ concat (map g (take n xs)))"
  using assms
proof (induction n)
  case (Suc n)
  then have "foldE f [0..<n] out = Inr (out @ concat (map g (take n xs)))" by simp
  then show ?case using Suc.prems by (simp add: foldE_append take_Suc_conv_app_nth)
qed simp

lemma dump_table_eq:
  assumes "dump_ok d" "i < pd_num_tables d"
  shows "dump_table w sh level huge nx d i out = Inr (out @ (\<lambda>t. if PTDUMP_TABLE_EXLEVEL (pt_base t) = level
    then hex_words w (map (\<lambda>e. drop_bit sh (PTABLE_BASE_MASK e)) (filter (entry_selected huge nx) (pt_entries t))) else []) (pd_table d ! i))"
proof -
  let ?t = "pd_table d ! i"
  let ?g = "\<lambda>e. if entry_selected huge nx e then pad_hex w (drop_bit sh (PTABLE_BASE_MASK e)) @ '' '' else []"
  have i: "i < length (pd_table d)" and len: "length (pt_entries ?t) = 512" using assms by (auto simp: dump_ok_def)
  have "foldE (dump_entry w sh huge nx ?t) [0..<512] out = Inr (out @ concat (map ?g (take 512 (pt_entries ?t))))"
    by (rule foldE_emit) (simp_all add: dump_entry_def len)
  moreover have "concat (map ?g es) = hex_words w (map (\<lambda>e. drop_bit sh (PTABLE_BASE_MASK e)) (filter (entry_selected huge nx) es))" for es
    by (induction es) (simp_all add: hex_words_def)
  ultimately show ?thesis using i len by (simp add: dump_table_def)
qed

lemma dump_frames_eq:
  assumes "dump_ok d"
  shows "dump_frames w sh level huge nx d out = Inr (out @ hex_words w (frames sh level huge nx d))"
proof -
  let ?g = "\<lambda>t. if PTDUMP_TABLE_EXLEVEL (pt_base t) = level
    then hex_words w (map (\<lambda>e. drop_bit sh (PTABLE_BASE_MASK e)) (filter (entry_selected huge nx) (pt_entries t))) else []"
  have "dump_frames w sh level huge nx d out = Inr (out @ concat (map ?g (take (pd_num_tables d) (pd_table d))))"
    unfolding dump_frames_def by (rule foldE_emit) (use assms dump_table_eq in \<open>auto simp: dump_ok_def\<close>)
  moreover have "concat (map ?g ts) = hex_words w (map (\<lambda>e. drop_bit sh (PTABLE_BASE_MASK e))
      (filter (entry_selected huge nx) (concat (map pt_entries (filter (\<lambda>t. PTDUMP_TABLE_EXLEVEL (pt_base t) = level) ts)))))" for ts
    by (induction ts) (simp_all add: hex_words_def)
  ultimately show ?thesis by (simp add: frames_def level_entries_def)
qed

lemma dump_bases_eq:
  assumes "dump_ok d"
  shows "dump_bases d out = Inr (out @ hex_words 9
    (map (\<lambda>t. drop_bit 12 (PTABLE_BASE_MASK (pt_base t))) (take (pd_num_tables d) (pd_table d))))"
  unfolding dump_bases_def hex_words_def map_map comp_def
  by (rule foldE_emit) (use assms in \<open>auto simp: dump_ok_def\<close>)

lemma await_first: "\<forall>(res, x) \<in> set pre. res \<noteq> 0 \<Longrightarrow> await_dump (pre @ (0, d) # post) = Inr d"
  by (induction pre) auto

text \<open>What the loops select, by the bits of an entry.\<close>

lemma and_bit: "k < 64 \<Longrightarrow> (e AND push_bit k 1 \<noteq> 0) = bit (e :: u64) k"
  by (metis and.commute and_exp_eq_0_iff_not_bit push_bit_of_1)

lemma entry_selected_bits: "entry_selected huge nx = (\<lambda>e. bit e 0 \<and> (huge \<longrightarrow> bit e 7) \<and> bit e 63 = nx)"
proof
  show "entry_selected huge nx e = (bit e 0 \<and> (huge \<longrightarrow> bit e 7) \<and> bit e 63 = nx)" for e
    using and_bit [of 0 e] and_bit [of 7 e] and_bit [of 63 e] by (simp add: entry_selected_def)
qed

lemma read_frames:
  "read_words 0 (hex_words w (frames sh level huge nx d)) = map (\<lambda>e. unat (drop_bit sh (PTABLE_BASE_MASK e)))
     (filter (\<lambda>e. bit e 0 \<and> (huge \<longrightarrow> bit e 7) \<and> bit e 63 = nx) (level_entries level d))"
  by (simp add: read_hex_words frames_def comp_def entry_selected_bits)

section \<open>Properties of the interface\<close>

text \<open>
  C29. The checksum of \<^verbatim>\<open>main-ptdump.c\<close>, whose table is inverted so that it can start from 0,
  is CRC-32: the complement of the bitwise division of the data with the complemented start
  value, on the first call (which fills the static table) and on every later one.
\<close>

theorem crc32_is_division:
  assumes "table = replicate 256 0 \<or> (\<exists>d c. fst (crc32 d (replicate 256 0, c)) = table)"
  shows "snd (crc32 data (table, crc)) = NOT (fold crc_byte data (NOT crc))"
proof -
  have t: "(if table ! 0 = 0 then crc32_table else table) = crc32_table"
    using assms crc32_table_0 by (auto simp: crc32_def Let_def)
  have "NOT (fold (crc32_byte crc32_table) data c) = fold crc_byte data (NOT c)" for c
    by (induction data arbitrary: c) (simp_all add: crc32_byte_eq)
  then have "fold (crc32_byte crc32_table) data crc = NOT (fold crc_byte data (NOT crc))" by (metis bit.double_compl)
  then show ?thesis using t by (simp add: crc32_def Let_def)
qed

theorem crc32_is_division_witness:
  "snd (crc32 [0x31, 0x32] (replicate 256 0, 0)) = NOT (fold crc_byte [0x31, 0x32] (NOT 0))"
  by (rule crc32_is_division) simp

text \<open>
  Packing and unpacking: the command, the range and the argument words give back their
  fields cut to the width of the field.
\<close>

lemma ptdump_words_roundtrip:
  "PTDUMP_IOCTL_EXCMD (PTDUMP_IOCTL_MKCMD c s e) = take_bit 8 c \<and>
   PTDUMP_IOCTL_EXPTSTART (PTDUMP_IOCTL_MKCMD c s e) = take_bit 9 s \<and>
   PTDUMP_IOCTL_EXPTEND (PTDUMP_IOCTL_MKCMD c s e) = take_bit 9 e \<and>
   PTDUMP_IOCTL_EXBUF (PTDUMP_IOCTL_MKARGBUF buf bits) = take_bit 48 buf \<and>
   PTDUMP_IOCTL_EXBITS (PTDUMP_IOCTL_MKARGBUF buf bits) = take_bit 8 bits \<and>
   PTDUMP_TABLE_EXBASE (PTDUMP_TABLE_MKBASE base level) = take_bit 48 base \<and>
   PTDUMP_TABLE_EXLEVEL (PTDUMP_TABLE_MKBASE base level) = ucast (take_bit 8 level)"
  unfolding PTDUMP_IOCTL_EXCMD_def PTDUMP_IOCTL_EXPTSTART_def PTDUMP_IOCTL_EXPTEND_def PTDUMP_IOCTL_MKCMD_def
    PTDUMP_IOCTL_EXBUF_def PTDUMP_IOCTL_EXBITS_def PTDUMP_IOCTL_MKARGBUF_def PTDUMP_TABLE_EXBASE_def
    PTDUMP_TABLE_EXLEVEL_def PTDUMP_TABLE_MKBASE_def masks
  by (intro conjI; rule bit_word_eqI) (auto simp: bitwise)

text \<open>
  C28. The full report of a dump that the kernel module delivers after any number of refusals is
  complete and readable: it consists of the five lists in their tags, and reading them back gives
  the base of every table, and exactly the entries of the last level that are present (bit 0) and
  the entries of the level above that are present and huge (bit 7), each once and in the order of
  the tables: those with the no-execute bit 63 among the data frames, those without among the
  code frames.
\<close>

theorem dump_report_complete:
  assumes "dump_ok d" and "\<forall>(res, x) \<in> set refused. res \<noteq> 0"
  shows "\<exists>T C4 D4 C2 D2. dump_page_tables True crc (refused @ (0, d) # later) ranges crcs
    = Inr (''<pagetables>'' @ newline @ ''<ptables>'' @ T @ ''</ptables>'' @ newline @
        ''<codeframes4k>'' @ C4 @ ''</codeframes4k>'' @ newline @ ''<dataframes4k>'' @ D4 @ ''</dataframes4k>'' @ newline @
        ''<codeframes2M>'' @ C2 @ ''</codeframes2M>'' @ newline @ ''<dataframes2M>'' @ D2 @ ''</dataframes2M>'' @ newline @
        ''</pagetables>'' @ newline) \<and>
    read_words 0 T = map (\<lambda>t. unat (drop_bit 12 (PTABLE_BASE_MASK (pt_base t)))) (take (pd_num_tables d) (pd_table d)) \<and>
    read_words 0 C4 = map (\<lambda>e. unat (drop_bit 12 (PTABLE_BASE_MASK e)))
      (filter (\<lambda>e. bit e 0 \<and> \<not> bit e 63) (level_entries 1 d)) \<and>
    read_words 0 D4 = map (\<lambda>e. unat (drop_bit 12 (PTABLE_BASE_MASK e)))
      (filter (\<lambda>e. bit e 0 \<and> bit e 63) (level_entries 1 d)) \<and>
    read_words 0 C2 = map (\<lambda>e. unat (drop_bit 21 (PTABLE_BASE_MASK e)))
      (filter (\<lambda>e. bit e 0 \<and> bit e 7 \<and> \<not> bit e 63) (level_entries 2 d)) \<and>
    read_words 0 D2 = map (\<lambda>e. unat (drop_bit 21 (PTABLE_BASE_MASK e)))
      (filter (\<lambda>e. bit e 0 \<and> bit e 7 \<and> bit e 63) (level_entries 2 d))"
proof (intro exI conjI)
  let ?T = "hex_words 9 (map (\<lambda>t. drop_bit 12 (PTABLE_BASE_MASK (pt_base t))) (take (pd_num_tables d) (pd_table d)))"
  show "dump_page_tables True crc (refused @ (0, d) # later) ranges crcs
    = Inr (''<pagetables>'' @ newline @ ''<ptables>'' @ ?T @ ''</ptables>'' @ newline @
      ''<codeframes4k>'' @ hex_words 9 (frames 12 1 False False d) @ ''</codeframes4k>'' @ newline @
      ''<dataframes4k>'' @ hex_words 9 (frames 12 1 False True d) @ ''</dataframes4k>'' @ newline @
      ''<codeframes2M>'' @ hex_words 7 (frames 21 2 True False d) @ ''</codeframes2M>'' @ newline @
      ''<dataframes2M>'' @ hex_words 7 (frames 21 2 True True d) @ ''</dataframes2M>'' @ newline @
      ''</pagetables>'' @ newline)"
    using assms by (simp add: dump_page_tables_def Let_def await_first dump_full_def dump_frames_eq dump_bases_eq)
  show "read_words 0 ?T = map (\<lambda>t. unat (drop_bit 12 (PTABLE_BASE_MASK (pt_base t)))) (take (pd_num_tables d) (pd_table d))"
    by (simp add: read_hex_words comp_def)
qed (simp_all add: read_frames)

theorem dump_report_complete_witness:
  "\<forall>ranges crcs. \<exists>T C4 D4 C2 D2. dump_page_tables True False
      [(-1, \<lparr>pd_processid = 1, pd_num_tables = 1, pd_num_migrations = 0,
        pd_table = [\<lparr>pt_base = 0x1000000005000, pt_vbase = 0, pt_entries = 0x8000000000007003 # 0x9001 # replicate 510 0\<rparr>]\<rparr>),
       (0, \<lparr>pd_processid = 1, pd_num_tables = 1, pd_num_migrations = 0,
        pd_table = [\<lparr>pt_base = 0x1000000005000, pt_vbase = 0, pt_entries = 0x8000000000007003 # 0x9001 # replicate 510 0\<rparr>]\<rparr>)]
      ranges crcs
    = Inr (''<pagetables>'' @ newline @ ''<ptables>'' @ T @ ''</ptables>'' @ newline @
        ''<codeframes4k>'' @ C4 @ ''</codeframes4k>'' @ newline @ ''<dataframes4k>'' @ D4 @ ''</dataframes4k>'' @ newline @
        ''<codeframes2M>'' @ C2 @ ''</codeframes2M>'' @ newline @ ''<dataframes2M>'' @ D2 @ ''</dataframes2M>'' @ newline @
        ''</pagetables>'' @ newline) \<and>
    read_words 0 T = [5] \<and> read_words 0 C4 = [9] \<and> read_words 0 D4 = [7] \<and> read_words 0 C2 = [] \<and> read_words 0 D2 = []"
  (is "\<forall>ranges crcs. ?P ranges crcs")
proof -
  let ?t = "\<lparr>pt_base = 0x1000000005000, pt_vbase = 0, pt_entries = 0x8000000000007003 # 0x9001 # replicate 510 0\<rparr> :: ptdump_table"
  let ?d = "\<lparr>pd_processid = 1, pd_num_tables = 1, pd_num_migrations = 0, pd_table = [?t]\<rparr> :: ptdump"
  have ok: "dump_ok ?d" by (simp add: dump_ok_def)
  have refused: "\<forall>(res, x) \<in> set [(-1 :: int, ?d)]. res \<noteq> 0" by simp
  have es: "level_entries 1 ?d = 0x8000000000007003 # 0x9001 # replicate 510 0" "level_entries 2 ?d = []"
    by (simp_all add: level_entries_def PTDUMP_TABLE_EXLEVEL_def)
  have bits: "bit (0x8000000000007003 :: u64) 0" "bit (0x8000000000007003 :: u64) 63" "bit (0x9001 :: u64) 0" "\<not> bit (0x9001 :: u64) 63"
    by simp_all
  show ?thesis
  proof (intro allI)
    fix ranges crcs
    show "?P ranges crcs"
      using dump_report_complete [OF ok refused, of False "[]" ranges crcs] unfolding es append_Cons append_Nil
      by (elim exE conjE) (intro exI conjI, assumption, simp_all add: PTABLE_BASE_MASK_def bits)
  qed
qed

end
