(* ===== verification/Spec2Isabelle.thy ===== *)
theory Spec2Isabelle
  imports Bpt_Main Bpt_Print HashJoin Gups Verify Driver Options XsMain Ptdump
begin

text \<open>
  A verification library for the workloads of the Trident artifact
  (\<^verbatim>\<open>src/trident-workloads\<close>), C programs that allocate large data structures and then
  access them at random. The programs are independent of each other; each is a group of
  theories over the common \<open>Prelude\<close>, which fixes the machine types, the result type
  \<open>'a result\<close> (a value, or what stopped the program: a failed assertion, an access out of
  bounds or through a bad pointer, a call of exit, an undefined operation, or exhausted fuel),
  checked array accesses and counted loops.

  \<^bold>\<open>Parts and theories.\<close>

  \<^item> B+ tree benchmark, \<^verbatim>\<open>btree/btree1.c\<close>. \<open>Bpt_Heap\<close>: the structs, the
    globals and the slab allocators on an explicit heap (nodes and records by address, a break
    and a limit for \<^verbatim>\<open>posix_memalign\<close>). \<open>Bpt_Insert\<close>: search and insertion.
    \<open>Bpt_Delete\<close>: deletion. \<open>Bpt_Tree\<close>: abstract trees, their representation in
    the heap, contexts. \<open>Bpt_Find\<close>: the invariant \<open>bpt\<close>, the map
    \<open>bpt_map\<close> a heap stands for, and search. \<open>Bpt_Insert_Correct\<close>,
    \<open>Bpt_Insert_Up\<close>, \<open>Bpt_Map\<close>: insertion refines the update of the map.
    \<open>Bpt_Delete_Nodes\<close>, \<open>Bpt_Delete_Up\<close>, \<open>Bpt_Delete_Map\<close>: deletion
    refines the removal of a key. \<open>Bpt_Store\<close>: the bound on the height, the interface
    \<open>key_store\<close> and its interpretation on the tree. \<open>Bpt_Main\<close>:
    \<^verbatim>\<open>real_main\<close> as a client of that interface, and the properties. \<open>Bpt_Range\<close>: range
    search, height and depth, and the printing of records, ranges and leaves. \<open>Bpt_Print\<close>:
    level-order printing and its queue. \<open>Rand48\<close>: the
    key generator.
  \<^item> Hash join, \<^verbatim>\<open>hashjoin\<close>. \<open>Murmur\<close>: MurmurHash3. \<open>HashJoin\<close>:
    the two benchmark programs on top of it.
  \<^item> RandomAccess, \<^verbatim>\<open>gups\<close>. \<open>Gups\<close>: both programs.
  \<^item> Graph500 generator, \<^verbatim>\<open>graph500/generator\<close>. \<open>Mod_Arith\<close>: both modular
    arithmetic headers. \<open>Mrg\<close>: the splittable random number generator and its
    transition table. \<open>Scramble\<close>: bit reversal and the permutation of the vertices.
    \<open>Kronecker\<close>: seeding (also \<^verbatim>\<open>graph500/prng.c\<close>), one edge, a range of edges, and
    \<^verbatim>\<open>make_graph\<close> in its sequential and MPI variants.
  \<^item> Graph500 breadth first search. \<open>Bfs\<close>: walks, distances and breadth first trees of
    an edge list, the invariant of a search with a queue, and the interface \<open>bfs_scan\<close>
    (scanning a vertex offers each of its neighbors to the queue). \<open>SeqList\<close>:
    \<^verbatim>\<open>seq-list/seq-list.c\<close>. \<open>SeqCsr\<close>: \<^verbatim>\<open>seq-csr/seq-csr.c\<close>. Both interpret the
    interface and return a breadth first tree. \<open>Verify\<close>: \<^verbatim>\<open>verify.c\<close>, which accepts
    exactly the breadth first trees. \<open>Bitmap\<close>: the bitmaps and atomic operations of the parallel
    search, \<^verbatim>\<open>omp-csr/bitmap.h\<close>. \<open>OmpQueue\<close>: schedules of loops, teams of racing threads and the
    interface \<open>team\<close> (every step of a thread keeps an invariant and does some of its work), and the
    conversions between queue and bitmap (\<^verbatim>\<open>omp-csr/omp-csr.c\<close>). \<open>OmpCsr\<close>: the parallel
    construction of the graph. \<open>Levels\<close>: search level by level,
    in any order within a level. \<open>OmpDown\<close>: the top-down step, in which threads race for vertices and
    for cells of the queue. \<open>OmpSearch\<close>: the bottom-up step, which interprets \<open>omp_loop\<close> (an iteration adds
    the vertices it finds), and the hybrid search, in which each thread chooses its direction.
    \<open>Driver\<close>: \<^verbatim>\<open>graph500.c\<close>, the choice of the roots and the run of all searches, as a
    client of the interface \<open>bfs_program\<close> that the three searches interpret. \<open>Options\<close>:
    \<^verbatim>\<open>options.c\<close>, the command line.
  \<^item> XSBench, \<^verbatim>\<open>xsbench/src\<close>. \<open>XsGrid\<close>: the energy grids, the binary searches,
    the lookups and the materials, over any floating point arithmetic. \<open>XsLookup\<close>: what the
    searches find. \<open>XsPtrs\<close>: the pointers of the unionized grid and the lookup of each grid
    type. \<open>XsMain\<close>: the materials and the agreement of the grid types.
  \<^item> Page table dumper, \<^verbatim>\<open>common/main-ptdump.c\<close> and \<^verbatim>\<open>common/ptdump.h\<close>.
    \<open>Ptdump\<close>: the command words of the kernel interface, the checksum and the report. The
    answers of the kernel module are arguments.

  \<^bold>\<open>What the lemmas show.\<close> Insertion, deletion and search of the B+ tree are totally
  correct against a finite map, errors for lack of memory included, and the benchmark run on
  top of them is correct for its real constants. Printing a range or the leaves shows exactly the
  entries of that map, but a range search misses everything when the leaf of its lower bound ends
  below it (\<open>find_range_misses\<close>). The generators are equal to their mathematical
  definitions (linear congruential step, powers of a transition matrix, powers of a feedback
  register). The hash functions read in bounds and do not collide on the keys that are used,
  and the join programs count what the theorems say. The three kinds of energy grid of XSBench
  give the same cross sections, whatever the rounding of the arithmetic, except that the hash grid
  goes wrong at a grid point that starts a bin (\<open>hash_misses_bin_start\<close>). The command line of Graph500 leaves
  positive parameters or ends the program. The parallel search returns
  breadth first trees whatever the team, the order of its work and the interleaving of its threads,
  as long as no thread reads the shared \<^verbatim>\<open>scout_count\<close> after another has reset it (then the threads may
  choose different directions, which is undefined), and the benchmark program
  searches from every root it samples, with each of the three searches. The scrambling of vertices is a
  permutation, and generating a graph completes with every edge in range, however many ranks share
  the work. The checksum of the dumper is CRC-32 and its report
  can be read back without loss. One program, \<^verbatim>\<open>gupstoy.c\<close>, is shown to write out of bounds in every run.

  \<^bold>\<open>Bounds and fuel.\<close> The descents and repairs of the B+ tree and the redrawing of rejected
  random numbers take fuel. A tree of
  height \<open>n\<close> has at least \<open>2 ^ n\<close> distinct 64-bit keys, so the fuel
  \<open>bpt_fuel = 65\<close> is enough for every tree, and the theorems use it. Ten
  draws in a row below the rejection limit would mean that the generator is in the zero state,
  so fuel 10 is enough for redrawing. The searches of Graph500 take one more step than the graph has vertices, since every level
  but the last adds a vertex, and the list search follows at most two cells for each edge. A team of racing threads
  first takes the turns of its run, and then each thread as many steps as its work can need (\<open>2 * nv + 3\<close>
  to fill the queue, \<open>step_bound\<close> in a top-down loop): the lemmas show that no work is left after that, so every
  complete interleaving is the run of some turns. The dumper repeats its request until the kernel module
  answers 0; its model reads the answers from a list. The walks along the leaves of the B+ tree
  take one step for each leaf, of which there are at most as many as keys. Memory is a
  hypothesis of the insertion theorems: \<open>put_cost\<close> is what one insertion may use at most
  (two new slabs and a split of every node on a path).

  \<^bold>\<open>Conventions.\<close> \<^verbatim>\<open>uint64_t\<close> counters that cannot wrap are natural numbers,
  every other machine integer is a word. Messages on the standard output, the files that signal
  the start and end of a run, and the parsing of the other command lines are left out. The programs
  are modelled as built without OpenMP, except the parallel search: there a loop whose iterations
  share cells takes any assignment of the iterations to threads and any order of them, and the
  phases between barriers follow one another. In the top-down step and in the filling of the
  queue the threads interleave step by step: the test of a vertex, its atomic claim, the atomic reservation of
  cells and the writing of each cell are steps of their own. In the other loops, which meet only in atomic
  operations that commute, an iteration is one step. The read of \<^verbatim>\<open>scout_count\<close> that races with its reset
  returns the old value or 0. Numbers of bytes that can wrap (the hash table of
  \<^verbatim>\<open>hashjoin.c\<close>, the result arrays of a range, the edge list of Graph500) are computed modulo \<open>2 ^ 64\<close> or
  bounded in the theorem. In \<^verbatim>\<open>redistribute_nodes\<close> the loop bound
  \<^verbatim>\<open>num_keys - 1\<close> is that of a neighbor with a key, the only one it is called with.

  \<^bold>\<open>Not modelled.\<close> The destruction of the B+ tree; the timing, the statistics and the R-MAT
  generator of Graph500, and the floating point product that turns random numbers into a root
  (its range is a hypothesis); the start and end of
  the launcher \<^verbatim>\<open>common/main-ptdump.c\<close> (options, memory policy, signals, which are calls into
  the operating system) and \<^verbatim>\<open>memops\<close>; programs whose
  content is floating point arithmetic (the generation of the data and the simulation loops of \<^verbatim>\<open>xsbench\<close>,
  \<^verbatim>\<open>liblinear\<close>, \<^verbatim>\<open>stream\<close>, \<^verbatim>\<open>canneal\<close> apart from its random number
  generator); the C++ graph benchmarks \<^verbatim>\<open>gapbs\<close>.
\<close>

section \<open>Search and validation together\<close>

text \<open>
  C26. On any edge list, both implementations build their graph, search and return trees that
  the validation accepts, and it counts the same traversed edges for both: those whose ends can
  be reached from the source.
\<close>

theorem searches_validate:
  assumes "src < num_vertices IJ" and "num_vertices IJ \<le> length tree" and "2 * length IJ + num_vertices IJ + 1 < fuel"
  shows "\<exists>g t h u. list_create_graph_from_edgelist (\<lambda>_. True) IJ = Inr g \<and>
    list_make_bfs_tree (\<lambda>_. True) fuel g tree src = Inr (int (num_vertices IJ) - 1, t) \<and>
    csr_create_graph_from_edgelist (\<lambda>_. True) IJ = Inr h \<and>
    csr_make_bfs_tree (\<lambda>_. True) fuel h tree src = Inr (int (num_vertices IJ) - 1, u) \<and>
    verify_bfs_tree (\<lambda>_. True) t (int (num_vertices IJ) - 1) src IJ
      = Inr (int (length (filter (\<lambda>e. reachable IJ src (end0 e)) IJ))) \<and>
    verify_bfs_tree (\<lambda>_. True) u (int (num_vertices IJ) - 1) src IJ
      = Inr (int (length (filter (\<lambda>e. reachable IJ src (end0 e)) IJ)))"
proof -
  let ?nv = "num_vertices IJ"
  obtain t where t: "list_make_bfs_tree (\<lambda>_. True) fuel (list_graph_of IJ) tree src = Inr (int ?nv - 1, t)"
    "bfs_tree_of IJ ?nv src t" using list_search [OF assms] by blast
  obtain u where u: "csr_make_bfs_tree (\<lambda>_. True) fuel (csr_graph_of IJ) tree src = Inr (int ?nv - 1, u)"
    "bfs_tree_of IJ ?nv src u" using csr_search [OF assms(1,2), of fuel] assms(3) by auto
  have ends: "\<forall>e \<in> set IJ. end0 e < ?nv \<and> end1 e < ?nv" using ends_bound by blast
  have v: "bfs_tree_of IJ ?nv src x \<Longrightarrow> verify_bfs_tree (\<lambda>_. True) x (int ?nv - 1) src IJ
      = Inr (int (length (filter (\<lambda>e. reachable IJ src (end0 e)) IJ)))" for x
    by (rule verify_accepts) (simp_all add: ends)
  show ?thesis
    by (intro exI conjI) (rule list_graph_of(1), rule t(1), rule csr_graph_of(1), rule u(1), rule v [OF t(2)], rule v [OF u(2)])
qed

theorem searches_validate_witness:
  "\<exists>g t h u. list_create_graph_from_edgelist (\<lambda>_. True) [write_edge 0 1, write_edge 1 2] = Inr g \<and>
    list_make_bfs_tree (\<lambda>_. True) 20 g [0, 0, 0] 1 = Inr (2, t) \<and>
    csr_create_graph_from_edgelist (\<lambda>_. True) [write_edge 0 1, write_edge 1 2] = Inr h \<and>
    csr_make_bfs_tree (\<lambda>_. True) 20 h [0, 0, 0] 1 = Inr (2, u) \<and>
    verify_bfs_tree (\<lambda>_. True) t 2 1 [write_edge 0 1, write_edge 1 2]
      = Inr (int (length (filter (\<lambda>e. reachable [write_edge 0 1, write_edge 1 2] 1 (end0 e)) [write_edge 0 1, write_edge 1 2]))) \<and>
    verify_bfs_tree (\<lambda>_. True) u 2 1 [write_edge 0 1, write_edge 1 2]
      = Inr (int (length (filter (\<lambda>e. reachable [write_edge 0 1, write_edge 1 2] 1 (end0 e)) [write_edge 0 1, write_edge 1 2])))"
proof -
  let ?E = "[write_edge 0 1, write_edge 1 2]"
  have nv: "num_vertices ?E = 3"
    by (simp add: num_vertices_def find_maxvtx_def max_end_eq end0_def end1_def write_edge_def)
  have i3: "int 3 - 1 = 2" by simp
  show ?thesis using searches_validate [of 1 ?E "[0, 0, 0]" 20, unfolded nv i3] by simp
qed

end
